(* ===== verification/Prelude.thy ===== *)
theory Prelude
  imports Main "HOL-Library.Word"
begin

unbundle bit_operations_syntax

text \<open>
  Shared vocabulary of the development: the machine integers of the kernel, the ways in
  which a kernel routine can stop (\<open>kerror\<close>), results of routines that always
  return (\<open>'a res\<close>) and of routines that may also spin for ever (\<open>'a comp\<close>), and
  the byte-addressed memory that raw pointers of the kernel point into, with the lemmas
  about them that every component uses.
\<close>

named_theorems res_simps \<open>rewriting of the result monads\<close>
named_theorems ptr_simps \<open>pointer arithmetic read as arithmetic on natural numbers\<close>

section \<open>Machine integers\<close>

type_synonym u8 = "8 word"
type_synonym u32 = "32 word"
type_synonym u64 = "64 word"

lemma u64_max_Suc: "p \<noteq> (- 1 :: u64) \<Longrightarrow> unat (p + 1) = Suc (unat p)"
  by (metis add.commute eq_neg_iff_add_eq_0 unatSuc)

lemma unat_u64_add [ptr_simps]:
  "unat p + unat q < 2 ^ 64 \<Longrightarrow> unat (p + q :: u64) = unat p + unat q"
  by (simp add: unat_word_ariths)

lemma unat_u64_add_of_nat [ptr_simps]:
  "unat p + n < 2 ^ 64 \<Longrightarrow> unat (p + of_nat n :: u64) = unat p + n"
  by (simp add: unat_word_ariths unat_of_nat)

lemma unat_u64_add_numeral [ptr_simps]:
  "unat p + numeral k < 2 ^ 64 \<Longrightarrow> unat (p + numeral k :: u64) = unat p + numeral k"
  using unat_u64_add_of_nat [of p "numeral k"] by simp

lemma unat_u64_add_1 [ptr_simps]:
  "unat p + 1 < 2 ^ 64 \<Longrightarrow> unat (p + 1 :: u64) = unat p + 1"
  using unat_u64_add_of_nat [of p 1] by simp

lemma u64_not_max: "unat p + 1 < 2 ^ 64 \<Longrightarrow> p \<noteq> (- 1 :: u64)"
  by (auto simp: unsigned_minus_1_eq_mask mask_eq_exp_minus_1)

lemma unat_u64_diff [ptr_simps]:
  "q \<le> p \<Longrightarrow> unat (p - q :: u64) = unat p - unat q"
  by (simp add: unat_sub)

text \<open>Loop counters and scanning pointers: one step up without wrap-around.\<close>

lemma u64_less_Suc: "i < (n :: u64) \<Longrightarrow> unat (i + 1) = Suc (unat i)"
  by (metis max_word_max u64_max_Suc word_order.extremum_strict leD)

lemma u64_counter_measure: "i < (n :: u64) \<Longrightarrow> unat n - unat (i + 1) < unat n - unat i"
  by (simp add: u64_less_Suc word_less_nat_alt diff_less_mono2)

lemma u64_diff_eq: "unat p = unat b + k \<Longrightarrow> p - b = (of_nat k :: u64)"
proof -
  assume "unat p = unat b + k"
  then have "(of_nat (unat p) :: u64) = of_nat (unat b) + of_nat k" by simp
  then show ?thesis by simp
qed

lemma unat_u64_bound: "unat (p :: u64) < 18446744073709551616"
  using unsigned_less [of p] by simp

lemma unat_u32_bound: "unat (p :: u32) < 4294967296"
  using unsigned_less [of p] by simp

lemma unat_u8_bound: "unat (p :: u8) < 256"
  using unsigned_less [of p] by simp

lemma unat_ucast_32_64 [simp]: "unat (ucast (x :: u32) :: u64) = unat x"
  by (simp add: unsigned_ucast_eq take_bit_nat_eq_self_iff less_trans [OF unat_u32_bound])

lemma unat_ucast_8_32 [simp]: "unat (ucast (x :: u8) :: u32) = unat x"
  by (simp add: unsigned_ucast_eq take_bit_nat_eq_self_iff less_trans [OF unat_u8_bound])

section \<open>Results\<close>

text \<open>
  How a routine can stop without returning. \<open>Kassert\<close> and \<open>Kpanic\<close> are the calls
  of \<open>report_error\<close> made by \<open>kassert\<close>/\<open>kprecond\<close>/\<open>kpostcond\<close> and by
  \<open>kpanic\<close> (\<open>util/assert.h\<close>): they print and never come back, with the condition or
  message of the source. \<open>Fault\<close> is an access to an address that holds no object,
  \<open>OutOfBounds\<close> an index outside a static array, \<open>Uninit\<close> the use of a variable
  that was never written, \<open>DivZero\<close> a division by zero and \<open>SignedOverflow\<close> a signed result that
  its type cannot hold and \<open>BadShift\<close> a shift by a negative amount: for those the language gives
  the code no meaning.
\<close>

datatype kerror =
    Kassert string
  | Kpanic string
  | Fault u64
  | OutOfBounds nat
  | Uninit string
  | DivZero
  | SignedOverflow
  | BadShift int

type_synonym 'a res = "kerror + 'a"

text \<open>\<open>None\<close> is a routine that never returns; it is used where a loop may spin.\<close>

type_synonym 'a comp = "'a res option"

definition bind_res :: "'a res \<Rightarrow> ('a \<Rightarrow> 'b res) \<Rightarrow> 'b res" where
  "bind_res m f = (case m of Inl e \<Rightarrow> Inl e | Inr x \<Rightarrow> f x)"

definition bind_comp :: "'a comp \<Rightarrow> ('a \<Rightarrow> 'b comp) \<Rightarrow> 'b comp" where
  "bind_comp m f = Option.bind m (\<lambda>r. case r of Inl e \<Rightarrow> Some (Inl e) | Inr x \<Rightarrow> f x)"

definition kassert :: "bool \<Rightarrow> string \<Rightarrow> unit res" where
  "kassert p msg = (if p then Inr () else Inl (Kassert msg))"

definition kpanic :: "string \<Rightarrow> 'a res" where
  "kpanic msg = Inl (Kpanic msg)"

lemma bind_res_simps [simp, res_simps]:
  "bind_res (Inl e) f = Inl e"
  "bind_res (Inr x) f = f x"
  by (simp_all add: bind_res_def)

lemma bind_res_Inr_iff [res_simps]:
  "bind_res m f = Inr y \<longleftrightarrow> (\<exists>x. m = Inr x \<and> f x = Inr y)"
  by (cases m) auto

lemma bind_res_Inl_iff [res_simps]:
  "bind_res m f = Inl e \<longleftrightarrow> m = Inl e \<or> (\<exists>x. m = Inr x \<and> f x = Inl e)"
  by (cases m) auto

lemma bind_res_assoc [res_simps]:
  "bind_res (bind_res m f) g = bind_res m (\<lambda>x. bind_res (f x) g)"
  by (cases m) auto

lemma bind_res_cong [fundef_cong]:
  "m = m' \<Longrightarrow> (\<And>x. m' = Inr x \<Longrightarrow> f x = f' x) \<Longrightarrow> bind_res m f = bind_res m' f'"
  by (cases m') auto

text \<open>For evaluation: simplify the first computation only, as the machine does.\<close>

lemma bind_res_weak_cong: "m = m' \<Longrightarrow> bind_res m f = bind_res m' f"
  by simp

lemma bind_comp_weak_cong: "m = m' \<Longrightarrow> bind_comp m f = bind_comp m' f"
  by simp

lemma bind_comp_simps [simp, res_simps]:
  "bind_comp None f = None"
  "bind_comp (Some (Inl e)) f = Some (Inl e)"
  "bind_comp (Some (Inr x)) f = f x"
  by (simp_all add: bind_comp_def)

lemma bind_comp_Inr_iff [res_simps]:
  "bind_comp m f = Some (Inr y) \<longleftrightarrow> (\<exists>x. m = Some (Inr x) \<and> f x = Some (Inr y))"
proof (cases m)
  case (Some r)
  then show ?thesis by (cases r) auto
qed simp

lemma bind_comp_mono [partial_function_mono]:
  assumes "mono_option m" and "\<And>x. mono_option (\<lambda>f. g x f)"
  shows "mono_option (\<lambda>f. bind_comp (m f) (\<lambda>x. g x f))"
  unfolding bind_comp_def
proof (rule bind_mono [OF assms(1)])
  fix r
  show "mono_option (\<lambda>f. case r of Inl e \<Rightarrow> Some (Inl e) | Inr x \<Rightarrow> g x f)"
    using assms(2) by (cases r) (auto simp: monotone_def flat_ord_def)
qed

lemma kassert_simps [simp, res_simps]:
  "kassert True msg = Inr ()"
  "kassert False msg = Inl (Kassert msg)"
  by (simp_all add: kassert_def)

lemma kassert_Inr_iff [simp, res_simps]: "kassert p msg = Inr u \<longleftrightarrow> p"
  by (simp add: kassert_def)

lemma kassert_Inl_iff [simp, res_simps]: "kassert p msg = Inl e \<longleftrightarrow> \<not> p \<and> e = Kassert msg"
  by (auto simp: kassert_def)

text \<open>
  \<open>ensures Q c\<close>: the routine does not spin, and if it does not stop with an error its
  result satisfies \<open>Q\<close>. The rules take a sequence of calls apart.
\<close>

definition ensures :: "('a \<Rightarrow> bool) \<Rightarrow> 'a comp \<Rightarrow> bool" where
  "ensures Q c \<longleftrightarrow> c \<noteq> None \<and> (\<forall>x. c = Some (Inr x) \<longrightarrow> Q x)"

lemma ensures_simps [simp]:
  "ensures Q (Some (Inr x)) = Q x"
  "ensures Q (Some (Inl e))"
  "\<not> ensures Q None"
  by (simp_all add: ensures_def)

lemma ensures_bind_comp:
  "ensures P c \<Longrightarrow> (\<And>x. P x \<Longrightarrow> c = Some (Inr x) \<Longrightarrow> ensures Q (f x)) \<Longrightarrow> ensures Q (bind_comp c f)"
  by (auto simp: ensures_def bind_comp_def split: sum.splits)

lemma ensures_bind_res:
  "ensures P (Some r) \<Longrightarrow> (\<And>x. P x \<Longrightarrow> r = Inr x \<Longrightarrow> ensures Q (Some (f x))) \<Longrightarrow>
   ensures Q (Some (bind_res r f))"
  by (cases r) auto

lemma ensures_bind_any:
  "(\<And>x. r = Inr x \<Longrightarrow> ensures Q (Some (f x))) \<Longrightarrow> ensures Q (Some (bind_res r f))"
  by (cases r) auto

lemma ensures_Some: "(\<And>x. r = Inr x \<Longrightarrow> Q x) \<Longrightarrow> ensures Q (Some r)"
  by (cases r) auto

lemma ensures_if:
  "(b \<Longrightarrow> ensures Q (Some r)) \<Longrightarrow> (\<not> b \<Longrightarrow> ensures Q (Some r')) \<Longrightarrow> ensures Q (Some (if b then r else r'))"
  by simp

lemma ensuresD: "ensures Q c \<Longrightarrow> c = Some (Inr x) \<Longrightarrow> Q x"
  by (simp add: ensures_def)

lemma ensures_returns: "ensures Q c \<Longrightarrow> \<exists>r. c = Some r"
  by (auto simp: ensures_def)

lemma ensures_mono: "ensures P c \<Longrightarrow> (\<And>x. P x \<Longrightarrow> Q x) \<Longrightarrow> ensures Q c"
  by (auto simp: ensures_def)

section \<open>Memory\<close>

text \<open>
  The objects a raw pointer can point into: a partial map from 64-bit addresses to bytes.
  The last address is never the address of a byte: a pointer one past the end of an
  object has to be representable.
\<close>

type_synonym mem = "u64 \<Rightarrow> u8 option"

definition load8 :: "mem \<Rightarrow> u64 \<Rightarrow> u8 res" where
  "load8 m p =
     (if p = - 1 then Inl (Fault p)
      else case m p of None \<Rightarrow> Inl (Fault p) | Some b \<Rightarrow> Inr b)"

definition store8 :: "mem \<Rightarrow> u64 \<Rightarrow> u8 \<Rightarrow> mem res" where
  "store8 m p b =
     (if p = - 1 \<or> m p = None then Inl (Fault p) else Inr (m(p \<mapsto> b)))"

lemma load8_not_max: "load8 m p = Inr b \<Longrightarrow> p \<noteq> - 1"
  by (auto simp: load8_def)

lemma load8_next: "load8 m p = Inr b \<Longrightarrow> unat (p + 1) = Suc (unat p)"
  by (simp add: load8_not_max u64_max_Suc)

lemma load8_measure: "load8 m p = Inr b \<Longrightarrow> 2 ^ 64 - unat (p + 1) < 2 ^ 64 - unat p"
  using unat_u64_bound [of p] by (simp add: load8_next diff_less_mono2)

text \<open>\<open>mapped m p n\<close>: the \<open>n\<close> bytes from \<open>p\<close> on are memory, without wrap-around.\<close>

definition mapped :: "mem \<Rightarrow> u64 \<Rightarrow> nat \<Rightarrow> bool" where
  "mapped m p n \<longleftrightarrow> unat p + n < 2 ^ 64 \<and> (\<forall>i<n. m (p + of_nat i) \<noteq> None)"

text \<open>\<open>bytes_at m p bs\<close>: memory holds the bytes \<open>bs\<close> from \<open>p\<close> on.\<close>

definition bytes_at :: "mem \<Rightarrow> u64 \<Rightarrow> u8 list \<Rightarrow> bool" where
  "bytes_at m p bs \<longleftrightarrow>
     unat p + length bs < 2 ^ 64 \<and> (\<forall>i<length bs. m (p + of_nat i) = Some (bs ! i))"

text \<open>An object of its own: the bytes \<open>bs\<close> at address \<open>base\<close> and nothing else.\<close>

definition mem_of :: "u64 \<Rightarrow> u8 list \<Rightarrow> mem" where
  "mem_of base bs p =
     (let i = unat (p - base) in if i < length bs then Some (bs ! i) else None)"

lemma mapped_mono: "mapped m p n \<Longrightarrow> k \<le> n \<Longrightarrow> mapped m p k"
  by (auto simp: mapped_def)

lemma mapped_offset:
  assumes "mapped m p n" "k + l \<le> n"
  shows "mapped m (p + of_nat k) l"
  unfolding mapped_def
proof (intro conjI allI impI)
  from assms show "unat (p + of_nat k) + l < 2 ^ 64"
    by (simp add: mapped_def unat_u64_add_of_nat)
  fix i assume "i < l"
  then have "k + i < n" using assms(2) by simp
  with assms(1) have "m (p + of_nat (k + i)) \<noteq> None"
    unfolding mapped_def by blast
  then show "m (p + of_nat k + of_nat i) \<noteq> None"
    by (simp add: add.assoc)
qed

lemma mapped_sub:
  assumes "mapped m p n" "p \<le> q" "unat q + l \<le> unat p + n"
  shows "mapped m q l"
proof -
  have "q = p + of_nat (unat q - unat p)"
    using assms(2) by (simp add: word_le_nat_alt of_nat_diff)
  moreover have "mapped m (p + of_nat (unat q - unat p)) l"
    using assms by (intro mapped_offset) (auto simp: word_le_nat_alt)
  ultimately show ?thesis by simp
qed

lemma load8_mapped:
  assumes "mapped m p n" "i < n"
  obtains b where "load8 m (p + of_nat i) = Inr b"
proof -
  have "unat (p + of_nat i) = unat p + i"
    using assms by (simp add: mapped_def unat_u64_add_of_nat)
  then have "p + of_nat i \<noteq> - 1"
    using assms by (intro u64_not_max) (simp add: mapped_def)
  then show ?thesis
    using assms that by (auto simp: mapped_def load8_def split: option.splits)
qed

lemma load8_mapped_0:
  assumes "mapped m p n" "0 < n"
  obtains b where "load8 m p = Inr b"
  using load8_mapped [OF assms] by auto

lemma load8_mapped_sub:
  assumes "mapped m p n" "p \<le> q" "unat q < unat p + n"
  obtains b where "load8 m q = Inr b"
  using load8_mapped_0 [OF mapped_sub [OF assms(1,2), of 1]] assms(3) by auto

lemma bytes_at_Nil [simp]: "bytes_at m p []"
  by (simp add: bytes_at_def unat_u64_bound)

lemma bytes_at_mapped: "bytes_at m p bs \<Longrightarrow> mapped m p (length bs)"
  by (auto simp: bytes_at_def mapped_def)

lemma load8_bytes_at:
  assumes "bytes_at m p bs" "i < length bs"
  shows "load8 m (p + of_nat i) = Inr (bs ! i)"
proof -
  have "unat (p + of_nat i) = unat p + i"
    using assms by (simp add: bytes_at_def unat_u64_add_of_nat)
  then have "p + of_nat i \<noteq> - 1"
    using assms by (intro u64_not_max) (simp add: bytes_at_def)
  then show ?thesis
    using assms by (auto simp: bytes_at_def load8_def)
qed

lemma bytes_at_append:
  "bytes_at m p (as @ bs) \<longleftrightarrow> bytes_at m p as \<and> bytes_at m (p + of_nat (length as)) bs"
  (is "?l \<longleftrightarrow> ?r")
proof
  assume l: ?l
  have a: "bytes_at m p as"
    using l unfolding bytes_at_def by (auto simp: nth_append split: if_splits)
  have "bytes_at m (p + of_nat (length as)) bs"
    unfolding bytes_at_def
  proof (intro conjI allI impI)
    show "unat (p + of_nat (length as)) + length bs < 2 ^ 64"
      using l by (simp add: bytes_at_def unat_u64_add_of_nat)
    fix i assume "i < length bs"
    then have "length as + i < length (as @ bs)" by simp
    with l have "m (p + of_nat (length as + i)) = Some ((as @ bs) ! (length as + i))"
      unfolding bytes_at_def by blast
    then show "m (p + of_nat (length as) + of_nat i) = Some (bs ! i)"
      by (simp add: add.assoc)
  qed
  with a show ?r by simp
next
  assume r: ?r
  show ?l
    unfolding bytes_at_def
  proof (intro conjI allI impI)
    show "unat p + length (as @ bs) < 2 ^ 64"
      using r by (auto simp: bytes_at_def unat_u64_add_of_nat)
    fix i assume i: "i < length (as @ bs)"
    show "m (p + of_nat i) = Some ((as @ bs) ! i)"
    proof (cases "i < length as")
      case True
      then show ?thesis using r by (simp add: bytes_at_def nth_append)
    next
      case False
      then have "i - length as < length bs" using i by simp
      with r have "m (p + of_nat (length as) + of_nat (i - length as)) = Some (bs ! (i - length as))"
        unfolding bytes_at_def by blast
      moreover have "p + of_nat (length as) + of_nat (i - length as) = p + of_nat i"
        using False by (simp add: of_nat_diff)
      ultimately show ?thesis using False by (simp add: nth_append)
    qed
  qed
qed

lemma bytes_at_Cons:
  "bytes_at m p (b # bs) \<longleftrightarrow> load8 m p = Inr b \<and> bytes_at m (p + 1) bs" (is "?l \<longleftrightarrow> ?r")
proof -
  have one: "bytes_at m p [b] \<longleftrightarrow> load8 m p = Inr b"
  proof
    show "bytes_at m p [b] \<Longrightarrow> load8 m p = Inr b"
      using load8_bytes_at [of m p "[b]" 0] by simp
    assume l: "load8 m p = Inr b"
    then have "unat p + 1 < 2 ^ 64"
      using load8_next [OF l] unat_u64_bound [of "p + 1"] by simp
    with l show "bytes_at m p [b]"
      by (auto simp: bytes_at_def load8_def split: if_splits option.splits)
  qed
  show ?thesis
    using bytes_at_append [of m p "[b]" bs] one by simp
qed

lemma bytes_at_prefix: "bytes_at m p (as @ bs) \<Longrightarrow> bytes_at m p as"
  by (simp add: bytes_at_append)

lemma bytes_at_mem_of: "unat p + length bs < 2 ^ 64 \<Longrightarrow> bytes_at (mem_of p bs) p bs"
  by (auto simp: bytes_at_def mem_of_def Let_def unat_of_nat)

end
