(* ===== verification/Libc.thy ===== *)
theory Libc
  imports Prelude
begin

text \<open>
  The freestanding C library stubs of \<open>src/src/libcstubs.cpp\<close>: \<open>memset\<close>,
  \<open>memcpy\<close>, \<open>strcmp\<close>, \<open>strncmp\<close>, \<open>strlen\<close> and \<open>strnlen\<close>, with
  every byte they read or write going through memory. A pointer is an address together
  with the memory that holds the object it points into, so that a string literal of the
  kernel (\<open>lit\<close>) can be compared with a string inside the device tree blob. The lemmas
  say what the routines compute on NUL-terminated strings, and in which bytes they look.
\<close>

section \<open>The routines\<close>

function memset_loop :: "mem \<Rightarrow> u64 \<Rightarrow> u8 \<Rightarrow> u64 \<Rightarrow> u64 \<Rightarrow> mem res" where
  "memset_loop m ptr c i n =
     (if i < n
      then bind_res (store8 m (ptr + i) c) (\<lambda>m'. memset_loop m' ptr c (i + 1) n)
      else Inr m)"
  by pat_completeness auto
termination
  by (relation "measure (\<lambda>(m, ptr, c, i, n). unat n - unat i)") (auto intro: u64_counter_measure)

definition memset :: "mem \<Rightarrow> u64 \<Rightarrow> int \<Rightarrow> u64 \<Rightarrow> mem res" where
  "memset m ptr c n = memset_loop m ptr (word_of_int c) 0 n"

function memcpy_loop :: "mem \<Rightarrow> u64 \<Rightarrow> u64 \<Rightarrow> u64 \<Rightarrow> u64 \<Rightarrow> mem res" where
  "memcpy_loop m dest src i n =
     (if i < n
      then bind_res (load8 m (src + i)) (\<lambda>b.
           bind_res (store8 m (dest + i) b) (\<lambda>m'. memcpy_loop m' dest src (i + 1) n))
      else Inr m)"
  by pat_completeness auto
termination
  by (relation "measure (\<lambda>(m, dest, src, i, n). unat n - unat i)") (auto intro: u64_counter_measure)

definition memcpy :: "mem \<Rightarrow> u64 \<Rightarrow> u64 \<Rightarrow> u64 \<Rightarrow> (u64 \<times> mem) res" where
  "memcpy m dest src n = bind_res (memcpy_loop m dest src 0 n) (\<lambda>m'. Inr (dest, m'))"

text \<open>
  \<open>strcmp\<close> reads a byte of both strings in every round: where the loop condition does
  not look at the second one, the subtraction after the loop does.
\<close>

function strcmp :: "mem \<Rightarrow> u64 \<Rightarrow> mem \<Rightarrow> u64 \<Rightarrow> int res" where
  "strcmp m1 s1 m2 s2 =
     bind_res (load8 m1 s1) (\<lambda>c1.
     bind_res (load8 m2 s2) (\<lambda>c2.
       if c1 \<noteq> 0 \<and> c1 = c2 then strcmp m1 (s1 + 1) m2 (s2 + 1)
       else Inr (uint c1 - uint c2)))"
  by pat_completeness auto
termination
  by (relation "measure (\<lambda>(m1, s1, m2, s2). 2 ^ 64 - unat s1)") (auto simp only: in_measure split_conv intro: load8_measure)

function strncmp_loop :: "mem \<Rightarrow> u64 \<Rightarrow> mem \<Rightarrow> u64 \<Rightarrow> u64 \<Rightarrow> int res" where
  "strncmp_loop m1 s1 m2 s2 characters_left =
     bind_res (load8 m1 s1) (\<lambda>c1.
     bind_res (load8 m2 s2) (\<lambda>c2.
       if c1 \<noteq> 0 \<and> c1 = c2 \<and> characters_left > 1
       then strncmp_loop m1 (s1 + 1) m2 (s2 + 1) (characters_left - 1)
       else Inr (uint c1 - uint c2)))"
  by pat_completeness auto
termination
  by (relation "measure (\<lambda>(m1, s1, m2, s2, l). 2 ^ 64 - unat s1)") (auto simp only: in_measure split_conv intro: load8_measure)

definition strncmp :: "mem \<Rightarrow> u64 \<Rightarrow> mem \<Rightarrow> u64 \<Rightarrow> u64 \<Rightarrow> int res" where
  "strncmp m1 s1 m2 s2 n = strncmp_loop m1 s1 m2 s2 n"

function strlen_loop :: "mem \<Rightarrow> u64 \<Rightarrow> u64 res" where
  "strlen_loop m s =
     bind_res (load8 m s) (\<lambda>c. if c \<noteq> 0 then strlen_loop m (s + 1) else Inr s)"
  by pat_completeness auto
termination
  by (relation "measure (\<lambda>(m, s). 2 ^ 64 - unat s)") (auto simp only: in_measure split_conv intro: load8_measure)

definition strlen :: "mem \<Rightarrow> u64 \<Rightarrow> u64 res" where
  "strlen m s = bind_res (strlen_loop m s) (\<lambda>e. Inr (e - s))"

function strnlen_loop :: "mem \<Rightarrow> u64 \<Rightarrow> u64 \<Rightarrow> u64 \<Rightarrow> u64 res" where
  "strnlen_loop m begin_s s maxlen =
     bind_res (load8 m s) (\<lambda>c.
       if c \<noteq> 0
       then if s - begin_s = maxlen then Inr maxlen
            else strnlen_loop m begin_s (s + 1) maxlen
       else Inr (s - begin_s))"
  by pat_completeness auto
termination
  by (relation "measure (\<lambda>(m, b, s, l). 2 ^ 64 - unat s)") (auto simp only: in_measure split_conv intro: load8_measure)

definition strnlen :: "mem \<Rightarrow> u64 \<Rightarrow> u64 \<Rightarrow> u64 res" where
  "strnlen m s maxlen = strnlen_loop m s s maxlen"

declare memset_loop.simps [simp del] memcpy_loop.simps [simp del] strcmp.simps [simp del]
  strncmp_loop.simps [simp del] strlen_loop.simps [simp del] strnlen_loop.simps [simp del]

section \<open>Strings\<close>

text \<open>\<open>cstring m p s\<close>: the NUL-terminated string \<open>s\<close> is at \<open>p\<close>.\<close>

definition cstring :: "mem \<Rightarrow> u64 \<Rightarrow> u8 list \<Rightarrow> bool" where
  "cstring m p s \<longleftrightarrow> bytes_at m p (s @ [0]) \<and> 0 \<notin> set s"

definition bytes_of :: "string \<Rightarrow> u8 list" where
  "bytes_of s = map of_char s"

text \<open>A string literal of the kernel, as an object of its own.\<close>

definition lit :: "string \<Rightarrow> mem" where
  "lit s = mem_of 0 (bytes_of s @ [0])"

lemma cstring_Nil [simp]: "cstring m p [] \<longleftrightarrow> load8 m p = Inr 0"
  by (simp add: cstring_def bytes_at_Cons)

lemma cstring_Cons [simp]:
  "cstring m p (c # s) \<longleftrightarrow> load8 m p = Inr c \<and> c \<noteq> 0 \<and> cstring m (p + 1) s"
  by (auto simp: cstring_def bytes_at_Cons)

lemma cstring_length: "cstring m p s \<Longrightarrow> unat p + length s + 1 < 2 ^ 64"
  by (simp add: cstring_def bytes_at_def)

text \<open>A memory holds at most one string at an address.\<close>

lemma cstring_unique: "cstring m p s \<Longrightarrow> cstring m p t \<Longrightarrow> s = t"
proof (induction s arbitrary: p t)
  case Nil
  then show ?case by (cases t) auto
next
  case (Cons c s)
  then show ?case by (cases t) auto
qed

lemma strlen_loop_cstring: "cstring m p s \<Longrightarrow> strlen_loop m p = Inr (p + of_nat (length s))"
  by (induction s arbitrary: p) (simp_all add: strlen_loop.simps add.assoc)

lemma strlen_cstring: "cstring m p s \<Longrightarrow> strlen m p = Inr (of_nat (length s))"
  by (simp add: strlen_def strlen_loop_cstring)


lemma cstring_bytes_of:
  assumes "CHR 0x00 \<notin> set s" "length s + 1 < 2 ^ 64"
  shows "cstring (lit s) 0 (bytes_of s)"
proof -
  have "bytes_at (lit s) 0 (bytes_of s @ [0])"
    unfolding lit_def by (rule bytes_at_mem_of) (use assms(2) in \<open>simp add: bytes_of_def\<close>)
  moreover have "of_char c \<noteq> (0 :: u8)" if "c \<in> set s" for c
  proof
    assume "of_char c = (0 :: u8)"
    moreover have "(of_char c :: u8) = of_nat (of_char c)"
      by (simp only: of_nat_of_char)
    ultimately have "(of_char c :: nat) mod 256 = 0"
      using unat_of_nat [where 'a = 8, of "of_char c"] by simp
    then have "of_char c = (of_char (CHR 0x00) :: nat)"
      using nat_of_char_less_256 [of c] by simp
    then have "c = CHR 0x00" by (simp only: of_char_eq_iff)
    with assms(1) that show False by simp
  qed
  ultimately show ?thesis
    by (auto simp: cstring_def bytes_of_def)
qed

section \<open>Comparison\<close>

text \<open>What \<open>strcmp\<close> returns for the strings \<open>s\<close> and \<open>t\<close>, the difference at
  the first place where they differ, the terminator counting as zero.\<close>

fun bcmp :: "u8 list \<Rightarrow> u8 list \<Rightarrow> int" where
  "bcmp [] [] = 0"
| "bcmp [] (d # t) = - uint d"
| "bcmp (c # s) [] = uint c"
| "bcmp (c # s) (d # t) = (if c = d then bcmp s t else uint c - uint d)"

lemma bcmp_eq_0: "0 \<notin> set s \<Longrightarrow> 0 \<notin> set t \<Longrightarrow> bcmp s t = 0 \<longleftrightarrow> s = t"
  by (induction s t rule: bcmp.induct) (auto simp: uint_0_iff dest: unsigned_word_eqI)

lemma bcmp_less_0:
  "0 \<notin> set s \<Longrightarrow> 0 \<notin> set t \<Longrightarrow> bcmp s t < 0 \<longleftrightarrow> (s, t) \<in> lexord {(a, b). a < b}"
  by (induction s t rule: bcmp.induct) (auto simp: word_less_def uint_0_iff word_neq_0_conv)

lemma strcmp_cstring: "cstring m1 p s \<Longrightarrow> cstring m2 q t \<Longrightarrow> strcmp m1 p m2 q = Inr (bcmp s t)"
  by (induction s t arbitrary: p q rule: bcmp.induct) (auto simp: strcmp.simps)

text \<open>\<open>cprefix m p n s\<close>: \<open>s\<close> is what a routine that looks at no more than \<open>n\<close>
  bytes from \<open>p\<close> on sees: all \<open>n\<close> of them, or those before a NUL.\<close>

fun cprefix :: "mem \<Rightarrow> u64 \<Rightarrow> nat \<Rightarrow> u8 list \<Rightarrow> bool" where
  "cprefix m p 0 s \<longleftrightarrow> s = []"
| "cprefix m p (Suc n) [] \<longleftrightarrow> load8 m p = Inr 0"
| "cprefix m p (Suc n) (c # s) \<longleftrightarrow> load8 m p = Inr c \<and> c \<noteq> 0 \<and> cprefix m (p + 1) n s"

lemma cstring_cprefix: "cstring m p s \<Longrightarrow> cprefix m p n (take n s)"
  by (induction m p n s rule: cprefix.induct) auto

lemma bytes_at_cprefix: "bytes_at m p s \<Longrightarrow> 0 \<notin> set s \<Longrightarrow> cprefix m p (length s) s"
  by (induction s arbitrary: p) (auto simp: bytes_at_Cons)

lemma strncmp_loop_cprefix:
  "cprefix m1 p (Suc n) s \<Longrightarrow> cprefix m2 q (Suc n) t \<Longrightarrow> unat l = Suc n \<Longrightarrow>
   strncmp_loop m1 p m2 q l = Inr (bcmp s t)"
proof (induction n arbitrary: p q s t l)
  case 0
  then show ?case
    by (cases s; cases t) (auto simp: strncmp_loop.simps word_less_nat_alt)
next
  case (Suc n)
  have "unat (l - 1) = Suc n" and "1 < l"
    using Suc.prems(3) by (auto simp: word_less_nat_alt unat_sub word_le_nat_alt)
  with Suc show ?case
    by (cases s; cases t) (auto simp: strncmp_loop.simps [of m1 p m2 q l])
qed

section \<open>Bounded length\<close>

lemma strnlen_loop_cprefix:
  "cprefix m p (Suc n) s \<Longrightarrow> unat p = unat b + k \<Longrightarrow> unat l = k + n \<Longrightarrow>
   strnlen_loop m b p l = Inr (of_nat (k + min n (length s)))"
proof (induction n arbitrary: p s k)
  case 0
  then have pb: "p - b = of_nat k" and l: "l = of_nat k"
    by (auto simp: u64_diff_eq word_unat_eq_iff unat_of_nat unat_u64_bound)
  then show ?case
    using 0 by (cases s) (auto simp: strnlen_loop.simps)
next
  case (Suc n)
  have pb: "p - b = of_nat k"
    using Suc.prems(2) by (rule u64_diff_eq)
  show ?case
  proof (cases s)
    case Nil
    with Suc.prems pb show ?thesis by (simp add: strnlen_loop.simps)
  next
    case (Cons c s')
    with Suc.prems have c: "load8 m p = Inr c" "c \<noteq> 0" and r: "cprefix m (p + 1) (Suc n) s'"
      by auto
    have "p - b \<noteq> l"
      using Suc.prems(2,3) by (auto simp: unat_sub word_le_nat_alt)
    moreover have "strnlen_loop m b (p + 1) l = Inr (of_nat (Suc k + min n (length s')))"
      using Suc.prems(2,3) load8_next [OF c(1)] by (intro Suc.IH [OF r]) auto
    ultimately show ?thesis
      using c Cons by (simp add: strnlen_loop.simps [of m b p l])
  qed
qed

lemma strnlen_cprefix:
  "cprefix m p (Suc (unat maxlen)) s \<Longrightarrow>
   strnlen m p maxlen = Inr (of_nat (min (unat maxlen) (length s)))"
  unfolding strnlen_def using strnlen_loop_cprefix [of m p "unat maxlen" s p 0 maxlen] by simp

section \<open>Writing memory\<close>

lemma mapped_upd: "mapped m p n \<Longrightarrow> mapped (m(q \<mapsto> b)) p n"
  by (auto simp: mapped_def)

lemma store8_mapped:
  assumes "mapped m p n" "i < n"
  shows "store8 m (p + of_nat i) b = Inr (m(p + of_nat i \<mapsto> b))"
  by (rule load8_mapped [OF assms]) (auto simp: store8_def load8_def split: if_splits option.splits)

lemma u64_offset_eq_iff:
  assumes "unat p + n < 2 ^ 64" "i < n" "j < n"
  shows "p + of_nat i = p + (of_nat j :: u64) \<longleftrightarrow> i = j"
proof
  assume "p + of_nat i = p + (of_nat j :: u64)"
  then have "unat (p + of_nat i) = unat (p + of_nat j)" by simp
  then show "i = j" using assms by (simp add: unat_u64_add_of_nat)
qed simp

text \<open>
  Both loops fill the destination from the front. \<open>fill\<close> is their shape: position
  \<open>k\<close> of the destination receives \<open>f k\<close>, everything else is kept.
\<close>

definition fill :: "mem \<Rightarrow> u64 \<Rightarrow> nat \<Rightarrow> nat \<Rightarrow> (nat \<Rightarrow> u8) \<Rightarrow> mem" where
  "fill m p i n f q =
     (if i \<le> unat (q - p) \<and> unat (q - p) < n then Some (f (unat (q - p))) else m q)"

lemma fill_empty: "fill m p n n f = m"
  by (auto simp: fill_def fun_eq_iff)

lemma fill_step:
  assumes "i < n" "i < 2 ^ 64"
  shows "fill (m(p + of_nat i \<mapsto> f i)) p (Suc i) n f = fill m p i n f"
proof
  fix q
  have off: "unat (p + of_nat i - p) = i"
    using assms(2) by (simp add: unat_of_nat)
  show "fill (m(p + of_nat i \<mapsto> f i)) p (Suc i) n f q = fill m p i n f q"
  proof (cases "q = p + of_nat i")
    case True
    with off assms(1) show ?thesis by (simp add: fill_def)
  next
    case False
    then have "unat (q - p) \<noteq> i" by auto
    then have "Suc i \<le> unat (q - p) \<longleftrightarrow> i \<le> unat (q - p)" by linarith
    with False show ?thesis by (simp add: fill_def)
  qed
qed

lemma memset_loop_fill:
  "mapped m p (unat n) \<Longrightarrow> i \<le> n \<Longrightarrow>
   memset_loop m p c i n = Inr (fill m p (unat i) (unat n) (\<lambda>_. c))"
proof (induction m p c i n rule: memset_loop.induct)
  case (1 m p c i n)
  show ?case
  proof (cases "i < n")
    case True
    then have st: "store8 m (p + i) c = Inr (m(p + i \<mapsto> c))"
      using store8_mapped [OF "1.prems"(1), of "unat i"] by (simp add: word_less_nat_alt)
    have "memset_loop (m(p + i \<mapsto> c)) p c (i + 1) n =
        Inr (fill (m(p + i \<mapsto> c)) p (unat (i + 1)) (unat n) (\<lambda>_. c))"
      using True "1.prems" by (intro "1.IH" [OF True st] mapped_upd)
        (auto intro: inc_le)
    also have "\<dots> = Inr (fill m p (unat i) (unat n) (\<lambda>_. c))"
      using fill_step [of "unat i" "unat n" m p "\<lambda>_. c"] True
      by (simp add: u64_less_Suc word_less_nat_alt unat_u64_bound)
    finally show ?thesis using True st by (simp add: memset_loop.simps [of m p c i n])
  next
    case False
    with "1.prems"(2) have "i = n" by simp
    then show ?thesis by (simp add: memset_loop.simps [of m p c n n] fill_empty)
  qed
qed

lemma load8_upd_other: "p \<noteq> q \<Longrightarrow> load8 (m(q \<mapsto> b)) p = load8 m p"
  by (simp add: load8_def)

lemma memcpy_loop_fill:
  assumes "unat n = length bs"
    and "\<And>j k. j < length bs \<Longrightarrow> k < length bs \<Longrightarrow> dest + of_nat j \<noteq> src + of_nat k"
  shows "mapped m dest (length bs) \<Longrightarrow> i \<le> n \<Longrightarrow>
    (\<And>k. k < length bs \<Longrightarrow> load8 m (src + of_nat k) = Inr (bs ! k)) \<Longrightarrow>
    memcpy_loop m dest src i n = Inr (fill m dest (unat i) (unat n) (\<lambda>k. bs ! k))"
  using assms
proof (induction m dest src i n rule: memcpy_loop.induct)
  case (1 m dest src i n)
  show ?case
  proof (cases "i < n")
    case True
    then have i: "unat i < length bs" using "1.prems"(4) by (simp add: word_less_nat_alt)
    let ?m = "m(dest + i \<mapsto> bs ! unat i)"
    have ld: "load8 m (src + i) = Inr (bs ! unat i)"
      using "1.prems"(3) [OF i] by simp
    have st: "store8 m (dest + i) (bs ! unat i) = Inr ?m"
      using store8_mapped [OF "1.prems"(1) i] by simp
    have keep: "load8 ?m (src + of_nat k) = Inr (bs ! k)" if "k < length bs" for k
      using "1.prems"(3) [OF that] "1.prems"(5) [OF i that] by (simp add: load8_upd_other)
    have "memcpy_loop ?m dest src (i + 1) n =
        Inr (fill ?m dest (unat (i + 1)) (unat n) (\<lambda>k. bs ! k))"
      using True "1.prems" by (intro "1.IH" [OF True ld st] mapped_upd keep)
        (auto intro: inc_le)
    also have "\<dots> = Inr (fill m dest (unat i) (unat n) (\<lambda>k. bs ! k))"
      using fill_step [of "unat i" "unat n" m dest "\<lambda>k. bs ! k"] True
      by (simp add: u64_less_Suc word_less_nat_alt unat_u64_bound)
    finally show ?thesis using True ld st by (simp add: memcpy_loop.simps [of m dest src i n])
  next
    case False
    with "1.prems"(2) have "i = n" by simp
    then show ?thesis by (simp add: memcpy_loop.simps [of m dest src n n] fill_empty)
  qed
qed

lemma bytes_at_fill:
  assumes "unat p + n < 2 ^ 64"
  shows "bytes_at (fill m p 0 n f) p (map f [0..<n])"
  using assms by (auto simp: bytes_at_def fill_def unat_of_nat)

section \<open>Properties\<close>

text \<open>On two NUL-terminated strings \<open>strcmp\<close> returns, without reading past their
  terminators, zero exactly when they are equal and a negative number exactly when the
  first is lexicographically smaller in the order of unsigned bytes.\<close>

theorem strcmp_correct:
  assumes "cstring m1 p s" and "cstring m2 q t"
  shows "\<exists>r. strcmp m1 p m2 q = Inr r \<and> (r = 0 \<longleftrightarrow> s = t)
    \<and> (r < 0 \<longleftrightarrow> (s, t) \<in> lexord {(a, b). a < b})"
proof -
  from assms have "0 \<notin> set s" "0 \<notin> set t" by (simp_all add: cstring_def)
  with strcmp_cstring [OF assms] show ?thesis
    by (simp add: bcmp_eq_0 bcmp_less_0)
qed

theorem strcmp_correct_witness:
  "\<exists>r. strcmp (lit ''cpu'') 0 (lit ''memory'') 0 = Inr r
    \<and> (r = 0 \<longleftrightarrow> bytes_of ''cpu'' = bytes_of ''memory'')
    \<and> (r < 0 \<longleftrightarrow> (bytes_of ''cpu'', bytes_of ''memory'') \<in> lexord {(a, b). a < b})"
  by (rule strcmp_correct [OF cstring_bytes_of cstring_bytes_of]) simp_all

text \<open>For a bound of at least one, \<open>strncmp\<close> looks at no more than that many bytes
  of either string, and returns zero exactly when what it sees of them is the same.\<close>

theorem strncmp_correct:
  assumes "0 < n" and "cprefix m1 p (unat n) s" and "cprefix m2 q (unat n) t"
  shows "\<exists>r. strncmp m1 p m2 q n = Inr r \<and> r = bcmp s t"
proof -
  from assms(1) obtain k where "unat n = Suc k"
    by (metis gr0_conv_Suc unat_gt_0 word_neq_0_conv)
  with assms(2,3) show ?thesis
    unfolding strncmp_def using strncmp_loop_cprefix by auto
qed

theorem strncmp_correct_witness:
  "\<exists>r. strncmp (lit ''arm,pl011'') 0 (lit ''arm,psci'') 0 5 = Inr r
    \<and> r = bcmp (take 5 (bytes_of ''arm,pl011'')) (take 5 (bytes_of ''arm,psci''))"
proof (rule strncmp_correct)
  show "cprefix (lit ''arm,pl011'') 0 (unat (5 :: u64)) (take 5 (bytes_of ''arm,pl011''))"
    using cstring_cprefix [OF cstring_bytes_of, of "''arm,pl011''" 5] by simp
  show "cprefix (lit ''arm,psci'') 0 (unat (5 :: u64)) (take 5 (bytes_of ''arm,psci''))"
    using cstring_cprefix [OF cstring_bytes_of, of "''arm,psci''" 5] by simp
qed simp

text \<open>\<open>memset\<close> over memory that is there returns, and afterwards all \<open>n\<close> bytes
  from \<open>ptr\<close> on are the low byte of \<open>c\<close> while every other byte is unchanged.\<close>

theorem memset_correct:
  assumes "mapped m p (unat n)"
  shows "\<exists>m'. memset m p c n = Inr m' \<and> bytes_at m' p (replicate (unat n) (word_of_int c))
    \<and> (\<forall>q. unat n \<le> unat (q - p) \<longrightarrow> m' q = m q)"
proof -
  let ?m = "fill m p 0 (unat n) (\<lambda>_. word_of_int c)"
  have "memset m p c n = Inr ?m"
    unfolding memset_def using memset_loop_fill [OF assms, of 0] by simp
  moreover have "bytes_at ?m p (replicate (unat n) (word_of_int c))"
    using bytes_at_fill [of p "unat n" m "\<lambda>_. word_of_int c"] assms
    by (simp add: mapped_def map_replicate_const)
  ultimately show ?thesis by (auto simp: fill_def)
qed

theorem memset_correct_witness:
  "\<exists>m'. memset (mem_of 4096 [1, 2, 3, 4]) 4097 0x1FF 2 = Inr m'
    \<and> bytes_at m' 4097 (replicate (unat (2 :: u64)) (word_of_int 0x1FF))
    \<and> (\<forall>q. unat (2 :: u64) \<le> unat (q - 4097) \<longrightarrow> m' q = mem_of 4096 [1, 2, 3, 4] q)"
proof (rule memset_correct)
  have "bytes_at (mem_of 4096 [1, 2, 3, 4]) 4097 [2, 3]"
    by (simp add: bytes_at_Cons load8_def mem_of_def)
  moreover have "unat (2 :: u64) = length [2 :: u8, 3]" by simp
  ultimately show "mapped (mem_of 4096 [1, 2, 3, 4]) 4097 (unat (2 :: u64))"
    using bytes_at_mapped by metis
qed

text \<open>\<open>memcpy\<close> of \<open>n\<close> bytes between objects that do not overlap returns the
  destination pointer; the destination then holds the source's bytes and every byte
  outside it is unchanged.\<close>

theorem memcpy_correct:
  assumes "bytes_at m src bs" and "mapped m dest (length bs)" and "unat n = length bs"
    and "\<forall>j<length bs. \<forall>k<length bs. dest + of_nat j \<noteq> src + of_nat k"
  shows "\<exists>m'. memcpy m dest src n = Inr (dest, m') \<and> bytes_at m' dest bs
    \<and> (\<forall>q. length bs \<le> unat (q - dest) \<longrightarrow> m' q = m q)"
proof -
  let ?m = "fill m dest 0 (unat n) (\<lambda>k. bs ! k)"
  have "memcpy_loop m dest src 0 n = Inr (fill m dest (unat (0 :: u64)) (unat n) (\<lambda>k. bs ! k))"
    using assms load8_bytes_at [OF assms(1)] by (intro memcpy_loop_fill) auto
  then have "memcpy m dest src n = Inr (dest, ?m)"
    by (simp add: memcpy_def)
  moreover have "bytes_at ?m dest bs"
    using bytes_at_fill [of dest "unat n" m "\<lambda>k. bs ! k"] assms(2,3)
    by (simp add: mapped_def map_nth)
  ultimately show ?thesis using assms(3) by (auto simp: fill_def)
qed


theorem memcpy_correct_witness:
  "\<exists>m'. memcpy (mem_of 4096 [7, 8, 0, 0]) 4098 4096 2 = Inr (4098, m')
    \<and> bytes_at m' 4098 [7, 8]
    \<and> (\<forall>q. length [7 :: u8, 8] \<le> unat (q - 4098) \<longrightarrow> m' q = mem_of 4096 [7, 8, 0, 0] q)"
proof (rule memcpy_correct)
  show "bytes_at (mem_of 4096 [7, 8, 0, 0]) 4096 [7, 8]"
    by (simp add: bytes_at_Cons load8_def mem_of_def)
  have "bytes_at (mem_of 4096 [7, 8, 0, 0]) 4098 [0, 0]"
    by (simp add: bytes_at_Cons load8_def mem_of_def)
  from bytes_at_mapped [OF this]
  show "mapped (mem_of 4096 [7, 8, 0, 0]) 4098 (length [7 :: u8, 8])" by simp
  show "unat (2 :: u64) = length [7 :: u8, 8]" by simp
  show "\<forall>j<length [7 :: u8, 8]. \<forall>k<length [7 :: u8, 8]. (4098 :: u64) + of_nat j \<noteq> 4096 + of_nat k"
    by (simp add: All_less_Suc)
qed

text \<open>
  The bound of \<open>strnlen\<close> is tested after the byte at the bound has been read: on
  \<open>maxlen\<close> bytes without a terminator it needs one byte more than it was given.
\<close>

lemma strnlen_loop_past_bound:
  "bytes_at m p bs \<Longrightarrow> 0 \<notin> set bs \<Longrightarrow> load8 m (p + of_nat (length bs)) = Inl e \<Longrightarrow>
   unat p = unat b + k \<Longrightarrow> unat l = k + length bs \<Longrightarrow> strnlen_loop m b p l = Inl e"
proof (induction bs arbitrary: p k)
  case Nil
  then show ?case by (simp add: strnlen_loop.simps)
next
  case (Cons c bs)
  then have c: "load8 m p = Inr c" "c \<noteq> 0" and r: "bytes_at m (p + 1) bs"
    by (auto simp: bytes_at_Cons)
  have "p - b \<noteq> l"
    using Cons.prems(4,5) by (auto simp: unat_sub word_le_nat_alt)
  moreover have "strnlen_loop m b (p + 1) l = Inl e"
    using Cons.prems load8_next [OF c(1)] r
    by (intro Cons.IH [of "p + 1" "Suc k"]) (auto simp: add.assoc)
  ultimately show ?case using c by (simp add: strnlen_loop.simps [of m b p l])
qed

theorem strnlen_reads_past_bound:
  assumes "bytes_at m p bs" and "0 \<notin> set bs" and "unat maxlen = length bs"
    and "load8 m (p + maxlen) = Inl e"
  shows "strnlen m p maxlen = Inl e"
  unfolding strnlen_def
proof (rule strnlen_loop_past_bound [OF assms(1,2), where k = 0])
  have "of_nat (length bs) = maxlen" by (simp flip: assms(3))
  with assms(4) show "load8 m (p + of_nat (length bs)) = Inl e" by simp
qed (simp_all add: assms(3))

text \<open>With the bound zero \<open>strncmp\<close> still compares the first bytes, where the C
  standard's function returns zero.\<close>

theorem strncmp_zero_bound_compares: "strncmp (lit ''a'') 0 (lit ''b'') 0 0 = Inr (- 1)"
  by (simp add: strncmp_def strncmp_loop.simps load8_def lit_def mem_of_def bytes_of_def
      cong: bind_res_weak_cong)

end
