(* ===== verification/FDT.thy ===== *)
theory FDT
  imports Libc
begin

text \<open>
  The streaming parser over a flattened device tree blob: \<open>be32\<close>, \<open>be64\<close> and the
  class \<open>DeviceTree::Parser\<close> of \<open>src/src/DeviceTree.h\<close> and
  \<open>src/src/DeviceTree.cpp\<close>. Pointers are 64-bit addresses, pointer arithmetic wraps, and
  every byte of the blob is read through memory. The lemmas show that after \<open>init\<close>
  accepts a blob every token is read inside the structure block, that the walk ends, and
  that the walk over an encoded sequence of tree events yields exactly those events.
\<close>

section \<open>Reading big-endian integers\<close>

definition be32 :: "mem \<Rightarrow> u64 \<Rightarrow> u32 res" where
  "be32 m p =
     bind_res (load8 m p) (\<lambda>b0.
     bind_res (load8 m (p + 1)) (\<lambda>b1.
     bind_res (load8 m (p + 2)) (\<lambda>b2.
     bind_res (load8 m (p + 3)) (\<lambda>b3.
       Inr (push_bit 24 (ucast b0) OR push_bit 16 (ucast b1) OR push_bit 8 (ucast b2) OR ucast b3)))))"

definition be64 :: "mem \<Rightarrow> u64 \<Rightarrow> u64 res" where
  "be64 m p =
     bind_res (be32 m p) (\<lambda>hi.
     bind_res (be32 m (p + 4)) (\<lambda>lo.
       Inr (push_bit 32 (ucast hi) OR ucast lo)))"

section \<open>The parser\<close>

datatype Token = BeginNode | EndNode | Prop | Nop | End

datatype Status = StatusOk | BadMagic | UnsupportedVersion | Malformed

record Parser =
  prs_header :: u64
  prs_blob :: u64
  prs_blob_end :: u64
  prs_struct :: u64
  prs_struct_end :: u64
  prs_strings :: u64
  prs_strings_size :: u32
  prs_pos :: u64
  prs_token :: Token
  prs_node_name :: u64
  prs_prop_name :: u64
  prs_prop_value :: u64
  prs_prop_len :: u32
  prs_depth :: u32
  prs_valid :: bool

text \<open>A freshly constructed parser: the default member initialisers.\<close>

definition parser_default :: Parser where
  "parser_default =
     \<lparr>prs_header = 0, prs_blob = 0, prs_blob_end = 0, prs_struct = 0, prs_struct_end = 0,
      prs_strings = 0, prs_strings_size = 0, prs_pos = 0, prs_token = End,
      prs_node_name = 0, prs_prop_name = 0, prs_prop_value = 0, prs_prop_len = 0,
      prs_depth = 0, prs_valid = False\<rparr>"

definition FDT_MAGIC :: u32 where "FDT_MAGIC = 0xD00DFEED"

definition FDT_SUPPORTED_VERSION :: u32 where "FDT_SUPPORTED_VERSION = 17"

text \<open>The fields of the raw header, by their offsets.\<close>

definition hdr_magic :: u64 where "hdr_magic = 0"
definition hdr_totalsize :: u64 where "hdr_totalsize = 4"
definition hdr_off_dt_struct :: u64 where "hdr_off_dt_struct = 8"
definition hdr_off_dt_strings :: u64 where "hdr_off_dt_strings = 12"
definition hdr_off_mem_rsvmap :: u64 where "hdr_off_mem_rsvmap = 16"
definition hdr_version :: u64 where "hdr_version = 20"
definition hdr_last_comp_version :: u64 where "hdr_last_comp_version = 24"
definition hdr_boot_cpuid_phys :: u64 where "hdr_boot_cpuid_phys = 28"
definition hdr_size_dt_strings :: u64 where "hdr_size_dt_strings = 32"
definition hdr_size_dt_struct :: u64 where "hdr_size_dt_struct = 36"

lemmas hdr_defs = hdr_magic_def hdr_totalsize_def hdr_off_dt_struct_def hdr_off_dt_strings_def
  hdr_off_mem_rsvmap_def hdr_version_def hdr_last_comp_version_def hdr_boot_cpuid_phys_def
  hdr_size_dt_strings_def hdr_size_dt_struct_def

definition align4 :: "u64 \<Rightarrow> u64" where
  "align4 p = (let m = p AND 3 in p + (if m \<noteq> 0 then 4 - m else 0))"

definition parser_init :: "mem \<Rightarrow> Parser \<Rightarrow> u64 \<Rightarrow> (Status \<times> Parser) res" where
  "parser_init m s fdt =
     (let s0 = s\<lparr>prs_valid := False\<rparr> in
      if fdt = 0 then Inr (Malformed, s0)
      else
        let s1 = s0\<lparr>prs_header := fdt, prs_blob := fdt\<rparr> in
        bind_res (be32 m (fdt + hdr_magic)) (\<lambda>magic.
        if magic \<noteq> FDT_MAGIC then Inr (BadMagic, s1)
        else
        bind_res (be32 m (fdt + hdr_version)) (\<lambda>version.
        if version < FDT_SUPPORTED_VERSION then Inr (UnsupportedVersion, s1)
        else
        bind_res (be32 m (fdt + hdr_totalsize)) (\<lambda>totalsize.
        bind_res (be32 m (fdt + hdr_off_dt_struct)) (\<lambda>off_struct.
        bind_res (be32 m (fdt + hdr_off_dt_strings)) (\<lambda>off_strings.
        bind_res (be32 m (fdt + hdr_off_mem_rsvmap)) (\<lambda>off_rsvmap.
        bind_res (be32 m (fdt + hdr_size_dt_struct)) (\<lambda>size_struct.
        bind_res (be32 m (fdt + hdr_size_dt_strings)) (\<lambda>size_strings.
        if (ucast off_struct + ucast size_struct :: u64) > ucast totalsize \<or>
           (ucast off_strings + ucast size_strings :: u64) > ucast totalsize \<or>
           (ucast off_rsvmap + 16 :: u64) > ucast totalsize
        then Inr (Malformed, s1)
        else Inr (StatusOk,
          s1\<lparr>prs_blob_end := fdt + ucast totalsize,
             prs_struct := fdt + ucast off_struct,
             prs_struct_end := fdt + ucast off_struct + ucast size_struct,
             prs_strings := fdt + ucast off_strings,
             prs_strings_size := size_strings,
             prs_pos := fdt + ucast off_struct,
             prs_token := End,
             prs_depth := 0,
             prs_node_name := 0,
             prs_prop_name := 0,
             prs_prop_value := 0,
             prs_prop_len := 0,
             prs_valid := True\<rparr>))))))))))"

definition parser_totalsize :: "mem \<Rightarrow> Parser \<Rightarrow> u32 res" where
  "parser_totalsize m s =
     (if prs_header s \<noteq> 0 then be32 m (prs_header s + hdr_totalsize) else Inr 0)"

definition parser_version :: "mem \<Rightarrow> Parser \<Rightarrow> u32 res" where
  "parser_version m s =
     (if prs_header s \<noteq> 0 then be32 m (prs_header s + hdr_version) else Inr 0)"

definition parser_last_comp_version :: "mem \<Rightarrow> Parser \<Rightarrow> u32 res" where
  "parser_last_comp_version m s =
     (if prs_header s \<noteq> 0 then be32 m (prs_header s + hdr_last_comp_version) else Inr 0)"

definition parser_boot_cpuid_phys :: "mem \<Rightarrow> Parser \<Rightarrow> u32 res" where
  "parser_boot_cpuid_phys m s =
     (if prs_header s \<noteq> 0 then be32 m (prs_header s + hdr_boot_cpuid_phys) else Inr 0)"

text \<open>\<open>16 * index\<close> is computed in 32 bits. The out-parameters keep what the caller put
  there (\<open>out\<close>) unless the entry is read.\<close>

definition reserve_entry :: "mem \<Rightarrow> Parser \<Rightarrow> u32 \<Rightarrow> u64 \<times> u64 \<Rightarrow> (bool \<times> u64 \<times> u64) res" where
  "reserve_entry m s index out =
     (if \<not> prs_valid s then Inr (False, out)
      else
        bind_res (be32 m (prs_header s + hdr_off_mem_rsvmap)) (\<lambda>off.
        let p = prs_blob s + ucast off + ucast (16 * index) in
        if p + 16 > prs_blob_end s then Inr (False, out)
        else
          bind_res (be64 m p) (\<lambda>address.
          bind_res (be64 m (p + 8)) (\<lambda>size.
            Inr (address \<noteq> 0 \<or> size \<noteq> 0, address, size)))))"

section \<open>The next token\<close>

text \<open>\<open>while (scan < end && *scan != '\0') scan++\<close>\<close>

function scan_name :: "mem \<Rightarrow> u64 \<Rightarrow> u64 \<Rightarrow> u64 res" where
  "scan_name m scan end_p =
     (if scan < end_p
      then bind_res (load8 m scan) (\<lambda>c. if c \<noteq> 0 then scan_name m (scan + 1) end_p else Inr scan)
      else Inr scan)"
  by pat_completeness auto
termination
  by (relation "measure (\<lambda>(m, s, e). 2 ^ 64 - unat s)")
    (auto simp only: in_measure split_conv intro: load8_measure)

declare scan_name.simps [simp del]

text \<open>The way out of \<open>next\<close> that every truncation takes.\<close>

definition next_stop :: "Parser \<Rightarrow> Token \<times> Parser" where
  "next_stop s = (End, s\<lparr>prs_token := End, prs_pos := prs_struct_end s\<rparr>)"

definition next_begin_node :: "mem \<Rightarrow> Parser \<Rightarrow> (Token \<times> Parser) res" where
  "next_begin_node m s =
     (let name = prs_pos s; end_p = prs_struct_end s in
      bind_res (scan_name m name end_p) (\<lambda>scan.
        if scan \<ge> end_p then Inr (next_stop s)
        else Inr (BeginNode,
          s\<lparr>prs_pos := align4 (scan + 1), prs_node_name := name,
            prs_depth := prs_depth s + 1, prs_token := BeginNode\<rparr>)))"

definition next_end_node :: "Parser \<Rightarrow> Token \<times> Parser" where
  "next_end_node s =
     (EndNode, s\<lparr>prs_depth := (if prs_depth s > 0 then prs_depth s - 1 else prs_depth s),
                 prs_token := EndNode\<rparr>)"

definition next_prop :: "mem \<Rightarrow> Parser \<Rightarrow> (Token \<times> Parser) res" where
  "next_prop m s =
     (if prs_pos s + 8 > prs_struct_end s then Inr (next_stop s)
      else
        bind_res (be32 m (prs_pos s)) (\<lambda>len.
        bind_res (be32 m (prs_pos s + 4)) (\<lambda>nameoff.
        let s1 = s\<lparr>prs_pos := prs_pos s + 8\<rparr>; value = prs_pos s1 in
        if prs_pos s1 + ucast len > prs_struct_end s1 then Inr (next_stop s1)
        else Inr (Prop,
          s1\<lparr>prs_pos := align4 (value + ucast len), prs_prop_len := len,
             prs_prop_value := value,
             prs_prop_name := (if nameoff < prs_strings_size s1
                               then prs_strings s1 + ucast nameoff else 0),
             prs_token := Prop\<rparr>))))"

lemma be32_loads:
  assumes "be32 m p = Inr w"
  shows "load8 m p \<noteq> Inl e" "load8 m (p + 1) \<noteq> Inl e" "load8 m (p + 2) \<noteq> Inl e"
    "load8 m (p + 3) \<noteq> Inl e"
  using assms by (auto simp: be32_def bind_res_Inr_iff)

lemma be32_advance: "be32 m p = Inr w \<Longrightarrow> unat (p + 4) = unat p + 4"
proof -
  assume a: "be32 m p = Inr w"
  then obtain b0 b1 b2 b3 where "load8 m p = Inr b0" "load8 m (p + 1) = Inr b1"
      "load8 m (p + 2) = Inr b2" "load8 m (p + 3) = Inr b3"
    by (auto simp: be32_def bind_res_Inr_iff)
  from this [THEN load8_next] show ?thesis by (simp add: add.assoc)
qed

function next_loop :: "mem \<Rightarrow> Parser \<Rightarrow> (Token \<times> Parser) res" where
  "next_loop m s =
     (if prs_pos s + 4 > prs_struct_end s then Inr (next_stop s)
      else
        bind_res (be32 m (prs_pos s)) (\<lambda>raw.
        let s1 = s\<lparr>prs_pos := prs_pos s + 4\<rparr> in
        if raw = 1 then next_begin_node m s1
        else if raw = 2 then Inr (next_end_node s1)
        else if raw = 3 then next_prop m s1
        else if raw = 4 then next_loop m s1
        else Inr (next_stop s1)))"
  by pat_completeness auto
termination
proof (relation "measure (\<lambda>(m, s). 2 ^ 64 - unat (prs_pos s))", goal_cases)
  case (2 m s raw s1)
  then show ?case
    using be32_advance [OF 2(2)] unat_u64_bound [of "prs_pos s"]
    by (simp add: Let_def)
qed simp

declare next_loop.simps [simp del]

definition parser_next :: "mem \<Rightarrow> Parser \<Rightarrow> (Token \<times> Parser) res" where
  "parser_next m s =
     (if \<not> prs_valid s \<or> prs_pos s \<ge> prs_struct_end s
      then Inr (End, s\<lparr>prs_token := End\<rparr>)
      else next_loop m s)"

definition parser_current :: "Parser \<Rightarrow> Token" where
  "parser_current s = prs_token s"

definition parser_node_name :: "Parser \<Rightarrow> u64" where
  "parser_node_name s = (if prs_token s = BeginNode then prs_node_name s else 0)"

definition parser_prop_name :: "Parser \<Rightarrow> u64" where
  "parser_prop_name s = (if prs_token s = Prop then prs_prop_name s else 0)"

definition parser_prop_value :: "Parser \<Rightarrow> u64" where
  "parser_prop_value s = (if prs_token s = Prop then prs_prop_value s else 0)"

definition parser_prop_len :: "Parser \<Rightarrow> u32" where
  "parser_prop_len s = (if prs_token s = Prop then prs_prop_len s else 0)"

definition parser_depth :: "Parser \<Rightarrow> u32" where
  "parser_depth s = prs_depth s"

definition read_u32 :: "mem \<Rightarrow> u64 \<Rightarrow> u32 res" where
  "read_u32 m p = be32 m p"

definition read_u64 :: "mem \<Rightarrow> u64 \<Rightarrow> u64 res" where
  "read_u64 m p = be64 m p"

section \<open>Integers\<close>

definition enc32 :: "u32 \<Rightarrow> u8 list" where
  "enc32 w = [ucast (drop_bit 24 w), ucast (drop_bit 16 w), ucast (drop_bit 8 w), ucast w]"

definition enc64 :: "u64 \<Rightarrow> u8 list" where
  "enc64 w = enc32 (ucast (drop_bit 32 w)) @ enc32 (ucast w)"

lemma length_enc [simp]: "length (enc32 w) = 4" "length (enc64 v) = 8"
  by (simp_all add: enc32_def enc64_def)

lemma u32_of_bytes:
  "push_bit 24 (ucast (ucast (drop_bit 24 w) :: u8)) OR push_bit 16 (ucast (ucast (drop_bit 16 w) :: u8))
     OR push_bit 8 (ucast (ucast (drop_bit 8 w) :: u8)) OR ucast (ucast w :: u8) = (w :: u32)" (is "?l = _")
proof (rule bit_word_eqI)
  fix n assume "n < LENGTH(32)"
  then have "n < 8 \<or> (8 \<le> n \<and> n < 16) \<or> (16 \<le> n \<and> n < 24) \<or> (24 \<le> n \<and> n < 32)" by auto
  then show "bit ?l n = bit w n"
    by (elim disjE) (auto simp: bit_simps)
qed

lemma u64_of_halves:
  "push_bit 32 (ucast (ucast (drop_bit 32 w) :: u32)) OR ucast (ucast w :: u32) = (w :: u64)" (is "?l = _")
proof (rule bit_word_eqI)
  fix n assume "n < LENGTH(64)"
  then have "n < 32 \<or> (32 \<le> n \<and> n < 64)" by auto
  then show "bit ?l n = bit w n"
    by (elim disjE) (auto simp: bit_simps)
qed

lemma be32_enc32: "bytes_at m p (enc32 w) \<Longrightarrow> be32 m p = Inr w"
  by (simp add: enc32_def be32_def bytes_at_Cons add.assoc u32_of_bytes)

lemma be64_enc64: "bytes_at m p (enc64 w) \<Longrightarrow> be64 m p = Inr w"
  using be32_enc32 [of m p "ucast (drop_bit 32 w)"] be32_enc32 [of m "p + 4" "ucast w"]
  by (simp add: enc64_def be64_def bytes_at_append u64_of_halves)

lemma be32_mapped:
  assumes "mapped m p 4"
  obtains w where "be32 m p = Inr w"
proof -
  obtain b0 where "load8 m p = Inr b0" using load8_mapped [OF assms, of 0] by auto
  moreover obtain b1 where "load8 m (p + 1) = Inr b1" using load8_mapped [OF assms, of 1] by auto
  moreover obtain b2 where "load8 m (p + 2) = Inr b2" using load8_mapped [OF assms, of 2] by auto
  moreover obtain b3 where "load8 m (p + 3) = Inr b3" using load8_mapped [OF assms, of 3] by auto
  ultimately show ?thesis using that by (simp add: be32_def)
qed

lemma be64_mapped:
  assumes "mapped m p 8"
  obtains w where "be64 m p = Inr w"
proof -
  obtain hi where "be32 m p = Inr hi"
    using mapped_mono [OF assms, of 4] be32_mapped by auto
  moreover obtain lo where "be32 m (p + 4) = Inr lo"
    using mapped_offset [OF assms, of 4 4] be32_mapped by auto
  ultimately show ?thesis using that by (simp add: be64_def)
qed

section \<open>Alignment\<close>

lemma unat_and_3: "unat (p AND 3 :: u64) = unat p mod 4"
proof -
  have eq: "p AND 3 = take_bit 2 p" by (simp add: take_bit_eq_mask mask_eq_exp_minus_1)
  have "unat (p AND 3) = take_bit 2 (unat p)"
    unfolding eq by (rule unsigned_take_bit_eq)
  also have "\<dots> = unat p mod 4" by (simp add: take_bit_eq_mod)
  finally show ?thesis .
qed

lemma align4_nat:
  assumes "unat p + 3 < 2 ^ 64"
  shows "unat (align4 p) = (unat p + 3) div 4 * 4"
proof (cases "unat p mod 4 = 0")
  case True
  then have "p AND 3 = 0" by (metis unat_and_3 unat_0_iff)
  with True show ?thesis by (simp add: align4_def) presburger
next
  case False
  define k where "k = unat p mod 4"
  from False have k: "0 < k" "k < 4" by (auto simp: k_def)
  have m: "unat (p AND 3) = k" by (simp add: unat_and_3 k_def)
  then have "unat (4 - (p AND 3)) = 4 - k"
    using k by (subst unat_sub) (auto simp: word_le_nat_alt)
  then have "unat (align4 p) = unat p + (4 - k)"
    using m k assms by (auto simp: align4_def Let_def unat_word_ariths)
  moreover have "unat p + (4 - k) = (unat p + 3) div 4 * 4"
    unfolding k_def using False by presburger
  ultimately show ?thesis by simp
qed

lemma align4_bounds:
  assumes "unat p + 3 < 2 ^ 64"
  shows "unat p \<le> unat (align4 p)" "unat (align4 p) \<le> unat p + 3" "unat (align4 p) mod 4 = 0"
  using align4_nat [OF assms] by auto

section \<open>Scanning a node name\<close>

lemma scan_name_spec:
  assumes "scan \<le> e" "mapped m scan (unat e - unat scan)"
  shows "\<exists>name. scan_name m scan e = Inr (scan + of_nat (length name)) \<and> bytes_at m scan name
    \<and> 0 \<notin> set name \<and> unat scan + length name \<le> unat e
    \<and> (unat scan + length name < unat e \<longrightarrow> cstring m scan name)"
  using assms
proof (induction m scan e rule: scan_name.induct)
  case (1 m scan e)
  show ?case
  proof (cases "scan < e")
    case False
    with "1.prems" have "scan = e" by simp
    then show ?thesis by (intro exI [of _ "[]"]) (simp add: scan_name.simps [of m e e])
  next
    case True
    then have pos: "0 < unat e - unat scan" by (simp add: word_less_nat_alt)
    then obtain c where c: "load8 m scan = Inr c"
      using load8_mapped_0 [OF "1.prems"(2)] by auto
    show ?thesis
    proof (cases "c = 0")
      case zero: True
      with c True show ?thesis
        by (intro exI [of _ "[]"]) (auto simp: scan_name.simps [of m scan e] word_less_nat_alt)
    next
      case False
      have step: "unat (scan + 1) = Suc (unat scan)" by (rule load8_next [OF c])
      have le: "scan + 1 \<le> e" using True by (rule inc_le)
      have "mapped m (scan + 1) (unat e - unat (scan + 1))"
        using mapped_offset [OF "1.prems"(2), of 1 "unat e - unat (scan + 1)"] pos step by simp
      from "1.IH" [OF True c False le this] obtain name where
        n: "scan_name m (scan + 1) e = Inr (scan + 1 + of_nat (length name))"
          "bytes_at m (scan + 1) name" "0 \<notin> set name" "unat (scan + 1) + length name \<le> unat e"
          "unat (scan + 1) + length name < unat e \<longrightarrow> cstring m (scan + 1) name"
        by blast
      then show ?thesis
        using c False True step
        by (intro exI [of _ "c # name"])
          (auto simp: scan_name.simps [of m scan e] bytes_at_Cons add.assoc)
    qed
  qed
qed

section \<open>The walk stays inside the structure block\<close>

text \<open>
  The invariant of a parser over a blob in memory: the structure block is memory, it is far
  enough from the end of the address space that adding a 32-bit length to a pointer into it
  does not wrap, and the position is in it or at most at the next 4-byte boundary.
\<close>

definition parser_ok :: "mem \<Rightarrow> Parser \<Rightarrow> bool" where
  "parser_ok m s \<longleftrightarrow>
     prs_struct s \<le> prs_struct_end s \<and>
     mapped m (prs_struct s) (unat (prs_struct_end s) - unat (prs_struct s)) \<and>
     unat (prs_struct_end s) + 2 ^ 32 + 16 < 2 ^ 64 \<and>
     prs_struct s \<le> prs_pos s \<and> unat (prs_pos s) \<le> unat (prs_struct_end s) + 3"

definition same_blob :: "Parser \<Rightarrow> Parser \<Rightarrow> bool" where
  "same_blob s s' \<longleftrightarrow>
     prs_header s' = prs_header s \<and> prs_blob s' = prs_blob s \<and>
     prs_blob_end s' = prs_blob_end s \<and> prs_struct s' = prs_struct s \<and>
     prs_struct_end s' = prs_struct_end s \<and> prs_strings s' = prs_strings s \<and>
     prs_strings_size s' = prs_strings_size s \<and> prs_valid s' = prs_valid s"

text \<open>What a token promises about the data that comes with it.\<close>

definition token_ok :: "mem \<Rightarrow> Parser \<Rightarrow> Token \<Rightarrow> Parser \<Rightarrow> bool" where
  "token_ok m s t s' \<longleftrightarrow>
     parser_ok m s' \<and> same_blob s s' \<and> prs_token s' = t \<and> t \<noteq> Nop \<and>
     (t \<noteq> End \<longrightarrow> unat (prs_pos s) \<le> unat (prs_pos s')) \<and>
     (t = BeginNode \<longrightarrow> (\<exists>name. cstring m (prs_node_name s') name \<and>
        prs_struct s \<le> prs_node_name s' \<and>
        unat (prs_node_name s') + length name < unat (prs_struct_end s))) \<and>
     (t = Prop \<longrightarrow> prs_pos s \<le> prs_prop_value s' \<and>
        unat (prs_prop_value s') + unat (prs_prop_len s') \<le> unat (prs_struct_end s) \<and>
        unat (prs_prop_value s') + unat (prs_prop_len s') \<le> unat (prs_pos s'))"

lemma parser_okD:
  assumes "parser_ok m s"
  shows "unat (prs_struct s) \<le> unat (prs_struct_end s)"
    "unat (prs_struct_end s) + 4294967312 < 18446744073709551616"
    "unat (prs_struct s) \<le> unat (prs_pos s)" "unat (prs_pos s) \<le> unat (prs_struct_end s) + 3"
  using assms by (simp_all add: parser_ok_def word_le_nat_alt)

lemma block_mapped:
  assumes "parser_ok m s" "prs_struct s \<le> q" "unat q + n \<le> unat (prs_struct_end s)"
  shows "mapped m q n"
  using assms by (intro mapped_sub [of m "prs_struct s" _ q]) (auto simp: parser_ok_def word_le_nat_alt)

lemma parser_ok_pos:
  "parser_ok m s \<Longrightarrow> prs_struct s \<le> p \<Longrightarrow> unat p \<le> unat (prs_struct_end s) + 3 \<Longrightarrow>
   parser_ok m (s\<lparr>prs_pos := p\<rparr>)"
  by (simp add: parser_ok_def)

lemma parser_ok_fields [simp]:
  "parser_ok m (s\<lparr>prs_token := t\<rparr>) = parser_ok m s"
  "parser_ok m (s\<lparr>prs_node_name := n\<rparr>) = parser_ok m s"
  "parser_ok m (s\<lparr>prs_depth := d\<rparr>) = parser_ok m s"
  "parser_ok m (s\<lparr>prs_prop_len := l\<rparr>) = parser_ok m s"
  "parser_ok m (s\<lparr>prs_prop_value := v\<rparr>) = parser_ok m s"
  "parser_ok m (s\<lparr>prs_prop_name := v\<rparr>) = parser_ok m s"
  by (simp_all add: parser_ok_def)

lemma next_stop_ok:
  "parser_ok m s \<Longrightarrow> \<exists>t s'. next_stop s = (t, s') \<and> token_ok m s t s'"
  by (auto simp: next_stop_def token_ok_def same_blob_def parser_ok_def)

lemma next_end_node_ok:
  "parser_ok m s \<Longrightarrow> \<exists>t s'. next_end_node s = (t, s') \<and> token_ok m s t s'"
  by (auto simp: next_end_node_def token_ok_def same_blob_def)

lemma next_begin_node_ok:
  assumes ok: "parser_ok m s" and pos: "prs_pos s \<le> prs_struct_end s"
  shows "\<exists>t s'. next_begin_node m s = Inr (t, s') \<and> token_ok m s t s'"
proof -
  note b = parser_okD [OF ok]
  let ?name = "prs_pos s" and ?e = "prs_struct_end s"
  have "mapped m ?name (unat ?e - unat ?name)"
    using pos b by (intro block_mapped [OF ok]) (auto simp: word_le_nat_alt)
  from scan_name_spec [OF pos this] obtain name where
    n: "scan_name m ?name ?e = Inr (?name + of_nat (length name))"
      "unat ?name + length name \<le> unat ?e"
      "unat ?name + length name < unat ?e \<longrightarrow> cstring m ?name name"
    by blast
  let ?scan = "?name + of_nat (length name)"
  have scan: "unat ?scan = unat ?name + length name"
    using n(2) b by (intro unat_u64_add_of_nat) simp
  show ?thesis
  proof (cases "?scan \<ge> ?e")
    case True
    then show ?thesis
      using n(1) next_stop_ok [OF ok]
      by (auto simp: next_begin_node_def Let_def)
  next
    case False
    then have lt: "unat ?name + length name < unat ?e"
      using scan by (simp add: word_le_nat_alt)
    have scan1: "unat (?scan + 1) = unat ?name + length name + 1"
      using scan lt b by (subst unat_u64_add_1) auto
    have al: "unat (?scan + 1) \<le> unat (align4 (?scan + 1))"
        "unat (align4 (?scan + 1)) \<le> unat (?scan + 1) + 3"
      using align4_bounds(1,2) [of "?scan + 1"] scan1 lt b by auto
    have "parser_ok m (s\<lparr>prs_pos := align4 (?scan + 1)\<rparr>)"
      using al scan1 lt b by (intro parser_ok_pos [OF ok]) (auto simp: word_le_nat_alt)
    then show ?thesis
      using False n lt al scan1 b
      by (auto simp: next_begin_node_def Let_def token_ok_def same_blob_def word_le_nat_alt)
  qed
qed

lemma next_prop_ok:
  assumes ok: "parser_ok m s"
  shows "\<exists>t s'. next_prop m s = Inr (t, s') \<and> token_ok m s t s'"
proof -
  note b = parser_okD [OF ok]
  let ?p = "prs_pos s" and ?e = "prs_struct_end s"
  have p8: "unat (?p + 8) = unat ?p + 8" using b by (intro unat_u64_add_numeral) simp
  show ?thesis
  proof (cases "?p + 8 > ?e")
    case True
    then show ?thesis
      using next_stop_ok [OF ok]
      by (auto simp: next_prop_def)
  next
    case False
    then have fit: "unat ?p + 8 \<le> unat ?e" using p8 by (simp add: word_less_nat_alt)
    then have "mapped m ?p 8" using b by (intro block_mapped [OF ok]) (auto simp: word_le_nat_alt)
    then have "mapped m ?p 4" "mapped m (?p + 4) 4"
      using mapped_mono [of m ?p 8 4] mapped_offset [of m ?p 8 4 4] by auto
    then obtain len nameoff where l: "be32 m ?p = Inr len" "be32 m (?p + 4) = Inr nameoff"
      by (meson be32_mapped)
    let ?v = "?p + 8" and ?s1 = "s\<lparr>prs_pos := ?p + 8\<rparr>"
    have ok1: "parser_ok m ?s1"
      using p8 fit b by (intro parser_ok_pos [OF ok]) (auto simp: word_le_nat_alt)
    have vl: "unat (?v + ucast len) = unat ?p + 8 + unat len"
      using p8 fit b unat_u32_bound [of len] by (subst unat_u64_add) auto
    show ?thesis
    proof (cases "?v + ucast len > ?e")
      case True
      then show ?thesis
        using False l next_stop_ok [OF ok1]
        by (auto simp: next_prop_def Let_def token_ok_def same_blob_def next_stop_def)
    next
      case in_block: False
      then have fit2: "unat ?p + 8 + unat len \<le> unat ?e" using vl by (simp add: word_less_nat_alt)
      have al: "unat (?v + ucast len) \<le> unat (align4 (?v + ucast len))"
          "unat (align4 (?v + ucast len)) \<le> unat (?v + ucast len) + 3"
        using align4_bounds(1,2) [of "?v + ucast len"] vl fit2 b by auto
      have "parser_ok m (s\<lparr>prs_pos := align4 (?v + ucast len)\<rparr>)"
        using al vl fit2 b by (intro parser_ok_pos [OF ok]) (auto simp: word_le_nat_alt)
      then show ?thesis
        using False in_block l al vl fit2 p8
        by (auto simp: next_prop_def Let_def token_ok_def same_blob_def word_le_nat_alt)
    qed
  qed
qed

lemma token_ok_advance:
  "token_ok m (s\<lparr>prs_pos := p\<rparr>) t s' \<Longrightarrow> prs_pos s \<le> p \<Longrightarrow> token_ok m s t s'"
  by (auto simp: token_ok_def same_blob_def word_le_nat_alt)

lemma next_loop_ok:
  "parser_ok m s \<Longrightarrow> \<exists>t s'. next_loop m s = Inr (t, s') \<and> token_ok m s t s'
     \<and> (t \<noteq> End \<longrightarrow> unat (prs_pos s) + 4 \<le> unat (prs_pos s'))"
proof (induction m s rule: next_loop.induct)
  case (1 m s)
  note b = parser_okD [OF "1.prems"]
  let ?p = "prs_pos s" and ?s1 = "s\<lparr>prs_pos := prs_pos s + 4\<rparr>"
  have p4: "unat (?p + 4) = unat ?p + 4" using b by (intro unat_u64_add_numeral) simp
  show ?case
  proof (cases "?p + 4 > prs_struct_end s")
    case True
    then show ?thesis
      using next_stop_ok [OF "1.prems"] by (auto simp: next_loop.simps [of m s] next_stop_def)
  next
    case False
    then have fit: "unat ?p + 4 \<le> unat (prs_struct_end s)"
      using p4 by (simp add: word_less_nat_alt)
    then obtain raw where raw: "be32 m ?p = Inr raw"
      using block_mapped [OF "1.prems", of ?p 4] b be32_mapped by (auto simp: word_le_nat_alt)
    have ok1: "parser_ok m ?s1"
      using p4 fit b by (intro parser_ok_pos [OF "1.prems"]) (auto simp: word_le_nat_alt)
    have le1: "prs_pos ?s1 \<le> prs_struct_end ?s1" and adv: "?p \<le> ?p + 4"
      using fit p4 by (simp_all add: word_le_nat_alt)
    have "\<exists>t s'. next_loop m s = Inr (t, s') \<and> token_ok m ?s1 t s'"
      using False raw "1.IH" [OF False raw refl _ _ _ _ ok1] next_begin_node_ok [OF ok1 le1]
        next_end_node_ok [OF ok1] next_prop_ok [OF ok1] next_stop_ok [OF ok1]
      by (auto simp: next_loop.simps [of m s] Let_def)
    then show ?thesis
      using token_ok_advance [OF _ adv] p4 by (fastforce simp: token_ok_def)
  qed
qed

lemma parser_next_ok:
  assumes "parser_ok m s"
  shows "\<exists>t s'. parser_next m s = Inr (t, s') \<and> token_ok m s t s'
     \<and> (t \<noteq> End \<longrightarrow> unat (prs_pos s) + 4 \<le> unat (prs_pos s'))"
  using assms next_loop_ok [OF assms]
  by (auto simp: parser_next_def token_ok_def same_blob_def)

section \<open>Walking a token stream\<close>

text \<open>
  The loop \<open>while (dtp.next() != Token::End) { ... }\<close> both passes over the tree run:
  \<open>body\<close> is the loop's body, which looks at the token through the parser.
\<close>

partial_function (option) walk ::
    "('p \<Rightarrow> (Token \<times> 'p) res) \<Rightarrow> ('p \<Rightarrow> 's \<Rightarrow> 's comp) \<Rightarrow> 'p \<Rightarrow> 's \<Rightarrow> 's comp" where
  "walk nxt body p s =
     (case nxt p of
        Inl e \<Rightarrow> Some (Inl e)
      | Inr (t, p') \<Rightarrow>
          if t = End then Some (Inr s)
          else bind_comp (body p' s) (\<lambda>s'. walk nxt body p' s'))"

text \<open>
  What a client of the parser relies on: under the stream's invariant \<open>nxt\<close> returns,
  keeps the invariant, and every token but \<open>End\<close> brings the end of the block closer.
\<close>

locale token_stream =
  fixes nxt :: "'p \<Rightarrow> (Token \<times> 'p) res"
    and inv :: "'p \<Rightarrow> bool"
    and remaining :: "'p \<Rightarrow> nat"
  assumes nxt_returns: "inv p \<Longrightarrow> \<exists>t p'. nxt p = Inr (t, p') \<and> inv p'"
    and nxt_decreases: "inv p \<Longrightarrow> nxt p = Inr (t, p') \<Longrightarrow> t \<noteq> End \<Longrightarrow> remaining p' < remaining p"
begin

lemma walk_returns:
  assumes "\<And>p s. body p s \<noteq> None"
  shows "inv p \<Longrightarrow> walk nxt body p s \<noteq> None"
proof (induction "remaining p" arbitrary: p s rule: less_induct)
  case less
  obtain t p' where n: "nxt p = Inr (t, p')" "inv p'"
    using nxt_returns [OF less.prems] by blast
  show ?case
  proof (cases "t = End")
    case True
    with n show ?thesis by (simp add: walk.simps)
  next
    case False
    obtain r where "body p' s = Some r" using assms by blast
    moreover have "walk nxt body p' s' \<noteq> None" for s'
      by (rule less.hyps [OF nxt_decreases [OF less.prems n(1) False] n(2)])
    ultimately show ?thesis
      using n False by (cases r) (simp_all add: walk.simps [of nxt body p s])
  qed
qed

lemma walk_invariant:
  assumes "\<And>p t p' s s'. inv p \<Longrightarrow> nxt p = Inr (t, p') \<Longrightarrow> t \<noteq> End \<Longrightarrow> P p s \<Longrightarrow>
      body p' s = Some (Inr s') \<Longrightarrow> P p' s'"
    and "\<And>p p' s. inv p \<Longrightarrow> nxt p = Inr (End, p') \<Longrightarrow> P p s \<Longrightarrow> Q s"
  shows "inv p \<Longrightarrow> P p s \<Longrightarrow> walk nxt body p s = Some (Inr s') \<Longrightarrow> Q s'"
proof (induction "remaining p" arbitrary: p s rule: less_induct)
  case less
  obtain t p' where n: "nxt p = Inr (t, p')" "inv p'"
    using nxt_returns [OF less.prems(1)] by blast
  show ?case
  proof (cases "t = End")
    case True
    with n less.prems assms(2) show ?thesis by (simp add: walk.simps [of nxt body p s])
  next
    case False
    then obtain s1 where s1: "body p' s = Some (Inr s1)" "walk nxt body p' s1 = Some (Inr s')"
      using less.prems(3) n by (auto simp: walk.simps [of nxt body p s] bind_comp_Inr_iff)
    have "P p' s1" by (rule assms(1) [OF less.prems(1) n(1) False less.prems(2) s1(1)])
    with nxt_decreases [OF less.prems(1) n(1) False] n(2) s1(2) show ?thesis
      by (intro less.hyps) auto
  qed
qed

text \<open>A body that returns in states with \<open>P\<close>, and keeps \<open>P\<close>.\<close>

lemma walk_ensures:
  assumes "\<And>p t p' s. inv p \<Longrightarrow> nxt p = Inr (t, p') \<Longrightarrow> t \<noteq> End \<Longrightarrow> P s \<Longrightarrow> ensures P (body p' s)"
  shows "inv p \<Longrightarrow> P s \<Longrightarrow> ensures P (walk nxt body p s)"
proof (induction "remaining p" arbitrary: p s rule: less_induct)
  case less
  obtain t p' where n: "nxt p = Inr (t, p')" "inv p'"
    using nxt_returns [OF less.prems(1)] by blast
  show ?case
  proof (cases "t = End")
    case True
    with n less.prems(2) show ?thesis by (simp add: walk.simps [of nxt body p s])
  next
    case False
    have "ensures P (walk nxt body p' s')" if "P s'" for s'
      using less.hyps [OF nxt_decreases [OF less.prems(1) n(1) False] n(2) that] .
    with assms [OF less.prems(1) n(1) False less.prems(2)]
    have "ensures P (bind_comp (body p' s) (\<lambda>s'. walk nxt body p' s'))"
      by (rule ensures_bind_comp)
    with n False show ?thesis by (simp add: walk.simps [of nxt body p s])
  qed
qed

end

definition parser_remaining :: "Parser \<Rightarrow> nat" where
  "parser_remaining s = unat (prs_struct_end s) + 4 - unat (prs_pos s)"

interpretation fdt: token_stream "parser_next m" "parser_ok m" parser_remaining for m
proof unfold_locales
  fix p assume "parser_ok m p"
  from parser_next_ok [OF this]
  show "\<exists>t p'. parser_next m p = Inr (t, p') \<and> parser_ok m p'"
    by (auto simp: token_ok_def)
next
  fix p t p' assume ok: "parser_ok m p" and n: "parser_next m p = Inr (t, p')" "t \<noteq> End"
  with parser_next_ok [OF ok] parser_okD [OF ok] show "parser_remaining p' < parser_remaining p"
    by (auto simp: parser_remaining_def token_ok_def same_blob_def)
qed

section \<open>Encoded trees\<close>

text \<open>
  The events of a tree in the order of the structure block, and their encoding as the
  Devicetree Specification (chapter 5) lays it out.
\<close>

datatype event = Ev_Begin "u8 list" | Ev_End | Ev_Prop u32 "u8 list" | Ev_Nop

definition pad4 :: "u8 list \<Rightarrow> u8 list" where
  "pad4 xs = xs @ replicate ((4 - length xs mod 4) mod 4) 0"

fun enc_event :: "event \<Rightarrow> u8 list" where
  "enc_event (Ev_Begin name) = enc32 1 @ pad4 (name @ [0])"
| "enc_event Ev_End = enc32 2"
| "enc_event (Ev_Prop off v) = enc32 3 @ enc32 (of_nat (length v)) @ enc32 off @ pad4 v"
| "enc_event Ev_Nop = enc32 4"

fun event_ok :: "event \<Rightarrow> bool" where
  "event_ok (Ev_Begin name) \<longleftrightarrow> 0 \<notin> set name"
| "event_ok (Ev_Prop off v) \<longleftrightarrow> length v < 2 ^ 32"
| "event_ok Ev_End \<longleftrightarrow> True"
| "event_ok Ev_Nop \<longleftrightarrow> True"

definition enc_block :: "event list \<Rightarrow> u8 list" where
  "enc_block es = concat (map enc_event es) @ enc32 9"

text \<open>The parser presents an event: token and data as its accessors give them.\<close>

fun shows_event :: "mem \<Rightarrow> Parser \<Rightarrow> event \<Rightarrow> bool" where
  "shows_event m p (Ev_Begin name) \<longleftrightarrow>
     parser_current p = BeginNode \<and> cstring m (parser_node_name p) name"
| "shows_event m p Ev_End \<longleftrightarrow> parser_current p = EndNode"
| "shows_event m p (Ev_Prop off v) \<longleftrightarrow>
     parser_current p = Prop \<and> parser_prop_len p = of_nat (length v) \<and>
     bytes_at m (parser_prop_value p) v \<and>
     parser_prop_name p = (if off < prs_strings_size p then prs_strings p + ucast off else 0)"
| "shows_event m p Ev_Nop \<longleftrightarrow> False"

fun run_body :: "('p \<Rightarrow> 's \<Rightarrow> 's comp) \<Rightarrow> 'p list \<Rightarrow> 's \<Rightarrow> 's comp" where
  "run_body body [] s = Some (Inr s)"
| "run_body body (p # ps) s = bind_comp (body p s) (run_body body ps)"

lemma length_pad4: "length (pad4 xs) = (length xs + 3) div 4 * 4"
proof -
  define q r where "q = length xs div 4" and "r = length xs mod 4"
  then have "length xs = 4 * q + r" "r = 0 \<or> r = 1 \<or> r = 2 \<or> r = 3" by auto
  then show ?thesis by (auto simp: pad4_def)
qed

lemma length_enc_event_mod: "length (enc_event e) mod 4 = 0" and length_enc_event_ge: "4 \<le> length (enc_event e)"
  by (cases e; simp add: length_pad4)+

lemma align4_exact:
  assumes "unat p mod 4 = 0" "unat p + n + 3 < 2 ^ 64"
  shows "align4 (p + of_nat n) = p + of_nat ((n + 3) div 4 * 4)"
proof -
  have n: "unat (p + of_nat n) = unat p + n"
    using assms(2) by (intro unat_u64_add_of_nat) simp
  have "(unat p + n + 3) div 4 * 4 = unat p + (n + 3) div 4 * 4"
    using assms(1) by presburger
  moreover have "unat (p + of_nat ((n + 3) div 4 * 4)) = unat p + (n + 3) div 4 * 4"
    using assms(2) by (intro unat_u64_add_of_nat) linarith
  ultimately show ?thesis
    using align4_nat [of "p + of_nat n"] n assms(2) by (simp add: word_unat_eq_iff)
qed

lemma scan_name_cstring:
  "cstring m p name \<Longrightarrow> unat p + length name < unat e \<Longrightarrow>
   scan_name m p e = Inr (p + of_nat (length name))"
proof (induction name arbitrary: p)
  case Nil
  then show ?case by (simp add: scan_name.simps word_less_nat_alt)
next
  case (Cons c name)
  then have c: "load8 m p = Inr c" "c \<noteq> 0" by simp_all
  then show ?case
    using Cons load8_next [OF c(1)]
    by (simp add: scan_name.simps [of m p e] word_less_nat_alt add.assoc)
qed

lemma next_begin_node_event:
  assumes "unat (prs_pos s) mod 4 = 0" "cstring m (prs_pos s) name"
    and "unat (prs_pos s) + length (pad4 (name @ [0])) \<le> unat (prs_struct_end s)"
    and "unat (prs_struct_end s) + 3 < 2 ^ 64"
  shows "next_begin_node m s = Inr (BeginNode,
    s\<lparr>prs_pos := prs_pos s + of_nat (length (pad4 (name @ [0]))), prs_node_name := prs_pos s,
      prs_depth := prs_depth s + 1, prs_token := BeginNode\<rparr>)"
proof -
  let ?p = "prs_pos s" and ?e = "prs_struct_end s"
  have l: "unat ?p + length name + 1 \<le> unat ?e"
    using assms(3) by (simp add: length_pad4)
  then have sc: "scan_name m ?p ?e = Inr (?p + of_nat (length name))"
    using scan_name_cstring [OF assms(2)] by simp
  have "unat (?p + of_nat (length name)) = unat ?p + length name"
    using l assms(4) by (intro unat_u64_add_of_nat) simp
  then have "\<not> ?p + of_nat (length name) \<ge> ?e"
    using l by (simp add: word_le_nat_alt)
  moreover have "align4 (?p + of_nat (length name) + 1) = ?p + of_nat (length (pad4 (name @ [0])))"
    using align4_exact [OF assms(1), of "length name + 1"] l assms(4)
    by (simp add: length_pad4 add.assoc add.commute [of 1])
  ultimately show ?thesis using sc by (simp add: next_begin_node_def Let_def)
qed

lemma next_prop_event:
  assumes "unat (prs_pos s) mod 4 = 0"
    and "bytes_at m (prs_pos s) (enc32 (of_nat (length v)) @ enc32 off)" and "length v < 2 ^ 32"
    and "unat (prs_pos s) + 8 + length (pad4 v) \<le> unat (prs_struct_end s)"
    and "unat (prs_struct_end s) + 3 < 2 ^ 64"
  shows "next_prop m s = Inr (Prop,
    s\<lparr>prs_pos := prs_pos s + 8 + of_nat (length (pad4 v)), prs_prop_len := of_nat (length v),
      prs_prop_value := prs_pos s + 8,
      prs_prop_name := (if off < prs_strings_size s then prs_strings s + ucast off else 0),
      prs_token := Prop\<rparr>)"
proof -
  let ?p = "prs_pos s" and ?e = "prs_struct_end s" and ?len = "of_nat (length v) :: u32"
  have r: "be32 m ?p = Inr ?len" "be32 m (?p + 4) = Inr off"
    using assms(2) by (simp_all add: bytes_at_append be32_enc32)
  have len: "unat ?len = length v" using assms(3) by (simp add: unat_of_nat)
  then have ulen: "(ucast ?len :: u64) = of_nat (length v)"
    by (metis unat_ucast_32_64 of_nat_unat ucast_id)
  have lv: "length v \<le> length (pad4 v)" by (simp add: pad4_def)
  have p8: "unat (?p + 8) = unat ?p + 8"
    using assms(4,5) by (intro unat_u64_add_numeral) simp
  then have a: "\<not> ?p + 8 > ?e" using assms(4) by (simp add: word_less_nat_alt)
  have "unat (?p + 8 + of_nat (length v)) = unat ?p + 8 + length v"
    using assms(4,5) p8 lv by (subst unat_u64_add_of_nat) auto
  then have b: "\<not> ?p + 8 + of_nat (length v) > ?e"
    using assms(4) lv by (simp add: word_less_nat_alt)
  have "unat (?p + 8) mod 4 = 0" using p8 assms(1) by presburger
  then have "align4 (?p + 8 + of_nat (length v)) = ?p + 8 + of_nat (length (pad4 v))"
    using align4_exact [of "?p + 8" "length v"] p8 lv assms(4,5) by (simp add: length_pad4)
  with a b r ulen show ?thesis by (simp add: next_prop_def Let_def)
qed

lemma next_loop_raw:
  assumes "parser_ok m s" "prs_valid s" "bytes_at m (prs_pos s) (enc32 raw)"
    and "unat (prs_pos s) + 4 \<le> unat (prs_struct_end s)"
  shows "unat (prs_pos s + 4) = unat (prs_pos s) + 4"
    and "parser_next m s =
      (let s1 = s\<lparr>prs_pos := prs_pos s + 4\<rparr> in
       if raw = 1 then next_begin_node m s1
       else if raw = 2 then Inr (next_end_node s1)
       else if raw = 3 then next_prop m s1
       else if raw = 4 then next_loop m s1
       else Inr (next_stop s1))"
proof -
  show p4: "unat (prs_pos s + 4) = unat (prs_pos s) + 4"
    using parser_okD [OF assms(1)] by (intro unat_u64_add_numeral) simp
  have "\<not> prs_pos s \<ge> prs_struct_end s" "\<not> prs_pos s + 4 > prs_struct_end s"
    using p4 assms(4) by (simp_all add: word_le_nat_alt word_less_nat_alt)
  then show "parser_next m s =
      (let s1 = s\<lparr>prs_pos := prs_pos s + 4\<rparr> in
       if raw = 1 then next_begin_node m s1
       else if raw = 2 then Inr (next_end_node s1)
       else if raw = 3 then next_prop m s1
       else if raw = 4 then next_loop m s1
       else Inr (next_stop s1))"
    using assms(2) be32_enc32 [OF assms(3)]
    by (simp only: parser_next_def next_loop.simps [of m s] if_False bind_res_simps not_True_eq_False
        simp_thms Let_def)
qed

lemma parser_next_event:
  assumes ok: "parser_ok m s" and v: "prs_valid s" and al: "unat (prs_pos s) mod 4 = 0"
    and by_at: "bytes_at m (prs_pos s) (enc_event e)"
    and fits: "unat (prs_pos s) + length (enc_event e) \<le> unat (prs_struct_end s)"
    and e: "event_ok e" "e \<noteq> Ev_Nop"
  shows "\<exists>s'. parser_next m s = Inr (prs_token s', s') \<and> prs_token s' \<noteq> End
    \<and> shows_event m s' e \<and> prs_pos s' = prs_pos s + of_nat (length (enc_event e)) \<and> same_blob s s'"
proof -
  let ?s1 = "s\<lparr>prs_pos := prs_pos s + 4\<rparr>"
  note b = parser_okD [OF ok]
  have fit4: "unat (prs_pos s) + 4 \<le> unat (prs_struct_end s)"
    using fits length_enc_event_ge [of e] by simp
  show ?thesis
  proof (cases e)
    case (Ev_Begin name)
    then have at1: "bytes_at m (prs_pos s) (enc32 1)" and c: "cstring m (prs_pos s + 4) name"
      using by_at e(1) by (auto simp: bytes_at_append bytes_at_Cons pad4_def cstring_def)
    note n = next_loop_raw [OF ok v at1 fit4]
    have "next_begin_node m ?s1 = Inr (BeginNode, ?s1\<lparr>prs_pos := prs_pos ?s1 + of_nat (length (pad4 (name @ [0]))),
        prs_node_name := prs_pos ?s1, prs_depth := prs_depth ?s1 + 1, prs_token := BeginNode\<rparr>)"
      using n(1) al c fits b Ev_Begin by (intro next_begin_node_event) auto
    with n(2) c Ev_Begin show ?thesis
      by (simp add: same_blob_def parser_current_def parser_node_name_def add.assoc)
  next
    case Ev_End
    then have "bytes_at m (prs_pos s) (enc32 2)" using by_at by simp
    from next_loop_raw(2) [OF ok v this fit4] Ev_End show ?thesis
      by (simp add: Let_def next_end_node_def same_blob_def parser_current_def)
  next
    case (Ev_Prop off val)
    then have at1: "bytes_at m (prs_pos s) (enc32 3)"
      and hd: "bytes_at m (prs_pos s + 4) (enc32 (of_nat (length val)) @ enc32 off)"
      and val: "bytes_at m (prs_pos s + 4 + 8) val"
      using by_at by (auto simp: bytes_at_append pad4_def add.assoc)
    note n = next_loop_raw [OF ok v at1 fit4]
    have "next_prop m ?s1 = Inr (Prop, ?s1\<lparr>prs_pos := prs_pos ?s1 + 8 + of_nat (length (pad4 val)),
        prs_prop_len := of_nat (length val), prs_prop_value := prs_pos ?s1 + 8,
        prs_prop_name := (if off < prs_strings_size ?s1 then prs_strings ?s1 + ucast off else 0),
        prs_token := Prop\<rparr>)"
      using n(1) al hd fits b e(1) Ev_Prop by (intro next_prop_event) auto
    with n(2) val Ev_Prop show ?thesis
      by (simp add: same_blob_def parser_current_def parser_prop_name_def parser_prop_value_def
          parser_prop_len_def add.assoc)
  qed (use e(2) in simp)
qed

lemma parser_next_nop:
  assumes "parser_ok m s" "prs_valid s" "bytes_at m (prs_pos s) (enc32 4)"
    and "unat (prs_pos s) + 4 < unat (prs_struct_end s)"
  shows "parser_next m s = parser_next m (s\<lparr>prs_pos := prs_pos s + 4\<rparr>)"
proof -
  note n = next_loop_raw [OF assms(1-3)]
  then have "\<not> prs_pos s + 4 \<ge> prs_struct_end s"
    using assms(4) by (simp add: word_le_nat_alt)
  with n(2) assms(2,4) show ?thesis
    by (simp add: Let_def parser_next_def [of m "s\<lparr>prs_pos := prs_pos s + 4\<rparr>"])
qed

lemma parser_ok_same_blob:
  "parser_ok m s \<Longrightarrow> same_blob s s' \<Longrightarrow> prs_struct s \<le> prs_pos s' \<Longrightarrow>
   unat (prs_pos s') \<le> unat (prs_struct_end s) + 3 \<Longrightarrow> parser_ok m s'"
  by (simp add: parser_ok_def same_blob_def)

text \<open>The same for a parser of the blob of \<open>s\<close>: besides, four bytes can be read at a property value, whatever its length,
  and names of nodes lie in the structure block.\<close>

definition shown :: "mem \<Rightarrow> Parser \<Rightarrow> Parser \<Rightarrow> event \<Rightarrow> bool" where
  "shown m s p e \<longleftrightarrow> shows_event m p e \<and> same_blob s p \<and> (parser_current p = Prop \<longrightarrow> mapped m (parser_prop_value p) 4) \<and>
     (parser_current p = BeginNode \<longrightarrow> prs_struct s \<le> parser_node_name p)"

lemma shown_trans: "same_blob s s' \<Longrightarrow> shown m s' p e \<Longrightarrow> shown m s p e"
  by (simp add: shown_def same_blob_def)

lemma next_value_mapped:
  assumes "parser_ok m s" "parser_next m s = Inr (Prop, s')" "unat (prs_pos s') + 4 \<le> unat (prs_struct_end s)"
  shows "mapped m (prs_prop_value s') 4"
proof -
  from parser_next_ok [OF assms(1)] assms(2) have t: "token_ok m s Prop s'" by auto
  then have "prs_pos s \<le> prs_prop_value s'" "unat (prs_prop_value s') + unat (prs_prop_len s') \<le> unat (prs_pos s')"
    by (auto simp: token_ok_def)
  moreover have "prs_struct s \<le> prs_pos s" using assms(1) by (simp add: parser_ok_def)
  ultimately show ?thesis using assms(3) by (intro block_mapped [OF assms(1)]) auto
qed

lemma walk_encoded:
  assumes "parser_ok m s" "prs_valid s" "unat (prs_pos s) mod 4 = 0"
    and "bytes_at m (prs_pos s) (enc_block es)"
    and "unat (prs_pos s) + length (enc_block es) \<le> unat (prs_struct_end s)"
    and "\<forall>e\<in>set es. event_ok e"
  shows "\<exists>ps. list_all2 (shown m s) ps (filter (\<lambda>e. e \<noteq> Ev_Nop) es)
    \<and> (\<forall>(body :: Parser \<Rightarrow> 's \<Rightarrow> 's comp) st. walk (parser_next m) body s st = run_body body ps st)"
  using assms
proof (induction es arbitrary: s)
  case Nil
  then have "bytes_at m (prs_pos s) (enc32 9)" and "unat (prs_pos s) + 4 \<le> unat (prs_struct_end s)"
    by (simp_all add: enc_block_def)
  from next_loop_raw(2) [OF Nil(1,2) this]
  have "\<exists>s'. parser_next m s = Inr (End, s')"
    by (simp add: Let_def next_stop_def)
  then have "walk (parser_next m) body s st = Some (Inr st)" for body :: "Parser \<Rightarrow> 's \<Rightarrow> 's comp" and st
    by (auto simp: walk.simps [of "parser_next m" body s st])
  then show ?case by (intro exI [of _ "[]"]) simp
next
  case (Cons e es)
  note b = parser_okD [OF Cons.prems(1)]
  let ?n = "length (enc_event e)" and ?p = "prs_pos s"
  have at_e: "bytes_at m ?p (enc_event e)" and at_es: "bytes_at m (?p + of_nat ?n) (enc_block es)"
    using Cons.prems(4) by (simp_all add: enc_block_def bytes_at_append)
  have fit: "unat ?p + ?n + length (enc_block es) \<le> unat (prs_struct_end s)"
    and tail: "4 \<le> length (enc_block es)"
    using Cons.prems(5) by (simp_all add: enc_block_def)
  have pn: "unat (?p + of_nat ?n) = unat ?p + ?n"
    using fit b by (intro unat_u64_add_of_nat) simp
  have al: "unat (?p + of_nat ?n) mod 4 = 0"
    using pn Cons.prems(3) length_enc_event_mod [of e] by (metis mod_add_eq mod_0 add_0)
  have rest: "\<exists>ps. list_all2 (shown m s') ps (filter (\<lambda>e. e \<noteq> Ev_Nop) es)
      \<and> (\<forall>(body :: Parser \<Rightarrow> 's \<Rightarrow> 's comp) st. walk (parser_next m) body s' st = run_body body ps st)"
    if "same_blob s s'" "prs_pos s' = ?p + of_nat ?n" for s'
  proof (rule Cons.IH)
    show "parser_ok m s'"
      using that pn fit b by (intro parser_ok_same_blob [OF Cons.prems(1)]) (auto simp: word_le_nat_alt)
  qed (use that al at_es pn fit Cons.prems in \<open>auto simp: same_blob_def\<close>)
  show ?case
  proof (cases "e = Ev_Nop")
    case True
    then have n4: "?n = 4" by simp
    let ?s' = "s\<lparr>prs_pos := ?p + 4\<rparr>"
    have "parser_next m s = parser_next m ?s'"
      using True at_e fit tail by (intro parser_next_nop [OF Cons.prems(1,2)]) auto
    then have "walk (parser_next m) body s st = walk (parser_next m) body ?s' st"
      for body :: "Parser \<Rightarrow> 's \<Rightarrow> 's comp" and st
      by (simp add: walk.simps [of "parser_next m" body s st]
          walk.simps [of "parser_next m" body ?s' st])
    moreover have "same_blob s ?s'" by (simp add: same_blob_def)
    moreover have "shown m ?s' p x \<Longrightarrow> shown m s p x" for p x by (simp add: shown_def same_blob_def)
    moreover obtain ps where "list_all2 (shown m ?s') ps (filter (\<lambda>e. e \<noteq> Ev_Nop) es)"
        "\<forall>(body :: Parser \<Rightarrow> 's \<Rightarrow> 's comp) st. walk (parser_next m) body ?s' st = run_body body ps st"
      using rest [of ?s'] n4 by (auto simp: same_blob_def)
    ultimately show ?thesis using True by (intro exI [of _ ps]) (auto elim: list_all2_mono)
  next
    case False
    have "\<exists>s'. parser_next m s = Inr (prs_token s', s') \<and> prs_token s' \<noteq> End
        \<and> shows_event m s' e \<and> prs_pos s' = ?p + of_nat ?n \<and> same_blob s s'"
      using Cons.prems fit False by (intro parser_next_event at_e) auto
    then obtain s' where s': "parser_next m s = Inr (prs_token s', s')" "prs_token s' \<noteq> End"
        "shows_event m s' e" "prs_pos s' = ?p + of_nat ?n" "same_blob s s'"
      by blast
    from rest [OF s'(5,4)] obtain ps where
      ps: "list_all2 (shown m s') ps (filter (\<lambda>e. e \<noteq> Ev_Nop) es)"
        "\<forall>(body :: Parser \<Rightarrow> 's \<Rightarrow> 's comp) st. walk (parser_next m) body s' st = run_body body ps st" by blast
    have w: "walk (parser_next m) body s st = run_body body (s' # ps) st"
      for body :: "Parser \<Rightarrow> 's \<Rightarrow> 's comp" and st
    proof -
      have "walk (parser_next m) body s' = run_body body ps" using ps(2) by blast
      then show ?thesis using s'(1,2) by (simp add: walk.simps [of "parser_next m" body s st])
    qed
    have "parser_current s' = Prop \<longrightarrow> mapped m (parser_prop_value s') 4"
      using next_value_mapped [OF Cons.prems(1)] s'(1,4) pn fit tail by (auto simp: parser_current_def parser_prop_value_def)
    moreover have "parser_current s' = BeginNode \<longrightarrow> prs_struct s \<le> parser_node_name s'"
      using parser_next_ok [OF Cons.prems(1)] s'(1) by (auto simp: token_ok_def parser_current_def parser_node_name_def)
    ultimately have "shown m s s' e" using s'(3,5) by (simp add: shown_def)
    moreover have "list_all2 (shown m s) ps (filter (\<lambda>e. e \<noteq> Ev_Nop) es)"
      using ps(1) by (rule list_all2_mono) (rule shown_trans [OF s'(5)])
    ultimately show ?thesis using False w by (intro exI [of _ "s' # ps"]) simp
  qed
qed

section \<open>Accepting a blob\<close>

text \<open>
  A blob in memory: the header is there, and as many bytes as it says, with room for 32-bit
  offsets behind it in the address space.
\<close>

definition blob_in_memory :: "mem \<Rightarrow> u64 \<Rightarrow> bool" where
  "blob_in_memory m fdt \<longleftrightarrow>
     fdt \<noteq> 0 \<and> mapped m fdt 40 \<and> unat fdt + 2 ^ 33 + 16 < 2 ^ 64 \<and>
     (case be32 m (fdt + hdr_totalsize) of Inl e \<Rightarrow> False | Inr n \<Rightarrow> mapped m fdt (unat n))"

text \<open>The decision \<open>init\<close> takes, on the header's fields as numbers.\<close>

definition init_status :: "u32 \<Rightarrow> u32 \<Rightarrow> u32 \<Rightarrow> u32 \<Rightarrow> u32 \<Rightarrow> u32 \<Rightarrow> u32 \<Rightarrow> u32 \<Rightarrow> Status" where
  "init_status magic version totalsize off_struct off_strings off_rsvmap size_struct size_strings =
     (if magic \<noteq> 0xD00DFEED then BadMagic
      else if unat version < 17 then UnsupportedVersion
      else if unat off_struct + unat size_struct \<le> unat totalsize \<and>
              unat off_strings + unat size_strings \<le> unat totalsize \<and>
              unat off_rsvmap + 16 \<le> unat totalsize
      then StatusOk else Malformed)"

lemma u64_sum_of_u32:
  "(ucast a + ucast b :: u64) > ucast c \<longleftrightarrow> unat (c :: u32) < unat (a :: u32) + unat (b :: u32)"
  "(ucast a + ucast b :: u64) \<le> ucast c \<longleftrightarrow> unat a + unat b \<le> unat c"
  "(ucast a + 16 :: u64) > ucast c \<longleftrightarrow> unat c < unat a + 16"
  "(ucast a + 16 :: u64) \<le> ucast c \<longleftrightarrow> unat a + 16 \<le> unat c"
  using unat_u32_bound [of a] unat_u32_bound [of b]
  by (simp_all add: word_less_nat_alt word_le_nat_alt unat_u64_add unat_u64_add_numeral)

lemma u32_less_17: "(v :: u32) < 17 \<longleftrightarrow> unat v < 17" "17 \<le> v \<longleftrightarrow> 17 \<le> unat v"
  by (simp_all add: word_less_nat_alt word_le_nat_alt)

lemma header_mapped:
  assumes "mapped m fdt 40" "off + 4 \<le> 40"
  obtains w where "be32 m (fdt + of_nat off) = Inr w"
  using mapped_offset [OF assms(1), of off 4] assms(2) be32_mapped by auto

text \<open>The header fields a successful \<open>init\<close> has read.\<close>

lemma parser_init_fields:
  assumes "mapped m fdt 40" "fdt \<noteq> 0"
  obtains magic version totalsize off_struct off_strings off_rsvmap size_struct size_strings s'
  where "be32 m fdt = Inr magic" "be32 m (fdt + 20) = Inr version"
    "be32 m (fdt + 4) = Inr totalsize" "be32 m (fdt + 8) = Inr off_struct"
    "be32 m (fdt + 12) = Inr off_strings" "be32 m (fdt + 16) = Inr off_rsvmap"
    "be32 m (fdt + 36) = Inr size_struct" "be32 m (fdt + 32) = Inr size_strings"
    "parser_init m s fdt = Inr (init_status magic version totalsize off_struct off_strings
       off_rsvmap size_struct size_strings, s')"
    "init_status magic version totalsize off_struct off_strings off_rsvmap size_struct size_strings
       = StatusOk \<Longrightarrow>
     prs_valid s' \<and> prs_header s' = fdt \<and> prs_blob s' = fdt \<and>
     prs_blob_end s' = fdt + ucast totalsize \<and> prs_struct s' = fdt + ucast off_struct \<and>
     prs_struct_end s' = fdt + ucast off_struct + ucast size_struct \<and>
     prs_strings s' = fdt + ucast off_strings \<and> prs_strings_size s' = size_strings \<and>
     prs_pos s' = prs_struct s'"
proof -
  note hm = header_mapped [OF assms(1)]
  obtain magic where f0: "be32 m fdt = Inr magic" using hm [of 0] by auto
  obtain totalsize where f1: "be32 m (fdt + 4) = Inr totalsize" using hm [of 4] by auto
  obtain off_struct where f2: "be32 m (fdt + 8) = Inr off_struct" using hm [of 8] by auto
  obtain off_strings where f3: "be32 m (fdt + 12) = Inr off_strings" using hm [of 12] by auto
  obtain off_rsvmap where f4: "be32 m (fdt + 16) = Inr off_rsvmap" using hm [of 16] by auto
  obtain version where f5: "be32 m (fdt + 20) = Inr version" using hm [of 20] by auto
  obtain size_strings where f6: "be32 m (fdt + 32) = Inr size_strings" using hm [of 32] by auto
  obtain size_struct where f7: "be32 m (fdt + 36) = Inr size_struct" using hm [of 36] by auto
  note fields = f0 f1 f2 f3 f4 f5 f6 f7
  let ?st = "init_status magic version totalsize off_struct off_strings off_rsvmap size_struct size_strings"
  have "\<exists>s'. parser_init m s fdt = Inr (?st, s') \<and> (?st = StatusOk \<longrightarrow>
     prs_valid s' \<and> prs_header s' = fdt \<and> prs_blob s' = fdt \<and>
     prs_blob_end s' = fdt + ucast totalsize \<and> prs_struct s' = fdt + ucast off_struct \<and>
     prs_struct_end s' = fdt + ucast off_struct + ucast size_struct \<and>
     prs_strings s' = fdt + ucast off_strings \<and> prs_strings_size s' = size_strings \<and>
     prs_pos s' = prs_struct s')"
    using assms(2) fields
    by (simp add: parser_init_def Let_def hdr_defs init_status_def FDT_MAGIC_def
        FDT_SUPPORTED_VERSION_def u64_sum_of_u32 u32_less_17)
  then show ?thesis using that fields by blast
qed

lemma parser_init_ok:
  assumes "blob_in_memory m fdt" and "parser_init m s fdt = Inr (StatusOk, s')"
  shows "parser_ok m s' \<and> prs_valid s' \<and> prs_pos s' = prs_struct s' \<and>
    prs_blob s' = fdt \<and> fdt \<le> prs_struct s' \<and> prs_struct_end s' \<le> prs_blob_end s' \<and>
    fdt \<le> prs_strings s' \<and> unat (prs_strings s') + unat (prs_strings_size s') \<le> unat (prs_blob_end s')"
proof -
  from assms(1) have mp: "mapped m fdt 40" and nz: "fdt \<noteq> 0" and far: "unat fdt + 2 ^ 33 + 16 < 2 ^ 64"
    by (simp_all add: blob_in_memory_def)
  obtain magic version totalsize off_struct off_strings off_rsvmap size_struct size_strings s1
  where ts: "be32 m (fdt + 4) = Inr totalsize" and
    i: "parser_init m s fdt = Inr (init_status magic version totalsize off_struct off_strings
       off_rsvmap size_struct size_strings, s1)" and
    ok: "init_status magic version totalsize off_struct off_strings off_rsvmap size_struct size_strings
       = StatusOk \<Longrightarrow>
     prs_valid s1 \<and> prs_header s1 = fdt \<and> prs_blob s1 = fdt \<and>
     prs_blob_end s1 = fdt + ucast totalsize \<and> prs_struct s1 = fdt + ucast off_struct \<and>
     prs_struct_end s1 = fdt + ucast off_struct + ucast size_struct \<and>
     prs_strings s1 = fdt + ucast off_strings \<and> prs_strings_size s1 = size_strings \<and>
     prs_pos s1 = prs_struct s1"
    using parser_init_fields [OF mp nz, of s thesis] by blast
  from i assms(2) have st: "init_status magic version totalsize off_struct off_strings off_rsvmap
      size_struct size_strings = StatusOk" and "s1 = s'" by simp_all
  with ok have s': "prs_valid s'" "prs_blob s' = fdt" "prs_blob_end s' = fdt + ucast totalsize"
      "prs_struct s' = fdt + ucast off_struct"
      "prs_struct_end s' = fdt + ucast off_struct + ucast size_struct"
      "prs_strings s' = fdt + ucast off_strings" "prs_strings_size s' = size_strings"
      "prs_pos s' = prs_struct s'"
    by simp_all
  from st have fits: "unat off_struct + unat size_struct \<le> unat totalsize"
      "unat off_strings + unat size_strings \<le> unat totalsize"
    by (auto simp: init_status_def split: if_splits)
  have mt: "mapped m fdt (unat totalsize)"
    using assms(1) ts by (simp add: blob_in_memory_def hdr_defs)
  have b32: "unat totalsize < 2 ^ 32" using unat_u32_bound [of totalsize] by simp
  have e1: "unat (fdt + ucast off_struct) = unat fdt + unat off_struct"
    using far fits b32 by (subst unat_u64_add) auto
  have e2: "unat (fdt + ucast off_struct + ucast size_struct) = unat fdt + unat off_struct + unat size_struct"
    using far fits b32 e1 by (subst unat_u64_add) auto
  have e3: "unat (fdt + ucast off_strings) = unat fdt + unat off_strings"
    using far fits b32 by (subst unat_u64_add) auto
  have e4: "unat (fdt + ucast totalsize) = unat fdt + unat totalsize"
    using far b32 by (subst unat_u64_add) auto
  have "mapped m (fdt + ucast off_struct) (unat size_struct)"
    using e1 fits by (intro mapped_sub [OF mt]) (auto simp: word_le_nat_alt)
  then show ?thesis
    using s' e1 e2 e3 e4 fits far b32 by (simp add: parser_ok_def word_le_nat_alt)
qed

section \<open>Whole blobs\<close>

text \<open>A complete blob: header, memory reservations, structure block, strings.\<close>

definition enc_rsv :: "(u64 \<times> u64) list \<Rightarrow> u8 list" where
  "enc_rsv rsv = concat (map (\<lambda>(a, n). enc64 a @ enc64 n) rsv) @ enc64 0 @ enc64 0"

definition fdt_size :: "(u64 \<times> u64) list \<Rightarrow> event list \<Rightarrow> u8 list \<Rightarrow> nat" where
  "fdt_size rsv es strs = 40 + length (enc_rsv rsv) + length (enc_block es) + length strs"

definition enc_fdt :: "(u64 \<times> u64) list \<Rightarrow> event list \<Rightarrow> u8 list \<Rightarrow> u8 list" where
  "enc_fdt rsv es strs =
     enc32 0xD00DFEED @ enc32 (of_nat (fdt_size rsv es strs)) @
     enc32 (of_nat (40 + length (enc_rsv rsv))) @
     enc32 (of_nat (40 + length (enc_rsv rsv) + length (enc_block es))) @
     enc32 40 @ enc32 17 @ enc32 16 @ enc32 0 @
     enc32 (of_nat (length strs)) @ enc32 (of_nat (length (enc_block es))) @
     enc_rsv rsv @ enc_block es @ strs"

lemma length_enc_fdt: "length (enc_fdt rsv es strs) = fdt_size rsv es strs"
  by (simp add: enc_fdt_def fdt_size_def)

lemma length_enc_rsv: "length (enc_rsv rsv) = 16 * length rsv + 16"
  by (induction rsv) (auto simp: enc_rsv_def)

lemma unat_of_nat_u32: "n < 2 ^ 32 \<Longrightarrow> unat (of_nat n :: u32) = n"
  by (simp add: unat_of_nat)

lemma ucast_of_nat_u32: "n < 2 ^ 32 \<Longrightarrow> (ucast (of_nat n :: u32) :: u64) = of_nat n"
  by (metis unat_of_nat_u32 unat_ucast_32_64 of_nat_unat ucast_id)

text \<open>Where the parts of an encoded blob lie.\<close>

lemma enc_fdt_parts:
  assumes "bytes_at m fdt (enc_fdt rsv es strs)"
  shows "bytes_at m fdt (enc32 0xD00DFEED)"
    and "bytes_at m (fdt + 4) (enc32 (of_nat (fdt_size rsv es strs)))"
    and "bytes_at m (fdt + 8) (enc32 (of_nat (40 + length (enc_rsv rsv))))"
    and "bytes_at m (fdt + 12) (enc32 (of_nat (40 + length (enc_rsv rsv) + length (enc_block es))))"
    and "bytes_at m (fdt + 16) (enc32 40)" and "bytes_at m (fdt + 20) (enc32 17)"
    and "bytes_at m (fdt + 32) (enc32 (of_nat (length strs)))"
    and "bytes_at m (fdt + 36) (enc32 (of_nat (length (enc_block es))))"
    and "bytes_at m (fdt + 40) (enc_rsv rsv)"
    and "bytes_at m (fdt + 40 + of_nat (length (enc_rsv rsv))) (enc_block es)"
    and "bytes_at m (fdt + 40 + of_nat (length (enc_rsv rsv)) + of_nat (length (enc_block es))) strs"
  using assms unfolding enc_fdt_def bytes_at_append by (simp_all add: add.assoc)

lemma init_encoded:
  assumes at_blob: "bytes_at m fdt (enc_fdt rsv es strs)" and small: "fdt_size rsv es strs < 2 ^ 32"
    and "fdt \<noteq> 0" and far: "unat fdt + 2 ^ 33 + 16 < 2 ^ 64"
  obtains s where "parser_init m s0 fdt = Inr (StatusOk, s)" "blob_in_memory m fdt"
    "prs_valid s" "prs_header s = fdt" "prs_blob s = fdt"
    "prs_blob_end s = fdt + of_nat (fdt_size rsv es strs)"
    "prs_pos s = fdt + 40 + of_nat (length (enc_rsv rsv))"
    "prs_struct_end s = fdt + 40 + of_nat (length (enc_rsv rsv)) + of_nat (length (enc_block es))"
    "prs_strings s = fdt + 40 + of_nat (length (enc_rsv rsv)) + of_nat (length (enc_block es))"
    "prs_strings_size s = of_nat (length strs)" "prs_struct s = fdt + 40 + of_nat (length (enc_rsv rsv))"
proof -
  let ?r = "length (enc_rsv rsv)" and ?b = "length (enc_block es)" and ?t = "fdt_size rsv es strs"
  have bounds: "40 + ?r + ?b + length strs = ?t" by (simp add: fdt_size_def)
  note rd = enc_fdt_parts(1-8) [OF at_blob, THEN be32_enc32]
  have mt: "mapped m fdt ?t"
    using bytes_at_mapped [OF at_blob] by (simp add: length_enc_fdt)
  then have "mapped m fdt 40" by (rule mapped_mono) (simp add: fdt_size_def)
  with assms(3) far mt rd(2) small have blob: "blob_in_memory m fdt"
    by (simp add: blob_in_memory_def hdr_defs unat_of_nat_u32)
  have u: "unat (of_nat ?t :: u32) = ?t" "unat (of_nat (40 + ?r) :: u32) = 40 + ?r"
      "unat (of_nat (40 + ?r + ?b) :: u32) = 40 + ?r + ?b" "unat (of_nat ?b :: u32) = ?b"
      "unat (of_nat (length strs) :: u32) = length strs"
    using small bounds by (auto intro!: unat_of_nat_u32 simp del: of_nat_add)
  have "\<not> (ucast (of_nat (40 + ?r) :: u32) + ucast (of_nat ?b :: u32) :: u64) > ucast (of_nat ?t :: u32)"
    "\<not> (ucast (of_nat (40 + ?r + ?b) :: u32) + ucast (of_nat (length strs) :: u32) :: u64)
      > ucast (of_nat ?t :: u32)"
    "\<not> (ucast (40 :: u32) + 16 :: u64) > ucast (of_nat ?t :: u32)"
    unfolding u64_sum_of_u32 u using length_enc_rsv [of rsv] bounds by simp_all
  then have "\<exists>s. parser_init m s0 fdt = Inr (StatusOk, s) \<and>
      prs_valid s \<and> prs_header s = fdt \<and> prs_blob s = fdt \<and>
      prs_blob_end s = fdt + ucast (of_nat ?t :: u32) \<and> prs_pos s = fdt + ucast (of_nat (40 + ?r) :: u32) \<and>
      prs_struct_end s = fdt + ucast (of_nat (40 + ?r) :: u32) + ucast (of_nat ?b :: u32) \<and>
      prs_strings s = fdt + ucast (of_nat (40 + ?r + ?b) :: u32) \<and> prs_strings_size s = of_nat (length strs) \<and>
      prs_struct s = fdt + ucast (of_nat (40 + ?r) :: u32)"
    using rd assms(3)
    by (simp add: parser_init_def Let_def hdr_defs FDT_MAGIC_def FDT_SUPPORTED_VERSION_def
        del: of_nat_add not_less)
  moreover have "(ucast (of_nat ?t :: u32) :: u64) = of_nat ?t"
      "(ucast (of_nat (40 + ?r) :: u32) :: u64) = 40 + of_nat ?r"
      "(ucast (of_nat (40 + ?r + ?b) :: u32) :: u64) = 40 + of_nat ?r + of_nat ?b"
      "(ucast (of_nat ?b :: u32) :: u64) = of_nat ?b"
    using small bounds by (subst ucast_of_nat_u32; simp)+
  ultimately show ?thesis using that blob by (auto simp: add.assoc)
qed

lemma enc_rsv_nth:
  assumes "bytes_at m p (enc_rsv rsv)" "i < length rsv"
  shows "bytes_at m (p + of_nat (16 * i)) (enc64 (fst (rsv ! i)) @ enc64 (snd (rsv ! i)))"
  using assms
proof (induction rsv arbitrary: p i)
  case Nil
  then show ?case by simp
next
  case (Cons r rsv)
  then have hd: "bytes_at m p (enc64 (fst r) @ enc64 (snd r))"
    and tl: "bytes_at m (p + 16) (enc_rsv rsv)"
    by (auto simp: enc_rsv_def bytes_at_append split_def add.assoc)
  show ?case
  proof (cases i)
    case 0
    with hd show ?thesis by simp
  next
    case (Suc j)
    with Cons.IH [OF tl, of j] Cons.prems show ?thesis by (simp add: add.assoc algebra_simps)
  qed
qed

lemma enc_rsv_end:
  "bytes_at m p (enc_rsv rsv) \<Longrightarrow> bytes_at m (p + of_nat (16 * length rsv)) (enc64 0 @ enc64 0)"
proof (induction rsv arbitrary: p)
  case (Cons r rsv)
  then have "bytes_at m (p + 16) (enc_rsv rsv)"
    by (auto simp: enc_rsv_def bytes_at_append split_def add.assoc)
  from Cons.IH [OF this] show ?case by (simp add: algebra_simps)
qed (simp add: enc_rsv_def)

text \<open>The parser states a client can reach by calling \<open>next\<close>.\<close>

inductive reached :: "mem \<Rightarrow> Parser \<Rightarrow> Parser \<Rightarrow> bool" for m :: mem and s0 :: Parser where
  reached_init: "reached m s0 s0"
| reached_next: "reached m s0 s \<Longrightarrow> parser_next m s = Inr (t, s') \<Longrightarrow> reached m s0 s'"

lemma reached_ok: "reached m s0 s \<Longrightarrow> parser_ok m s0 \<Longrightarrow> parser_ok m s"
proof (induction rule: reached.induct)
  case (reached_next s t s')
  with parser_next_ok [of m s] show ?case by (auto simp: token_ok_def)
qed

text \<open>A small blob: the root node with one property and a padding token.\<close>

definition demo_events :: "event list" where
  "demo_events = [Ev_Begin [], Ev_Prop 0 [0, 0, 0, 1, 5], Ev_Nop, Ev_End]"

definition demo_fdt :: mem where
  "demo_fdt = mem_of 4096 (enc_fdt [(0x80000000, 0x1000)] demo_events [97, 0])"

lemma demo_fdt_size: "fdt_size [(0x80000000, 0x1000)] demo_events [97, 0] = 114"
  by (simp add: fdt_size_def length_enc_rsv enc_block_def demo_events_def length_pad4)

lemma demo_fdt_at: "bytes_at demo_fdt 4096 (enc_fdt [(0x80000000, 0x1000)] demo_events [97, 0])"
  unfolding demo_fdt_def by (rule bytes_at_mem_of) (simp add: length_enc_fdt demo_fdt_size)

lemma demo_fdt_init:
  obtains s where "parser_init demo_fdt parser_default 4096 = Inr (StatusOk, s)"
    "blob_in_memory demo_fdt 4096"
  using init_encoded [OF demo_fdt_at, of parser_default thesis] demo_fdt_size by auto

section \<open>Properties\<close>

text \<open>Big-endian integers are read back as they were encoded, at every address, aligned
  or not.\<close>

theorem be_roundtrip:
  assumes "bytes_at m p (enc32 v)" and "bytes_at m q (enc64 w)"
  shows "read_u32 m p = Inr v \<and> read_u64 m q = Inr w"
  using assms by (simp add: read_u32_def read_u64_def be32_enc32 be64_enc64)

theorem be_roundtrip_witness:
  "read_u32 (mem_of 4097 (enc64 0x0102030405060708)) 4097 = Inr 0x01020304
   \<and> read_u64 (mem_of 4097 (enc64 0x0102030405060708)) 4097 = Inr 0x0102030405060708"
proof (rule be_roundtrip)
  show at8: "bytes_at (mem_of 4097 (enc64 0x0102030405060708)) 4097 (enc64 0x0102030405060708)"
    by (rule bytes_at_mem_of) simp
  then show "bytes_at (mem_of 4097 (enc64 0x0102030405060708)) 4097 (enc32 0x01020304)"
    by (simp add: enc64_def bytes_at_append)
qed

text \<open>C25: On a header that is in memory \<open>init\<close> always returns, with the status that the
  magic number, the version and the block bounds, added as unbounded numbers, call for.\<close>

theorem parser_init_decides:
  assumes "mapped m fdt 40" and "fdt \<noteq> 0"
  shows "\<exists>magic version totalsize off_struct off_strings off_rsvmap size_struct size_strings s'.
    be32 m fdt = Inr magic \<and> be32 m (fdt + 20) = Inr version \<and> be32 m (fdt + 4) = Inr totalsize \<and>
    be32 m (fdt + 8) = Inr off_struct \<and> be32 m (fdt + 12) = Inr off_strings \<and>
    be32 m (fdt + 16) = Inr off_rsvmap \<and> be32 m (fdt + 36) = Inr size_struct \<and>
    be32 m (fdt + 32) = Inr size_strings \<and>
    parser_init m s fdt = Inr (init_status magic version totalsize off_struct off_strings
      off_rsvmap size_struct size_strings, s')"
  by (rule parser_init_fields [OF assms, of s]) blast

theorem parser_init_decides_witness:
  "\<exists>magic version totalsize off_struct off_strings off_rsvmap size_struct size_strings s'.
    be32 (mem_of 4096 (replicate 40 7)) 4096 = Inr magic \<and>
    be32 (mem_of 4096 (replicate 40 7)) (4096 + 20) = Inr version \<and>
    be32 (mem_of 4096 (replicate 40 7)) (4096 + 4) = Inr totalsize \<and>
    be32 (mem_of 4096 (replicate 40 7)) (4096 + 8) = Inr off_struct \<and>
    be32 (mem_of 4096 (replicate 40 7)) (4096 + 12) = Inr off_strings \<and>
    be32 (mem_of 4096 (replicate 40 7)) (4096 + 16) = Inr off_rsvmap \<and>
    be32 (mem_of 4096 (replicate 40 7)) (4096 + 36) = Inr size_struct \<and>
    be32 (mem_of 4096 (replicate 40 7)) (4096 + 32) = Inr size_strings \<and>
    parser_init (mem_of 4096 (replicate 40 7)) parser_default 4096 =
      Inr (init_status magic version totalsize off_struct off_strings off_rsvmap size_struct
        size_strings, s')"
proof (rule parser_init_decides)
  have "bytes_at (mem_of 4096 (replicate 40 7)) 4096 (replicate 40 7)"
    by (rule bytes_at_mem_of) simp
  from bytes_at_mapped [OF this] show "mapped (mem_of 4096 (replicate 40 7)) 4096 40" by simp
qed simp

text \<open>C2: Memory safety of the streaming parser: once \<open>init\<close> has accepted a blob that is
  in memory, every later call of \<open>next\<close> returns without leaving the blob, whatever bytes
  the structure block holds; a node name is a NUL-terminated string inside the block and a
  property value lies inside it with its whole length.\<close>

theorem parser_walk_memory_safe:
  assumes "blob_in_memory m fdt" and "parser_init m s fdt = Inr (StatusOk, s0)"
    and "reached m s0 s1"
  shows "\<exists>t s2. parser_next m s1 = Inr (t, s2) \<and> token_ok m s1 t s2"
  using parser_init_ok [OF assms(1,2)] reached_ok [OF assms(3)] parser_next_ok by blast

theorem parser_walk_memory_safe_witness:
  "\<exists>s0. parser_init demo_fdt parser_default 4096 = Inr (StatusOk, s0) \<and>
    (\<exists>t s2. parser_next demo_fdt s0 = Inr (t, s2) \<and> token_ok demo_fdt s0 t s2)"
  by (rule demo_fdt_init) (blast intro: parser_walk_memory_safe reached_init)

text \<open>C24: The walk over an accepted blob ends: the loop over \<open>next\<close> returns for every body
  that returns, whatever bytes the structure block holds.\<close>

theorem parser_walk_terminates:
  assumes "blob_in_memory m fdt" and "parser_init m s fdt = Inr (StatusOk, s0)"
    and "\<forall>p st. body p st \<noteq> None"
  shows "\<exists>r. walk (parser_next m) body s0 st = Some r"
  using fdt.walk_returns [of body m s0 st] parser_init_ok [OF assms(1,2)] assms(3) by auto

theorem parser_walk_terminates_witness:
  "\<exists>s0 r. parser_init demo_fdt parser_default 4096 = Inr (StatusOk, s0) \<and>
    walk (parser_next demo_fdt) (\<lambda>p n. Some (Inr (Suc n))) s0 0 = Some r"
proof (rule demo_fdt_init)
  fix s assume i: "parser_init demo_fdt parser_default 4096 = Inr (StatusOk, s)"
    and b: "blob_in_memory demo_fdt 4096"
  from parser_walk_terminates [OF b i, of "\<lambda>p n. Some (Inr (Suc n))" 0] i show ?thesis by auto
qed

text \<open>\<open>Token::End\<close> is final: after it every further call of \<open>next\<close> returns it
  again and leaves the parser as it is.\<close>

theorem parser_end_is_final:
  assumes "parser_next m s = Inr (End, s')"
  shows "parser_next m s' = Inr (End, s')"
proof -
  have stopped: "prs_token s' = End \<and> (\<not> prs_valid s' \<or> prs_struct_end s' \<le> prs_pos s')"
    if "next_loop m s = Inr (End, s')" for s
    using that
  proof (induction m s rule: next_loop.induct)
    case (1 m s)
    then show ?case
      by (auto simp: next_loop.simps [of m s] Let_def next_stop_def next_end_node_def
          next_begin_node_def next_prop_def bind_res_Inr_iff split: if_splits)
  qed
  have "prs_token s' = End \<and> (\<not> prs_valid s' \<or> prs_struct_end s' \<le> prs_pos s')"
    using assms stopped [of s] by (auto simp: parser_next_def split: if_splits)
  moreover from this have "s'\<lparr>prs_token := End\<rparr> = s'" by (cases s') simp
  ultimately show ?thesis by (simp add: parser_next_def)
qed

theorem parser_end_is_final_witness:
  "parser_next demo_fdt (parser_default\<lparr>prs_token := Prop\<rparr>) = Inr (End, parser_default)
   \<and> parser_next demo_fdt parser_default = Inr (End, parser_default)"
proof -
  have n: "parser_next demo_fdt (parser_default\<lparr>prs_token := Prop\<rparr>) = Inr (End, parser_default)"
    by (simp add: parser_next_def parser_default_def)
  from n parser_end_is_final [OF n] show ?thesis by blast
qed

text \<open>A walk over an encoded blob runs its body on the events.\<close>

lemma walk_blob:
  assumes "bytes_at m fdt (enc_fdt rsv es strs)" and "fdt_size rsv es strs < 2 ^ 32"
    and "fdt \<noteq> 0" and "unat fdt mod 4 = 0" and "unat fdt + 2 ^ 33 + 16 < 2 ^ 64"
    and "\<forall>e\<in>set es. event_ok e"
  shows "\<exists>s ps. parser_init m s0 fdt = Inr (StatusOk, s)
    \<and> prs_strings s = fdt + 40 + of_nat (length (enc_rsv rsv)) + of_nat (length (enc_block es))
    \<and> prs_strings_size s = of_nat (length strs) \<and> prs_struct s \<noteq> 0
    \<and> list_all2 (shown m s) ps (filter (\<lambda>e. e \<noteq> Ev_Nop) es)
    \<and> (\<forall>body st. walk (parser_next m) body s st = run_body body ps st)"
proof -
  let ?r = "length (enc_rsv rsv)" and ?b = "length (enc_block es)"
  obtain s where s: "parser_init m s0 fdt = Inr (StatusOk, s)" "blob_in_memory m fdt"
      "prs_valid s" "prs_pos s = fdt + 40 + of_nat ?r"
      "prs_struct_end s = fdt + 40 + of_nat ?r + of_nat ?b"
      "prs_strings s = fdt + 40 + of_nat ?r + of_nat ?b" "prs_strings_size s = of_nat (length strs)"
      "prs_struct s = fdt + 40 + of_nat ?r"
    using init_encoded [OF assms(1,2,3,5), of s0 thesis] by blast
  have ok: "parser_ok m s" using parser_init_ok [OF s(2,1)] by simp
  have sz: "40 + ?r + ?b < 2 ^ 32" using assms(2) by (simp add: fdt_size_def)
  have p1: "unat (fdt + of_nat (40 + ?r)) = unat fdt + (40 + ?r)"
    using sz assms(5) by (intro unat_u64_add_of_nat) simp
  have p2: "unat (fdt + of_nat (40 + ?r + ?b)) = unat fdt + (40 + ?r + ?b)"
    using sz assms(5) by (intro unat_u64_add_of_nat) simp
  have pos: "unat (prs_pos s) = unat fdt + (40 + ?r)" using p1 s(4) by (simp add: add.assoc)
  have "prs_struct s \<noteq> 0" using p1 s(8) by (auto simp: add.assoc)
  moreover have "unat (prs_struct_end s) = unat fdt + (40 + ?r + ?b)" using p2 s(5) by (simp add: add.assoc)
  moreover have "unat (prs_pos s) mod 4 = 0"
    using pos assms(4) length_enc_rsv [of rsv] by presburger
  moreover have "bytes_at m (prs_pos s) (enc_block es)"
    using enc_fdt_parts(10) [OF assms(1)] s(4) by simp
  ultimately show ?thesis
    using walk_encoded [OF ok s(3)] pos assms(6) s(1,6,7) by fastforce
qed

text \<open>C1: Round trip of whole blobs: the walk over an encoded tree sees exactly the tree's
  events, in order, with their names, values and lengths, the \<open>FDT_NOP\<close> tokens left out.\<close>

theorem fdt_roundtrip:
  assumes "bytes_at m fdt (enc_fdt rsv es strs)" and "fdt_size rsv es strs < 2 ^ 32"
    and "fdt \<noteq> 0" and "unat fdt mod 4 = 0" and "unat fdt + 2 ^ 33 + 16 < 2 ^ 64"
    and "\<forall>e\<in>set es. event_ok e"
  shows "\<exists>s ps. parser_init m s0 fdt = Inr (StatusOk, s)
    \<and> list_all2 (shows_event m) ps (filter (\<lambda>e. e \<noteq> Ev_Nop) es)
    \<and> (\<forall>body st. walk (parser_next m) body s st = run_body body ps st)"
proof -
  from walk_blob [OF assms, of s0] obtain s ps where "parser_init m s0 fdt = Inr (StatusOk, s)"
      "list_all2 (shown m s) ps (filter (\<lambda>e. e \<noteq> Ev_Nop) es)" "\<forall>(body :: Parser \<Rightarrow> 'a \<Rightarrow> 'a comp) st. walk (parser_next m) body s st = run_body body ps st" by blast
  moreover then have "list_all2 (shows_event m) ps (filter (\<lambda>e. e \<noteq> Ev_Nop) es)"
    by (elim list_all2_mono) (simp add: shown_def)
  ultimately show ?thesis by blast
qed


theorem fdt_roundtrip_witness:
  "\<exists>s ps. parser_init demo_fdt parser_default 4096 = Inr (StatusOk, s)
    \<and> list_all2 (shows_event demo_fdt) ps [Ev_Begin [], Ev_Prop 0 [0, 0, 0, 1, 5], Ev_End]
    \<and> (\<forall>body st. walk (parser_next demo_fdt) body s st = run_body body ps (st :: nat))"
  using fdt_roundtrip [OF demo_fdt_at, of parser_default] demo_fdt_size by (simp add: demo_events_def)

text \<open>What \<open>reserve_entry\<close> reads in an encoded blob.\<close>

lemma reserve_entry_enc:
  assumes "bytes_at m fdt (enc_fdt rsv es strs)" and "fdt_size rsv es strs < 2 ^ 32"
    and "fdt \<noteq> 0" and "unat fdt + 2 ^ 33 + 16 < 2 ^ 64"
    and "parser_init m s0 fdt = Inr (StatusOk, s)" and "i \<le> length rsv"
  shows "reserve_entry m s (of_nat i) out =
    (if i < length rsv then Inr (rsv ! i \<noteq> (0, 0), rsv ! i) else Inr (False, 0, 0))"
proof -
  let ?p = "fdt + 40 + of_nat (16 * i)"
  obtain s1 where "parser_init m s0 fdt = Inr (StatusOk, s1)"
    and s1: "prs_valid s1" "prs_header s1 = fdt" "prs_blob s1 = fdt"
      "prs_blob_end s1 = fdt + of_nat (fdt_size rsv es strs)"
    using init_encoded [OF assms(1-4), of s0 thesis] by blast
  with assms(5) have s: "prs_valid s" "prs_header s = fdt" "prs_blob s = fdt"
      "prs_blob_end s = fdt + of_nat (fdt_size rsv es strs)"
    by simp_all
  have sz: "56 + 16 * i \<le> fdt_size rsv es strs"
    using assms(6) by (simp add: fdt_size_def length_enc_rsv)
  have idx: "(ucast (16 * of_nat i :: u32) :: u64) = of_nat (16 * i)"
    using ucast_of_nat_u32 [of "16 * i"] sz assms(2) by simp
  have "unat (fdt + of_nat (40 + 16 * i + 16)) = unat fdt + (40 + 16 * i + 16)"
    using sz assms(2,4) by (intro unat_u64_add_of_nat) simp
  moreover have "unat (fdt + of_nat (fdt_size rsv es strs)) = unat fdt + fdt_size rsv es strs"
    using assms(2,4) by (intro unat_u64_add_of_nat) simp
  moreover have p16: "?p + 16 = fdt + of_nat (40 + 16 * i + 16)" by (simp add: algebra_simps)
  ultimately have fit: "\<not> ?p + 16 > prs_blob_end s"
    unfolding p16 s(4) word_less_nat_alt using sz by linarith
  have off: "be32 m (fdt + 16) = Inr 40" by (rule be32_enc32 [OF enc_fdt_parts(5) [OF assms(1)]])
  have val: "reserve_entry m s (of_nat i) out = Inr (a \<noteq> 0 \<or> n \<noteq> 0, a, n)"
    if "bytes_at m ?p (enc64 a @ enc64 n)" for a n
  proof -
    from that have "be64 m ?p = Inr a" "be64 m (?p + 8) = Inr n"
      by (simp_all add: bytes_at_append be64_enc64)
    with fit off idx s show ?thesis by (simp add: reserve_entry_def hdr_defs Let_def del: not_less)
  qed
  show ?thesis
    using val [OF enc_rsv_nth [OF enc_fdt_parts(9) [OF assms(1)], of i]]
      val [of 0 0] enc_rsv_end [OF enc_fdt_parts(9) [OF assms(1)]] assms(6)
    by (cases "rsv ! i") (auto simp: order_le_less)
qed

text \<open>Round trip of the memory reservation block: \<open>reserve_entry\<close> returns the entries
  of an encoded blob in order, and false for the terminating entry.\<close>

theorem reserve_entry_roundtrip:
  assumes "bytes_at m fdt (enc_fdt rsv es strs)" and "fdt_size rsv es strs < 2 ^ 32"
    and "fdt \<noteq> 0" and "unat fdt + 2 ^ 33 + 16 < 2 ^ 64"
    and "parser_init m s0 fdt = Inr (StatusOk, s)" and "i \<le> length rsv"
  shows "reserve_entry m s (of_nat i) out =
    (if i < length rsv then Inr (rsv ! i \<noteq> (0, 0), rsv ! i) else Inr (False, 0, 0))"
  by (rule reserve_entry_enc [OF assms])

theorem reserve_entry_roundtrip_witness:
  "\<exists>s. parser_init demo_fdt parser_default 4096 = Inr (StatusOk, s)
    \<and> reserve_entry demo_fdt s 0 (7, 7) = Inr (True, 0x80000000, 0x1000)
    \<and> reserve_entry demo_fdt s 1 (7, 7) = Inr (False, 0, 0)"
proof (rule demo_fdt_init)
  fix s assume s: "parser_init demo_fdt parser_default 4096 = Inr (StatusOk, s)"
  note r = reserve_entry_roundtrip [OF demo_fdt_at _ _ _ s]
  show ?thesis
    using s r [of 0 "(7, 7)"] r [of 1 "(7, 7)"] demo_fdt_size by simp
qed

end
