(* ===== verification/DeviceTree.thy ===== *)
theory DeviceTree
  imports FDT
begin

text \<open>
  The device tree layer above the parser (\<open>src/src/DeviceTree.h\<close>,
  \<open>src/src/DeviceTree.cpp\<close>): interrupt lists, cells, property and node frames, reading
  \<open>reg\<close> pairs, interrupt specifiers and \<open>ranges\<close>, matching \<open>compatible\<close> lists,
  the phandle table, and the two passes of \<open>parse_frames\<close>. A \<open>NodeFrame*\<close> is an index
  into the frames of the parse, the handlers that a node is dispatched to are an argument,
  and what they change is the state \<open>'k\<close> of the kernel.
\<close>

section \<open>Interrupt lists\<close>

record Interrupts =
  int_num_intids :: u32
  int_intids :: "u32 list"

definition Interrupts_Capacity :: u32 where "Interrupts_Capacity = 5"

definition register_intid :: "Interrupts \<Rightarrow> u32 \<Rightarrow> Interrupts res" where
  "register_intid s intid =
     bind_res (kassert (int_num_intids s < Interrupts_Capacity) ''precond'') (\<lambda>_.
     Inr (s\<lparr>int_intids := (int_intids s)[unat (int_num_intids s) := intid],
            int_num_intids := int_num_intids s + 1\<rparr>))"

definition interrupts_get :: "Interrupts \<Rightarrow> u32 \<Rightarrow> u32 res" where
  "interrupts_get s index =
     bind_res (kassert (index < int_num_intids s) ''precond'') (\<lambda>_.
     Inr (int_intids s ! unat index))"

definition interrupts_reset :: "Interrupts \<Rightarrow> Interrupts" where
  "interrupts_reset s = s\<lparr>int_num_intids := 0\<rparr>"

section \<open>Frames\<close>

definition MaxPropsPerNode :: u32 where "MaxPropsPerNode = 30"
definition MaxNodeDepth :: u32 where "MaxNodeDepth = 8"

record PropFrame =
  pf_name :: u64
  pf_value :: u64
  pf_len :: u32

record NodeCells =
  nc_address :: u32
  nc_size :: u32
  nc_interrupt_parent :: u32

definition cells_default :: NodeCells where
  "cells_default = \<lparr>nc_address = 2, nc_size = 1, nc_interrupt_parent = 0\<rparr>"

definition BytesPerUnit :: u32 where "BytesPerUnit = 4"

definition cells_total :: "NodeCells \<Rightarrow> u32" where
  "cells_total c = nc_address c + nc_size c"

definition cells_byte_size :: "NodeCells \<Rightarrow> u32" where
  "cells_byte_size c = cells_total c * BytesPerUnit"

record NodeFrame =
  nf_name :: u64
  nf_parent_cells :: NodeCells
  nf_own_cells :: NodeCells
  nf_nprops :: u32
  nf_compatible_prop_idx :: int
  nf_device_type_prop_idx :: int
  nf_props :: "PropFrame list"
  nf_parent :: "nat option"

text \<open>The properties \<open>_props[0], ..., _props[_nprops - 1]\<close> a loop over a node visits.\<close>

definition node_props :: "NodeFrame \<Rightarrow> PropFrame list" where
  "node_props f = take (unat (nf_nprops f)) (nf_props f)"

text \<open>\<open>strcmp(p, "l") == 0\<close> for a string literal of the kernel.\<close>

definition str_is :: "mem \<Rightarrow> u64 \<Rightarrow> string \<Rightarrow> bool res" where
  "str_is m p l = bind_res (strcmp m p (lit l) 0) (\<lambda>r. Inr (r = 0))"

fun find_prop_in :: "mem \<Rightarrow> PropFrame list \<Rightarrow> string \<Rightarrow> PropFrame option res" where
  "find_prop_in m [] name = Inr None"
| "find_prop_in m (p # ps) name =
     bind_res (str_is m (pf_name p) name) (\<lambda>b.
       if b then Inr (Some p) else find_prop_in m ps name)"

text \<open>After the last slot of the array a loop up to \<open>_nprops\<close> leaves the array.\<close>

definition nprops_overrun :: "NodeFrame \<Rightarrow> unit res" where
  "nprops_overrun f =
     (if length (nf_props f) < unat (nf_nprops f) then Inl (OutOfBounds (length (nf_props f)))
      else Inr ())"

definition find_prop :: "mem \<Rightarrow> NodeFrame \<Rightarrow> string \<Rightarrow> PropFrame option res" where
  "find_prop m f name =
     bind_res (find_prop_in m (node_props f) name) (\<lambda>r.
       case r of
         Some p \<Rightarrow> Inr (Some p)
       | None \<Rightarrow> bind_res (nprops_overrun f) (\<lambda>_. Inr None))"

definition compatible_prop :: "NodeFrame \<Rightarrow> PropFrame option" where
  "compatible_prop f =
     (if nf_compatible_prop_idx f < 0 then None
      else Some (nf_props f ! nat (nf_compatible_prop_idx f)))"

definition device_type_prop :: "NodeFrame \<Rightarrow> PropFrame option" where
  "device_type_prop f =
     (if nf_device_type_prop_idx f < 0 then None
      else Some (nf_props f ! nat (nf_device_type_prop_idx f)))"

record ParsingFrame =
  pg_node_frame :: "NodeFrame list"
  pg_top :: u32

definition current_frame :: "ParsingFrame \<Rightarrow> NodeFrame" where
  "current_frame pg = pg_node_frame pg ! unat (pg_top pg)"

definition set_current :: "ParsingFrame \<Rightarrow> NodeFrame \<Rightarrow> ParsingFrame" where
  "set_current pg f = pg\<lparr>pg_node_frame := (pg_node_frame pg)[unat (pg_top pg) := f]\<rparr>"

text \<open>
  A \<open>ParsingFrame\<close> on the stack: the members with initialisers have their values, the
  others (\<open>_name\<close>, \<open>_nprops\<close>, \<open>_props\<close>) are whatever \<open>junk\<close> says.
\<close>

definition frame_init :: "NodeFrame \<Rightarrow> NodeFrame" where
  "frame_init junk =
     junk\<lparr>nf_parent_cells := cells_default, nf_own_cells := cells_default,
          nf_compatible_prop_idx := - 1, nf_device_type_prop_idx := - 1, nf_parent := None\<rparr>"

definition parsing_frame_init :: "NodeFrame list \<Rightarrow> ParsingFrame" where
  "parsing_frame_init junk = \<lparr>pg_node_frame = map frame_init junk, pg_top = 0\<rparr>"

section \<open>Reading properties\<close>

definition read_prop :: "mem \<Rightarrow> PropFrame \<Rightarrow> u64 res" where
  "read_prop m prop =
     (if pf_len prop = 4 then bind_res (read_u32 m (pf_value prop)) (\<lambda>v. Inr (ucast v))
      else if pf_len prop = 8 then read_u64 m (pf_value prop)
      else kpanic ''Bad prop length for Parser::read_prop'')"

record RegPair =
  rp_address :: u64
  rp_length :: u64

definition read_reg_pair :: "mem \<Rightarrow> NodeCells \<Rightarrow> u64 \<Rightarrow> RegPair res" where
  "read_reg_pair m cells val =
     bind_res
       (if nc_address cells = 1 then bind_res (read_u32 m val) (\<lambda>v. Inr (ucast v))
        else if nc_address cells = 2 then read_u64 m val
        else Inr 0) (\<lambda>address.
     let length_value = val + ucast (nc_address cells * BytesPerUnit) in
     bind_res
       (if nc_size cells = 0 then Inr 0
        else if nc_size cells = 1 then bind_res (read_u32 m length_value) (\<lambda>v. Inr (ucast v))
        else if nc_size cells = 2 then read_u64 m length_value
        else Inr 0) (\<lambda>len.
     Inr \<lparr>rp_address = address, rp_length = len\<rparr>))"

definition read_interrupt_id :: "mem \<Rightarrow> PropFrame \<Rightarrow> u32 \<Rightarrow> u32 \<Rightarrow> u32 res" where
  "read_interrupt_id m prop index interrupt_cells =
     (let offset = ucast index * (ucast interrupt_cells * 4);
          interrupt_value = pf_value prop + offset in
      bind_res (read_u32 m interrupt_value) (\<lambda>type.
      bind_res (read_u32 m (interrupt_value + 4)) (\<lambda>number.
      Inr (if type = 0 then 32 + number else 16 + number))))"

fun read_cells_loop :: "mem \<Rightarrow> u64 \<Rightarrow> nat \<Rightarrow> u64 \<Rightarrow> u64 res" where
  "read_cells_loop m p 0 v = Inr v"
| "read_cells_loop m p (Suc n) v =
     bind_res (read_u32 m p) (\<lambda>c. read_cells_loop m (p + 4) n (push_bit 32 v OR ucast c))"

definition read_cells :: "mem \<Rightarrow> u64 \<Rightarrow> u32 \<Rightarrow> u64 res" where
  "read_cells m p ncells = read_cells_loop m p (unat ncells) 0"

text \<open>The loop over the \<open>(child, parent, length)\<close> triplets of one \<open>ranges\<close> property.\<close>

fun translate_triplets :: "mem \<Rightarrow> u32 \<Rightarrow> u32 \<Rightarrow> u32 \<Rightarrow> nat \<Rightarrow> u64 \<Rightarrow> u64 \<Rightarrow> u64 res" where
  "translate_triplets m child_cells parent_cells size_cells 0 p address = Inr address"
| "translate_triplets m child_cells parent_cells size_cells (Suc n) p address =
     bind_res (read_cells m p child_cells) (\<lambda>child_base.
     let p1 = p + ucast child_cells * 4 in
     bind_res (read_cells m p1 parent_cells) (\<lambda>parent_base.
     let p2 = p1 + ucast parent_cells * 4 in
     bind_res (read_cells m p2 size_cells) (\<lambda>len.
     let p3 = p2 + ucast size_cells * 4 in
     if address \<ge> child_base \<and> address < child_base + len
     then Inr (parent_base + (address - child_base))
     else translate_triplets m child_cells parent_cells size_cells n p3 address)))"

definition translate_bus :: "mem \<Rightarrow> NodeFrame \<Rightarrow> u64 \<Rightarrow> u64 res" where
  "translate_bus m bus address =
     bind_res (find_prop m bus ''ranges'') (\<lambda>ranges.
       case ranges of
         None \<Rightarrow> Inr address
       | Some r \<Rightarrow>
           if pf_len r = 0 then Inr address
           else
             let child_cells = nc_address (nf_own_cells bus);
                 parent_cells = nc_address (nf_parent_cells bus);
                 size_cells = nc_size (nf_own_cells bus);
                 triplet_cells = child_cells + parent_cells + size_cells;
                 triplet_bytes = triplet_cells * BytesPerUnit in
             if triplet_bytes = 0 then Inl DivZero
             else translate_triplets m child_cells parent_cells size_cells
                    (unat (pf_len r div triplet_bytes)) (pf_value r) address)"

text \<open>
  The loop up the chain of \<open>_parent\<close> pointers. A chain that has not ended after as many
  steps as there are frames has come back to a frame, and never ends.
\<close>

fun translate_chain :: "mem \<Rightarrow> NodeFrame list \<Rightarrow> nat \<Rightarrow> nat option \<Rightarrow> u64 \<Rightarrow> u64 comp" where
  "translate_chain m frames n None address = Some (Inr address)"
| "translate_chain m frames 0 (Some bus) address = None"
| "translate_chain m frames (Suc n) (Some bus) address =
     (if bus < length frames
      then bind_comp (Some (translate_bus m (frames ! bus) address)) (\<lambda>a.
             translate_chain m frames n (nf_parent (frames ! bus)) a)
      else Some (Inl (OutOfBounds bus)))"

definition translate_address :: "mem \<Rightarrow> NodeFrame list \<Rightarrow> nat \<Rightarrow> u64 \<Rightarrow> u64 comp" where
  "translate_address m frames node address =
     translate_chain m frames (length frames) (nf_parent (frames ! node)) address"

section \<open>Matching a node with a handler\<close>

lemma strnlen_loop_bounds:
  "strnlen_loop m b s maxlen = Inr l \<Longrightarrow> s - b \<le> maxlen \<Longrightarrow>
   s - b \<le> l \<and> l \<le> maxlen \<and> (load8 m s \<noteq> Inr 0 \<and> s - b \<noteq> maxlen \<longrightarrow> s - b < l)"
proof (induction m b s maxlen rule: strnlen_loop.induct)
  case (1 m b s maxlen)
  obtain c where c: "load8 m s = Inr c"
    using "1.prems"(1) by (auto simp: strnlen_loop.simps [of m b s maxlen] bind_res_Inr_iff)
  show ?case
  proof (cases "c = 0 \<or> s - b = maxlen")
    case True
    with c "1.prems" show ?thesis
      by (auto simp: strnlen_loop.simps [of m b s maxlen] split: if_splits)
  next
    case False
    then have less: "s - b < maxlen" using "1.prems"(2) by auto
    have eq: "s + 1 - b = s - b + 1" by simp
    have "strnlen_loop m b (s + 1) maxlen = Inr l"
      using "1.prems"(1) c False by (simp add: strnlen_loop.simps [of m b s maxlen])
    moreover have "s + 1 - b \<le> maxlen" unfolding eq by (rule inc_le [OF less])
    ultimately have "s - b + 1 \<le> l \<and> l \<le> maxlen"
      using "1.IH" [OF c] False eq by simp
    moreover have "s - b < s - b + 1" using less u64_less_Suc [OF less] by (simp add: word_less_nat_alt)
    ultimately show ?thesis by (auto intro: order_less_le_trans less_imp_le)
  qed
qed

text \<open>A candidate in a \<open>compatible\<close> list is consumed with its terminator.\<close>

lemma strnlen_progress:
  assumes "strnlen m s maxlen = Inr l" "maxlen \<noteq> 0"
  shows "l \<le> maxlen" and "l = 0 \<Longrightarrow> load8 m s = Inr 0"
  using strnlen_loop_bounds [of m s s maxlen l] assms by (auto simp: strnlen_def)

definition compat_next_offset :: "mem \<Rightarrow> u64 \<Rightarrow> u32 \<Rightarrow> u32 \<Rightarrow> u32 res" where
  "compat_next_offset m val len offset =
     (if offset < len
      then bind_res (load8 m (val + ucast offset)) (\<lambda>c. Inr (if c = 0 then offset + 1 else offset))
      else Inr offset)"

lemma compat_offset_measure:
  assumes "offset < len" "strnlen m (val + ucast offset) (ucast (len - offset)) = Inr l"
    and "compat_next_offset m val len (offset + ucast l) = Inr offset'"
  shows "unat len - unat offset' < unat len - unat offset"
proof -
  let ?rest = "ucast (len - offset) :: u64"
  have rest: "unat ?rest = unat len - unat offset" and pos: "unat offset < unat len"
    using assms(1) by (simp_all add: word_less_nat_alt unat_sub word_le_nat_alt)
  then have nz: "?rest \<noteq> 0" by (metis unat_0 zero_less_diff less_numeral_extra(3))
  have le: "unat l \<le> unat len - unat offset"
    using strnlen_progress(1) [OF assms(2) nz] rest by (simp add: word_le_nat_alt)
  then have "unat (ucast l :: u32) = unat l"
    using unat_u32_bound [of len] by (simp add: unsigned_ucast_eq take_bit_nat_eq_self_iff)
  then have o1: "unat (offset + ucast l) = unat offset + unat l"
    using le pos unat_u32_bound [of len] by (simp add: unat_word_ariths)
  show ?thesis
  proof (cases "offset + ucast l < len")
    case False
    with assms(3) have "offset' = offset + ucast l" by (simp add: compat_next_offset_def)
    with False o1 pos show ?thesis by (simp add: word_less_nat_alt)
  next
    case True
    then obtain c where c: "load8 m (val + ucast (offset + ucast l)) = Inr c"
        "offset' = (if c = 0 then offset + ucast l + 1 else offset + ucast l)"
      using assms(3) by (auto simp: compat_next_offset_def bind_res_Inr_iff)
    have "unat (offset + ucast l + 1) = unat offset + unat l + 1"
      using True o1 unat_u32_bound [of len] by (simp add: unat_word_ariths word_less_nat_alt)
    moreover have "c = 0" if "l = 0"
      using c(1) that strnlen_progress(2) [OF assms(2) nz] by simp
    ultimately show ?thesis
      using c(2) o1 pos by (cases "c = 0") (auto simp: unat_gt_0 intro!: diff_less_mono2)
  qed
qed

function compatible_loop :: "mem \<Rightarrow> u64 \<Rightarrow> u32 \<Rightarrow> string \<Rightarrow> u32 \<Rightarrow> bool res" where
  "compatible_loop m val len needle offset =
     (if offset < len
      then
        bind_res (strnlen m (val + ucast offset) (ucast (len - offset))) (\<lambda>l.
        bind_res (strlen (lit needle) 0) (\<lambda>needle_len.
        bind_res
          (if needle_len = ucast (ucast l :: u32)
           then bind_res (strncmp m (val + ucast offset) (lit needle) 0 (ucast (ucast l :: u32)))
                  (\<lambda>r. Inr (r = 0))
           else Inr False) (\<lambda>found.
        if found then Inr True
        else bind_res (compat_next_offset m val len (offset + ucast l)) (\<lambda>offset'.
             compatible_loop m val len needle offset'))))
      else Inr False)"
  by pat_completeness auto
termination
  by (relation "measure (\<lambda>(m, val, len, needle, offset). unat len - unat offset)")
    (auto intro: compat_offset_measure)

declare compatible_loop.simps [simp del]

definition compatible_list_contains :: "mem \<Rightarrow> u64 \<Rightarrow> u32 \<Rightarrow> string \<Rightarrow> bool res" where
  "compatible_list_contains m val len needle = compatible_loop m val len needle 0"

datatype MatchKind = Compatible | DeviceType

record NodeMapping =
  nm_phandle :: u32
  nm_interrupt_cells :: u32
  nm_clock_frequency :: u32
  nm_parent_clock :: u32

text \<open>\<open>_on_node\<close> reads the phandle table and the frames, and changes the kernel's state.\<close>

record 'k NodeHandler =
  nh_match_string :: string
  nh_match_kind :: MatchKind
  nh_on_node :: "NodeMapping list \<Rightarrow> NodeFrame list \<Rightarrow> nat \<Rightarrow> 'k \<Rightarrow> 'k comp"

fun dispatch_if_prop_match ::
    "mem \<Rightarrow> 'k NodeHandler list \<Rightarrow> NodeMapping list \<Rightarrow> NodeFrame list \<Rightarrow> nat \<Rightarrow>
     PropFrame option \<Rightarrow> PropFrame option \<Rightarrow> 'k \<Rightarrow> 'k comp" where
  "dispatch_if_prop_match m [] maps frames node cprop dprop k = Some (Inr k)"
| "dispatch_if_prop_match m (h # hs) maps frames node cprop dprop k =
     (let handler_match = (case nh_match_kind h of Compatible \<Rightarrow> cprop | DeviceType \<Rightarrow> dprop) in
      case handler_match of
        None \<Rightarrow> dispatch_if_prop_match m hs maps frames node cprop dprop k
      | Some p \<Rightarrow>
          bind_comp (Some (compatible_list_contains m (pf_value p) (pf_len p) (nh_match_string h)))
            (\<lambda>b. bind_comp (if b then nh_on_node h maps frames node k else Some (Inr k))
              (\<lambda>k'. dispatch_if_prop_match m hs maps frames node cprop dprop k')))"

section \<open>The phandle table\<close>

definition PhandleNodeMappingCapacity :: nat where "PhandleNodeMappingCapacity = 300"

definition find_mapping :: "NodeMapping list \<Rightarrow> u32 \<Rightarrow> NodeMapping option" where
  "find_mapping maps phandle = List.find (\<lambda>n. nm_phandle n = phandle) maps"

partial_function (option) lookup_clock_frequency :: "NodeMapping list \<Rightarrow> u32 \<Rightarrow> u32 comp" where
  "lookup_clock_frequency maps phandle =
     (if phandle \<noteq> 0
      then (case find_mapping maps phandle of
              None \<Rightarrow> Some (kpanic ''ShouldNotReachHere'')
            | Some mapping \<Rightarrow>
                if nm_clock_frequency mapping \<noteq> 0 then Some (Inr (nm_clock_frequency mapping))
                else lookup_clock_frequency maps (nm_parent_clock mapping))
      else Some (kpanic ''ShouldNotReachHere''))"

definition lookup_interrupt_cells :: "NodeMapping list \<Rightarrow> NodeCells \<Rightarrow> u32 res" where
  "lookup_interrupt_cells maps cells =
     bind_res (kassert (nc_interrupt_parent cells \<noteq> 0) ''precond'') (\<lambda>_.
       case find_mapping maps (nc_interrupt_parent cells) of
         None \<Rightarrow> kpanic ''phandle cannot be found''
       | Some mapping \<Rightarrow>
           bind_res (kassert (nm_interrupt_cells mapping \<noteq> 0) ''precond'') (\<lambda>_.
             Inr (nm_interrupt_cells mapping)))"

definition is_ignored_node :: "mem \<Rightarrow> u64 \<Rightarrow> bool res" where
  "is_ignored_node m node_name =
     (if node_name = 0 then Inr False
      else
        bind_res (load8 m node_name) (\<lambda>c0.
        bind_res (if c0 = of_char CHR ''_''
                  then bind_res (load8 m (node_name + 1)) (\<lambda>c1. Inr (c1 = of_char CHR ''_''))
                  else Inr False) (\<lambda>under.
        if under then Inr True else str_is m node_name ''aliases'')))"

section \<open>First pass: the phandle table\<close>

definition push_frame :: "ParsingFrame \<Rightarrow> ParsingFrame res" where
  "push_frame pg =
     (let parent_cells = nf_own_cells (current_frame pg);
          pg1 = pg\<lparr>pg_top := pg_top pg + 1\<rparr> in
      bind_res (kassert (pg_top pg1 < MaxNodeDepth) ''postcond'') (\<lambda>_.
      Inr (set_current pg1 ((current_frame pg1)\<lparr>nf_parent_cells := parent_cells\<rparr>))))"

definition pop_frame :: "ParsingFrame \<Rightarrow> ParsingFrame" where
  "pop_frame pg = (if pg_top pg > 0 then pg\<lparr>pg_top := pg_top pg - 1\<rparr> else pg)"

definition store_prop :: "ParsingFrame \<Rightarrow> PropFrame \<Rightarrow> ParsingFrame res" where
  "store_prop pg prop =
     (let f = current_frame pg in
      if unat (nf_nprops f) < length (nf_props f)
      then Inr (set_current pg (f\<lparr>nf_props := (nf_props f)[unat (nf_nprops f) := prop]\<rparr>))
      else Inl (OutOfBounds (unat (nf_nprops f))))"

definition bump_nprops :: "ParsingFrame \<Rightarrow> ParsingFrame res" where
  "bump_nprops pg =
     (let f = current_frame pg; pg1 = set_current pg (f\<lparr>nf_nprops := nf_nprops f + 1\<rparr>) in
      bind_res (kassert (nf_nprops f + 1 < MaxPropsPerNode) ''postcond'') (\<lambda>_. Inr pg1))"

definition parser_prop :: "Parser \<Rightarrow> PropFrame" where
  "parser_prop dtp =
     \<lparr>pf_name = parser_prop_name dtp, pf_value = parser_prop_value dtp, pf_len = parser_prop_len dtp\<rparr>"

fun collect_mapping :: "mem \<Rightarrow> PropFrame list \<Rightarrow> NodeMapping \<Rightarrow> NodeMapping res" where
  "collect_mapping m [] mapping = Inr mapping"
| "collect_mapping m (prop # props) mapping =
     bind_res (read_u32 m (pf_value prop)) (\<lambda>val.
     bind_res (str_is m (pf_name prop) ''phandle'') (\<lambda>b1.
     if b1 then collect_mapping m props (mapping\<lparr>nm_phandle := val\<rparr>)
     else
     bind_res (str_is m (pf_name prop) ''#interrupt-cells'') (\<lambda>b2.
     if b2 then collect_mapping m props (mapping\<lparr>nm_interrupt_cells := val\<rparr>)
     else
     bind_res (str_is m (pf_name prop) ''clock-frequency'') (\<lambda>b3.
     if b3 then collect_mapping m props (mapping\<lparr>nm_clock_frequency := val\<rparr>)
     else
     bind_res (str_is m (pf_name prop) ''clocks'') (\<lambda>b4.
     if b4 then collect_mapping m props (mapping\<lparr>nm_parent_clock := val\<rparr>)
     else collect_mapping m props mapping)))))"

definition mapping_default :: NodeMapping where
  "mapping_default =
     \<lparr>nm_phandle = 0, nm_interrupt_cells = 0, nm_clock_frequency = 0, nm_parent_clock = 0\<rparr>"

definition enter_node :: "Parser \<Rightarrow> ParsingFrame \<Rightarrow> ParsingFrame" where
  "enter_node dtp pg =
     set_current pg ((current_frame pg)\<lparr>nf_name := parser_node_name dtp, nf_nprops := 0\<rparr>)"

definition phandle_begin :: "mem \<Rightarrow> Parser \<Rightarrow> ParsingFrame \<Rightarrow> ParsingFrame res" where
  "phandle_begin m dtp pg =
     bind_res (str_is m (parser_node_name dtp) []) (\<lambda>root.
     bind_res (if root then Inr pg else push_frame pg) (\<lambda>pg1.
     Inr (enter_node dtp pg1)))"

definition phandle_end ::
    "mem \<Rightarrow> ParsingFrame \<Rightarrow> NodeMapping list \<Rightarrow> (ParsingFrame \<times> NodeMapping list) res" where
  "phandle_end m pg maps =
     bind_res (collect_mapping m (node_props (current_frame pg)) mapping_default) (\<lambda>mapping.
     bind_res (nprops_overrun (current_frame pg)) (\<lambda>_.
     bind_res
       (if nm_phandle mapping \<noteq> 0
        then let maps1 = maps @ [mapping] in
          bind_res (kassert (length maps1 < PhandleNodeMappingCapacity) ''postcond'') (\<lambda>_. Inr maps1)
        else Inr maps) (\<lambda>maps1.
     Inr (pop_frame pg, maps1))))"

definition phandle_prop :: "mem \<Rightarrow> Parser \<Rightarrow> ParsingFrame \<Rightarrow> ParsingFrame res" where
  "phandle_prop m dtp pg =
     bind_res (is_ignored_node m (nf_name (current_frame pg))) (\<lambda>ignored.
     if ignored then Inr pg
     else bind_res (store_prop pg (parser_prop dtp)) bump_nprops)"

definition phandle_step ::
    "mem \<Rightarrow> Parser \<Rightarrow> ParsingFrame \<times> NodeMapping list \<Rightarrow> (ParsingFrame \<times> NodeMapping list) res" where
  "phandle_step m dtp st =
     (case parser_current dtp of
        BeginNode \<Rightarrow> bind_res (phandle_begin m dtp (fst st)) (\<lambda>pg. Inr (pg, snd st))
      | EndNode \<Rightarrow> phandle_end m (fst st) (snd st)
      | Prop \<Rightarrow> bind_res (phandle_prop m dtp (fst st)) (\<lambda>pg. Inr (pg, snd st))
      | End \<Rightarrow> Inr st
      | Nop \<Rightarrow> Inr st)"

definition parse_frames_phandle ::
    "mem \<Rightarrow> u64 \<Rightarrow> NodeFrame list \<Rightarrow> NodeMapping list \<Rightarrow> (Status \<times> NodeMapping list) comp" where
  "parse_frames_phandle m fdt junk maps =
     bind_comp (Some (parser_init m parser_default fdt)) (\<lambda>(status, dtp).
     if status \<noteq> StatusOk then Some (Inr (status, maps))
     else bind_comp
       (walk (parser_next m) (\<lambda>p st. Some (phandle_step m p st)) dtp (parsing_frame_init junk, []))
       (\<lambda>st. Some (Inr (StatusOk, snd st))))"

section \<open>Second pass: dispatching nodes to handlers\<close>

definition full_begin :: "mem \<Rightarrow> Parser \<Rightarrow> ParsingFrame \<Rightarrow> ParsingFrame res" where
  "full_begin m dtp pg =
     bind_res (str_is m (parser_node_name dtp) []) (\<lambda>root.
     bind_res
       (if root then Inr pg
        else bind_res (push_frame pg) (\<lambda>pg1.
          let f = current_frame pg1 in
          Inr (set_current pg1
            (f\<lparr>nf_parent := Some (unat (pg_top pg1 - 1)),
               nf_own_cells := (nf_own_cells f)
                 \<lparr>nc_interrupt_parent := nc_interrupt_parent (nf_own_cells (current_frame pg))\<rparr>\<rparr>)))) (\<lambda>pg1.
     Inr (enter_node dtp pg1)))"

definition full_end ::
    "mem \<Rightarrow> 'k NodeHandler list \<Rightarrow> NodeMapping list \<Rightarrow> ParsingFrame \<Rightarrow> 'k \<Rightarrow> (ParsingFrame \<times> 'k) comp" where
  "full_end m handlers maps pg k =
     (let f = current_frame pg in
      bind_comp
        (dispatch_if_prop_match m handlers maps (pg_node_frame pg) (unat (pg_top pg))
          (compatible_prop f) (device_type_prop f) k)
        (\<lambda>k'. Some (Inr (pop_frame pg, k'))))"

definition set_cells :: "(NodeCells \<Rightarrow> NodeCells) \<Rightarrow> ParsingFrame \<Rightarrow> ParsingFrame" where
  "set_cells u pg =
     set_current pg ((current_frame pg)\<lparr>nf_own_cells := u (nf_own_cells (current_frame pg))\<rparr>)"

definition track_prop :: "mem \<Rightarrow> Parser \<Rightarrow> ParsingFrame \<Rightarrow> ParsingFrame res" where
  "track_prop m dtp pg =
     (let f = current_frame pg in
      bind_res (str_is m (parser_prop_name dtp) ''compatible'') (\<lambda>c.
      if c then Inr (set_current pg (f\<lparr>nf_compatible_prop_idx := sint (nf_nprops f)\<rparr>))
      else bind_res (str_is m (parser_prop_name dtp) ''device_type'') (\<lambda>d.
      if d then Inr (set_current pg (f\<lparr>nf_device_type_prop_idx := sint (nf_nprops f)\<rparr>))
      else Inr pg)))"

definition full_store :: "mem \<Rightarrow> Parser \<Rightarrow> ParsingFrame \<Rightarrow> ParsingFrame res" where
  "full_store m dtp pg =
     bind_res (store_prop pg (parser_prop dtp)) (\<lambda>pg1.
     bind_res (track_prop m dtp pg1) bump_nprops)"

definition full_prop :: "mem \<Rightarrow> Parser \<Rightarrow> ParsingFrame \<Rightarrow> ParsingFrame res" where
  "full_prop m dtp pg =
     bind_res (is_ignored_node m (nf_name (current_frame pg))) (\<lambda>ignored.
     if ignored then Inr pg
     else
     bind_res (str_is m (parser_prop_name dtp) ''#address-cells'') (\<lambda>a.
     if a then bind_res (read_u32 m (parser_prop_value dtp)) (\<lambda>v.
       Inr (set_cells (\<lambda>c. c\<lparr>nc_address := v\<rparr>) pg))
     else
     bind_res (str_is m (parser_prop_name dtp) ''#size-cells'') (\<lambda>s.
     if s then bind_res (read_u32 m (parser_prop_value dtp)) (\<lambda>v.
       Inr (set_cells (\<lambda>c. c\<lparr>nc_size := v\<rparr>) pg))
     else
     bind_res (str_is m (parser_prop_name dtp) ''interrupt-parent'') (\<lambda>i.
     if i then bind_res (read_u32 m (parser_prop_value dtp)) (\<lambda>v.
       Inr (set_cells (\<lambda>c. c\<lparr>nc_interrupt_parent := v\<rparr>) pg))
     else full_store m dtp pg))))"

definition full_step ::
    "mem \<Rightarrow> 'k NodeHandler list \<Rightarrow> NodeMapping list \<Rightarrow> Parser \<Rightarrow> ParsingFrame \<times> 'k \<Rightarrow>
     (ParsingFrame \<times> 'k) comp" where
  "full_step m handlers maps dtp st =
     (case parser_current dtp of
        BeginNode \<Rightarrow> Some (bind_res (full_begin m dtp (fst st)) (\<lambda>pg. Inr (pg, snd st)))
      | EndNode \<Rightarrow> full_end m handlers maps (fst st) (snd st)
      | Prop \<Rightarrow> Some (bind_res (full_prop m dtp (fst st)) (\<lambda>pg. Inr (pg, snd st)))
      | End \<Rightarrow> Some (Inr st)
      | Nop \<Rightarrow> Some (Inr st))"

definition parse_frames_full ::
    "mem \<Rightarrow> 'k NodeHandler list \<Rightarrow> u64 \<Rightarrow> NodeFrame list \<Rightarrow> NodeMapping list \<Rightarrow> 'k \<Rightarrow> (Status \<times> 'k) comp" where
  "parse_frames_full m handlers fdt junk maps k =
     bind_comp (Some (parser_init m parser_default fdt)) (\<lambda>(status, dtp).
     if status \<noteq> StatusOk then Some (Inr (status, k))
     else bind_comp
       (walk (parser_next m) (full_step m handlers maps) dtp (parsing_frame_init junk, k))
       (\<lambda>st. Some (Inr (StatusOk, snd st))))"

definition parse_frames ::
    "mem \<Rightarrow> 'k NodeHandler list \<Rightarrow> u64 \<Rightarrow> NodeFrame list \<Rightarrow> NodeFrame list \<Rightarrow>
     NodeMapping list \<Rightarrow> 'k \<Rightarrow> (Status \<times> NodeMapping list \<times> 'k) comp" where
  "parse_frames m handlers fdt junk1 junk2 maps k =
     bind_comp (parse_frames_phandle m fdt junk1 maps) (\<lambda>(status, maps1).
     if status \<noteq> StatusOk then Some (Inr (status, maps1, k))
     else bind_comp (parse_frames_full m handlers fdt junk2 maps1 k) (\<lambda>(status1, k1).
       Some (Inr (status1, maps1, k1))))"

section \<open>The frames of a parse\<close>

text \<open>
  The invariant both passes keep: eight frames of thirty slots, the stack pointer inside
  them, tracked indices inside the slots, and the parents of the frames on the stack are the
  frames below them. Frames above the root have fewer than thirty properties; the root's
  counter is uninitialised until its node begins.
\<close>

definition frame_ok :: "nat \<Rightarrow> NodeFrame \<Rightarrow> bool" where
  "frame_ok i f \<longleftrightarrow>
     length (nf_props f) = 30 \<and> nf_compatible_prop_idx f < 30 \<and> nf_device_type_prop_idx f < 30 \<and>
     (nf_parent f = None \<or> 0 < i \<and> nf_parent f = Some (i - 1))"

definition frames_ok :: "NodeFrame list \<Rightarrow> bool" where
  "frames_ok fs \<longleftrightarrow> length fs = 8 \<and> (\<forall>i<8. frame_ok i (fs ! i))"

definition parsing_ok :: "ParsingFrame \<Rightarrow> bool" where
  "parsing_ok pg \<longleftrightarrow>
     frames_ok (pg_node_frame pg) \<and> pg_top pg < 8 \<and>
     (\<forall>i. 0 < i \<and> i \<le> unat (pg_top pg) \<longrightarrow> nf_nprops (pg_node_frame pg ! i) < 30)"

lemma parsing_frame_init_ok:
  assumes "length junk = 8" "\<forall>f\<in>set junk. length (nf_props f) = 30"
  shows "parsing_ok (parsing_frame_init junk)"
  using assms by (simp add: parsing_ok_def parsing_frame_init_def frames_ok_def frame_ok_def frame_init_def)

lemma parsing_ok_current:
  assumes "parsing_ok pg"
  shows "frame_ok (unat (pg_top pg)) (current_frame pg)"
    and "unat (pg_top pg) < 8" "length (pg_node_frame pg) = 8"
  using assms by (simp_all add: parsing_ok_def frames_ok_def current_frame_def word_less_nat_alt)

lemma parsing_ok_set_current:
  assumes "parsing_ok pg" "frame_ok (unat (pg_top pg)) f"
    and "0 < unat (pg_top pg) \<Longrightarrow> nf_nprops f < 30"
  shows "parsing_ok (set_current pg f)"
  using assms parsing_ok_current(2,3) [OF assms(1)]
  by (auto simp: parsing_ok_def set_current_def frames_ok_def nth_list_update)

lemma current_set_current [simp]:
  "parsing_ok pg \<Longrightarrow> current_frame (set_current pg f) = f"
  using parsing_ok_current [of pg] by (simp add: current_frame_def set_current_def)

lemma set_current_top [simp]: "pg_top (set_current pg f) = pg_top pg"
  by (simp add: set_current_def)

lemma parsing_ok_nprops: "parsing_ok pg \<Longrightarrow> 0 < unat (pg_top pg) \<Longrightarrow> nf_nprops (current_frame pg) < 30"
  by (simp add: parsing_ok_def current_frame_def)

lemma pop_frame_ok:
  assumes "parsing_ok pg"
  shows "parsing_ok (pop_frame pg)"
proof (cases "pg_top pg = 0")
  case False
  then have "unat (pg_top pg - 1) = unat (pg_top pg) - 1" by (rule unat_minus_one)
  with assms False show ?thesis
    by (auto simp: parsing_ok_def pop_frame_def word_gt_0 word_less_nat_alt [of _ 8])
qed (use assms in \<open>simp add: pop_frame_def\<close>)

lemma push_frame_ok:
  assumes "parsing_ok pg" "push_frame pg = Inr pg1"
  shows "pg_top pg1 = pg_top pg + 1" "frames_ok (pg_node_frame pg1)" "pg_top pg1 < 8"
    "unat (pg_top pg1) = unat (pg_top pg) + 1"
    "\<forall>i. 0 < i \<and> i \<le> unat (pg_top pg) \<longrightarrow> nf_nprops (pg_node_frame pg1 ! i) < 30"
proof -
  let ?pg = "pg\<lparr>pg_top := pg_top pg + 1\<rparr>"
  let ?f = "(current_frame ?pg)\<lparr>nf_parent_cells := nf_own_cells (current_frame pg)\<rparr>"
  from assms(2) have pg1: "pg1 = set_current ?pg ?f" and top: "pg_top pg + 1 < 8"
    by (auto simp: push_frame_def Let_def bind_res_Inr_iff MaxNodeDepth_def)
  note cur = parsing_ok_current [OF assms(1)]
  have u: "unat (pg_top pg + 1) = unat (pg_top pg) + 1"
    using cur(2) by (simp add: unat_word_ariths)
  show "pg_top pg1 = pg_top pg + 1" "pg_top pg1 < 8" "unat (pg_top pg1) = unat (pg_top pg) + 1"
    using top u by (simp_all add: pg1)
  from top u have lt: "unat (pg_top pg) + 1 < 8" by (simp add: word_less_nat_alt)
  then have "frame_ok (unat (pg_top pg) + 1) (pg_node_frame pg ! (unat (pg_top pg) + 1))"
    using assms(1) unfolding parsing_ok_def frames_ok_def by blast
  then have "frame_ok (unat (pg_top pg) + 1) ?f"
    using u by (simp add: frame_ok_def current_frame_def)
  then show "frames_ok (pg_node_frame pg1)"
    using assms(1) u lt by (auto simp: pg1 parsing_ok_def frames_ok_def set_current_def nth_list_update)
  show "\<forall>i. 0 < i \<and> i \<le> unat (pg_top pg) \<longrightarrow> nf_nprops (pg_node_frame pg1 ! i) < 30"
    using assms(1) u by (simp add: pg1 parsing_ok_def set_current_def)
qed

text \<open>Entering a node after its frame was pushed, with whatever else was set in the frame.\<close>

lemma enter_pushed_ok:
  assumes "parsing_ok pg" "push_frame pg = Inr pg1"
    and "frame_ok (unat (pg_top pg1)) (current_frame pg1) \<Longrightarrow> frame_ok (unat (pg_top pg1)) f"
  shows "parsing_ok (enter_node dtp (set_current pg1 f))"
proof -
  note pf = push_frame_ok [OF assms(1,2)]
  have lt: "unat (pg_top pg1) < 8" and len: "length (pg_node_frame pg1) = 8"
    using pf by (simp_all add: word_less_nat_alt frames_ok_def)
  have "frame_ok (unat (pg_top pg1)) f"
    using assms(3) pf lt by (simp add: frames_ok_def current_frame_def)
  then show ?thesis
    using pf lt len
    by (auto simp: enter_node_def parsing_ok_def frames_ok_def set_current_def current_frame_def
        frame_ok_def nth_list_update)
qed

lemma enter_root_ok: "parsing_ok pg \<Longrightarrow> parsing_ok (enter_node dtp pg)"
  using parsing_ok_current [of pg]
  by (auto simp: enter_node_def frame_ok_def intro!: parsing_ok_set_current)

lemma set_current_same:
  "pg_node_frame pg1 \<noteq> [] \<Longrightarrow> set_current pg1 (current_frame pg1) = pg1"
  by (simp add: set_current_def current_frame_def list_update_id)

lemma phandle_begin_ok: "parsing_ok pg \<Longrightarrow> phandle_begin m dtp pg = Inr pg1 \<Longrightarrow> parsing_ok pg1"
proof -
  assume ok: "parsing_ok pg" and b: "phandle_begin m dtp pg = Inr pg1"
  then consider "pg1 = enter_node dtp pg"
    | pg2 where "push_frame pg = Inr pg2" "pg1 = enter_node dtp pg2"
    by (auto simp: phandle_begin_def bind_res_Inr_iff split: if_splits)
  then show ?thesis
  proof cases
    case 1
    with ok enter_root_ok show ?thesis by simp
  next
    case 2
    from push_frame_ok(2) [OF ok 2(1)] have "pg_node_frame pg2 \<noteq> []" by (auto simp: frames_ok_def)
    with 2 enter_pushed_ok [OF ok 2(1), of "current_frame pg2"] show ?thesis
      by (simp add: set_current_same)
  qed
qed

lemma full_begin_ok: "parsing_ok pg \<Longrightarrow> full_begin m dtp pg = Inr pg1 \<Longrightarrow> parsing_ok pg1"
proof -
  assume ok: "parsing_ok pg" and b: "full_begin m dtp pg = Inr pg1"
  then consider "pg1 = enter_node dtp pg"
    | pg2 c where "push_frame pg = Inr pg2" "pg1 = enter_node dtp (set_current pg2
        ((current_frame pg2)\<lparr>nf_parent := Some (unat (pg_top pg2 - 1)), nf_own_cells := c\<rparr>))"
    by (auto simp: full_begin_def bind_res_Inr_iff Let_def split: if_splits)
  then show ?thesis
  proof cases
    case 1
    with ok enter_root_ok show ?thesis by simp
  next
    case 2
    have "unat (pg_top pg2 - 1) = unat (pg_top pg2) - 1" "0 < unat (pg_top pg2)"
      using push_frame_ok(1,4) [OF ok 2(1)] by simp_all
    then show ?thesis
      unfolding 2(2) by (intro enter_pushed_ok [OF ok 2(1)]) (simp add: frame_ok_def)
  qed
qed

lemma store_prop_ok:
  "parsing_ok pg \<Longrightarrow> store_prop pg prop = Inr pg1 \<Longrightarrow>
   parsing_ok pg1 \<and> unat (nf_nprops (current_frame pg1)) < 30"
  using parsing_ok_current [of pg] parsing_ok_nprops [of pg]
  by (auto simp: store_prop_def Let_def frame_ok_def split: if_splits
      intro!: parsing_ok_set_current)

lemma bump_nprops_ok: "parsing_ok pg \<Longrightarrow> bump_nprops pg = Inr pg1 \<Longrightarrow> parsing_ok pg1"
  using parsing_ok_current [of pg]
  by (auto simp: bump_nprops_def Let_def frame_ok_def bind_res_Inr_iff MaxPropsPerNode_def
      intro!: parsing_ok_set_current)

lemma set_cells_ok: "parsing_ok pg \<Longrightarrow> parsing_ok (set_cells u pg)"
  using parsing_ok_current [of pg] parsing_ok_nprops [of pg]
  by (auto simp: set_cells_def frame_ok_def intro!: parsing_ok_set_current)

lemma sint_small: "unat (w :: u32) < 30 \<Longrightarrow> sint w < 30"
proof -
  assume small: "unat w < 30"
  then have "int (unat w) < 30" by linarith
  then have b: "uint w < 30" by (simp only: uint_nat)
  have "sint w = signed_take_bit 31 (uint w)" by (simp add: sint_uint)
  also have "\<dots> = uint w"
    using b uint_ge_0 [of w] by (intro signed_take_bit_int_eq_self) (simp_all add: order_trans [of _ 0])
  finally show ?thesis using b by simp
qed

lemma track_prop_ok:
  "parsing_ok pg \<Longrightarrow> unat (nf_nprops (current_frame pg)) < 30 \<Longrightarrow> track_prop m dtp pg = Inr pg1 \<Longrightarrow>
   parsing_ok pg1"
  using parsing_ok_current [of pg] parsing_ok_nprops [of pg]
  by (auto simp: track_prop_def Let_def bind_res_Inr_iff frame_ok_def sint_small split: if_splits
      intro!: parsing_ok_set_current)

lemma phandle_prop_ok:
  assumes ok: "parsing_ok pg" and "phandle_prop m dtp pg = Inr pg1"
  shows "parsing_ok pg1"
proof -
  from assms(2) consider "pg1 = pg"
    | pg2 where "store_prop pg (parser_prop dtp) = Inr pg2" "bump_nprops pg2 = Inr pg1"
    unfolding phandle_prop_def bind_res_Inr_iff by (force split: if_splits simp: bind_res_Inr_iff)
  then show ?thesis
    by cases (use ok store_prop_ok bump_nprops_ok in blast)+
qed

lemma full_store_ok: "parsing_ok pg \<Longrightarrow> ensures parsing_ok (Some (full_store m dtp pg))"
  unfolding full_store_def
  using store_prop_ok track_prop_ok bump_nprops_ok
  by (intro ensures_bind_any ensures_Some) blast

lemma full_prop_ok: "parsing_ok pg \<Longrightarrow> ensures parsing_ok (Some (full_prop m dtp pg))"
  unfolding full_prop_def
  by (intro ensures_bind_any ensures_if full_store_ok) (simp_all add: set_cells_ok)

definition phandle_ok :: "ParsingFrame \<times> NodeMapping list \<Rightarrow> bool" where
  "phandle_ok st \<longleftrightarrow> parsing_ok (fst st) \<and> length (snd st) < 300 \<and> (\<forall>n\<in>set (snd st). nm_phandle n \<noteq> 0)"

lemma phandle_end_ok:
  assumes "parsing_ok pg" "length maps < 300" "\<forall>n\<in>set maps. nm_phandle n \<noteq> 0"
  shows "ensures phandle_ok (Some (phandle_end m pg maps))"
  unfolding phandle_end_def Let_def PhandleNodeMappingCapacity_def
  using assms pop_frame_ok [OF assms(1)]
  by (intro ensures_bind_any) (auto simp: phandle_ok_def bind_res_Inr_iff split: if_splits)

lemma phandle_step_ok:
  assumes "phandle_ok st"
  shows "ensures phandle_ok (Some (phandle_step m dtp st))"
proof (cases "parser_current dtp")
  case BeginNode
  with assms phandle_begin_ok show ?thesis
    by (auto simp: phandle_step_def phandle_ok_def intro!: ensures_bind_any)
next
  case Prop
  with assms phandle_prop_ok show ?thesis
    by (auto simp: phandle_step_def phandle_ok_def intro!: ensures_bind_any)
next
  case EndNode
  with assms phandle_end_ok show ?thesis by (simp add: phandle_step_def phandle_ok_def)
qed (use assms in \<open>simp_all add: phandle_step_def\<close>)

definition full_ok :: "('k \<Rightarrow> bool) \<Rightarrow> ParsingFrame \<times> 'k \<Rightarrow> bool" where
  "full_ok K st \<longleftrightarrow> parsing_ok (fst st) \<and> K (snd st)"

text \<open>
  What the second pass relies on in the handlers: on the frames of a parse a handler returns,
  or stops, and keeps the client's invariant of the kernel's state.
\<close>

locale node_client =
  fixes handlers :: "'k NodeHandler list"
    and K :: "'k \<Rightarrow> bool"
    and M :: "NodeMapping list \<Rightarrow> bool"
  assumes on_node_ensures:
      "h \<in> set handlers \<Longrightarrow> M maps \<Longrightarrow> frames_ok frames \<Longrightarrow> node < 8 \<Longrightarrow> K k \<Longrightarrow>
       ensures K (nh_on_node h maps frames node k)"
begin

lemma dispatch_ensures:
  assumes "M maps" "frames_ok frames" "node < 8" "set hs \<subseteq> set handlers" "K k"
  shows "ensures K (dispatch_if_prop_match m hs maps frames node c d k)"
  using assms(4,5)
proof (induction hs arbitrary: k)
  case (Cons h hs)
  let ?p = "case nh_match_kind h of Compatible \<Rightarrow> c | DeviceType \<Rightarrow> d"
  have IH: "K k' \<Longrightarrow> ensures K (dispatch_if_prop_match m hs maps frames node c d k')" for k'
    using Cons by simp
  have h: "ensures K (nh_on_node h maps frames node k)"
    using Cons.prems assms(1-3) by (intro on_node_ensures) auto
  show ?case
  proof (cases ?p)
    case None
    with IH [OF Cons.prems(2)] show ?thesis by simp
  next
    case (Some p)
    have "ensures K (bind_comp (if b then nh_on_node h maps frames node k else Some (Inr k))
        (\<lambda>k'. dispatch_if_prop_match m hs maps frames node c d k'))" for b
      using h Cons.prems(2) by (intro ensures_bind_comp [of K] IH) auto
    then show ?thesis
      by (cases "compatible_list_contains m (pf_value p) (pf_len p) (nh_match_string h)")
        (simp_all add: Some)
  qed
qed simp

lemma full_end_ensures:
  assumes "M maps" "parsing_ok pg" "K k"
  shows "ensures (full_ok K) (full_end m handlers maps pg k)"
  unfolding full_end_def Let_def
  using assms parsing_ok_current(2) [OF assms(2)] pop_frame_ok [OF assms(2)]
  by (intro ensures_bind_comp [of K] dispatch_ensures) (auto simp: parsing_ok_def full_ok_def)

lemma full_step_ensures:
  assumes "M maps" "full_ok K st"
  shows "ensures (full_ok K) (full_step m handlers maps dtp st)"
proof (cases "parser_current dtp")
  case BeginNode
  with assms full_begin_ok show ?thesis
    by (auto simp: full_step_def full_ok_def intro!: ensures_bind_any)
next
  case Prop
  with assms full_prop_ok [of "fst st" m dtp] show ?thesis
    by (auto simp: full_step_def full_ok_def intro!: ensures_bind_any dest: ensuresD)
next
  case EndNode
  with assms show ?thesis by (simp add: full_step_def full_end_ensures full_ok_def)
qed (use assms in \<open>simp_all add: full_step_def\<close>)

lemma parse_full_ensures:
  assumes "blob_in_memory m fdt" "length junk = 8" "\<forall>f\<in>set junk. length (nf_props f) = 30"
    and "M maps" "K k"
  shows "ensures (\<lambda>(status, k'). K k') (parse_frames_full m handlers fdt junk maps k)"
proof (cases "parser_init m parser_default fdt")
  case (Inr r)
  obtain status dtp where r: "r = (status, dtp)" by (cases r)
  show ?thesis
  proof (cases "status = StatusOk")
    case True
    then have ok: "parser_ok m dtp" using parser_init_ok [OF assms(1)] Inr r by blast
    have "ensures (full_ok K) (walk (parser_next m) (full_step m handlers maps) dtp (parsing_frame_init junk, k))"
      using ok full_step_ensures [OF assms(4)] parsing_frame_init_ok [OF assms(2,3)] assms(5)
      by (intro fdt.walk_ensures) (auto simp: full_ok_def)
    then have "ensures (\<lambda>(status, k'). K k') (bind_comp (walk (parser_next m) (full_step m handlers maps)
        dtp (parsing_frame_init junk, k)) (\<lambda>st. Some (Inr (StatusOk, snd st))))"
      by (rule ensures_bind_comp) (simp add: full_ok_def)
    with Inr r True show ?thesis by (simp add: parse_frames_full_def)
  qed (simp add: parse_frames_full_def Inr r assms(5))
qed (simp add: parse_frames_full_def)

end

section \<open>Lists of compatible strings\<close>

text \<open>The strings of a list of NUL-separated strings; the last NUL may be missing.\<close>

function strings_of :: "u8 list \<Rightarrow> u8 list list" where
  "strings_of [] = []"
| "bs \<noteq> [] \<Longrightarrow> strings_of bs =
     takeWhile (\<lambda>c. c \<noteq> 0) bs # strings_of (drop 1 (dropWhile (\<lambda>c. c \<noteq> 0) bs))"
  by auto
termination
proof (relation "measure length")
  fix bs :: "u8 list" assume "bs \<noteq> []"
  then show "(drop 1 (dropWhile (\<lambda>c. c \<noteq> 0) bs), bs) \<in> measure length"
    using length_dropWhile_le [of "\<lambda>c. c \<noteq> 0" bs] by (cases bs) auto
qed simp

text \<open>The bytes of the list, and one more where the last string has no terminator.\<close>

definition list_in_memory :: "mem \<Rightarrow> u64 \<Rightarrow> u8 list \<Rightarrow> bool" where
  "list_in_memory m p bs \<longleftrightarrow>
     bytes_at m p bs \<and> (bs = [] \<or> last bs = 0 \<or> mapped m (p + of_nat (length bs)) 1)"

lemma split_at_zero:
  assumes "0 \<in> set bs"
  shows "bs = takeWhile (\<lambda>c. c \<noteq> (0 :: u8)) bs @ 0 # drop 1 (dropWhile (\<lambda>c. c \<noteq> 0) bs)"
proof -
  from assms have "dropWhile (\<lambda>c. c \<noteq> 0) bs \<noteq> []" by (auto simp: dropWhile_eq_Nil_conv)
  then have "dropWhile (\<lambda>c. c \<noteq> 0) bs = 0 # drop 1 (dropWhile (\<lambda>c. c \<noteq> 0) bs)"
    using hd_dropWhile [of "\<lambda>c. c \<noteq> 0" bs] by (cases "dropWhile (\<lambda>c. c \<noteq> 0) bs") auto
  then show ?thesis using takeWhile_dropWhile_id [of "\<lambda>c. c \<noteq> 0" bs] by simp
qed

lemma cprefix_append:
  "bytes_at m p s \<Longrightarrow> 0 \<notin> set s \<Longrightarrow> cprefix m (p + of_nat (length s)) n t \<Longrightarrow>
   cprefix m p (length s + n) (s @ t)"
  by (induction s arbitrary: p) (auto simp: bytes_at_Cons add.assoc)

lemma candidate_length:
  assumes "list_in_memory m p bs" "bs \<noteq> []"
  shows "strnlen m p (of_nat (length bs)) = Inr (of_nat (length (takeWhile (\<lambda>c. c \<noteq> 0) bs)))"
proof -
  let ?w = "takeWhile (\<lambda>c. c \<noteq> 0) bs"
  have len: "unat (of_nat (length bs) :: u64) = length bs"
    using assms by (simp add: list_in_memory_def bytes_at_def unat_of_nat)
  have "\<exists>s. cprefix m p (Suc (length bs)) s \<and> min (length bs) (length s) = length ?w"
  proof (cases "0 \<in> set bs")
    case True
    have "bytes_at m p (?w @ 0 # drop 1 (dropWhile (\<lambda>c. c \<noteq> 0) bs))"
      using assms split_at_zero [OF True] by (simp add: list_in_memory_def)
    then have "cstring m p ?w"
      by (auto simp: cstring_def bytes_at_append bytes_at_Cons dest: set_takeWhileD)
    from cstring_cprefix [OF this, of "Suc (length bs)"] show ?thesis
      using length_takeWhile_le [of "\<lambda>c. c \<noteq> 0" bs] by (intro exI [of _ ?w]) auto
  next
    case False
    then have w: "?w = bs" unfolding takeWhile_eq_all_conv by auto
    from False assms have at_bs: "bytes_at m p bs" and more: "mapped m (p + of_nat (length bs)) 1"
      using last_in_set by (fastforce simp: list_in_memory_def)+
    then obtain c where c: "load8 m (p + of_nat (length bs)) = Inr c"
      using load8_mapped_0 [of m "p + of_nat (length bs)" 1 thesis] by auto
    have "cprefix m (p + of_nat (length bs)) 1 (if c = 0 then [] else [c])"
      using c by simp
    from cprefix_append [OF at_bs False this] w show ?thesis
      by (intro exI [of _ "bs @ (if c = 0 then [] else [c])"]) (simp add: w)
  qed
  with strnlen_cprefix [of m p "of_nat (length bs)"] len show ?thesis by auto
qed

text \<open>One candidate against the needle, as the code compares them.\<close>

lemma candidate_matches:
  assumes "bytes_at m p bs" "bs \<noteq> []" "w = takeWhile (\<lambda>c. c \<noteq> 0) bs" "length w = length needle"
    and "CHR 0x00 \<notin> set needle" "length needle < 2 ^ 32"
  shows "\<exists>r. strncmp m p (lit needle) 0 (of_nat (length w)) = Inr r \<and> (r = 0 \<longleftrightarrow> w = bytes_of needle)"
proof -
  have lit: "cstring (lit needle) 0 (bytes_of needle)"
    using assms(5,6) by (intro cstring_bytes_of) auto
  have nz: "0 \<notin> set w" "0 \<notin> set (bytes_of needle)"
    using assms(3) lit by (auto simp: cstring_def dest: set_takeWhileD)
  have at_w: "bytes_at m p w"
    using assms(1,3) takeWhile_dropWhile_id [of "\<lambda>c. c \<noteq> 0" bs] bytes_at_prefix by metis
  show ?thesis
  proof (cases "length w")
    case 0
    with assms(1-3) have "load8 m p = Inr 0"
      by (cases bs) (auto simp: bytes_at_Cons split: if_splits)
    moreover have "load8 (lit needle) 0 = Inr 0" using lit 0 assms(4) by (simp add: bytes_of_def)
    ultimately show ?thesis using 0 assms(4) by (simp add: strncmp_def strncmp_loop.simps bytes_of_def)
  next
    case (Suc n)
    have "unat (of_nat (length w) :: u64) = length w"
      using assms(4,6) by (simp add: unat_of_nat)
    then have "unat (of_nat (length w) :: u64) = Suc n" using Suc by simp
    moreover have "cprefix m p (Suc n) w" using bytes_at_cprefix [OF at_w nz(1)] Suc by simp
    moreover have "cprefix (lit needle) 0 (Suc n) (bytes_of needle)"
      using cstring_cprefix [OF lit, of "Suc n"] Suc assms(4) by (simp add: bytes_of_def)
    ultimately show ?thesis
      using strncmp_loop_cprefix bcmp_eq_0 [OF nz] by (simp add: strncmp_def)
  qed
qed

text \<open>The step to the next candidate: past the string and its terminator.\<close>

lemma candidate_next:
  assumes "list_in_memory m (val + ucast offset) bs" "unat len = unat offset + length bs" "bs \<noteq> []"
    and far: "unat val + 2 ^ 32 < 2 ^ 64"
  shows "\<exists>offset'. compat_next_offset m val len
        (offset + of_nat (length (takeWhile (\<lambda>c. c \<noteq> 0) bs))) = Inr offset'
    \<and> list_in_memory m (val + ucast offset') (drop 1 (dropWhile (\<lambda>c. c \<noteq> 0) bs))
    \<and> unat len = unat offset' + length (drop 1 (dropWhile (\<lambda>c. c \<noteq> 0) bs))"
proof -
  let ?w = "takeWhile (\<lambda>c. c \<noteq> 0) bs" and ?rest = "drop 1 (dropWhile (\<lambda>c. c \<noteq> 0) bs)"
  let ?o = "offset + of_nat (length ?w)"
  have lb: "unat len < 4294967296" by (rule unat_u32_bound)
  have plus: "unat (offset + of_nat k) = unat offset + k" "ucast (offset + of_nat k) = (ucast offset + of_nat k :: u64)"
    if "k \<le> length bs" and "unat offset + k < 2 ^ 32" for k
  proof -
    show u: "unat (offset + of_nat k) = unat offset + k"
      using that by (simp add: unat_word_ariths unat_of_nat)
    have "unat (ucast offset + of_nat k :: u64) = unat offset + k"
      using that by (subst unat_u64_add_of_nat) simp_all
    with u show "ucast (offset + of_nat k) = (ucast offset + of_nat k :: u64)"
      by (simp add: word_unat_eq_iff)
  qed
  show ?thesis
  proof (cases "0 \<in> set bs")
    case False
    then have w: "?w = bs" and d: "dropWhile (\<lambda>c. c \<noteq> 0) bs = []"
      unfolding takeWhile_eq_all_conv dropWhile_eq_Nil_conv by auto
    have r: "?rest = []" unfolding d by simp
    have "unat ?o = unat len" unfolding w using plus(1) [of "length bs"] lb assms(2) by simp
    then show ?thesis unfolding r by (simp add: compat_next_offset_def word_less_nat_alt list_in_memory_def)
  next
    case True
    note split = split_at_zero [OF True]
    have len: "length bs = length ?w + 1 + length ?rest" using arg_cong [OF split, of length] by simp
    have at_all: "bytes_at m (val + ucast offset) (?w @ 0 # ?rest)"
      using assms(1) split by (simp add: list_in_memory_def)
    have o: "unat ?o = unat offset + length ?w" "ucast ?o = (ucast offset + of_nat (length ?w) :: u64)"
      using plus [of "length ?w"] len lb assms(2) by simp_all
    have "unat (offset + of_nat (length ?w + 1)) = unat offset + (length ?w + 1)"
      "ucast (offset + of_nat (length ?w + 1)) = (ucast offset + of_nat (length ?w + 1) :: u64)"
      using plus [of "length ?w + 1"] len lb assms(2) by simp_all
    then have o1: "unat (?o + 1) = unat offset + length ?w + 1"
      "ucast (?o + 1) = (ucast offset + of_nat (length ?w) + 1 :: u64)"
      by (simp_all add: algebra_simps)
    from at_all have zero: "load8 m (val + ucast ?o) = Inr 0"
      and rest: "bytes_at m (val + ucast (?o + 1)) ?rest"
      unfolding o(2) o1(2) by (simp_all add: bytes_at_append bytes_at_Cons add.assoc)
    have "?o < len" using o(1) len assms(2) by (simp add: word_less_nat_alt)
    with zero have nx: "compat_next_offset m val len ?o = Inr (?o + 1)"
      by (simp add: compat_next_offset_def)
    have "last bs = last ?rest" if "?rest \<noteq> []"
      using that by (subst split) simp
    moreover have "val + ucast offset + of_nat (length bs) = val + ucast (?o + 1) + of_nat (length ?rest)"
      unfolding o1(2) len by (simp add: algebra_simps)
    ultimately have "list_in_memory m (val + ucast (?o + 1)) ?rest"
      using assms(1,3) rest unfolding list_in_memory_def by metis
    with nx o1(1) len assms(2) show ?thesis by simp
  qed
qed

lemma compatible_loop_spec:
  assumes "list_in_memory m (val + ucast offset) bs" "unat len = unat offset + length bs"
    and "CHR 0x00 \<notin> set needle" "length needle < 2 ^ 32"
    and far: "unat val + 2 ^ 32 < 2 ^ 64"
  shows "compatible_loop m val len needle offset = Inr (bytes_of needle \<in> set (strings_of bs))"
  using assms(1,2)
proof (induction bs arbitrary: offset rule: length_induct)
  case (1 bs)
  let ?p = "val + ucast offset :: u64" and ?w = "takeWhile (\<lambda>c. c \<noteq> 0) bs"
  let ?rest = "drop 1 (dropWhile (\<lambda>c. c \<noteq> 0) bs)"
  show ?case
  proof (cases "bs = []")
    case True
    then show ?thesis using "1.prems" by (simp add: compatible_loop.simps word_less_nat_alt)
  next
    case False
    have lt: "offset < len" using False "1.prems" by (simp add: word_less_nat_alt)
    have lenw: "length ?w \<le> length bs" by (rule length_takeWhile_le)
    have b: "length bs < 2 ^ 32" using "1.prems"(2) unat_u32_bound [of len] by simp
    have "unat (ucast (len - offset) :: u64) = length bs"
      using lt "1.prems"(2) by (simp add: unat_sub word_less_nat_alt word_le_nat_alt)
    then have rest: "ucast (len - offset) = (of_nat (length bs) :: u64)"
      by (metis of_nat_unat ucast_id)
    have l: "strnlen m ?p (ucast (len - offset)) = Inr (of_nat (length ?w))"
      unfolding rest by (rule candidate_length [OF "1.prems"(1) False])
    have c32: "ucast (of_nat (length ?w) :: u64) = (of_nat (length ?w) :: u32)"
      "(ucast (of_nat (length ?w) :: u32) :: u64) = of_nat (length ?w)"
      using lenw b by (simp_all add: ucast_of_nat_u32 word_unat_eq_iff unsigned_ucast_eq unat_of_nat take_bit_nat_eq_self_iff)
    have nl: "strlen (lit needle) 0 = Inr (of_nat (length needle))"
      using assms(3,4) strlen_cstring [OF cstring_bytes_of [of needle]] by (simp add: bytes_of_def)
    have eq: "of_nat (length needle) = (of_nat (length ?w) :: u64) \<longleftrightarrow> length needle = length ?w"
      using lenw b assms(4) by (simp add: word_unat_eq_iff unat_of_nat)
    have at_p: "bytes_at m ?p bs" using "1.prems"(1) by (simp add: list_in_memory_def)
    let ?found = "if (of_nat (length needle) :: u64) = of_nat (length ?w)
      then bind_res (strncmp m ?p (lit needle) 0 (of_nat (length ?w))) (\<lambda>r. Inr (r = 0)) else Inr False"
    have found: "?found = Inr (?w = bytes_of needle)"
      using candidate_matches [OF at_p False refl _ assms(3,4)] eq by (auto simp: bytes_of_def)
    obtain offset' where nx: "compat_next_offset m val len (offset + of_nat (length ?w)) = Inr offset'"
      "list_in_memory m (val + ucast offset') ?rest" "unat len = unat offset' + length ?rest"
      using candidate_next [OF "1.prems" False far] by blast
    have "length ?rest < length bs"
      using False length_dropWhile_le [of "\<lambda>c. c \<noteq> 0" bs] by (cases bs) auto
    with nx(2,3) "1.IH" have IH: "compatible_loop m val len needle offset' =
        Inr (bytes_of needle \<in> set (strings_of ?rest))" by blast
    have "compatible_loop m val len needle offset =
        (if ?w = bytes_of needle then Inr True else compatible_loop m val len needle offset')"
      unfolding compatible_loop.simps [of m val len needle offset] l nl bind_res_simps c32 found
      using lt nx(1) by simp
    with IH False show ?thesis by (auto simp: eq_commute [of ?w])
  qed
qed

section \<open>Encoded cells\<close>

text \<open>A value of \<open>n\<close> cells as a property holds it, for the widths a 64-bit value can fill.\<close>

definition enc_cells :: "u32 \<Rightarrow> u64 \<Rightarrow> u8 list" where
  "enc_cells n v = (if n = 1 then enc32 (ucast v) else if n = 2 then enc64 v else [])"

definition cells_fit :: "u32 \<Rightarrow> u64 \<Rightarrow> bool" where
  "cells_fit n v \<longleftrightarrow> n = 0 \<and> v = 0 \<or> n = 1 \<and> unat v < 2 ^ 32 \<or> n = 2"

lemma length_enc_cells: "cells_fit n v \<Longrightarrow> length (enc_cells n v) = 4 * unat n"
  by (auto simp: enc_cells_def cells_fit_def)

lemma ucast_ucast_small: "unat v < 2 ^ 32 \<Longrightarrow> (ucast (ucast (v :: u64) :: u32) :: u64) = v"
  by (simp only: word_unat_eq_iff unat_ucast_32_64)
    (simp add: unsigned_ucast_eq take_bit_nat_eq_self_iff)

lemma enc_cells_offset:
  "cells_fit n v \<Longrightarrow> (of_nat (length (enc_cells n v)) :: u64) = ucast n * 4"
  by (auto simp: enc_cells_def cells_fit_def)

lemma read_cells_enc:
  assumes "bytes_at m p (enc_cells n v)" "cells_fit n v"
  shows "read_cells m p n = Inr v"
proof -
  consider "n = 0" "v = 0" | "n = 1" "unat v < 2 ^ 32" | "n = 2" using assms(2) by (auto simp: cells_fit_def)
  then show ?thesis
  proof cases
    case 2
    then have "be32 m p = Inr (ucast v)" using assms(1) by (auto simp: enc_cells_def intro: be32_enc32)
    with 2 ucast_ucast_small show ?thesis by (simp add: read_cells_def read_u32_def)
  next
    case 3
    then have "be64 m p = Inr v" using assms(1) by (auto simp: enc_cells_def intro: be64_enc64)
    then obtain hi lo where "be32 m p = Inr hi" "be32 m (p + 4) = Inr lo" "push_bit 32 (ucast hi) OR ucast lo = v"
      by (auto simp: be64_def bind_res_Inr_iff)
    moreover have "unat (2 :: u32) = Suc (Suc 0)" by simp
    ultimately show ?thesis using 3 by (simp only: read_cells_def) (simp add: read_u32_def)
  qed (simp add: read_cells_def)
qed

lemma read_reg_pair_enc:
  assumes "bytes_at m p (enc_cells (nc_address c) a @ enc_cells (nc_size c) l)"
    and "cells_fit (nc_address c) a" "cells_fit (nc_size c) l"
  shows "read_reg_pair m c p = Inr \<lparr>rp_address = a, rp_length = l\<rparr>"
proof -
  have pos: "ucast (nc_address c * BytesPerUnit) = (of_nat (length (enc_cells (nc_address c) a)) :: u64)"
    using assms(2) by (auto simp: cells_fit_def enc_cells_def BytesPerUnit_def)
  have rd: "(if n = 1 then bind_res (read_u32 m q) (\<lambda>v. Inr (ucast v)) else if n = 2 then read_u64 m q
      else Inr 0) = Inr v" if "bytes_at m q (enc_cells n v)" "cells_fit n v" for q n v
    using that ucast_ucast_small
    by (auto simp: cells_fit_def enc_cells_def read_u32_def read_u64_def be32_enc32 be64_enc64)
  have "read_reg_pair m c p = bind_res (Inr a) (\<lambda>address. bind_res
      (if nc_size c = 0 then Inr 0 else Inr l) (\<lambda>len. Inr \<lparr>rp_address = address, rp_length = len\<rparr>))"
    using assms rd [of p "nc_address c" a] rd [of "p + of_nat (length (enc_cells (nc_address c) a))" "nc_size c" l]
    by (auto simp: read_reg_pair_def bytes_at_append pos Let_def)
  with assms(3) show ?thesis by (auto simp: cells_fit_def)
qed

section \<open>Ranges\<close>

type_synonym range = "u64 \<times> u64 \<times> u64"

fun enc_range :: "u32 \<Rightarrow> u32 \<Rightarrow> u32 \<Rightarrow> range \<Rightarrow> u8 list" where
  "enc_range cc pc sc (c, p, l) = enc_cells cc c @ enc_cells pc p @ enc_cells sc l"

fun range_ok :: "u32 \<Rightarrow> u32 \<Rightarrow> u32 \<Rightarrow> range \<Rightarrow> bool" where
  "range_ok cc pc sc (c, p, l) \<longleftrightarrow>
     cells_fit cc c \<and> cells_fit pc p \<and> cells_fit sc l \<and> unat c + unat l < 2 ^ 64"

fun in_range :: "u64 \<Rightarrow> range \<Rightarrow> bool" where
  "in_range a (c, p, l) \<longleftrightarrow> unat c \<le> unat a \<and> unat a < unat c + unat l"

text \<open>The first range that holds the address moves it; no range leaves it as it is.\<close>

definition translate_spec :: "range list \<Rightarrow> u64 \<Rightarrow> u64" where
  "translate_spec rs a = (case find (in_range a) rs of None \<Rightarrow> a | Some (c, p, l) \<Rightarrow> p + (a - c))"

lemma translate_triplets_spec:
  "bytes_at m p (concat (map (enc_range cc pc sc) rs)) \<Longrightarrow> \<forall>r\<in>set rs. range_ok cc pc sc r \<Longrightarrow>
   translate_triplets m cc pc sc (length rs) p a = Inr (translate_spec rs a)"
proof (induction rs arbitrary: p)
  case (Cons r rs)
  obtain c q l where r: "r = (c, q, l)" by (cases r)
  let ?p1 = "p + ucast cc * 4" and ?p2 = "p + ucast cc * 4 + ucast pc * 4"
  have fit: "cells_fit cc c" "cells_fit pc q" "cells_fit sc l" and nowrap: "unat c + unat l < 2 ^ 64"
    using Cons.prems(2) r by auto
  note off = fit [THEN enc_cells_offset]
  have "bytes_at m p (enc_cells cc c)" "bytes_at m ?p1 (enc_cells pc q)" "bytes_at m ?p2 (enc_cells sc l)"
    and rest: "bytes_at m (?p2 + ucast sc * 4) (concat (map (enc_range cc pc sc) rs))"
    using Cons.prems(1) off by (simp_all add: r bytes_at_append add.assoc)
  then have reads: "read_cells m p cc = Inr c" "read_cells m ?p1 pc = Inr q" "read_cells m ?p2 sc = Inr l"
    using fit read_cells_enc by auto
  have test: "a \<ge> c \<and> a < c + l \<longleftrightarrow> in_range a r"
    using nowrap by (auto simp: r word_le_nat_alt word_less_nat_alt unat_u64_add)
  show ?case
    using reads test Cons.IH [OF rest] Cons.prems(2)
    by (auto simp: translate_spec_def r Let_def)
qed (simp add: translate_spec_def)

section \<open>Strings\<close>

lemma str_is_cstring:
  assumes "cstring m p s" "CHR 0x00 \<notin> set l" "length l + 1 < 2 ^ 64"
  shows "str_is m p l = Inr (s = bytes_of l)"
proof -
  have l: "cstring (lit l) 0 (bytes_of l)" using assms(2,3) by (rule cstring_bytes_of)
  then have "0 \<notin> set s" "0 \<notin> set (bytes_of l)" using assms(1) by (simp_all add: cstring_def)
  then show ?thesis using strcmp_cstring [OF assms(1) l] bcmp_eq_0 by (simp add: str_is_def)
qed

section \<open>Clocks\<close>

text \<open>
  The table as a partial map: the first entry of a phandle counts, and phandle 0 names nothing. A chain is the
  clock a phandle names, the clock that one names as its parent, and so on.
\<close>

definition clock_node :: "NodeMapping list \<Rightarrow> u32 \<rightharpoonup> NodeMapping" where
  "clock_node maps = (map_of (map (\<lambda>n. (nm_phandle n, n)) maps))(0 := None)"

fun clock_chain :: "NodeMapping list \<Rightarrow> u32 \<Rightarrow> NodeMapping list \<Rightarrow> bool" where
  "clock_chain maps p [] = True"
| "clock_chain maps p (n # ns) = (clock_node maps p = Some n \<and> clock_chain maps (nm_parent_clock n) ns)"

text \<open>A chain of clocks without a frequency of their own, and the phandle the last one names.\<close>

definition silent_chain :: "NodeMapping list \<Rightarrow> u32 \<Rightarrow> NodeMapping list \<Rightarrow> bool" where
  "silent_chain maps p ns \<longleftrightarrow> clock_chain maps p ns \<and> list_all (\<lambda>n. nm_clock_frequency n = 0) ns"

fun chain_end :: "u32 \<Rightarrow> NodeMapping list \<Rightarrow> u32" where
  "chain_end p [] = p"
| "chain_end p (n # ns) = chain_end (nm_parent_clock n) ns"

lemma silent_chain_simps [simp]:
  "silent_chain maps p []"
  "silent_chain maps p (n # ns) \<longleftrightarrow>
     clock_node maps p = Some n \<and> nm_clock_frequency n = 0 \<and> silent_chain maps (nm_parent_clock n) ns"
  by (auto simp: silent_chain_def)

lemma find_mapping_node: "p \<noteq> 0 \<Longrightarrow> find_mapping maps p = clock_node maps p" "clock_node maps 0 = None"
proof -
  have "find_mapping maps p = map_of (map (\<lambda>n. (nm_phandle n, n)) maps) p"
    by (induction maps) (auto simp: find_mapping_def)
  then show "p \<noteq> 0 \<Longrightarrow> find_mapping maps p = clock_node maps p" by (simp add: clock_node_def)
qed (simp add: clock_node_def)

lemma lookup_clock_unfold:
  "lookup_clock_frequency maps p =
     (case clock_node maps p of
        None \<Rightarrow> Some (Inl (Kpanic ''ShouldNotReachHere''))
      | Some n \<Rightarrow>
          if nm_clock_frequency n \<noteq> 0 then Some (Inr (nm_clock_frequency n))
          else lookup_clock_frequency maps (nm_parent_clock n))"
  by (subst lookup_clock_frequency.simps) (auto simp: find_mapping_node kpanic_def split: option.split)

text \<open>How a chain that is not endless ends.\<close>

definition clock_found :: "NodeMapping list \<Rightarrow> u32 \<Rightarrow> u32 \<Rightarrow> bool" where
  "clock_found maps p f \<longleftrightarrow> f \<noteq> 0 \<and>
     (\<exists>ns n. silent_chain maps p ns \<and> clock_node maps (chain_end p ns) = Some n \<and> nm_clock_frequency n = f)"

definition clock_missing :: "NodeMapping list \<Rightarrow> u32 \<Rightarrow> bool" where
  "clock_missing maps p \<longleftrightarrow> (\<exists>ns. silent_chain maps p ns \<and> clock_node maps (chain_end p ns) = None)"

lemma clock_step:
  assumes "clock_node maps p = Some n" "nm_clock_frequency n = 0"
  shows "clock_found maps (nm_parent_clock n) f \<Longrightarrow> clock_found maps p f"
    "clock_missing maps (nm_parent_clock n) \<Longrightarrow> clock_missing maps p"
proof -
  have e: "silent_chain maps p (n # ns) = silent_chain maps (nm_parent_clock n) ns" "chain_end p (n # ns) = chain_end (nm_parent_clock n) ns" for ns
    using assms by simp_all
  show "clock_found maps (nm_parent_clock n) f \<Longrightarrow> clock_found maps p f" unfolding clock_found_def using e by metis
  show "clock_missing maps (nm_parent_clock n) \<Longrightarrow> clock_missing maps p" unfolding clock_missing_def using e by metis
qed

lemma lookup_clock_ends:
  "\<not> (\<exists>ns. length ns = k \<and> silent_chain maps p ns) \<Longrightarrow>
   (\<exists>f. lookup_clock_frequency maps p = Some (Inr f) \<and> clock_found maps p f) \<or>
   lookup_clock_frequency maps p = Some (Inl (Kpanic ''ShouldNotReachHere'')) \<and> clock_missing maps p"
proof (induction k arbitrary: p)
  case (Suc k)
  note unf = lookup_clock_unfold [of maps p]
  show ?case
  proof (cases "clock_node maps p")
    case None
    then have "clock_missing maps p" unfolding clock_missing_def by (intro exI [of _ "[]"]) simp
    with None unf show ?thesis by simp
  next
    case (Some n)
    show ?thesis
    proof (cases "nm_clock_frequency n = 0")
      case True
      have "\<not> (\<exists>ns. length ns = k \<and> silent_chain maps (nm_parent_clock n) ns)"
      proof
        assume "\<exists>ns. length ns = k \<and> silent_chain maps (nm_parent_clock n) ns"
        then obtain ns where "length (n # ns) = Suc k" "silent_chain maps p (n # ns)" using Some True by auto
        with Suc.prems show False by blast
      qed
      from Suc.IH [OF this] show ?thesis using unf Some True clock_step [OF Some True] by auto
    next
      case False
      then have "clock_found maps p (nm_clock_frequency n)" unfolding clock_found_def using Some by (auto intro: exI [of _ "[]"])
      with Some False unf show ?thesis by simp
    qed
  qed
qed simp

text \<open>A chain that comes back to a clock without a frequency of its own.\<close>

lemma lookup_clock_spins:
  assumes "phandle \<in> C" and "\<forall>p\<in>C. p \<noteq> 0 \<and>
      (\<exists>n. find_mapping maps p = Some n \<and> nm_clock_frequency n = 0 \<and> nm_parent_clock n \<in> C)"
  shows "lookup_clock_frequency maps phandle = None"
proof (rule ccontr)
  assume "lookup_clock_frequency maps phandle \<noteq> None"
  then obtain r where r: "lookup_clock_frequency maps phandle = Some r" by blast
  have "maps' = maps \<longrightarrow> phandle' \<notin> C" if "lookup_clock_frequency maps' phandle' = Some r'" for maps' phandle' r'
    by (rule lookup_clock_frequency.raw_induct [of "\<lambda>maps' p r. maps' = maps \<longrightarrow> p \<notin> C", OF _ that])
      (use assms(2) in \<open>force split: if_splits option.splits\<close>)
  with r assms(1) show False by blast
qed

text \<open>A chain that never ends.\<close>

lemma lookup_clock_endless:
  assumes "\<forall>k. \<exists>ns. length ns = k \<and> silent_chain maps p ns"
  shows "lookup_clock_frequency maps p = None"
proof (rule lookup_clock_spins)
  let ?C = "{p. \<forall>k. \<exists>ns. length ns = k \<and> silent_chain maps p ns}"
  show "p \<in> ?C" using assms by simp
  show "\<forall>p\<in>?C. p \<noteq> 0 \<and> (\<exists>n. find_mapping maps p = Some n \<and> nm_clock_frequency n = 0 \<and> nm_parent_clock n \<in> ?C)"
  proof
    fix p assume p: "p \<in> ?C"
    have step: "\<exists>n ns. length ns = k \<and> clock_node maps p = Some n \<and> nm_clock_frequency n = 0 \<and> silent_chain maps (nm_parent_clock n) ns" for k
    proof -
      obtain ns where "length ns = Suc k" "silent_chain maps p ns" using p by blast
      then show ?thesis by (cases ns) auto
    qed
    then obtain n where n: "clock_node maps p = Some n" "nm_clock_frequency n = 0" by blast
    have "nm_parent_clock n \<in> ?C"
    proof (rule CollectI, rule allI)
      fix k show "\<exists>ns. length ns = k \<and> silent_chain maps (nm_parent_clock n) ns" using step [of k] n(1) by auto
    qed
    moreover have nz: "p \<noteq> 0" using n(1) by (auto simp: find_mapping_node(2))
    moreover have "find_mapping maps p = Some n" using n(1) by (simp add: find_mapping_node(1) [OF nz])
    ultimately show "p \<noteq> 0 \<and> (\<exists>n. find_mapping maps p = Some n \<and> nm_clock_frequency n = 0 \<and> nm_parent_clock n \<in> ?C)"
      using n(2) by blast
  qed
qed

section \<open>Properties\<close>

text \<open>The interrupts a list holds.\<close>

definition intids_of :: "Interrupts \<Rightarrow> u32 list" where
  "intids_of s = take (unat (int_num_intids s)) (int_intids s)"

definition interrupts_ok :: "Interrupts \<Rightarrow> bool" where
  "interrupts_ok s \<longleftrightarrow> length (int_intids s) = 5 \<and> int_num_intids s \<le> 5"

lemma interrupts_reset_ok: "interrupts_ok s \<Longrightarrow> interrupts_ok (interrupts_reset s)"
  by (simp add: interrupts_ok_def interrupts_reset_def)

lemma register_intid_ok:
  assumes "interrupts_ok s"
  shows "register_intid s i = (if length (intids_of s) < 5
      then Inr (s\<lparr>int_intids := (int_intids s)[length (intids_of s) := i],
                  int_num_intids := int_num_intids s + 1\<rparr>)
      else Inl (Kassert ''precond''))"
    and "length (intids_of s) < 5 \<Longrightarrow>
      intids_of (s\<lparr>int_intids := (int_intids s)[length (intids_of s) := i],
                  int_num_intids := int_num_intids s + 1\<rparr>) = intids_of s @ [i] \<and>
      interrupts_ok (s\<lparr>int_intids := (int_intids s)[length (intids_of s) := i],
                  int_num_intids := int_num_intids s + 1\<rparr>)"
proof -
  let ?n = "unat (int_num_intids s)"
  have len: "length (intids_of s) = ?n"
    using assms by (simp add: intids_of_def interrupts_ok_def word_le_nat_alt)
  then show "register_intid s i = (if length (intids_of s) < 5
      then Inr (s\<lparr>int_intids := (int_intids s)[length (intids_of s) := i],
                  int_num_intids := int_num_intids s + 1\<rparr>)
      else Inl (Kassert ''precond''))"
    by (auto simp: register_intid_def Interrupts_Capacity_def word_less_nat_alt kassert_def)
  assume "length (intids_of s) < 5"
  with len have n: "?n < 5" and s: "unat (int_num_intids s + 1) = Suc ?n"
    by (simp_all add: unat_word_ariths)
  with assms show "intids_of (s\<lparr>int_intids := (int_intids s)[length (intids_of s) := i],
                  int_num_intids := int_num_intids s + 1\<rparr>) = intids_of s @ [i] \<and>
      interrupts_ok (s\<lparr>int_intids := (int_intids s)[length (intids_of s) := i],
                  int_num_intids := int_num_intids s + 1\<rparr>)"
    unfolding len by (simp add: intids_of_def interrupts_ok_def word_le_nat_alt take_Suc_conv_app_nth)
qed

lemma interrupts_get_nth:
  assumes "interrupts_ok s"
  shows "interrupts_get s k = (if unat k < length (intids_of s) then Inr (intids_of s ! unat k)
      else Inl (Kassert ''precond''))"
  using assms
  by (auto simp: interrupts_get_def intids_of_def interrupts_ok_def word_less_nat_alt word_le_nat_alt kassert_def)

text \<open>An \<open>Interrupts\<close> object is a list of at most five interrupt ids: \<open>register_intid\<close>
  appends while there is room and stops at the precondition when there is none, \<open>get\<close> returns
  the ids in the order they were registered and stops outside the list, \<open>reset\<close> empties it.\<close>

theorem interrupts_bounded_list:
  assumes "interrupts_ok s"
  shows "(length (intids_of s) < 5 \<longrightarrow> (\<exists>s'. register_intid s i = Inr s' \<and> interrupts_ok s' \<and>
        intids_of s' = intids_of s @ [i] \<and>
        (\<forall>k. unat k \<le> length (intids_of s) \<longrightarrow>
           interrupts_get s' k = Inr ((intids_of s @ [i]) ! unat k)))) \<and>
    (length (intids_of s) = 5 \<longrightarrow> register_intid s i = Inl (Kassert ''precond'')) \<and>
    (\<forall>k. length (intids_of s) \<le> unat k \<longrightarrow> interrupts_get s k = Inl (Kassert ''precond'')) \<and>
    intids_of (interrupts_reset s) = []"
proof (intro conjI impI)
  assume "length (intids_of s) < 5"
  with register_intid_ok [OF assms, of i] interrupts_get_nth
  show "\<exists>s'. register_intid s i = Inr s' \<and> interrupts_ok s' \<and> intids_of s' = intids_of s @ [i] \<and>
        (\<forall>k. unat k \<le> length (intids_of s) \<longrightarrow>
           interrupts_get s' k = Inr ((intids_of s @ [i]) ! unat k))"
    by (simp add: less_Suc_eq_le)
qed (use register_intid_ok(1) [OF assms, of i] interrupts_get_nth [OF assms] in
  \<open>simp, simp, simp add: intids_of_def interrupts_reset_def\<close>)

theorem interrupts_bounded_list_witness:
  "\<exists>s'. register_intid \<lparr>int_num_intids = 1, int_intids = [27, 0, 0, 0, 0]\<rparr> 30 = Inr s' \<and>
     interrupts_get s' 0 = Inr 27 \<and> interrupts_get s' 1 = Inr 30"
  using interrupts_bounded_list [of "\<lparr>int_num_intids = 1, int_intids = [27, 0, 0, 0, 0]\<rparr>" 30]
  by (force simp: interrupts_ok_def intids_of_def)

text \<open>C27: Matching a \<open>compatible\<close> list: on a list of NUL-separated strings in memory
  \<open>compatible_list_contains\<close> returns, and returns true exactly when one of the strings is the
  handler's string; a list whose last string has no terminator needs one more readable byte.\<close>

theorem compatible_list_correct:
  assumes "list_in_memory m val bs" and "unat len = length bs" and "unat val + 2 ^ 32 < 2 ^ 64"
    and "CHR 0x00 \<notin> set needle" and "length needle < 2 ^ 32"
  shows "compatible_list_contains m val len needle = Inr (bytes_of needle \<in> set (strings_of bs))"
  using compatible_loop_spec [of m val 0 bs len needle] assms by (simp add: compatible_list_contains_def)

theorem compatible_list_correct_witness:
  "compatible_list_contains (mem_of 4096 (bytes_of ''arm,pl011'' @ [0] @ bytes_of ''arm,primecell'' @ [0]))
     4096 24 ''arm,primecell'' = Inr True"
proof -
  let ?bs = "bytes_of ''arm,pl011'' @ [0] @ bytes_of ''arm,primecell'' @ [0]"
  have "list_in_memory (mem_of 4096 ?bs) 4096 ?bs"
    unfolding list_in_memory_def by (intro conjI bytes_at_mem_of) (simp_all add: bytes_of_def)
  from compatible_list_correct [OF this, of 24 "''arm,primecell''"]
  show ?thesis by (simp add: bytes_of_def)
qed

text \<open>A \<open>reg\<close> entry reads back: an address and a length encoded with the parent's
  \<open>#address-cells\<close> and \<open>#size-cells\<close> are what \<open>read_reg_pair\<close> returns.\<close>

theorem read_reg_pair_roundtrip:
  assumes "bytes_at m val (enc_cells (nc_address cells) a @ enc_cells (nc_size cells) l)"
    and "cells_fit (nc_address cells) a" and "cells_fit (nc_size cells) l"
  shows "read_reg_pair m cells val = Inr \<lparr>rp_address = a, rp_length = l\<rparr>"
  by (rule read_reg_pair_enc [OF assms])

theorem read_reg_pair_roundtrip_witness:
  "read_reg_pair (mem_of 4096 (enc64 0x40000000 @ enc32 0x1000)) cells_default 4096
     = Inr \<lparr>rp_address = 0x40000000, rp_length = 0x1000\<rparr>"
proof -
  have "bytes_at (mem_of 4096 (enc64 0x40000000 @ enc32 0x1000)) 4096 (enc64 0x40000000 @ enc32 0x1000)"
    by (rule bytes_at_mem_of) simp
  with read_reg_pair_roundtrip [where val = 4096 and cells = cells_default and a = "0x40000000" and l = "0x1000"] show ?thesis
    by (simp add: cells_default_def enc_cells_def cells_fit_def)
qed

text \<open>C18: Translation through one bus: for a bus with an encoded \<open>ranges\<close> property the code
  moves an address by the first range that holds it and leaves an address outside all ranges
  unchanged.\<close>

theorem translate_bus_correct:
  assumes "find_prop m bus ''ranges'' = Inr (Some r)"
    and "bytes_at m (pf_value r) (concat (map (enc_range cc pc sc) rs))"
    and "\<forall>x\<in>set rs. range_ok cc pc sc x" and "rs \<noteq> []"
    and "cc = nc_address (nf_own_cells bus)" and "pc = nc_address (nf_parent_cells bus)"
    and "sc = nc_size (nf_own_cells bus)" and "0 < sc"
    and "unat (pf_len r) = length (concat (map (enc_range cc pc sc) rs))"
  shows "translate_bus m bus address = Inr (translate_spec rs address)"
proof -
  obtain c p l where "(c, p, l) \<in> set rs" using assms(4) by (cases rs) auto
  with assms(3) have fit: "cells_fit cc c" "cells_fit pc p" "cells_fit sc l" by auto
  have lens: "length (concat (map (enc_range cc pc sc) xs)) = length xs * (4 * (unat cc + unat pc + unat sc))"
    if "\<forall>x\<in>set xs. range_ok cc pc sc x" for xs
    using that by (induction xs) (auto simp: length_enc_cells)
  have len: "unat (pf_len r) = length rs * (4 * (unat cc + unat pc + unat sc))"
    by (rule trans [OF assms(9) lens [OF assms(3)]])
  have sz: "unat ((cc + pc + sc) * BytesPerUnit) = 4 * (unat cc + unat pc + unat sc)"
    using fit by (auto simp: cells_fit_def BytesPerUnit_def)
  moreover have "0 < unat sc" using assms(8) by (simp add: unat_gt_0)
  ultimately have "(cc + pc + sc) * BytesPerUnit \<noteq> 0" by auto
  moreover have "unat (pf_len r div ((cc + pc + sc) * BytesPerUnit)) = length rs"
    using len sz \<open>0 < unat sc\<close> by (simp add: unat_div)
  moreover have "pf_len r \<noteq> 0" using len \<open>0 < unat sc\<close> assms(4) by auto
  ultimately show ?thesis
    using assms(1) translate_triplets_spec [OF assms(2,3), of address] assms(5-7)
    by (simp add: translate_bus_def Let_def)
qed

theorem translate_bus_correct_witness:
  "translate_bus
     (mem_of 4096 (bytes_of ''ranges'' @ [0] @ enc_range 1 2 1 (0x7E000000, 0xFE000000, 0x1800000)))
     \<lparr>nf_name = 0, nf_parent_cells = cells_default,
      nf_own_cells = cells_default\<lparr>nc_address := 1\<rparr>, nf_nprops = 1, nf_compatible_prop_idx = - 1,
      nf_device_type_prop_idx = - 1, nf_props = [\<lparr>pf_name = 4096, pf_value = 4103, pf_len = 16\<rparr>],
      nf_parent = None\<rparr> 0x7E201000 = Inr 0xFE201000"
  (is "translate_bus ?m ?bus _ = _")
proof -
  let ?bs = "enc_range 1 2 1 (0x7E000000, 0xFE000000, 0x1800000)" and ?n = "bytes_of ''ranges''"
  have len: "length ?n = 6" "0 \<notin> set ?n" by (simp_all add: bytes_of_def)
  define m where "m = ?m"
  have "bytes_at m 4096 ((?n @ [0]) @ ?bs)"
    unfolding m_def append_assoc by (rule bytes_at_mem_of) (simp add: len enc_cells_def)
  then have n: "cstring m 4096 ?n" and v: "bytes_at m 4103 ?bs"
    unfolding bytes_at_append [of _ _ "?n @ [0]"] cstring_def using len by (simp_all del: enc_range.simps)
  have "cstring (lit ''ranges'') 0 ?n" by (rule cstring_bytes_of) simp_all
  then have "strcmp m 4096 (lit ''ranges'') 0 = Inr (bcmp ?n ?n)"
    by (rule strcmp_cstring [OF n])
  moreover have "bcmp ?n ?n = 0" using bcmp_eq_0 len(2) by blast
  ultimately have f: "find_prop m ?bus ''ranges'' = Inr (Some \<lparr>pf_name = 4096, pf_value = 4103, pf_len = 16\<rparr>)"
    by (simp add: find_prop_def node_props_def str_is_def)
  let ?rs = "[(0x7E000000, 0xFE000000, 0x1800000)] :: range list"
  have "translate_bus m ?bus 0x7E201000 = Inr (translate_spec ?rs 0x7E201000)"
  proof (rule translate_bus_correct [OF f, of 1 2 1 ?rs])
    show "\<forall>x\<in>set ?rs. range_ok 1 2 1 x" by (simp add: cells_fit_def)
    show "unat (pf_len \<lparr>pf_name = 4096, pf_value = 4103, pf_len = 16\<rparr>) =
        length (concat (map (enc_range 1 2 1) ?rs))" by (simp add: enc_cells_def)
  qed (use v in \<open>simp_all add: cells_default_def del: enc_range.simps\<close>)
  then show ?thesis unfolding m_def by (simp add: translate_spec_def del: enc_range.simps)
qed

text \<open>C28: Nested clocks, with the phandle table read as a partial map in which the first entry of a phandle counts:
  \<open>lookup_clock_frequency\<close> returns the frequency of the first clock on the chain of parents that has one; it panics
  exactly when the chain comes to a phandle that is 0 or names no node before any frequency; and it spins exactly when
  the chain goes on without a frequency for ever.\<close>

theorem lookup_clock_correct:
  "case lookup_clock_frequency maps p of
     Some (Inr f) \<Rightarrow> f \<noteq> 0 \<and> (\<exists>ns n. silent_chain maps p ns \<and> clock_node maps (chain_end p ns) = Some n \<and> nm_clock_frequency n = f)
   | Some (Inl e) \<Rightarrow> e = Kpanic ''ShouldNotReachHere'' \<and> (\<exists>ns. silent_chain maps p ns \<and> clock_node maps (chain_end p ns) = None)
   | None \<Rightarrow> (\<forall>k. \<exists>ns. length ns = k \<and> silent_chain maps p ns)"
proof (cases "\<forall>k. \<exists>ns. length ns = k \<and> silent_chain maps p ns")
  case True
  then show ?thesis using lookup_clock_endless [OF True] by simp
next
  case False
  then obtain k where "\<not> (\<exists>ns. length ns = k \<and> silent_chain maps p ns)" by blast
  from lookup_clock_ends [OF this] show ?thesis
    by (elim disjE exE conjE) (simp_all only: option.case sum.case clock_found_def clock_missing_def simp_thms)
qed

text \<open>A clock behind another one, with a later entry for the same phandle.\<close>

theorem lookup_clock_correct_witness:
  "\<exists>ns n. silent_chain
       [\<lparr>nm_phandle = 1, nm_interrupt_cells = 0, nm_clock_frequency = 0, nm_parent_clock = 2\<rparr>,
        \<lparr>nm_phandle = 2, nm_interrupt_cells = 0, nm_clock_frequency = 24000000, nm_parent_clock = 0\<rparr>,
        \<lparr>nm_phandle = 2, nm_interrupt_cells = 0, nm_clock_frequency = 7, nm_parent_clock = 0\<rparr>] 1 ns \<and>
     clock_node
       [\<lparr>nm_phandle = 1, nm_interrupt_cells = 0, nm_clock_frequency = 0, nm_parent_clock = 2\<rparr>,
        \<lparr>nm_phandle = 2, nm_interrupt_cells = 0, nm_clock_frequency = 24000000, nm_parent_clock = 0\<rparr>,
        \<lparr>nm_phandle = 2, nm_interrupt_cells = 0, nm_clock_frequency = 7, nm_parent_clock = 0\<rparr>] (chain_end 1 ns) = Some n \<and>
     nm_clock_frequency n = 24000000"
proof -
  let ?maps = "[\<lparr>nm_phandle = 1, nm_interrupt_cells = 0, nm_clock_frequency = 0, nm_parent_clock = 2\<rparr>,
        \<lparr>nm_phandle = 2, nm_interrupt_cells = 0, nm_clock_frequency = 24000000, nm_parent_clock = 0\<rparr>,
        \<lparr>nm_phandle = 2, nm_interrupt_cells = 0, nm_clock_frequency = 7, nm_parent_clock = 0\<rparr>]"
  have "lookup_clock_frequency ?maps 1 = Some (Inr 24000000)"
    by (simp add: lookup_clock_frequency.simps find_mapping_def)
  with lookup_clock_correct [of ?maps 1] show ?thesis by (simp only: option.case sum.case)
qed

lemma phandle_pass:
  assumes "blob_in_memory m fdt" and "length junk = 8" and "\<forall>f\<in>set junk. length (nf_props f) = 30"
  shows "\<exists>r. parse_frames_phandle m fdt junk maps = Some r \<and>
    (\<forall>table. r = Inr (StatusOk, table) \<longrightarrow> length table < 300 \<and> (\<forall>n\<in>set table. nm_phandle n \<noteq> 0))"
proof (cases "parser_init m parser_default fdt")
  case (Inr x)
  obtain status dtp where x: "x = (status, dtp)" by (cases x)
  show ?thesis
  proof (cases "status = StatusOk")
    case True
    then have ok: "parser_ok m dtp" using parser_init_ok [OF assms(1)] Inr x by blast
    have "phandle_ok (parsing_frame_init junk, [])"
      using parsing_frame_init_ok [OF assms(2,3)] by (simp add: phandle_ok_def)
    then have "ensures phandle_ok (walk (parser_next m) (\<lambda>p st. Some (phandle_step m p st)) dtp
        (parsing_frame_init junk, []))"
      using ok phandle_step_ok by (intro fdt.walk_ensures)
    then have "ensures (\<lambda>(st, t). length t < 300 \<and> (\<forall>n\<in>set t. nm_phandle n \<noteq> 0))
        (parse_frames_phandle m fdt junk maps)"
      using Inr x True by (auto simp: parse_frames_phandle_def phandle_ok_def intro!: ensures_bind_comp)
    then show ?thesis by (auto simp: ensures_def)
  qed (simp add: parse_frames_phandle_def Inr x)
qed (simp add: parse_frames_phandle_def)

text \<open>The first pass over a blob in memory returns, whatever the blob holds, and leaves a
  table of fewer than 300 entries whose phandles are not 0.\<close>

theorem phandle_pass_table:
  assumes "blob_in_memory m fdt" and "length junk = 8" and "\<forall>f\<in>set junk. length (nf_props f) = 30"
  shows "\<exists>r. parse_frames_phandle m fdt junk maps = Some r \<and>
    (\<forall>table. r = Inr (StatusOk, table) \<longrightarrow> length table < 300 \<and> (\<forall>n\<in>set table. nm_phandle n \<noteq> 0))"
  by (rule phandle_pass [OF assms])

theorem phandle_pass_table_witness:
  "\<exists>r. parse_frames_phandle demo_fdt 4096 (replicate 8 \<lparr>nf_name = 0, nf_parent_cells = cells_default,
      nf_own_cells = cells_default, nf_nprops = 77, nf_compatible_prop_idx = 0,
      nf_device_type_prop_idx = 0, nf_props = replicate 30 \<lparr>pf_name = 0, pf_value = 0, pf_len = 0\<rparr>,
      nf_parent = None\<rparr>) [] = Some r"
proof (rule demo_fdt_init)
  assume "blob_in_memory demo_fdt 4096"
  from phandle_pass_table [OF this, of "replicate 8 \<lparr>nf_name = 0, nf_parent_cells = cells_default,
      nf_own_cells = cells_default, nf_nprops = 77, nf_compatible_prop_idx = 0,
      nf_device_type_prop_idx = 0, nf_props = replicate 30 \<lparr>pf_name = 0, pf_value = 0, pf_len = 0\<rparr>,
      nf_parent = None\<rparr>" "[]"]
  show ?thesis by (auto simp: in_set_replicate)
qed

section \<open>What the passes leave behind\<close>

text \<open>A clock that names itself as its parent keeps the loop going for ever.\<close>

theorem lookup_clock_cycle_spins:
  "lookup_clock_frequency
     [\<lparr>nm_phandle = 1, nm_interrupt_cells = 0, nm_clock_frequency = 0, nm_parent_clock = 1\<rparr>] 1 = None"
  by (rule lookup_clock_spins [of _ "{1}"]) (simp_all add: find_mapping_def)

text \<open>The frame of a node that ended is reused for its next sibling with the slot of its
  \<open>compatible\<close> and \<open>device_type\<close> properties still tracked.\<close>

theorem sibling_keeps_match:
  assumes "parsing_ok pg" "0 < pg_top pg" and "full_begin m dtp (pop_frame pg) = Inr pg1"
    and "str_is m (parser_node_name dtp) [] = Inr False"
  shows "compatible_prop (current_frame pg1) = compatible_prop (current_frame pg) \<and>
    device_type_prop (current_frame pg1) = device_type_prop (current_frame pg) \<and>
    nf_nprops (current_frame pg1) = 0"
proof -
  note cur = parsing_ok_current [OF assms(1)]
  have "pg_top (pop_frame pg) + 1 = pg_top pg" "pg_node_frame (pop_frame pg) = pg_node_frame pg"
    using assms(2) by (auto simp: pop_frame_def)
  with assms(3,4) cur show ?thesis
    by (auto simp: full_begin_def push_frame_def Let_def bind_res_Inr_iff enter_node_def
        set_current_def current_frame_def compatible_prop_def device_type_prop_def)
qed

end
