(* ===== verification/Memory_Map.thy ===== *)
theory Memory_Map
  imports DeviceTree
begin

text \<open>
  The memory map (\<open>src/src/memory/map.h\<close>, \<open>src/src/memory/map.cpp\<close>): region lists with
  merging of adjacent regions, the RAM, reserved and device lists, the handler of memory
  nodes, the check of device regions against RAM and the reservation of the kernel, the
  blob and its reserved entries. Regions are read as sets of addresses; the lemmas show that
  a list always covers exactly what was added to it.
\<close>

section \<open>Region lists\<close>

record Region =
  reg_start :: u64
  reg_size :: u64

definition MaxNumRegions :: nat where "MaxNumRegions = 16"

record RegionList =
  rl_num_regions :: u64
  rl_regions :: "Region list"

fun merge_region :: "Region list \<Rightarrow> u64 \<Rightarrow> u64 \<Rightarrow> Region list option" where
  "merge_region [] start sz = None"
| "merge_region (r # rs) start sz =
     (if reg_start r + reg_size r = start
      then Some (r\<lparr>reg_size := reg_size r + sz\<rparr> # rs)
      else if start + sz = reg_start r
      then Some (r\<lparr>reg_start := reg_start r - sz, reg_size := reg_size r + sz\<rparr> # rs)
      else map_option (Cons r) (merge_region rs start sz))"

definition add_region :: "RegionList \<Rightarrow> u64 \<Rightarrow> u64 \<Rightarrow> RegionList res" where
  "add_region l start sz =
     bind_res (kassert (rl_num_regions l < of_nat (MaxNumRegions - 1)) ''precond'') (\<lambda>_.
       let n = unat (rl_num_regions l) in
       case merge_region (take n (rl_regions l)) start sz of
         Some rs \<Rightarrow> Inr (l\<lparr>rl_regions := rs @ drop n (rl_regions l)\<rparr>)
       | None \<Rightarrow>
           Inr (l\<lparr>rl_regions := (rl_regions l)[n := \<lparr>reg_start = start, reg_size = sz\<rparr>],
                  rl_num_regions := rl_num_regions l + 1\<rparr>))"

definition regions_overlap :: "u64 \<Rightarrow> u64 \<Rightarrow> u64 \<Rightarrow> u64 \<Rightarrow> bool" where
  "regions_overlap start1 size1 start2 size2 =
     (if size1 = 0 \<or> size2 = 0 then False
      else start1 < start2 + size2 \<and> start2 < start1 + size1)"

text \<open>The three static lists.\<close>

record MemoryMap =
  mm_reserved_regions :: RegionList
  mm_ram_regions :: RegionList
  mm_device_regions :: RegionList

text \<open>The regions a loop over a list visits.\<close>

definition regions :: "RegionList \<Rightarrow> Region list" where
  "regions l = take (unat (rl_num_regions l)) (rl_regions l)"

definition record_device_region :: "MemoryMap \<Rightarrow> u64 \<Rightarrow> u64 \<Rightarrow> MemoryMap res" where
  "record_device_region mm start sz =
     bind_res (add_region (mm_device_regions mm) start sz) (\<lambda>l.
     Inr (mm\<lparr>mm_device_regions := l\<rparr>))"

fun check_against_ram :: "Region \<Rightarrow> Region list \<Rightarrow> unit res" where
  "check_against_ram d [] = Inr ()"
| "check_against_ram d (r # rs) =
     bind_res (kassert (\<not> regions_overlap (reg_start d) (reg_size d) (reg_start r) (reg_size r))
       ''Device region overlaps RAM'') (\<lambda>_. check_against_ram d rs)"

fun check_devices :: "Region list \<Rightarrow> Region list \<Rightarrow> unit res" where
  "check_devices [] ram = Inr ()"
| "check_devices (d # ds) ram = bind_res (check_against_ram d ram) (\<lambda>_. check_devices ds ram)"

definition validate_device_regions :: "MemoryMap \<Rightarrow> unit res" where
  "validate_device_regions mm =
     check_devices (regions (mm_device_regions mm)) (regions (mm_ram_regions mm))"

section \<open>The memory node\<close>

text \<open>One \<open>reg\<close> property of a memory node.\<close>

definition memory_reg :: "mem \<Rightarrow> NodeCells \<Rightarrow> PropFrame \<Rightarrow> MemoryMap \<Rightarrow> MemoryMap res" where
  "memory_reg m cells prop mm =
     (let rp_size_bytes = cells_byte_size cells in
      if rp_size_bytes = 0 then Inl DivZero
      else
        bind_res (kassert (pf_len prop mod rp_size_bytes = 0) ''Invalid reg length'') (\<lambda>_.
        bind_res (kassert (pf_len prop div rp_size_bytes = 1)
          ''Only expecting one reg pair for the memory node'') (\<lambda>_.
        bind_res (read_reg_pair m cells (pf_value prop)) (\<lambda>rp.
        bind_res (add_region (mm_ram_regions mm) (rp_address rp) (rp_length rp)) (\<lambda>l.
        Inr (mm\<lparr>mm_ram_regions := l\<rparr>))))))"

fun memory_props :: "mem \<Rightarrow> NodeCells \<Rightarrow> PropFrame list \<Rightarrow> MemoryMap \<Rightarrow> MemoryMap res" where
  "memory_props m cells [] mm = Inr mm"
| "memory_props m cells (p # ps) mm =
     bind_res (str_is m (pf_name p) ''reg'') (\<lambda>b.
     bind_res (if b then memory_reg m cells p mm else Inr mm) (\<lambda>mm1.
     memory_props m cells ps mm1))"

definition memory_dt_parse :: "mem \<Rightarrow> NodeFrame \<Rightarrow> MemoryMap \<Rightarrow> MemoryMap res" where
  "memory_dt_parse m f mm =
     bind_res (memory_props m (nf_parent_cells f) (node_props f) mm) (\<lambda>mm1.
     bind_res (nprops_overrun f) (\<lambda>_. Inr mm1))"

section \<open>Reservations\<close>

text \<open>The bootloader hole: from the start of the RAM region that holds the kernel up to it.\<close>

fun reserve_hole :: "u64 \<Rightarrow> Region list \<Rightarrow> RegionList \<Rightarrow> RegionList res" where
  "reserve_hole kernel_start [] l = Inr l"
| "reserve_hole kernel_start (r # rs) l =
     (if kernel_start > reg_start r \<and> kernel_start < reg_start r + reg_size r
      then add_region l (reg_start r) (kernel_start - reg_start r)
      else reserve_hole kernel_start rs l)"

partial_function (option) reserve_entries ::
    "mem \<Rightarrow> Parser \<Rightarrow> u32 \<Rightarrow> u64 \<times> u64 \<Rightarrow> RegionList \<Rightarrow> RegionList comp" where
  "reserve_entries m parser i out l =
     bind_comp (Some (reserve_entry m parser i out)) (\<lambda>(more, address, sz).
     if \<not> more then Some (Inr l)
     else bind_comp (Some (add_region l address sz)) (\<lambda>l1.
       reserve_entries m parser (i + 1) (address, sz) l1))"

text \<open>\<open>kernel_start\<close> and \<open>kernel_end\<close> are the linker's symbols \<open>_start\<close> and
  \<open>__kernel_end\<close>; \<open>out\<close> is what the uninitialised locals hold.\<close>

definition memory_init ::
    "mem \<Rightarrow> u64 \<Rightarrow> u64 \<Rightarrow> u64 \<times> u64 \<Rightarrow> u64 \<Rightarrow> MemoryMap \<Rightarrow> MemoryMap comp" where
  "memory_init m kernel_start kernel_end out fdt mm =
     bind_comp (Some (reserve_hole kernel_start (regions (mm_ram_regions mm)) (mm_reserved_regions mm)))
       (\<lambda>l0.
     bind_comp (Some (parser_init m parser_default fdt)) (\<lambda>(status, parser).
     if status \<noteq> StatusOk then Some (kpanic ''Failed to initialize parser for Memory Map init'')
     else
     bind_comp (reserve_entries m parser 0 out l0) (\<lambda>l1.
     bind_comp (Some (add_region l1 kernel_start (kernel_end - kernel_start))) (\<lambda>l2.
     bind_comp (Some (parser_totalsize m parser)) (\<lambda>total.
     bind_comp (Some (add_region l2 fdt (ucast total))) (\<lambda>l3.
     Some (Inr (mm\<lparr>mm_reserved_regions := l3\<rparr>))))))))"

section \<open>What a list covers\<close>

definition span :: "u64 \<Rightarrow> u64 \<Rightarrow> nat set" where
  "span start sz = {unat start ..< unat start + unat sz}"

definition region_span :: "Region \<Rightarrow> nat set" where
  "region_span r = span (reg_start r) (reg_size r)"

definition no_wrap :: "u64 \<Rightarrow> u64 \<Rightarrow> bool" where
  "no_wrap start sz \<longleftrightarrow> unat start + unat sz < 2 ^ 64"

definition coverage :: "RegionList \<Rightarrow> nat set" where
  "coverage l = (\<Union>r\<in>set (regions l). region_span r)"

definition list_ok :: "RegionList \<Rightarrow> bool" where
  "list_ok l \<longleftrightarrow>
     length (rl_regions l) = 16 \<and> rl_num_regions l \<le> 15 \<and>
     (\<forall>r\<in>set (regions l). no_wrap (reg_start r) (reg_size r))"

fun disjoint_regions :: "Region list \<Rightarrow> bool" where
  "disjoint_regions [] = True"
| "disjoint_regions (r # rs) \<longleftrightarrow>
     (\<forall>r'\<in>set rs. region_span r \<inter> region_span r' = {}) \<and> disjoint_regions rs"

lemma merge_region_cases:
  assumes "reg_start r + reg_size r = start" "no_wrap (reg_start r) (reg_size r)" "no_wrap start sz"
  shows "no_wrap (reg_start r) (reg_size r + sz)"
    and "span (reg_start r) (reg_size r + sz) = region_span r \<union> span start sz"
proof -
  have s: "unat start = unat (reg_start r) + unat (reg_size r)"
    using assms(1,2) unat_u64_add [of "reg_start r" "reg_size r"] by (simp add: no_wrap_def)
  moreover have "unat (reg_size r + sz) = unat (reg_size r) + unat sz"
    using s assms(3) by (intro unat_u64_add) (simp add: no_wrap_def)
  ultimately show "no_wrap (reg_start r) (reg_size r + sz)"
    and "span (reg_start r) (reg_size r + sz) = region_span r \<union> span start sz"
    using assms(3) by (auto simp: no_wrap_def span_def region_span_def)
qed

lemma merge_region_below:
  assumes "start + sz = reg_start r" "no_wrap (reg_start r) (reg_size r)" "no_wrap start sz"
  shows "reg_start r - sz = start" and "no_wrap start (reg_size r + sz)"
    and "span start (reg_size r + sz) = region_span r \<union> span start sz"
proof -
  show "reg_start r - sz = start" using assms(1) by (simp add: algebra_simps)
  have s: "unat (reg_start r) = unat start + unat sz"
    using assms(1,3) unat_u64_add [of start sz] by (simp add: no_wrap_def)
  moreover have "unat (reg_size r + sz) = unat (reg_size r) + unat sz"
    using s assms(2) by (intro unat_u64_add) (simp add: no_wrap_def)
  ultimately show "no_wrap start (reg_size r + sz)"
    and "span start (reg_size r + sz) = region_span r \<union> span start sz"
    using assms(2) by (auto simp: no_wrap_def span_def region_span_def)
qed

lemma merge_region_length: "merge_region rs start sz = Some rs' \<Longrightarrow> length rs' = length rs"
  by (induction rs arbitrary: rs') (auto split: if_splits)

lemma merge_head:
  assumes "region_span h = region_span r \<union> span start sz"
  shows "(\<Union>r\<in>set (h # rs). region_span r) = (\<Union>r\<in>set (r # rs). region_span r) \<union> span start sz"
    and "disjoint_regions (r # rs) \<Longrightarrow> \<forall>r\<in>set (r # rs). region_span r \<inter> span start sz = {} \<Longrightarrow>
      disjoint_regions (h # rs)"
  using assms by auto

lemma merge_region_spec:
  assumes "merge_region rs start sz = Some rs'" "no_wrap start sz"
    and "\<forall>r\<in>set rs. no_wrap (reg_start r) (reg_size r)"
  shows "length rs' = length rs \<and> (\<forall>r\<in>set rs'. no_wrap (reg_start r) (reg_size r)) \<and>
    (\<Union>r\<in>set rs'. region_span r) = (\<Union>r\<in>set rs. region_span r) \<union> span start sz \<and>
    (disjoint_regions rs \<and> (\<forall>r\<in>set rs. region_span r \<inter> span start sz = {}) \<longrightarrow> disjoint_regions rs')"
  using assms(1,3)
proof (induction rs arbitrary: rs')
  case (Cons r rs)
  have ok: "no_wrap (reg_start r) (reg_size r)" using Cons.prems(2) by simp
  consider "reg_start r + reg_size r = start" | "reg_start r + reg_size r \<noteq> start" "start + sz = reg_start r"
    | rs1 where "merge_region rs start sz = Some rs1" "rs' = r # rs1"
    using Cons.prems(1) by (auto split: if_splits)
  then show ?case
  proof cases
    case 1
    let ?h = "r\<lparr>reg_size := reg_size r + sz\<rparr>"
    note m = merge_region_cases [OF 1 ok assms(2)]
    have h: "region_span ?h = region_span r \<union> span start sz" using m(2) by (simp add: region_span_def)
    have rs': "rs' = ?h # rs" using 1 Cons.prems(1) by simp
    show ?thesis
      unfolding rs' using merge_head [OF h, of rs] m(1) Cons.prems(2) by simp
  next
    case 2
    let ?h = "r\<lparr>reg_start := reg_start r - sz, reg_size := reg_size r + sz\<rparr>"
    note m = merge_region_below [OF 2(2) ok assms(2)]
    have h: "region_span ?h = region_span r \<union> span start sz" using m(1,3) by (simp add: region_span_def)
    have rs': "rs' = ?h # rs" using 2 Cons.prems(1) by simp
    show ?thesis
      unfolding rs' using merge_head [OF h, of rs] m(1,2) Cons.prems(2) by simp
  next
    case 3
    from Cons.IH [OF 3(1)] Cons.prems(2)
    have IH: "length rs1 = length rs" "\<forall>r\<in>set rs1. no_wrap (reg_start r) (reg_size r)"
      "(\<Union>r\<in>set rs1. region_span r) = (\<Union>r\<in>set rs. region_span r) \<union> span start sz"
      "disjoint_regions rs \<and> (\<forall>r\<in>set rs. region_span r \<inter> span start sz = {}) \<longrightarrow> disjoint_regions rs1"
      by simp_all
    have "\<forall>r'\<in>set rs1. region_span r \<inter> region_span r' = {}"
      if "\<forall>r'\<in>set rs. region_span r \<inter> region_span r' = {}" "region_span r \<inter> span start sz = {}"
      using that IH(3) by blast
    with IH ok 3(2) show ?thesis by (auto simp: Un_assoc)
  qed
qed simp

lemma regions_append:
  assumes "length (rl_regions l) = 16" "rl_num_regions l < 15"
  shows "regions (l\<lparr>rl_regions := (rl_regions l)[unat (rl_num_regions l) := r],
       rl_num_regions := rl_num_regions l + 1\<rparr>) = regions l @ [r]"
proof -
  have "unat (rl_num_regions l) < 15" using assms(2) by (simp add: word_less_nat_alt)
  then have "unat (rl_num_regions l + 1) = Suc (unat (rl_num_regions l))"
    by (simp add: unat_word_ariths)
  with assms \<open>unat (rl_num_regions l) < 15\<close> show ?thesis
    by (simp add: regions_def take_Suc_conv_app_nth)
qed

lemma add_region_regions:
  assumes "list_ok l" "rl_num_regions l < 15"
  shows "\<exists>l'. add_region l start sz = Inr l' \<and> length (rl_regions l') = 16 \<and>
    regions l' = (case merge_region (regions l) start sz of Some rs \<Rightarrow> rs
      | None \<Rightarrow> regions l @ [\<lparr>reg_start = start, reg_size = sz\<rparr>]) \<and>
    (rl_num_regions l' = rl_num_regions l \<or> rl_num_regions l' = rl_num_regions l + 1)"
proof (cases "merge_region (regions l) start sz")
  case None
  with assms regions_append show ?thesis
    by (auto simp: add_region_def MaxNumRegions_def regions_def list_ok_def Let_def)
next
  case (Some rs)
  have n: "unat (rl_num_regions l) < 15" using assms(2) by (simp add: word_less_nat_alt)
  have "length rs = length (regions l)"
    by (rule merge_region_length [OF Some])
  with n Some assms show ?thesis
    by (auto simp: add_region_def MaxNumRegions_def regions_def list_ok_def Let_def)
qed

lemma add_region_full:
  "list_ok l \<Longrightarrow> \<not> rl_num_regions l < 15 \<Longrightarrow> add_region l start sz = Inl (Kassert ''precond'')"
  by (simp add: add_region_def MaxNumRegions_def)

lemma add_region_spec:
  assumes "list_ok l" "no_wrap start sz" "add_region l start sz = Inr l'"
  shows "list_ok l'" and "coverage l' = coverage l \<union> span start sz"
    and "disjoint_regions (regions l) \<Longrightarrow> coverage l \<inter> span start sz = {} \<Longrightarrow> disjoint_regions (regions l')"
    and "rl_num_regions l' \<le> rl_num_regions l + 1"
proof -
  have lt: "rl_num_regions l < 15" using assms(1,3) add_region_full by fastforce
  with add_region_regions [OF assms(1), of start sz] assms(3)
  have l': "length (rl_regions l') = 16"
    "regions l' = (case merge_region (regions l) start sz of Some rs \<Rightarrow> rs
      | None \<Rightarrow> regions l @ [\<lparr>reg_start = start, reg_size = sz\<rparr>])"
    "rl_num_regions l' = rl_num_regions l \<or> rl_num_regions l' = rl_num_regions l + 1" by auto
  have wraps: "\<forall>r\<in>set (regions l). no_wrap (reg_start r) (reg_size r)"
    using assms(1) by (simp add: list_ok_def)
  have num: "rl_num_regions l + 1 \<le> 15" using lt by (rule inc_le)
  have le: "rl_num_regions l \<le> rl_num_regions l + 1"
    using u64_less_Suc [OF lt] by (simp add: word_le_nat_alt)
  show "rl_num_regions l' \<le> rl_num_regions l + 1" using l'(3) le by auto
  have app: "disjoint_regions (rs @ [r])" if "disjoint_regions rs" "\<forall>r'\<in>set rs. region_span r' \<inter> region_span r = {}"
    for rs r using that by (induction rs) auto
  have new: "region_span \<lparr>reg_start = start, reg_size = sz\<rparr> = span start sz" by (simp add: region_span_def)
  have dis: "\<forall>r\<in>set (regions l). region_span r \<inter> span start sz = {}"
    if "coverage l \<inter> span start sz = {}" using that unfolding coverage_def by blast
  show "list_ok l'" "coverage l' = coverage l \<union> span start sz"
    using l' num le assms(1,2) wraps merge_region_spec [OF _ assms(2) wraps] new
    by (auto simp: list_ok_def coverage_def split: option.splits)
  show "disjoint_regions (regions l) \<Longrightarrow> coverage l \<inter> span start sz = {} \<Longrightarrow> disjoint_regions (regions l')"
    using l'(2) merge_region_spec [OF _ assms(2) wraps] dis new app [of "regions l"]
    by (cases "merge_region (regions l) start sz") auto
qed

section \<open>The contract of a region list\<close>

text \<open>What the boot code relies on when it fills a list: a region that was accepted is
  covered and nothing else changes.\<close>

locale region_store =
  fixes add :: "'l \<Rightarrow> u64 \<Rightarrow> u64 \<Rightarrow> 'l res"
    and cov :: "'l \<Rightarrow> nat set"
    and ok :: "'l \<Rightarrow> bool"
    and room :: "'l \<Rightarrow> nat"
  assumes add_accepts: "ok l \<Longrightarrow> 0 < room l \<Longrightarrow> \<exists>l'. add l start sz = Inr l' \<and> room l \<le> room l' + 1"
    and add_keeps: "ok l \<Longrightarrow> no_wrap start sz \<Longrightarrow> add l start sz = Inr l' \<Longrightarrow> ok l'"
    and add_covers: "ok l \<Longrightarrow> no_wrap start sz \<Longrightarrow> add l start sz = Inr l' \<Longrightarrow>
      cov l' = cov l \<union> span start sz"
begin

fun add_all :: "'l \<Rightarrow> (u64 \<times> u64) list \<Rightarrow> 'l res" where
  "add_all l [] = Inr l"
| "add_all l (r # rs) = bind_res (add l (fst r) (snd r)) (\<lambda>l1. add_all l1 rs)"

lemma add_one:
  assumes "ok l" "0 < room l" "no_wrap start sz"
  obtains l' where "add l start sz = Inr l'" "ok l'" "cov l' = cov l \<union> span start sz" "room l \<le> room l' + 1"
  using add_accepts [OF assms(1,2)] add_keeps [OF assms(1,3)] add_covers [OF assms(1,3)] that by blast

lemma add_all_spec:
  "ok l \<Longrightarrow> \<forall>r\<in>set rs. no_wrap (fst r) (snd r) \<Longrightarrow> length rs \<le> room l \<Longrightarrow>
   \<exists>l'. add_all l rs = Inr l' \<and> ok l' \<and> cov l' = cov l \<union> (\<Union>r\<in>set rs. span (fst r) (snd r)) \<and>
     room l \<le> room l' + length rs"
proof (induction rs arbitrary: l)
  case (Cons r rs)
  obtain l1 where l1: "add l (fst r) (snd r) = Inr l1" "ok l1" "cov l1 = cov l \<union> span (fst r) (snd r)"
      "room l \<le> room l1 + 1"
    using Cons.prems add_one [of l "fst r" "snd r" thesis] by auto
  with Cons.IH [OF l1(2)] Cons.prems(2,3) show ?case by fastforce
qed simp

end

definition list_room :: "RegionList \<Rightarrow> nat" where
  "list_room l = 15 - unat (rl_num_regions l)"

interpretation rlist: region_store add_region coverage list_ok list_room
proof unfold_locales
  fix l start sz assume ok: "list_ok l" and room: "0 < list_room l"
  then have lt: "rl_num_regions l < 15" by (simp add: list_room_def word_less_nat_alt)
  then have "unat (rl_num_regions l + 1) = Suc (unat (rl_num_regions l))" by (rule u64_less_Suc)
  with add_region_regions [OF ok lt, of start sz]
  show "\<exists>l'. add_region l start sz = Inr l' \<and> list_room l \<le> list_room l' + 1"
    by (fastforce simp: list_room_def)
qed (use add_region_spec in auto)

section \<open>Overlap\<close>

lemma regions_overlap_spans:
  assumes "no_wrap start1 sz1" "no_wrap start2 sz2"
  shows "regions_overlap start1 sz1 start2 sz2 \<longleftrightarrow> span start1 sz1 \<inter> span start2 sz2 \<noteq> {}"
proof -
  have "unat (start1 + sz1) = unat start1 + unat sz1" "unat (start2 + sz2) = unat start2 + unat sz2"
    using assms by (simp_all add: no_wrap_def unat_u64_add)
  moreover have "span start1 sz1 \<inter> span start2 sz2 \<noteq> {} \<longleftrightarrow>
      max (unat start1) (unat start2) < min (unat start1 + unat sz1) (unat start2 + unat sz2)"
    by (auto simp: span_def Int_atLeastLessThan)
  ultimately show ?thesis
    by (auto simp: regions_overlap_def word_less_nat_alt unat_eq_0)
qed

lemma check_against_ram_iff:
  assumes "no_wrap (reg_start d) (reg_size d)" "\<forall>r\<in>set rs. no_wrap (reg_start r) (reg_size r)"
  shows "check_against_ram d rs = (if \<forall>r\<in>set rs. region_span d \<inter> region_span r = {} then Inr ()
    else Inl (Kassert ''Device region overlaps RAM''))"
  using assms(2)
  by (induction rs)
    (auto simp: regions_overlap_spans [OF assms(1)] region_span_def [symmetric] kassert_def)

lemma check_devices_iff:
  assumes "\<forall>d\<in>set ds. no_wrap (reg_start d) (reg_size d)" "\<forall>r\<in>set rs. no_wrap (reg_start r) (reg_size r)"
  shows "check_devices ds rs = (if \<forall>d\<in>set ds. \<forall>r\<in>set rs. region_span d \<inter> region_span r = {} then Inr ()
    else Inl (Kassert ''Device region overlaps RAM''))"
  using assms by (induction ds) (auto simp: check_against_ram_iff)

section \<open>Reserved entries\<close>

lemma reserve_entry_in_blob:
  assumes "blob_in_memory m fdt" "parser_init m s0 fdt = Inr (StatusOk, s)"
  shows "\<exists>(off :: u32) (total :: u32). \<forall>i out.
     (\<exists>a n. reserve_entry m s i out = Inr (a \<noteq> 0 \<or> n \<noteq> 0, a, n) \<and>
        unat off + unat (16 * i) + 16 \<le> unat total) \<or>
     reserve_entry m s i out = Inr (False, out)"
proof -
  from assms(1) have mp: "mapped m fdt 40" and nz: "fdt \<noteq> 0" and far: "unat fdt + 2 ^ 33 + 16 < 2 ^ 64"
    by (simp_all add: blob_in_memory_def)
  obtain magic version totalsize off_struct off_strings off_rsvmap size_struct size_strings s1
  where ts: "be32 m (fdt + 4) = Inr totalsize" "be32 m (fdt + 16) = Inr off_rsvmap" and
    i: "parser_init m s0 fdt = Inr (init_status magic version totalsize off_struct off_strings
       off_rsvmap size_struct size_strings, s1)" and
    ok: "init_status magic version totalsize off_struct off_strings off_rsvmap size_struct size_strings
       = StatusOk \<Longrightarrow>
     prs_valid s1 \<and> prs_header s1 = fdt \<and> prs_blob s1 = fdt \<and> prs_blob_end s1 = fdt + ucast totalsize"
    using parser_init_fields [OF mp nz, of s0 thesis] by blast
  from i assms(2) have st: "init_status magic version totalsize off_struct off_strings off_rsvmap
      size_struct size_strings = StatusOk" and "s1 = s" by simp_all
  with ok have s: "prs_valid s" "prs_header s = fdt" "prs_blob s = fdt"
      "prs_blob_end s = fdt + ucast totalsize" by simp_all
  have mt: "mapped m fdt (unat totalsize)"
    using assms(1) ts(1) by (simp add: blob_in_memory_def hdr_defs)
  have e: "unat (fdt + ucast totalsize) = unat fdt + unat totalsize"
    using far unat_u32_bound [of totalsize] by (subst unat_u64_add) auto
  have rd: "(\<exists>a n. reserve_entry m s i out = Inr (a \<noteq> 0 \<or> n \<noteq> 0, a, n) \<and>
         unat off_rsvmap + unat (16 * i :: u32) + 16 \<le> unat totalsize) \<or>
       reserve_entry m s i out = Inr (False, out)" for i out
  proof -
    let ?p = "fdt + ucast off_rsvmap + ucast (16 * i) :: u64"
    have p0: "unat (fdt + ucast off_rsvmap) = unat fdt + unat off_rsvmap"
      using far unat_u32_bound [of off_rsvmap] by (subst unat_u64_add) auto
    have p: "unat ?p = unat fdt + unat off_rsvmap + unat (16 * i)"
      using far unat_u32_bound [of off_rsvmap] unat_u32_bound [of "16 * i"] p0
      by (subst unat_u64_add) auto
    have p16: "unat (?p + 16) = unat ?p + 16"
      using p far unat_u32_bound [of off_rsvmap] unat_u32_bound [of "16 * i"]
      by (subst unat_u64_add_numeral) auto
    show ?thesis
    proof (cases "?p + 16 > prs_blob_end s")
      case True
      with s ts show ?thesis by (simp add: reserve_entry_def hdr_defs Let_def)
    next
      case False
      then have in_blob: "unat off_rsvmap + unat (16 * i) + 16 \<le> unat totalsize"
        using p p16 e s(4) by (simp add: word_less_nat_alt)
      have "mapped m ?p 16"
        using p in_blob by (intro mapped_sub [OF mt]) (auto simp: word_le_nat_alt)
      then obtain a n where "be64 m ?p = Inr a" "be64 m (?p + 8) = Inr n"
        using be64_mapped mapped_offset [of m ?p 16 8 8] mapped_mono [of m ?p 16 8] by auto metis
      with False s ts in_blob show ?thesis by (simp add: reserve_entry_def hdr_defs Let_def del: not_less)
    qed
  qed
  show ?thesis using rd by (intro exI [of _ off_rsvmap] exI [of _ totalsize]) blast
qed

lemma reserve_entries_returns:
  assumes "blob_in_memory m fdt" "parser_init m s0 fdt = Inr (StatusOk, s)"
  shows "unat i < 2 ^ 28 \<Longrightarrow> reserve_entries m s i out l \<noteq> None"
proof (induction "2 ^ 28 - unat i" arbitrary: i out l rule: less_induct)
  case less
  obtain off total :: u32 where rd: "\<forall>i out. (\<exists>a n. reserve_entry m s i out = Inr (a \<noteq> 0 \<or> n \<noteq> 0, a, n) \<and>
         unat off + unat (16 * i :: u32) + 16 \<le> unat total) \<or>
       reserve_entry m s i out = Inr (False, out)"
    using reserve_entry_in_blob [OF assms] by blast
  note unfold = reserve_entries.simps [of m s i out l]
  show ?case
  proof (cases "\<exists>a n. reserve_entry m s i out = Inr (True, a, n)")
    case False
    with rd [rule_format, of i out] show ?thesis by (auto simp: unfold)
  next
    case True
    then obtain a n where an: "reserve_entry m s i out = Inr (True, a, n)" by blast
    with rd [rule_format, of i out] have "unat off + unat (16 * i) + 16 \<le> unat total" by auto
    moreover have "unat (16 * i) = 16 * unat i"
      using less.prems by (simp add: unat_word_ariths)
    ultimately have lt: "unat i + 1 < 2 ^ 28" using unat_u32_bound [of total] by simp
    then have "unat (i + 1) = unat i + 1" by (simp add: unat_word_ariths)
    with lt less.hyps [of "i + 1"] have "reserve_entries m s (i + 1) (a, n) l1 \<noteq> None" for l1 by simp
    then show ?thesis
      by (cases "add_region l a n") (simp_all add: unfold an)
  qed
qed

text \<open>On an encoded blob the loop adds the entries up to the terminating one.\<close>

lemma reserve_entries_enc:
  assumes "bytes_at m fdt (enc_fdt rsv es strs)" "fdt_size rsv es strs < 2 ^ 32"
    and "fdt \<noteq> 0" "unat fdt + 2 ^ 33 + 16 < 2 ^ 64" "parser_init m s0 fdt = Inr (StatusOk, s)"
  shows "i \<le> length rsv \<Longrightarrow> reserve_entries m s (of_nat i) out l =
    Some (rlist.add_all l (takeWhile (\<lambda>r. r \<noteq> (0, 0)) (drop i rsv)))"
proof (induction "length rsv - i" arbitrary: i out l)
  case 0
  then have "i = length rsv" by simp
  with reserve_entry_enc [OF assms, of i out] show ?case
    by (simp add: reserve_entries.simps [of m s "of_nat (length rsv)" out l])
next
  case (Suc k)
  then have i: "i < length rsv" by simp
  have rd: "reserve_entry m s (of_nat i) out = Inr (rsv ! i \<noteq> (0, 0), rsv ! i)"
    using reserve_entry_enc [OF assms, of i out] i by simp
  have IH: "reserve_entries m s (of_nat i + 1) o1 l1 =
      Some (rlist.add_all l1 (takeWhile (\<lambda>r. r \<noteq> (0, 0)) (drop (Suc i) rsv)))" for o1 l1
    using Suc.hyps(1) [of "Suc i" o1 l1] Suc.hyps(2) i by (simp add: add.commute)
  have d: "drop i rsv = rsv ! i # drop (Suc i) rsv" using i by (simp add: Cons_nth_drop_Suc)
  obtain a n where an: "rsv ! i = (a, n)" by (cases "rsv ! i")
  show ?case
    unfolding d using rd IH an
    by (cases "add_region l a n") (simp_all add: reserve_entries.simps [of m s "of_nat i" out l])
qed

text \<open>The bounds of a list hold whatever the tree says.\<close>

definition list_shape :: "RegionList \<Rightarrow> bool" where
  "list_shape l \<longleftrightarrow> length (rl_regions l) = 16 \<and> rl_num_regions l \<le> 15"

lemma add_region_shape:
  assumes "list_shape l" "add_region l start sz = Inr l'"
  shows "list_shape l'"
proof -
  have lt: "rl_num_regions l < 15" using assms(2) by (simp add: add_region_def MaxNumRegions_def bind_res_Inr_iff)
  then have "rl_num_regions l + 1 \<le> 15" by (rule inc_le)
  moreover have "unat (rl_num_regions l) < 15" using lt by (simp add: word_less_nat_alt)
  ultimately show ?thesis
    using assms merge_region_length [of "take (unat (rl_num_regions l)) (rl_regions l)" start sz]
    by (auto simp: add_region_def list_shape_def Let_def bind_res_Inr_iff split: option.splits)
qed

definition map_shape :: "MemoryMap \<Rightarrow> bool" where
  "map_shape mm \<longleftrightarrow> list_shape (mm_reserved_regions mm) \<and> list_shape (mm_ram_regions mm) \<and>
     list_shape (mm_device_regions mm)"

lemma record_device_region_shape:
  "map_shape mm \<Longrightarrow> record_device_region mm start sz = Inr mm' \<Longrightarrow> map_shape mm'"
  by (auto simp: record_device_region_def map_shape_def bind_res_Inr_iff intro: add_region_shape)

lemma memory_reg_shape: "map_shape mm \<Longrightarrow> memory_reg m cells prop mm = Inr mm' \<Longrightarrow> map_shape mm'"
  by (auto simp: memory_reg_def map_shape_def bind_res_Inr_iff Let_def split: if_splits intro: add_region_shape)

lemma memory_dt_parse_shape:
  assumes "map_shape mm"
  shows "ensures map_shape (Some (memory_dt_parse m f mm))"
proof -
  have "map_shape mm \<Longrightarrow> memory_props m cells ps mm = Inr mm' \<Longrightarrow> map_shape mm'" for cells ps mm mm'
    by (induction ps arbitrary: mm)
      (auto simp: bind_res_Inr_iff split: if_splits dest: memory_reg_shape)
  with assms show ?thesis
    unfolding memory_dt_parse_def by (intro ensures_bind_any) auto
qed

section \<open>Properties\<close>

definition empty_list :: RegionList where
  "empty_list = \<lparr>rl_num_regions = 0, rl_regions = replicate 16 \<lparr>reg_start = 0, reg_size = 0\<rparr>\<rparr>"

lemma empty_list_ok: "list_ok empty_list" "coverage empty_list = {}" "regions empty_list = []"
  by (simp_all add: list_ok_def empty_list_def regions_def coverage_def)

text \<open>C17: Adding a region: while the list has room \<open>add_region\<close> returns a list that covers
  exactly the old addresses and the new ones, with at most one more entry and with the regions
  still disjoint if the new one is disjoint from them; a full list stops at the precondition.\<close>

theorem add_region_correct:
  assumes "list_ok l" and "no_wrap start sz"
  shows "if rl_num_regions l < 15
    then \<exists>l'. add_region l start sz = Inr l' \<and> list_ok l' \<and> coverage l' = coverage l \<union> span start sz \<and>
      rl_num_regions l' \<le> rl_num_regions l + 1 \<and>
      (disjoint_regions (regions l) \<and> coverage l \<inter> span start sz = {} \<longrightarrow> disjoint_regions (regions l'))
    else add_region l start sz = Inl (Kassert ''precond'')"
  using add_region_regions [OF assms(1), of start sz] add_region_spec [OF assms] add_region_full [OF assms(1)]
  by auto

theorem add_region_correct_witness:
  "\<exists>l'. add_region empty_list 0x40000000 0x1000 = Inr l' \<and> coverage l' = {0x40000000 ..< 0x40001000}"
  using add_region_correct [of empty_list "0x40000000" "0x1000"] empty_list_ok
  by (auto simp: no_wrap_def span_def empty_list_def)


text \<open>A UART beside RAM, and RAM that reaches into the UART.\<close>

definition beside_ram :: MemoryMap where
  "beside_ram = \<lparr>mm_reserved_regions = empty_list,
     mm_ram_regions = empty_list\<lparr>rl_num_regions := 1, rl_regions := (rl_regions empty_list)[0 := \<lparr>reg_start = 0x40000000, reg_size = 0x1000\<rparr>]\<rparr>,
     mm_device_regions = empty_list\<lparr>rl_num_regions := 1, rl_regions := (rl_regions empty_list)[0 := \<lparr>reg_start = 0x9000000, reg_size = 0x1000\<rparr>]\<rparr>\<rparr>"

definition across_ram :: MemoryMap where
  "across_ram = beside_ram\<lparr>mm_ram_regions := empty_list\<lparr>rl_num_regions := 1,
     rl_regions := (rl_regions empty_list)[0 := \<lparr>reg_start = 0x8fff000, reg_size = 0x1800\<rparr>]\<rparr>\<rparr>"

lemma one_region_list:
  assumes "no_wrap a n"
  shows "list_ok (empty_list\<lparr>rl_num_regions := 1, rl_regions := (rl_regions empty_list)[0 := \<lparr>reg_start = a, reg_size = n\<rparr>]\<rparr>)"
    "coverage (empty_list\<lparr>rl_num_regions := 1, rl_regions := (rl_regions empty_list)[0 := \<lparr>reg_start = a, reg_size = n\<rparr>]\<rparr>) = {unat a ..< unat a + unat n}"
proof -
  have "regions (empty_list\<lparr>rl_num_regions := 1, rl_regions := (rl_regions empty_list)[0 := \<lparr>reg_start = a, reg_size = n\<rparr>]\<rparr>) =
      [\<lparr>reg_start = a, reg_size = n\<rparr>]"
    by (simp add: regions_def empty_list_def numeral_eq_Suc)
  with assms empty_list_ok show "list_ok (empty_list\<lparr>rl_num_regions := 1, rl_regions := (rl_regions empty_list)[0 := \<lparr>reg_start = a, reg_size = n\<rparr>]\<rparr>)"
    "coverage (empty_list\<lparr>rl_num_regions := 1, rl_regions := (rl_regions empty_list)[0 := \<lparr>reg_start = a, reg_size = n\<rparr>]\<rparr>) = {unat a ..< unat a + unat n}"
    by (simp_all add: list_ok_def coverage_def region_span_def span_def)
qed


text \<open>Two device regions that overlap pass the check.\<close>

lemma overlapping_devices_accepted:
  "\<exists>l1 l2. add_region empty_list 0x9000000 0x1000 = Inr l1 \<and> add_region l1 0x9000800 0x1000 = Inr l2 \<and>
     validate_device_regions \<lparr>mm_reserved_regions = empty_list, mm_ram_regions = empty_list, mm_device_regions = l2\<rparr> = Inr () \<and>
     \<not> disjoint_regions (regions l2)"
proof -
  let ?r1 = "\<lparr>reg_start = 0x9000000, reg_size = 0x1000\<rparr> :: Region" and ?r2 = "\<lparr>reg_start = 0x9000800, reg_size = 0x1000\<rparr> :: Region"
  let ?rs = "replicate 14 \<lparr>reg_start = 0, reg_size = 0\<rparr> :: Region list"
  have e: "empty_list = \<lparr>rl_num_regions = 0, rl_regions = \<lparr>reg_start = 0, reg_size = 0\<rparr> # \<lparr>reg_start = 0, reg_size = 0\<rparr> # ?rs\<rparr>"
    by (simp add: empty_list_def eval_nat_numeral)
  let ?l1 = "\<lparr>rl_num_regions = 1, rl_regions = ?r1 # \<lparr>reg_start = 0, reg_size = 0\<rparr> # ?rs\<rparr>"
    and ?l2 = "\<lparr>rl_num_regions = 2, rl_regions = ?r1 # ?r2 # ?rs\<rparr>"
  have r2: "regions ?l2 = [?r1, ?r2]" by (simp add: regions_def)
  have "add_region empty_list 0x9000000 0x1000 = Inr ?l1" unfolding e by (simp add: add_region_def MaxNumRegions_def Let_def)
  moreover have "add_region ?l1 0x9000800 0x1000 = Inr ?l2" by (simp add: add_region_def MaxNumRegions_def Let_def)
  moreover have "validate_device_regions \<lparr>mm_reserved_regions = empty_list, mm_ram_regions = empty_list, mm_device_regions = ?l2\<rparr> = Inr ()"
    by (simp add: validate_device_regions_def empty_list_ok(3) r2)
  moreover have "\<not> disjoint_regions (regions ?l2)" by (simp add: r2 region_span_def span_def)
  ultimately show ?thesis by blast
qed

text \<open>\<open>Memory::init\<close> returns on every blob in memory: the loop over the reserved entries
  ends although its 32-bit offset wraps around.\<close>

theorem memory_init_returns:
  assumes "blob_in_memory m fdt"
  shows "\<exists>r. memory_init m kernel_start kernel_end out fdt mm = Some r"
proof -
  let ?any = "\<lambda>_. True"
  have any: "ensures ?any (Some r)" for r :: "'b res" by (simp add: ensures_def)
  have entries: "ensures ?any (reserve_entries m s 0 out l)"
    if "parser_init m parser_default fdt = Inr (StatusOk, s)" for s l
    using reserve_entries_returns [OF assms that, of 0 out l] by (simp add: ensures_def)
  have "ensures ?any (memory_init m kernel_start kernel_end out fdt mm)"
    unfolding memory_init_def
    by (intro ensures_bind_comp [of ?any])
      (auto simp: ensures_def [of ?any "Some _"] intro!: entries ensures_bind_comp [of ?any])
  then show ?thesis by (rule ensures_returns)
qed

text \<open>The bootloader hole as a set of addresses.\<close>

definition hole_span :: "u64 \<Rightarrow> Region list \<Rightarrow> nat set" where
  "hole_span kernel_start rs =
     (case find (\<lambda>r. unat (reg_start r) < unat kernel_start \<and>
                     unat kernel_start < unat (reg_start r) + unat (reg_size r)) rs of
        None \<Rightarrow> {} | Some r \<Rightarrow> {unat (reg_start r) ..< unat kernel_start})"

lemma reserve_hole_spec:
  assumes "list_ok l" "0 < list_room l" "\<forall>r\<in>set rs. no_wrap (reg_start r) (reg_size r)"
  shows "\<exists>l'. reserve_hole kernel_start rs l = Inr l' \<and> list_ok l' \<and>
    coverage l' = coverage l \<union> hole_span kernel_start rs \<and> list_room l \<le> list_room l' + 1"
  using assms(3)
proof (induction rs)
  case (Cons r rs)
  have u: "unat (reg_start r + reg_size r) = unat (reg_start r) + unat (reg_size r)"
    using Cons.prems by (simp add: no_wrap_def unat_u64_add)
  show ?case
  proof (cases "kernel_start > reg_start r \<and> kernel_start < reg_start r + reg_size r")
    case True
    then have d: "unat (kernel_start - reg_start r) = unat kernel_start - unat (reg_start r)"
      and lt: "unat (reg_start r) < unat kernel_start" "unat kernel_start < unat (reg_start r) + unat (reg_size r)"
      using u by (simp_all add: unat_u64_diff order_less_imp_le word_less_nat_alt)
    have "no_wrap (reg_start r) (kernel_start - reg_start r)"
      using d lt unat_u64_bound [of kernel_start] by (simp add: no_wrap_def)
    from rlist.add_one [OF assms(1,2) this] obtain l' where
      "add_region l (reg_start r) (kernel_start - reg_start r) = Inr l'" "list_ok l'"
      "coverage l' = coverage l \<union> span (reg_start r) (kernel_start - reg_start r)"
      "list_room l \<le> list_room l' + 1" by blast
    with True d lt show ?thesis by (auto simp: hole_span_def span_def)
  next
    case False
    then have "reserve_hole kernel_start (r # rs) l = reserve_hole kernel_start rs l" by auto
    moreover have "hole_span kernel_start (r # rs) = hole_span kernel_start rs"
      using False u by (auto simp: hole_span_def word_less_nat_alt)
    ultimately show ?thesis using Cons by auto
  qed
qed (use assms in \<open>simp add: hole_span_def\<close>)

lemma reserve_range:
  assumes "list_ok l" "0 < list_room l" "a \<le> b"
  shows "\<exists>l'. add_region l a (b - a) = Inr l' \<and> list_ok l' \<and> coverage l' = coverage l \<union> {unat a ..< unat b} \<and>
    list_room l \<le> list_room l' + 1"
proof -
  have d: "unat (b - a) = unat b - unat a" and le: "unat a \<le> unat b"
    using assms(3) by (simp_all add: unat_u64_diff word_le_nat_alt)
  then have "no_wrap a (b - a)" using unat_u64_bound [of b] by (simp add: no_wrap_def)
  from rlist.add_one [OF assms(1,2) this] obtain l' where
    "add_region l a (b - a) = Inr l'" "list_ok l'" "coverage l' = coverage l \<union> span a (b - a)" "list_room l \<le> list_room l' + 1"
    by blast
  then show ?thesis using d le by (simp add: span_def)
qed

lemma memory_init_spec:
  assumes "bytes_at m fdt (enc_fdt rsv es strs)" and "fdt_size rsv es strs < 2 ^ 32"
    and "fdt \<noteq> 0" and "unat fdt + 2 ^ 33 + 16 < 2 ^ 64"
    and "list_ok (mm_reserved_regions mm)" and "list_ok (mm_ram_regions mm)"
    and "\<forall>r\<in>set rsv. no_wrap (fst r) (snd r)" and "kernel_start \<le> kernel_end"
    and "length rsv + 3 \<le> list_room (mm_reserved_regions mm)"
  shows "\<exists>l. memory_init m kernel_start kernel_end out fdt mm = Some (Inr (mm\<lparr>mm_reserved_regions := l\<rparr>)) \<and>
    list_ok l \<and>
    coverage l = coverage (mm_reserved_regions mm)
      \<union> hole_span kernel_start (regions (mm_ram_regions mm))
      \<union> (\<Union>r\<in>set (takeWhile (\<lambda>r. r \<noteq> (0, 0)) rsv). span (fst r) (snd r))
      \<union> {unat kernel_start ..< unat kernel_end}
      \<union> {unat fdt ..< unat fdt + fdt_size rsv es strs}"
proof -
  let ?rsv = "takeWhile (\<lambda>r. r \<noteq> (0, 0)) rsv"
  obtain s where s: "parser_init m parser_default fdt = Inr (StatusOk, s)" "prs_header s = fdt"
    using init_encoded [OF assms(1-4), of parser_default thesis] by blast
  have total: "parser_totalsize m s = Inr (of_nat (fdt_size rsv es strs))"
    using s(2) assms(3) be32_enc32 [OF enc_fdt_parts(2) [OF assms(1)]]
    by (simp add: parser_totalsize_def hdr_defs)
  have tot: "unat (ucast (of_nat (fdt_size rsv es strs) :: u32) :: u64) = fdt_size rsv es strs"
    using assms(2) by (simp add: unat_of_nat_u32)
  have len: "length ?rsv \<le> length rsv" by (rule length_takeWhile_le)
  have "\<forall>r\<in>set (regions (mm_ram_regions mm)). no_wrap (reg_start r) (reg_size r)"
    using assms(6) by (simp add: list_ok_def)
  from reserve_hole_spec [OF assms(5) _ this, of kernel_start] assms(9) obtain l0 where
    l0: "reserve_hole kernel_start (regions (mm_ram_regions mm)) (mm_reserved_regions mm) = Inr l0" "list_ok l0"
      "coverage l0 = coverage (mm_reserved_regions mm) \<union> hole_span kernel_start (regions (mm_ram_regions mm))"
      "list_room (mm_reserved_regions mm) \<le> list_room l0 + 1" by auto
  have "\<forall>r\<in>set ?rsv. no_wrap (fst r) (snd r)" using assms(7) by (meson set_takeWhileD)
  from rlist.add_all_spec [OF l0(2) this] l0(4) len assms(9) obtain l1 where
    l1: "rlist.add_all l0 ?rsv = Inr l1" "list_ok l1"
      "coverage l1 = coverage l0 \<union> (\<Union>r\<in>set ?rsv. span (fst r) (snd r))"
      "list_room l0 \<le> list_room l1 + length ?rsv" by auto
  have "0 < list_room l1" using l0(4) l1(4) len assms(9) by linarith
  from reserve_range [OF l1(2) this assms(8)] obtain l2 where
    l2: "add_region l1 kernel_start (kernel_end - kernel_start) = Inr l2" "list_ok l2"
      "coverage l2 = coverage l1 \<union> {unat kernel_start ..< unat kernel_end}"
      "list_room l1 \<le> list_room l2 + 1" by blast
  have "0 < list_room l2" using l0(4) l1(4) l2(4) len assms(9) by linarith
  moreover have "no_wrap fdt (ucast (of_nat (fdt_size rsv es strs) :: u32))"
    using tot assms(2,4) by (simp add: no_wrap_def)
  ultimately obtain l3 where
    l3: "add_region l2 fdt (ucast (of_nat (fdt_size rsv es strs) :: u32)) = Inr l3" "list_ok l3"
      "coverage l3 = coverage l2 \<union> span fdt (ucast (of_nat (fdt_size rsv es strs) :: u32))"
    using rlist.add_one [OF l2(2)] by blast
  have "memory_init m kernel_start kernel_end out fdt mm = Some (Inr (mm\<lparr>mm_reserved_regions := l3\<rparr>))"
    using l0(1) l1(1) l2(1) l3(1) s(1) total reserve_entries_enc [OF assms(1-4) s(1), of 0 out l0]
    by (simp add: memory_init_def)
  with l0(3) l1(3) l2(3) l3(2,3) show ?thesis
    using tot by (auto simp: span_def)
qed

text \<open>C10: What is reserved at boot: with room for the entries, \<open>Memory::init\<close> on an encoded
  blob leaves the RAM and device lists alone and makes the reserved list cover exactly what it
  covered before, the bootloader hole, the blob's reserved entries up to the terminating one,
  the kernel image and the blob itself.\<close>

theorem memory_init_reserves:
  assumes "bytes_at m fdt (enc_fdt rsv es strs)" and "fdt_size rsv es strs < 2 ^ 32"
    and "fdt \<noteq> 0" and "unat fdt + 2 ^ 33 + 16 < 2 ^ 64"
    and "list_ok (mm_reserved_regions mm)" and "list_ok (mm_ram_regions mm)"
    and "\<forall>r\<in>set rsv. no_wrap (fst r) (snd r)" and "kernel_start \<le> kernel_end"
    and "length rsv + 3 \<le> list_room (mm_reserved_regions mm)"
  shows "\<exists>l. memory_init m kernel_start kernel_end out fdt mm = Some (Inr (mm\<lparr>mm_reserved_regions := l\<rparr>)) \<and>
    list_ok l \<and>
    coverage l = coverage (mm_reserved_regions mm)
      \<union> hole_span kernel_start (regions (mm_ram_regions mm))
      \<union> (\<Union>r\<in>set (takeWhile (\<lambda>r. r \<noteq> (0, 0)) rsv). span (fst r) (snd r))
      \<union> {unat kernel_start ..< unat kernel_end}
      \<union> {unat fdt ..< unat fdt + fdt_size rsv es strs}"
  by (rule memory_init_spec [OF assms])

theorem memory_init_reserves_witness:
  "\<exists>l. memory_init demo_fdt 0x40080000 0x40100000 (0, 0) 4096
      \<lparr>mm_reserved_regions = empty_list, mm_ram_regions = empty_list, mm_device_regions = empty_list\<rparr> =
      Some (Inr \<lparr>mm_reserved_regions = l, mm_ram_regions = empty_list, mm_device_regions = empty_list\<rparr>) \<and>
    coverage l = {0x80000000 ..< 0x80001000} \<union> {0x40080000 ..< 0x40100000} \<union> {4096 ..< 4210}"
proof -
  let ?mm = "\<lparr>mm_reserved_regions = empty_list, mm_ram_regions = empty_list, mm_device_regions = empty_list\<rparr>"
  have room: "list_room empty_list = 15" by (simp add: list_room_def empty_list_def)
  from memory_init_reserves [OF demo_fdt_at, of ?mm "0x40080000" "0x40100000" "(0, 0)"]
  show ?thesis
    using demo_fdt_size empty_list_ok room
    by (simp add: no_wrap_def hole_span_def span_def word_le_nat_alt) blast
qed

theorem memory_init_returns_witness:
  "\<exists>r. memory_init demo_fdt 0x40080000 0x40100000 (0, 0) 4096
     \<lparr>mm_reserved_regions = empty_list, mm_ram_regions = empty_list, mm_device_regions = empty_list\<rparr> = Some r"
  by (rule demo_fdt_init) (blast intro: memory_init_returns)

end
