(* ===== verification/MMU.thy ===== *)
theory MMU
  imports Memory_Map
begin

text \<open>
  The identity map (\<open>src/src/memory/mmu.cpp\<close>, \<open>src/src/util/align.h\<close>): descriptors, the
  static page tables, the L3 tables that are allocated for device pages, the mapping of RAM
  and of device regions, and the system registers each core programs. The tables are memory:
  64-bit entries at the addresses the linker gives the four arrays (\<open>Layout\<close>), and an entry
  is reached through a pointer into one of them.
\<close>

section \<open>Alignment\<close>

definition align_up :: "u64 \<Rightarrow> u64 \<Rightarrow> u64" where
  "align_up val alignment = (val + alignment - 1) AND NOT (alignment - 1)"

definition align_down :: "u64 \<Rightarrow> u64 \<Rightarrow> u64" where
  "align_down val alignment = val AND NOT (alignment - 1)"

section \<open>Constants\<close>

definition MAIR_DEVICE_NGNRNE :: u64 where "MAIR_DEVICE_NGNRNE = 0x00"
definition MAIR_NORMAL_WB :: u64 where "MAIR_NORMAL_WB = 0xFF"
definition MAIR_INDEX_DEVICE :: u64 where "MAIR_INDEX_DEVICE = 0"
definition MAIR_INDEX_NORMAL_WB :: u64 where "MAIR_INDEX_NORMAL_WB = 2"

definition L1_ENTRY_SIZE :: u64 where "L1_ENTRY_SIZE = push_bit 30 1"
definition L2_ENTRY_SIZE :: u64 where "L2_ENTRY_SIZE = push_bit 21 1"
definition L3_ENTRY_SIZE :: u64 where "L3_ENTRY_SIZE = push_bit 12 1"

definition PTE_TABLE_TYPE :: u64 where "PTE_TABLE_TYPE = 3"
definition PTE_BLOCK_TYPE :: u64 where "PTE_BLOCK_TYPE = 1"
definition PTE_PAGE_TYPE :: u64 where "PTE_PAGE_TYPE = 3"
definition PTE_ADDR_MASK :: u64 where "PTE_ADDR_MASK = 0x0000FFFFFFFFF000"

definition PTE_LA_AP_RW_EL1 :: u64 where "PTE_LA_AP_RW_EL1 = push_bit 6 0"
definition PTE_LA_SH_NONE :: u64 where "PTE_LA_SH_NONE = push_bit 8 0"
definition PTE_LA_SH_INNER :: u64 where "PTE_LA_SH_INNER = push_bit 8 3"
definition PTE_LA_AF :: u64 where "PTE_LA_AF = push_bit 10 1"
definition PTE_UA_PXN_EL1_ACCESS :: u64 where "PTE_UA_PXN_EL1_ACCESS = push_bit 53 0"
definition PTE_UA_PXN_EL1_NO_ACCESS :: u64 where "PTE_UA_PXN_EL1_NO_ACCESS = push_bit 53 1"
definition PTE_UA_UXN_EL0_NO_ACCESS :: u64 where "PTE_UA_UXN_EL0_NO_ACCESS = push_bit 54 1"

definition MaxNumL3PageTables :: u32 where "MaxNumL3PageTables = 32"

section \<open>Page table memory\<close>

text \<open>Where the linker puts the four arrays.\<close>

record Layout =
  lay_l0 :: u64
  lay_l1 :: u64
  lay_l2 :: u64
  lay_l3 :: u64

type_synonym ptmem = "u64 \<Rightarrow> u64"

text \<open>The array a pointer points into: its first address and its number of entries.\<close>

definition in_array :: "u64 \<Rightarrow> nat \<Rightarrow> u64 \<Rightarrow> bool" where
  "in_array b n p \<longleftrightarrow> unat b \<le> unat p \<and> unat p < unat b + 8 * n"

definition array_of :: "Layout \<Rightarrow> u64 \<Rightarrow> (u64 \<times> nat) option" where
  "array_of lay p =
     (if in_array (lay_l0 lay) 1 p then Some (lay_l0 lay, 1)
      else if in_array (lay_l1 lay) 512 p then Some (lay_l1 lay, 512)
      else if in_array (lay_l2 lay) (512 * 512) p then Some (lay_l2 lay, 512 * 512)
      else if in_array (lay_l3 lay) (32 * 512) p
      then Some (lay_l3 lay + of_nat ((unat p - unat (lay_l3 lay)) div 4096 * 4096), 512)
      else None)"

text \<open>\<open>&table[idx]\<close>: the entry has to lie in the array that \<open>table\<close> points into.\<close>

definition table_entry :: "Layout \<Rightarrow> u64 \<Rightarrow> u64 \<Rightarrow> u64 res" where
  "table_entry lay table idx =
     (case array_of lay table of
        None \<Rightarrow> Inl (Fault table)
      | Some (b, n) \<Rightarrow>
          if unat table - unat b + 8 * unat idx < 8 * n \<and> (unat table - unat b) mod 8 = 0
          then Inr (table + 8 * idx) else Inl (OutOfBounds (unat idx)))"

definition pte_or :: "Layout \<Rightarrow> u64 \<Rightarrow> u64 \<Rightarrow> u64 \<Rightarrow> ptmem \<Rightarrow> ptmem res" where
  "pte_or lay table idx bits pt =
     bind_res (table_entry lay table idx) (\<lambda>a. Inr (pt(a := pt a OR bits)))"

definition pte_set_mair_attr :: "Layout \<Rightarrow> u64 \<Rightarrow> u64 \<Rightarrow> u32 \<Rightarrow> ptmem \<Rightarrow> ptmem res" where
  "pte_set_mair_attr lay table idx mair_id pt =
     bind_res (kassert (mair_id < 8) ''precond'') (\<lambda>_.
     pte_or lay table idx (ucast (push_bit 2 mair_id)) pt)"

definition pte_point_to_next_level :: "Layout \<Rightarrow> u64 \<Rightarrow> u64 \<Rightarrow> u64 \<Rightarrow> ptmem \<Rightarrow> ptmem res" where
  "pte_point_to_next_level lay table idx next_entry pt =
     bind_res (kassert (NOT (push_bit 12 0xFFFFFFFFF) AND next_entry = 0) ''bad bits are set'') (\<lambda>_.
     pte_or lay table idx next_entry pt)"

definition pte_point_to_offset :: "Layout \<Rightarrow> u64 \<Rightarrow> u64 \<Rightarrow> u64 \<Rightarrow> ptmem \<Rightarrow> ptmem res" where
  "pte_point_to_offset lay table idx offset pt =
     bind_res (kassert (offset AND 0xFFF = 0) ''offset must be aligned to 4K'') (\<lambda>_.
     pte_or lay table idx offset pt)"

definition pte_is_valid :: "u64 \<Rightarrow> bool" where
  "pte_is_valid pte \<longleftrightarrow> pte AND 1 \<noteq> 0"

definition block_normal_bits :: u64 where
  "block_normal_bits =
     PTE_UA_UXN_EL0_NO_ACCESS OR PTE_UA_PXN_EL1_ACCESS OR
     PTE_LA_AF OR PTE_LA_SH_INNER OR PTE_LA_AP_RW_EL1 OR PTE_BLOCK_TYPE"

definition block_device_bits :: u64 where
  "block_device_bits =
     PTE_UA_UXN_EL0_NO_ACCESS OR PTE_UA_PXN_EL1_NO_ACCESS OR
     PTE_LA_AF OR PTE_LA_SH_NONE OR PTE_LA_AP_RW_EL1 OR PTE_BLOCK_TYPE"

definition page_device_bits :: u64 where
  "page_device_bits =
     PTE_UA_UXN_EL0_NO_ACCESS OR PTE_UA_PXN_EL1_NO_ACCESS OR
     PTE_LA_AF OR PTE_LA_SH_NONE OR PTE_LA_AP_RW_EL1 OR PTE_PAGE_TYPE"

definition pte_mark_as_table_descriptor :: "Layout \<Rightarrow> u64 \<Rightarrow> u64 \<Rightarrow> ptmem \<Rightarrow> ptmem res" where
  "pte_mark_as_table_descriptor lay table idx pt = pte_or lay table idx PTE_TABLE_TYPE pt"

definition pte_mark_as_block_descriptor_normal :: "Layout \<Rightarrow> u64 \<Rightarrow> u64 \<Rightarrow> ptmem \<Rightarrow> ptmem res" where
  "pte_mark_as_block_descriptor_normal lay table idx pt = pte_or lay table idx block_normal_bits pt"

definition pte_mark_as_block_descriptor_device :: "Layout \<Rightarrow> u64 \<Rightarrow> u64 \<Rightarrow> ptmem \<Rightarrow> ptmem res" where
  "pte_mark_as_block_descriptor_device lay table idx pt = pte_or lay table idx block_device_bits pt"

definition pte_mark_as_page_descriptor_device :: "Layout \<Rightarrow> u64 \<Rightarrow> u64 \<Rightarrow> ptmem \<Rightarrow> ptmem res" where
  "pte_mark_as_page_descriptor_device lay table idx pt = pte_or lay table idx page_device_bits pt"

section \<open>Allocating and linking tables\<close>

record PageTables =
  pts_mem :: ptmem
  pts_num_l3_page_tables :: u32

definition allocate_l3_page_table :: "Layout \<Rightarrow> PageTables \<Rightarrow> (u64 \<times> PageTables) res" where
  "allocate_l3_page_table lay s =
     bind_res (kassert (pts_num_l3_page_tables s < MaxNumL3PageTables)
       ''Ran out of L3 page tables for device mappings'') (\<lambda>_.
     Inr (lay_l3 lay + ucast (pts_num_l3_page_tables s) * 4096,
          s\<lparr>pts_num_l3_page_tables := pts_num_l3_page_tables s + 1\<rparr>))"

definition ensure_l2_page_table :: "Layout \<Rightarrow> u64 \<Rightarrow> PageTables \<Rightarrow> PageTables res" where
  "ensure_l2_page_table lay l1_idx s =
     bind_res (table_entry lay (lay_l1 lay) l1_idx) (\<lambda>a.
     if pte_is_valid (pts_mem s a) then Inr s
     else
     bind_res (pte_mark_as_table_descriptor lay (lay_l1 lay) l1_idx (pts_mem s)) (\<lambda>pt1.
     bind_res (pte_point_to_next_level lay (lay_l1 lay) l1_idx (lay_l2 lay + 8 * (512 * l1_idx)) pt1) (\<lambda>pt2.
     Inr (s\<lparr>pts_mem := pt2\<rparr>))))"

definition ensure_l3_page_table :: "Layout \<Rightarrow> u64 \<Rightarrow> u64 \<Rightarrow> PageTables \<Rightarrow> (u64 \<times> PageTables) res" where
  "ensure_l3_page_table lay l1_idx l2_idx s =
     bind_res (ensure_l2_page_table lay l1_idx s) (\<lambda>s1.
     bind_res (table_entry lay (lay_l2 lay) l2_idx) (\<lambda>a.
     if pte_is_valid (pts_mem s1 a) then Inr (pts_mem s1 a AND PTE_ADDR_MASK, s1)
     else
     bind_res (allocate_l3_page_table lay s1) (\<lambda>(l3_table, s2).
     Inr (l3_table, s2\<lparr>pts_mem := (pts_mem s2)(a := l3_table OR PTE_TABLE_TYPE)\<rparr>))))"

section \<open>Mapping\<close>

definition map_device_l2_block :: "Layout \<Rightarrow> u64 \<Rightarrow> PageTables \<Rightarrow> PageTables res" where
  "map_device_l2_block lay phys s =
     bind_res (kassert (phys mod L2_ENTRY_SIZE = 0) ''precond'') (\<lambda>_.
     let l2_idx = phys div L2_ENTRY_SIZE in
     bind_res (ensure_l2_page_table lay (phys div L1_ENTRY_SIZE) s) (\<lambda>s1.
     bind_res (pte_mark_as_block_descriptor_device lay (lay_l2 lay) l2_idx (pts_mem s1)) (\<lambda>pt1.
     bind_res (pte_point_to_offset lay (lay_l2 lay) l2_idx phys pt1) (\<lambda>pt2.
     bind_res (pte_set_mair_attr lay (lay_l2 lay) l2_idx (ucast MAIR_INDEX_DEVICE) pt2) (\<lambda>pt3.
     Inr (s1\<lparr>pts_mem := pt3\<rparr>))))))"

definition map_device_l3_page :: "Layout \<Rightarrow> u64 \<Rightarrow> PageTables \<Rightarrow> PageTables res" where
  "map_device_l3_page lay phys s =
     bind_res (kassert (phys mod L3_ENTRY_SIZE = 0) ''precond'') (\<lambda>_.
     let l2_idx = phys div L2_ENTRY_SIZE; l3_idx = (phys mod L2_ENTRY_SIZE) div L3_ENTRY_SIZE in
     bind_res (ensure_l3_page_table lay (phys div L1_ENTRY_SIZE) l2_idx s) (\<lambda>(l3_table, s1).
     bind_res (pte_mark_as_page_descriptor_device lay l3_table l3_idx (pts_mem s1)) (\<lambda>pt1.
     bind_res (pte_point_to_offset lay l3_table l3_idx phys pt1) (\<lambda>pt2.
     bind_res (pte_set_mair_attr lay l3_table l3_idx (ucast MAIR_INDEX_DEVICE) pt2) (\<lambda>pt3.
     Inr (s1\<lparr>pts_mem := pt3\<rparr>))))))"

partial_function (option) map_device_loop :: "Layout \<Rightarrow> u64 \<Rightarrow> u64 \<Rightarrow> PageTables \<Rightarrow> PageTables comp" where
  "map_device_loop lay addr end_addr s =
     (if addr < end_addr
      then
        if addr mod L2_ENTRY_SIZE = 0 \<and> end_addr - addr \<ge> L2_ENTRY_SIZE
        then bind_comp (Some (map_device_l2_block lay addr s)) (\<lambda>s1.
               map_device_loop lay (addr + L2_ENTRY_SIZE) end_addr s1)
        else bind_comp (Some (map_device_l3_page lay addr s)) (\<lambda>s1.
               map_device_loop lay (addr + L3_ENTRY_SIZE) end_addr s1)
      else Some (Inr s))"

definition map_device_region :: "Layout \<Rightarrow> Region \<Rightarrow> PageTables \<Rightarrow> PageTables comp" where
  "map_device_region lay region s =
     map_device_loop lay (align_down (reg_start region) L3_ENTRY_SIZE)
       (align_up (reg_start region + reg_size region) L3_ENTRY_SIZE) s"

definition map_normal_block :: "Layout \<Rightarrow> u64 \<Rightarrow> u64 \<Rightarrow> u64 \<Rightarrow> ptmem \<Rightarrow> ptmem res" where
  "map_normal_block lay table idx entry_size pt =
     bind_res (pte_mark_as_block_descriptor_normal lay table idx pt) (\<lambda>pt1.
     bind_res (pte_point_to_offset lay table idx (idx * entry_size) pt1) (\<lambda>pt2.
     pte_set_mair_attr lay table idx (ucast MAIR_INDEX_NORMAL_WB) pt2))"

fun ram_block_loop :: "Layout \<Rightarrow> u64 \<Rightarrow> u64 \<Rightarrow> u64 \<Rightarrow> nat \<Rightarrow> ptmem \<Rightarrow> ptmem res" where
  "ram_block_loop lay table entry_size idx 0 pt = Inr pt"
| "ram_block_loop lay table entry_size idx (Suc n) pt =
     bind_res (map_normal_block lay table idx entry_size pt) (\<lambda>pt1.
     ram_block_loop lay table entry_size (idx + 1) n pt1)"

fun ram_table_loop :: "Layout \<Rightarrow> u64 \<Rightarrow> nat \<Rightarrow> ptmem \<Rightarrow> ptmem res" where
  "ram_table_loop lay l1_idx 0 pt = Inr pt"
| "ram_table_loop lay l1_idx (Suc n) pt =
     bind_res (pte_mark_as_table_descriptor lay (lay_l1 lay) l1_idx pt) (\<lambda>pt1.
     bind_res (pte_point_to_next_level lay (lay_l1 lay) l1_idx (lay_l2 lay + 8 * (512 * l1_idx)) pt1) (\<lambda>pt2.
     ram_table_loop lay (l1_idx + 1) n pt2))"

definition map_ram_region :: "Layout \<Rightarrow> Region \<Rightarrow> ptmem \<Rightarrow> ptmem res" where
  "map_ram_region lay region pt =
     (if reg_size region mod L1_ENTRY_SIZE = 0
      then ram_block_loop lay (lay_l1 lay) L1_ENTRY_SIZE (reg_start region div L1_ENTRY_SIZE)
             (unat (reg_size region div L1_ENTRY_SIZE)) pt
      else if reg_size region mod L2_ENTRY_SIZE = 0
      then
        bind_res (ram_table_loop lay (reg_start region div L1_ENTRY_SIZE)
          (unat ((reg_size region + L1_ENTRY_SIZE - 1) div L1_ENTRY_SIZE)) pt) (\<lambda>pt1.
        ram_block_loop lay (lay_l2 lay) L2_ENTRY_SIZE (reg_start region div L2_ENTRY_SIZE)
          (unat (reg_size region div L2_ENTRY_SIZE)) pt1)
      else kpanic ''Identity map with 4K pages is not implemented yet'')"

fun map_ram_regions :: "Layout \<Rightarrow> Region list \<Rightarrow> ptmem \<Rightarrow> ptmem res" where
  "map_ram_regions lay [] pt = Inr pt"
| "map_ram_regions lay (r # rs) pt =
     bind_res (map_ram_region lay r pt) (\<lambda>pt1. map_ram_regions lay rs pt1)"

fun map_device_regions :: "Layout \<Rightarrow> Region list \<Rightarrow> PageTables \<Rightarrow> PageTables comp" where
  "map_device_regions lay [] s = Some (Inr s)"
| "map_device_regions lay (r # rs) s =
     bind_comp (map_device_region lay r s) (\<lambda>s1. map_device_regions lay rs s1)"

section \<open>System registers\<close>

record SysRegs =
  sr_mair :: u64
  sr_ttbr0 :: u64
  sr_ttbr1 :: u64
  sr_tcr :: u64
  sr_sctlr :: u64

definition configure_mair_range :: "u64 \<Rightarrow> u64 \<Rightarrow> SysRegs \<Rightarrow> SysRegs" where
  "configure_mair_range attribute index r =
     r\<lparr>sr_mair := sr_mair r OR push_bit (unat (index * 8)) attribute\<rparr>"

definition setup_mair_ranges :: "SysRegs \<Rightarrow> SysRegs" where
  "setup_mair_ranges r =
     configure_mair_range MAIR_NORMAL_WB MAIR_INDEX_NORMAL_WB
       (configure_mair_range MAIR_DEVICE_NGNRNE MAIR_INDEX_DEVICE r)"

definition set_ttbr :: "u64 \<Rightarrow> u32 \<Rightarrow> SysRegs \<Rightarrow> SysRegs res" where
  "set_ttbr translation_table exception_level r =
     (if exception_level = 0 then Inr (r\<lparr>sr_ttbr0 := translation_table\<rparr>)
      else if exception_level = 1 then Inr (r\<lparr>sr_ttbr1 := translation_table\<rparr>)
      else kpanic ''Invalid exception level'')"

definition tcr_value :: u64 where
  "tcr_value =
     push_bit 0 16 OR push_bit 8 1 OR push_bit 10 1 OR push_bit 12 3 OR
     push_bit 16 16 OR push_bit 23 0 OR push_bit 32 5"

definition setup_translation_control :: "SysRegs \<Rightarrow> SysRegs" where
  "setup_translation_control r = r\<lparr>sr_tcr := tcr_value\<rparr>"

definition SCTLR_MMU_ENABLE :: u64 where "SCTLR_MMU_ENABLE = push_bit 0 1"

definition mmu_enable :: "SysRegs \<Rightarrow> SysRegs" where
  "mmu_enable r = r\<lparr>sr_sctlr := sr_sctlr r OR SCTLR_MMU_ENABLE\<rparr>"

definition setup_core_specific :: "Layout \<Rightarrow> SysRegs \<Rightarrow> SysRegs res" where
  "setup_core_specific lay r =
     bind_res (set_ttbr (lay_l0 lay) 0 (setup_mair_ranges r)) (\<lambda>r1.
     Inr (mmu_enable (setup_translation_control r1)))"

definition setup_idmap_page_tables ::
    "Layout \<Rightarrow> MemoryMap \<Rightarrow> PageTables \<Rightarrow> SysRegs \<Rightarrow> (PageTables \<times> SysRegs) comp" where
  "setup_idmap_page_tables lay mm s r =
     bind_comp (Some (validate_device_regions mm)) (\<lambda>_.
     bind_comp (Some (pte_mark_as_table_descriptor lay (lay_l0 lay) 0 (pts_mem s))) (\<lambda>pt1.
     bind_comp (Some (pte_point_to_next_level lay (lay_l0 lay) 0 (lay_l1 lay) pt1)) (\<lambda>pt2.
     bind_comp (Some (map_ram_regions lay (regions (mm_ram_regions mm)) pt2)) (\<lambda>pt3.
     bind_comp (map_device_regions lay (regions (mm_device_regions mm)) (s\<lparr>pts_mem := pt3\<rparr>)) (\<lambda>s1.
     bind_comp (Some (setup_core_specific lay r)) (\<lambda>r1.
     Some (Inr (s1, r1))))))))"

end
