(* ===== verification/Idmap_Walk.thy ===== *)
theory Idmap_Walk
  imports MMU
begin

text \<open>
  What the page tables mean: the entries of the four arrays by their index, the descriptors
  the code writes, the walk of the translation hardware over the tables in memory, and the
  invariant of the tables under which the walk is a partial map from addresses to
  descriptors that translates every mapped address to itself.
\<close>

section \<open>The entries of the four arrays\<close>

text \<open>What the linker guarantees: the arrays are page aligned, below \<open>2 ^ 48\<close> and disjoint.\<close>

definition apart :: "u64 \<Rightarrow> nat \<Rightarrow> u64 \<Rightarrow> nat \<Rightarrow> bool" where
  "apart a n b k \<longleftrightarrow> unat a + n \<le> unat b \<or> unat b + k \<le> unat a"

definition L2_BYTES :: nat where "L2_BYTES = 2097152"
definition L3_BYTES :: nat where "L3_BYTES = 131072"

definition layout_ok :: "Layout \<Rightarrow> bool" where
  "layout_ok lay \<longleftrightarrow>
     unat (lay_l0 lay) mod 4096 = 0 \<and> unat (lay_l1 lay) mod 4096 = 0 \<and>
     unat (lay_l2 lay) mod 4096 = 0 \<and> unat (lay_l3 lay) mod 4096 = 0 \<and>
     unat (lay_l0 lay) + 4096 \<le> 2 ^ 48 \<and> unat (lay_l1 lay) + 4096 \<le> 2 ^ 48 \<and>
     unat (lay_l2 lay) + L2_BYTES \<le> 2 ^ 48 \<and> unat (lay_l3 lay) + L3_BYTES \<le> 2 ^ 48 \<and>
     apart (lay_l0 lay) 4096 (lay_l1 lay) 4096 \<and> apart (lay_l0 lay) 4096 (lay_l2 lay) L2_BYTES \<and>
     apart (lay_l0 lay) 4096 (lay_l3 lay) L3_BYTES \<and> apart (lay_l1 lay) 4096 (lay_l2 lay) L2_BYTES \<and>
     apart (lay_l1 lay) 4096 (lay_l3 lay) L3_BYTES \<and> apart (lay_l2 lay) L2_BYTES (lay_l3 lay) L3_BYTES"

datatype slot = S0 | S1 nat | S2 nat | S3 nat nat

fun slot_ok :: "slot \<Rightarrow> bool" where
  "slot_ok S0 = True"
| "slot_ok (S1 i) = (i < 512)"
| "slot_ok (S2 j) = (j < 262144)"
| "slot_ok (S3 k e) = (k < 32 \<and> e < 512)"

fun slot_base :: "Layout \<Rightarrow> slot \<Rightarrow> u64" where
  "slot_base lay S0 = lay_l0 lay"
| "slot_base lay (S1 i) = lay_l1 lay"
| "slot_base lay (S2 j) = lay_l2 lay"
| "slot_base lay (S3 k e) = lay_l3 lay"

fun slot_off :: "slot \<Rightarrow> nat" where
  "slot_off S0 = 0"
| "slot_off (S1 i) = 8 * i"
| "slot_off (S2 j) = 8 * j"
| "slot_off (S3 k e) = 4096 * k + 8 * e"

definition slot_addr :: "Layout \<Rightarrow> slot \<Rightarrow> u64" where
  "slot_addr lay x = slot_base lay x + of_nat (slot_off x)"

definition ent :: "Layout \<Rightarrow> ptmem \<Rightarrow> slot \<Rightarrow> u64" where
  "ent lay pt x = pt (slot_addr lay x)"

lemma unat_slot_addr:
  assumes "layout_ok lay" "slot_ok x"
  shows "unat (slot_addr lay x) = unat (slot_base lay x) + slot_off x"
  unfolding slot_addr_def
  using assms by (intro unat_u64_add_of_nat) (cases x; simp add: layout_ok_def L2_BYTES_def L3_BYTES_def)

fun slot_level :: "slot \<Rightarrow> nat" where
  "slot_level S0 = 0"
| "slot_level (S1 i) = 1"
| "slot_level (S2 j) = 2"
| "slot_level (S3 k e) = 3"

fun slot_bytes :: "slot \<Rightarrow> nat" where
  "slot_bytes S0 = 4096"
| "slot_bytes (S1 i) = 4096"
| "slot_bytes (S2 j) = L2_BYTES"
| "slot_bytes (S3 k e) = L3_BYTES"

lemma apart_sym: "apart a n b k \<longleftrightarrow> apart b k a n"
  by (auto simp: apart_def)

lemma slot_off_bound: "slot_ok x \<Longrightarrow> slot_off x + 8 \<le> slot_bytes x"
  by (cases x) (auto simp: L2_BYTES_def L3_BYTES_def)

lemma slot_apart:
  assumes "layout_ok lay" "slot_level x \<noteq> slot_level y"
  shows "apart (slot_base lay x) (slot_bytes x) (slot_base lay y) (slot_bytes y)"
proof -
  have "apart (lay_l0 lay) 4096 (lay_l1 lay) 4096" "apart (lay_l0 lay) 4096 (lay_l2 lay) L2_BYTES"
    "apart (lay_l0 lay) 4096 (lay_l3 lay) L3_BYTES" "apart (lay_l1 lay) 4096 (lay_l2 lay) L2_BYTES"
    "apart (lay_l1 lay) 4096 (lay_l3 lay) L3_BYTES" "apart (lay_l2 lay) L2_BYTES (lay_l3 lay) L3_BYTES"
    using assms(1) by (simp_all add: layout_ok_def)
  from this this [THEN iffD1 [OF apart_sym]] assms(2) show ?thesis
    by (cases x; cases y) simp_all
qed

lemma slot_addr_inj:
  assumes "layout_ok lay" "slot_ok x" "slot_ok y" "slot_addr lay x = slot_addr lay y"
  shows "x = y"
proof -
  have eq: "unat (slot_base lay x) + slot_off x = unat (slot_base lay y) + slot_off y"
    using assms unat_slot_addr [OF assms(1)] by metis
  have level: "slot_level x = slot_level y"
    using slot_apart [OF assms(1), of x y] slot_off_bound [OF assms(2)] slot_off_bound [OF assms(3)] eq
    by (auto simp: apart_def)
  show ?thesis
  proof (cases x)
    case (S3 k e)
    then obtain k' e' where y: "y = S3 k' e'" using level by (cases y) auto
    have "4096 * k + 8 * e = 4096 * k' + 8 * e'" "e < 512" "e' < 512"
      using eq assms(2,3) S3 y by simp_all
    then have "k = k' \<and> e = e'" by (cases k k' rule: linorder_cases) linarith+
    with S3 y show ?thesis by simp
  qed (use eq level in \<open>cases y; simp\<close>)+
qed

lemma ent_upd:
  assumes "layout_ok lay" "slot_ok x" "slot_ok y"
  shows "ent lay (pt(slot_addr lay x := v)) y = (if y = x then v else ent lay pt y)"
  using slot_addr_inj [OF assms] by (auto simp: ent_def)

text \<open>The table a slot belongs to and the index of the slot in it.\<close>

fun slot_table :: "Layout \<Rightarrow> slot \<Rightarrow> u64" where
  "slot_table lay S0 = lay_l0 lay"
| "slot_table lay (S1 i) = lay_l1 lay"
| "slot_table lay (S2 j) = lay_l2 lay"
| "slot_table lay (S3 k e) = lay_l3 lay + of_nat (4096 * k)"

fun slot_idx :: "slot \<Rightarrow> nat" where
  "slot_idx S0 = 0"
| "slot_idx (S1 i) = i"
| "slot_idx (S2 j) = j"
| "slot_idx (S3 k e) = e"

lemma slot_not_in_array:
  assumes "layout_ok lay" "slot_level x \<noteq> slot_level y" "unat (slot_base lay x) \<le> unat p"
    "unat p < unat (slot_base lay x) + slot_bytes x" "8 * n \<le> slot_bytes y"
  shows "\<not> in_array (slot_base lay y) n p"
  using slot_apart [OF assms(1,2)] assms(3-5) by (auto simp: in_array_def apart_def)

lemma slot_array:
  assumes "layout_ok lay" "slot_ok x"
  shows "array_of lay (slot_table lay x) = Some (slot_table lay x, if x = S0 then 1 else case x of S2 j \<Rightarrow> 262144 | _ \<Rightarrow> 512)"
proof -
  have u: "unat (slot_table lay x) = unat (slot_base lay x) + (slot_off x - 8 * slot_idx x)"
  proof (cases x)
    case (S3 k e)
    with assms show ?thesis
      by (simp add: unat_u64_add_of_nat layout_ok_def L3_BYTES_def del: of_nat_mult)
  qed simp_all
  have "unat (slot_table lay x) < unat (slot_base lay x) + slot_bytes x"
    using u slot_off_bound [OF assms(2)] by simp
  note out = slot_not_in_array [OF assms(1) _ _ this]
  have o0: "slot_level x \<noteq> 0 \<Longrightarrow> \<not> in_array (lay_l0 lay) 1 (slot_table lay x)"
    using out [of S0 1] u by simp
  have o1: "slot_level x \<noteq> 1 \<Longrightarrow> \<not> in_array (lay_l1 lay) 512 (slot_table lay x)"
    using out [of "S1 0" 512] u by simp
  have o2: "slot_level x \<noteq> 2 \<Longrightarrow> \<not> in_array (lay_l2 lay) 262144 (slot_table lay x)"
    using out [of "S2 0" 262144] u by (simp add: L2_BYTES_def)
  show ?thesis
  proof (cases x)
    case (S3 k e)
    then have "in_array (lay_l3 lay) 16384 (slot_table lay x)"
      using u assms(2) by (simp add: in_array_def)
    with S3 u o0 o1 o2 show ?thesis
      by (simp add: array_of_def mult.commute [of k])
  qed (use u o0 o1 o2 in \<open>simp_all add: array_of_def in_array_def [of _ _ "lay_l0 lay"]
      in_array_def [of "lay_l1 lay" _ "lay_l1 lay"] in_array_def [of "lay_l2 lay" _ "lay_l2 lay"]\<close>)
qed

lemma table_entry_slot:
  assumes "layout_ok lay" "slot_ok x"
  shows "table_entry lay (slot_table lay x) (of_nat (slot_idx x)) = Inr (slot_addr lay x)"
proof -
  have "slot_idx x < 262144" using assms(2) by (cases x) auto
  then have "unat (of_nat (slot_idx x) :: u64) = slot_idx x" by (simp add: unat_of_nat)
  with assms slot_array [OF assms] show ?thesis
    by (cases x) (simp_all add: table_entry_def slot_addr_def add.assoc)
qed

lemma pte_or_slot:
  assumes "layout_ok lay" "slot_ok x"
  shows "pte_or lay (slot_table lay x) (of_nat (slot_idx x)) bits pt =
    Inr (pt(slot_addr lay x := ent lay pt x OR bits))"
  by (simp add: pte_or_def table_entry_slot [OF assms] ent_def)

section \<open>Descriptors\<close>

text \<open>Page-aligned values below \<open>2 ^ 48\<close>: what the address field of a descriptor can hold.\<close>

definition field_ok :: "u64 \<Rightarrow> bool" where
  "field_ok x \<longleftrightarrow> x AND PTE_ADDR_MASK = x"

lemma field_ok_of_nat:
  assumes "n < 2 ^ 48" "n mod 4096 = 0"
  shows "field_ok (of_nat n)"
proof -
  define x :: u64 where "x = of_nat n"
  have u: "unat x = n" using assms(1) by (simp add: x_def unat_of_nat)
  have lo: "take_bit 12 x = 0"
    using u assms(2) by (simp add: word_unat_eq_iff take_bit_eq_mod unat_mod)
  have hi: "drop_bit 48 x = 0"
    using u assms(1) by (simp add: word_unat_eq_iff drop_bit_eq_div unat_div)
  have "PTE_ADDR_MASK = push_bit 12 (mask 36)" by (simp add: PTE_ADDR_MASK_def mask_eq_exp_minus_1)
  moreover have "x AND push_bit 12 (mask 36) = x"
  proof (rule bit_word_eqI)
    fix b assume "b < LENGTH(64)"
    have "\<not> bit x b" if "b < 12"
    proof -
      have "bit (take_bit 12 x) b \<longleftrightarrow> bit x b" using that by (simp add: bit_take_bit_iff)
      with lo show ?thesis by simp
    qed
    moreover have "\<not> bit x b" if "48 \<le> b"
    proof -
      have "bit (drop_bit 48 x) (b - 48) \<longleftrightarrow> bit x b" using that by (simp add: bit_drop_bit_eq)
      with hi show ?thesis by simp
    qed
    ultimately have "bit x b \<Longrightarrow> 12 \<le> b \<and> b < 48" by (meson not_le_imp_less)
    then show "bit (x AND push_bit 12 (mask 36)) b = bit x b"
      by (auto simp: bit_simps)
  qed
  ultimately show ?thesis by (simp add: field_ok_def x_def)
qed

lemma field_bits:
  assumes "field_ok x" "b AND PTE_ADDR_MASK = 0"
  shows "(x OR b) AND PTE_ADDR_MASK = x" "(b OR x) AND PTE_ADDR_MASK = x"
  using assms by (simp_all add: field_ok_def bit.conj_disj_distrib2)

lemma field_low: "field_ok x \<Longrightarrow> x AND 0xFFF = 0"
proof -
  assume "field_ok x"
  then have "x AND 0xFFF = x AND (PTE_ADDR_MASK AND 0xFFF)" by (simp add: field_ok_def flip: and.assoc)
  also have "\<dots> = 0" by (simp add: PTE_ADDR_MASK_def)
  finally show ?thesis .
qed

lemma field_low_3: "field_ok x \<Longrightarrow> x AND 3 = 0" "field_ok x \<Longrightarrow> x AND 1 = 0"
proof -
  assume "field_ok x"
  then have "x AND 0xFFF = 0" by (rule field_low)
  then have "(x AND 0xFFF) AND 3 = 0" "(x AND 0xFFF) AND 1 = 0" by simp_all
  then show "x AND 3 = 0" "x AND 1 = 0" by (simp_all add: and.assoc)
qed

lemma field_next_level: "field_ok x \<Longrightarrow> NOT (push_bit 12 0xFFFFFFFFF) AND x = 0"
proof -
  assume f: "field_ok x"
  have z: "NOT (push_bit 12 0xFFFFFFFFF) AND PTE_ADDR_MASK = 0" by (simp add: PTE_ADDR_MASK_def)
  have "NOT (push_bit 12 0xFFFFFFFFF) AND x = NOT (push_bit 12 0xFFFFFFFFF) AND (PTE_ADDR_MASK AND x)"
    using f by (simp only: field_ok_def and.commute [of PTE_ADDR_MASK x])
  also have "\<dots> = (NOT (push_bit 12 0xFFFFFFFFF) AND PTE_ADDR_MASK) AND x" by (simp only: and.assoc)
  finally show ?thesis by (simp only: z and_zero_eq zero_and_eq)
qed

text \<open>The descriptors the code writes, by the index of the block or page they map.\<close>

definition normal_block :: "nat \<Rightarrow> nat \<Rightarrow> u64" where
  "normal_block n i = block_normal_bits OR of_nat (i * 2 ^ n) OR 8"

definition device_block :: "nat \<Rightarrow> u64" where
  "device_block j = block_device_bits OR of_nat (j * 2 ^ 21)"

definition device_page :: "nat \<Rightarrow> u64" where
  "device_page p = page_device_bits OR of_nat (p * 2 ^ 12)"

definition table_desc :: "u64 \<Rightarrow> u64" where
  "table_desc a = a OR 3"

lemma bits_values:
  "block_normal_bits = 0x40000000000701" "block_device_bits = 0x60000000000401"
  "page_device_bits = 0x60000000000403"
  by (simp_all add: block_normal_bits_def block_device_bits_def page_device_bits_def
      PTE_UA_UXN_EL0_NO_ACCESS_def PTE_UA_PXN_EL1_ACCESS_def PTE_UA_PXN_EL1_NO_ACCESS_def PTE_LA_AF_def
      PTE_LA_SH_INNER_def PTE_LA_SH_NONE_def PTE_LA_AP_RW_EL1_def PTE_BLOCK_TYPE_def PTE_PAGE_TYPE_def)

lemma desc_types:
  assumes "field_ok x"
  shows "(block_normal_bits OR x OR 8) AND 3 = 1" "(block_device_bits OR x) AND 3 = 1"
    "(page_device_bits OR x) AND 3 = 3" "table_desc x AND 3 = 3"
    "(block_normal_bits OR x OR 8) AND PTE_ADDR_MASK = x" "(block_device_bits OR x) AND PTE_ADDR_MASK = x"
    "(page_device_bits OR x) AND PTE_ADDR_MASK = x" "table_desc x AND PTE_ADDR_MASK = x"
  using assms field_low_3(1) [OF assms]
  by (simp_all add: bits_values table_desc_def bit.conj_disj_distrib2 field_ok_def)
    (simp_all add: PTE_ADDR_MASK_def)

section \<open>The walk of the translation hardware\<close>

text \<open>
  Stage 1 translation with the 4KB granule and 48-bit addresses, which is what
  \<open>tcr_value\<close> selects: four levels of nine index bits each. The result is the output
  address and the descriptor it comes from.
\<close>

definition idx_at :: "nat \<Rightarrow> u64 \<Rightarrow> u64" where
  "idx_at n va = drop_bit n va AND 511"

definition hw_leaf :: "nat \<Rightarrow> u64 \<Rightarrow> u64 \<Rightarrow> u64 \<times> u64" where
  "hw_leaf n e va = (((e AND PTE_ADDR_MASK) AND NOT (mask n)) OR (va AND mask n), e)"

definition hw_l3 :: "ptmem \<Rightarrow> u64 \<Rightarrow> u64 \<Rightarrow> (u64 \<times> u64) option" where
  "hw_l3 pt table va =
     (let e = pt (table + 8 * idx_at 12 va) in
      if e AND 3 \<noteq> 3 then None else Some (hw_leaf 12 e va))"

definition hw_l2 :: "ptmem \<Rightarrow> u64 \<Rightarrow> u64 \<Rightarrow> (u64 \<times> u64) option" where
  "hw_l2 pt table va =
     (let e = pt (table + 8 * idx_at 21 va) in
      if e AND 1 = 0 then None
      else if e AND 2 = 0 then Some (hw_leaf 21 e va)
      else hw_l3 pt (e AND PTE_ADDR_MASK) va)"

definition hw_l1 :: "ptmem \<Rightarrow> u64 \<Rightarrow> u64 \<Rightarrow> (u64 \<times> u64) option" where
  "hw_l1 pt table va =
     (let e = pt (table + 8 * idx_at 30 va) in
      if e AND 1 = 0 then None
      else if e AND 2 = 0 then Some (hw_leaf 30 e va)
      else hw_l2 pt (e AND PTE_ADDR_MASK) va)"

definition hw_walk :: "ptmem \<Rightarrow> u64 \<Rightarrow> u64 \<Rightarrow> (u64 \<times> u64) option" where
  "hw_walk pt ttbr va =
     (let e = pt (ttbr + 8 * idx_at 39 va) in
      if e AND 3 \<noteq> 3 then None else hw_l1 pt (e AND PTE_ADDR_MASK) va)"

lemma unat_idx_at: "unat (idx_at n va) = unat va div 2 ^ n mod 512"
proof -
  have "idx_at n va = take_bit 9 (drop_bit n va)"
    by (simp add: idx_at_def take_bit_eq_mask mask_eq_exp_minus_1)
  then have "unat (idx_at n va) = take_bit 9 (drop_bit n (unat va))"
    by (simp only: unsigned_take_bit_eq unat_drop_bit_eq)
  also have "\<dots> = unat va div 2 ^ n mod 512" by (simp add: take_bit_eq_mod drop_bit_eq_div)
  finally show ?thesis .
qed

lemma idx_at_of_nat: "8 * idx_at n va = of_nat (8 * (unat va div 2 ^ n mod 512))"
  by (metis unat_idx_at of_nat_mult of_nat_numeral of_nat_unat ucast_id)

lemma low_bits:
  fixes e :: u64
  assumes "e AND 3 = c"
  shows "e AND 1 = c AND 1" "e AND 2 = c AND 2"
proof -
  have "(e AND 3) AND 1 = e AND 1" "(e AND 3) AND 2 = e AND 2"
    by (simp_all add: and.assoc)
  with assms show "e AND 1 = c AND 1" "e AND 2 = c AND 2" by simp_all
qed

lemma hw_leaf_identity:
  assumes "e AND PTE_ADDR_MASK = of_nat (unat va div 2 ^ n * 2 ^ n)"
  shows "hw_leaf n e va = (va, e)"
proof -
  have eq: "of_nat (unat va div 2 ^ n * 2 ^ n) = va AND NOT (mask n)"
  proof -
    have "unat va div 2 ^ n = unat (drop_bit n va)" by (simp only: unat_drop_bit_eq) (simp add: drop_bit_eq_div)
    then have "(of_nat (unat va div 2 ^ n * 2 ^ n) :: u64) = push_bit n (drop_bit n va)"
      by (simp add: push_bit_eq_mult)
    also have "\<dots> = va AND NOT (mask n)" by (rule bit_word_eqI) (auto simp: bit_simps)
    finally show ?thesis .
  qed
  have "(va AND NOT (mask n)) AND NOT (mask n) OR (va AND mask n) = va"
    by (rule bit_word_eqI) (auto simp: bit_simps)
  then show ?thesis unfolding hw_leaf_def assms eq by simp
qed

section \<open>The page tables as a map of addresses\<close>

definition l2_table :: "Layout \<Rightarrow> nat \<Rightarrow> u64" where
  "l2_table lay i = lay_l2 lay + of_nat (4096 * i)"

definition l3_table :: "Layout \<Rightarrow> nat \<Rightarrow> u64" where
  "l3_table lay k = lay_l3 lay + of_nat (4096 * k)"

definition l3_index :: "Layout \<Rightarrow> u64 \<Rightarrow> nat" where
  "l3_index lay e = (unat (e AND PTE_ADDR_MASK) - unat (lay_l3 lay)) div 4096"

text \<open>
  The invariant of the tables: L0 leads to L1; an L1 entry is unused, leads to its part of
  L2 or is a RAM block; an L2 entry is unused, is a RAM or device block, or leads to an
  allocated L3 table that no other entry leads to; an entry of that table is unused or the
  page that belongs there; tables that were not allocated are empty.
\<close>

definition l3_ok :: "Layout \<Rightarrow> PageTables \<Rightarrow> nat \<Rightarrow> nat \<Rightarrow> bool" where
  "l3_ok lay s j k \<longleftrightarrow>
     (\<forall>e<512. ent lay (pts_mem s) (S3 k e) = 0 \<or> ent lay (pts_mem s) (S3 k e) = device_page (512 * j + e))"

definition l2_ok :: "Layout \<Rightarrow> PageTables \<Rightarrow> nat \<Rightarrow> bool" where
  "l2_ok lay s j \<longleftrightarrow>
     ent lay (pts_mem s) (S2 j) \<in> {0, normal_block 21 j, device_block j} \<or>
     (\<exists>k<unat (pts_num_l3_page_tables s).
        ent lay (pts_mem s) (S2 j) = table_desc (l3_table lay k) \<and> l3_ok lay s j k)"

definition l1_ok :: "Layout \<Rightarrow> PageTables \<Rightarrow> nat \<Rightarrow> bool" where
  "l1_ok lay s i \<longleftrightarrow> ent lay (pts_mem s) (S1 i) \<in> {0, table_desc (l2_table lay i), normal_block 30 i}"

definition l2_reached :: "Layout \<Rightarrow> PageTables \<Rightarrow> nat \<Rightarrow> bool" where
  "l2_reached lay s j \<longleftrightarrow>
     ent lay (pts_mem s) (S2 j) = 0 \<or> ent lay (pts_mem s) (S1 (j div 512)) = table_desc (l2_table lay (j div 512))"

definition l3_unique :: "Layout \<Rightarrow> PageTables \<Rightarrow> nat \<Rightarrow> nat \<Rightarrow> nat \<Rightarrow> bool" where
  "l3_unique lay s j j' k \<longleftrightarrow>
     (ent lay (pts_mem s) (S2 j) = table_desc (l3_table lay k) \<and>
      ent lay (pts_mem s) (S2 j') = table_desc (l3_table lay k) \<longrightarrow> j = j')"

definition l3_free :: "Layout \<Rightarrow> PageTables \<Rightarrow> nat \<Rightarrow> bool" where
  "l3_free lay s k \<longleftrightarrow> (\<forall>e<512. ent lay (pts_mem s) (S3 k e) = 0)"

definition idmap_ok :: "Layout \<Rightarrow> PageTables \<Rightarrow> bool" where
  "idmap_ok lay s \<longleftrightarrow>
     unat (pts_num_l3_page_tables s) \<le> 32 \<and>
     ent lay (pts_mem s) S0 = table_desc (lay_l1 lay) \<and>
     (\<forall>i<512. l1_ok lay s i) \<and>
     (\<forall>j<262144. l2_ok lay s j \<and> l2_reached lay s j) \<and>
     (\<forall>j<262144. \<forall>j'<262144. \<forall>k<32. l3_unique lay s j j' k) \<and>
     (\<forall>k<32. unat (pts_num_l3_page_tables s) \<le> k \<longrightarrow> l3_free lay s k)"

text \<open>The descriptor that maps an address below 512GB, if any.\<close>

definition lookup_l3 :: "Layout \<Rightarrow> PageTables \<Rightarrow> nat \<Rightarrow> nat \<Rightarrow> u64 option" where
  "lookup_l3 lay s k a =
     (let e = ent lay (pts_mem s) (S3 k (a div 2 ^ 12 mod 512)) in if e = 0 then None else Some e)"

definition lookup_l2 :: "Layout \<Rightarrow> PageTables \<Rightarrow> nat \<Rightarrow> u64 option" where
  "lookup_l2 lay s a =
     (let e = ent lay (pts_mem s) (S2 (a div 2 ^ 21)) in
      if e = 0 then None
      else if e AND 2 = 0 then Some e
      else lookup_l3 lay s (l3_index lay e) a)"

definition lookup :: "Layout \<Rightarrow> PageTables \<Rightarrow> nat \<Rightarrow> u64 option" where
  "lookup lay s a =
     (let e = ent lay (pts_mem s) (S1 (a div 2 ^ 30)) in
      if e = 0 then None
      else if e AND 2 = 0 then Some e
      else lookup_l2 lay s a)"

lemma unat_l2_table: "layout_ok lay \<Longrightarrow> i < 512 \<Longrightarrow> unat (l2_table lay i) = unat (lay_l2 lay) + 4096 * i"
  unfolding l2_table_def by (intro unat_u64_add_of_nat) (simp add: layout_ok_def L2_BYTES_def)

lemma unat_l3_table: "layout_ok lay \<Longrightarrow> k < 32 \<Longrightarrow> unat (l3_table lay k) = unat (lay_l3 lay) + 4096 * k"
  unfolding l3_table_def by (intro unat_u64_add_of_nat) (simp add: layout_ok_def L3_BYTES_def)

lemma field_ok_unat: "unat x < 2 ^ 48 \<Longrightarrow> unat x mod 4096 = 0 \<Longrightarrow> field_ok x"
  using field_ok_of_nat [of "unat x"] by simp

lemma table_fields:
  assumes "layout_ok lay"
  shows "field_ok (lay_l1 lay)" "i < 512 \<Longrightarrow> field_ok (l2_table lay i)" "k < 32 \<Longrightarrow> field_ok (l3_table lay k)"
proof -
  show "field_ok (lay_l1 lay)"
    using assms by (intro field_ok_unat) (auto simp: layout_ok_def)
  show "i < 512 \<Longrightarrow> field_ok (l2_table lay i)"
    using assms unat_l2_table [OF assms, of i]
    by (intro field_ok_unat) (auto simp: layout_ok_def L2_BYTES_def mod_add_eq [symmetric])
  show "k < 32 \<Longrightarrow> field_ok (l3_table lay k)"
    using assms unat_l3_table [OF assms, of k]
    by (intro field_ok_unat) (auto simp: layout_ok_def L3_BYTES_def mod_add_eq [symmetric])
qed

lemma field_ok_mult: "x < 2 ^ 36 \<Longrightarrow> field_ok (of_nat (4096 * x))"
  by (rule field_ok_of_nat) simp_all

lemma block_fields:
  "i < 512 \<Longrightarrow> field_ok (of_nat (i * 2 ^ 30))" "j < 262144 \<Longrightarrow> field_ok (of_nat (j * 2 ^ 21))"
  "p < 134217728 \<Longrightarrow> field_ok (of_nat (p * 2 ^ 12))"
proof -
  have eq: "i * 2 ^ 30 = 4096 * (i * 262144)" "j * 2 ^ 21 = 4096 * (j * 512)" "p * 2 ^ 12 = 4096 * p" by simp_all
  show "i < 512 \<Longrightarrow> field_ok (of_nat (i * 2 ^ 30))" "j < 262144 \<Longrightarrow> field_ok (of_nat (j * 2 ^ 21))"
    "p < 134217728 \<Longrightarrow> field_ok (of_nat (p * 2 ^ 12))"
    unfolding eq by (rule field_ok_mult; simp)+
qed

lemma table_not_block:
  assumes "layout_ok lay"
  shows "i < 512 \<Longrightarrow> table_desc (l2_table lay i) AND 3 = 3" "k < 32 \<Longrightarrow> table_desc (l3_table lay k) AND 3 = 3"
    "i < 512 \<Longrightarrow> normal_block 30 i AND 3 = 1" "j < 262144 \<Longrightarrow> normal_block 21 j AND 3 = 1"
    "j < 262144 \<Longrightarrow> device_block j AND 3 = 1" "p < 134217728 \<Longrightarrow> device_page p AND 3 = 3"
  unfolding normal_block_def device_block_def device_page_def
  using table_fields [OF assms] block_fields desc_types by blast+

lemma l3_index_table: "layout_ok lay \<Longrightarrow> k < 32 \<Longrightarrow> l3_index lay (table_desc (l3_table lay k)) = k"
  by (simp add: l3_index_def desc_types table_fields unat_l3_table)

lemma table_desc_inj:
  "layout_ok lay \<Longrightarrow> k < 32 \<Longrightarrow> k' < 32 \<Longrightarrow> table_desc (l3_table lay k) = table_desc (l3_table lay k') \<Longrightarrow> k = k'"
  by (metis l3_index_table)

text \<open>The addresses the walk visits are the slots of the address.\<close>

lemma walk_slots:
  assumes "layout_ok lay" "unat va < 2 ^ 39"
  shows "lay_l0 lay + 8 * idx_at 39 va = slot_addr lay S0"
    and "lay_l1 lay + 8 * idx_at 30 va = slot_addr lay (S1 (unat va div 2 ^ 30))"
    and "l2_table lay (unat va div 2 ^ 30) + 8 * idx_at 21 va = slot_addr lay (S2 (unat va div 2 ^ 21))"
    and "l3_table lay k + 8 * idx_at 12 va = slot_addr lay (S3 k (unat va div 2 ^ 12 mod 512))"
proof -
  define a where "a = unat va"
  have a: "a < 549755813888" using assms(2) by (simp add: a_def)
  have "a div 2 ^ 39 mod 512 = 0" "a div 2 ^ 30 mod 512 = a div 2 ^ 30" using a by simp_all
  moreover have "4096 * (a div 2 ^ 30) + 8 * (a div 2 ^ 21 mod 512) = 8 * (a div 2 ^ 21)"
  proof -
    have "a div 2 ^ 30 = a div 2 ^ 21 div 512" by (simp flip: div_mult2_eq)
    moreover have "4096 * (b div 512) + 8 * (b mod 512) = 8 * b" for b :: nat
      using mult_div_mod_eq [of 512 b] by linarith
    ultimately show ?thesis by simp
  qed
  ultimately show "lay_l0 lay + 8 * idx_at 39 va = slot_addr lay S0"
    "lay_l1 lay + 8 * idx_at 30 va = slot_addr lay (S1 (unat va div 2 ^ 30))"
    "l2_table lay (unat va div 2 ^ 30) + 8 * idx_at 21 va = slot_addr lay (S2 (unat va div 2 ^ 21))"
    "l3_table lay k + 8 * idx_at 12 va = slot_addr lay (S3 k (unat va div 2 ^ 12 mod 512))"
    unfolding idx_at_of_nat a_def [symmetric] slot_addr_def l2_table_def l3_table_def
    by (simp_all add: add.assoc del: of_nat_mult flip: of_nat_add)
qed

lemma div_lt:
  assumes "a < (2 ^ 39 :: nat)"
  shows "a div 2 ^ 30 < 512" "a div 2 ^ 21 < 262144" "a div 2 ^ 12 < 134217728"
  using assms by (simp_all add: less_mult_imp_div_less)

text \<open>The page a slot of an L3 table maps.\<close>

lemma page_split: "512 * (a div 2 ^ 21) + a div 2 ^ 12 mod 512 = a div (2 ^ 12 :: nat)"
proof -
  have "a div 2 ^ 21 = a div 2 ^ 12 div 512" by (simp flip: div_mult2_eq)
  then show ?thesis by simp
qed

lemma leaf_identity:
  "unat va < 2 ^ 39 \<Longrightarrow> hw_leaf 30 (normal_block 30 (unat va div 2 ^ 30)) va = (va, normal_block 30 (unat va div 2 ^ 30))"
  "unat va < 2 ^ 39 \<Longrightarrow> hw_leaf 21 (normal_block 21 (unat va div 2 ^ 21)) va = (va, normal_block 21 (unat va div 2 ^ 21))"
  "unat va < 2 ^ 39 \<Longrightarrow> hw_leaf 21 (device_block (unat va div 2 ^ 21)) va = (va, device_block (unat va div 2 ^ 21))"
  "unat va < 2 ^ 39 \<Longrightarrow> hw_leaf 12 (device_page (unat va div 2 ^ 12)) va = (va, device_page (unat va div 2 ^ 12))"
  unfolding normal_block_def device_block_def device_page_def
  by (rule hw_leaf_identity, rule desc_types, rule block_fields, rule div_lt, assumption)+

lemma entry_kinds:
  fixes e :: u64
  shows "e AND 3 = 1 \<Longrightarrow> e \<noteq> 0 \<and> e AND 1 \<noteq> 0 \<and> e AND 2 = 0" "e AND 3 = 3 \<Longrightarrow> e \<noteq> 0 \<and> e AND 1 \<noteq> 0 \<and> e AND 2 \<noteq> 0"
  using low_bits [of e] by auto

lemma walk_l3:
  assumes "layout_ok lay" "unat va < 2 ^ 39" "l3_ok lay s (unat va div 2 ^ 21) k"
  shows "hw_l3 (pts_mem s) (l3_table lay k) va = map_option (\<lambda>e. (va, e)) (lookup_l3 lay s k (unat va))"
proof -
  let ?e = "ent lay (pts_mem s) (S3 k (unat va div 2 ^ 12 mod 512))"
  have "?e = 0 \<or> ?e = device_page (512 * (unat va div 2 ^ 21) + unat va div 2 ^ 12 mod 512)"
    using assms(3) by (simp add: l3_ok_def)
  then have "?e = 0 \<or> ?e = device_page (unat va div 2 ^ 12)" unfolding page_split .
  moreover note entry_kinds(2) [OF table_not_block(6) [OF assms(1) div_lt(3) [OF assms(2)]]]
    table_not_block(6) [OF assms(1) div_lt(3) [OF assms(2)]]
  ultimately show ?thesis
    unfolding hw_l3_def lookup_l3_def Let_def walk_slots(4) [OF assms(1,2)] ent_def [symmetric]
    using leaf_identity(4) [OF assms(2)] by auto
qed

lemma walk_l2:
  assumes lay: "layout_ok lay" and ok: "idmap_ok lay s" and va: "unat va < 2 ^ 39"
  shows "hw_l2 (pts_mem s) (l2_table lay (unat va div 2 ^ 30)) va = map_option (\<lambda>e. (va, e)) (lookup_l2 lay s (unat va))"
proof -
  let ?j = "unat va div 2 ^ 21"
  let ?e = "ent lay (pts_mem s) (S2 ?j)"
  note idx = div_lt(2) [OF va]
  note unf = hw_l2_def lookup_l2_def Let_def walk_slots(3) [OF lay va] ent_def [symmetric]
  have "l2_ok lay s ?j" using ok idx by (simp add: idmap_ok_def)
  moreover have "k < 32" if "k < unat (pts_num_l3_page_tables s)" for k
    using ok that by (simp add: idmap_ok_def)
  ultimately consider "?e = 0" | "?e = normal_block 21 ?j" | "?e = device_block ?j"
    | k where "k < 32" "?e = table_desc (l3_table lay k)" "l3_ok lay s ?j k"
    unfolding l2_ok_def by blast
  then show ?thesis
  proof cases
    case 1
    then show ?thesis unfolding unf by simp
  next
    case 2
    show ?thesis
      unfolding unf 2 leaf_identity(2) [OF va] using entry_kinds(1) [OF table_not_block(4) [OF lay idx]] by simp
  next
    case 3
    show ?thesis
      unfolding unf 3 leaf_identity(3) [OF va] using entry_kinds(1) [OF table_not_block(5) [OF lay idx]] by simp
  next
    case 4
    show ?thesis
      unfolding unf 4(2) desc_types(8) [OF table_fields(3) [OF lay 4(1)]] l3_index_table [OF lay 4(1)]
        walk_l3 [OF lay va 4(3)]
      using entry_kinds(2) [OF table_not_block(2) [OF lay 4(1)]] by simp
  qed
qed

lemma walk_lookup:
  assumes lay: "layout_ok lay" and ok: "idmap_ok lay s" and va: "unat va < 2 ^ 39"
  shows "hw_walk (pts_mem s) (lay_l0 lay) va = map_option (\<lambda>e. (va, e)) (lookup lay s (unat va))"
proof -
  let ?i = "unat va div 2 ^ 30"
  let ?E = "ent lay (pts_mem s)"
  note idx = div_lt(1) [OF va]
  have e0: "?E S0 = table_desc (lay_l1 lay)" using ok by (simp add: idmap_ok_def)
  have start: "hw_walk (pts_mem s) (lay_l0 lay) va = hw_l1 (pts_mem s) (lay_l1 lay) va"
    unfolding hw_walk_def Let_def walk_slots(1) [OF lay va] ent_def [symmetric] e0
      desc_types(4,8) [OF table_fields(1) [OF lay]] by simp
  note unf = start hw_l1_def lookup_def Let_def walk_slots(2) [OF lay va] ent_def [symmetric]
  consider "?E (S1 ?i) = 0" | "?E (S1 ?i) = normal_block 30 ?i" | "?E (S1 ?i) = table_desc (l2_table lay ?i)"
    using ok idx by (auto simp: idmap_ok_def l1_ok_def)
  then show ?thesis
  proof cases
    case 1
    then show ?thesis unfolding unf by simp
  next
    case 2
    show ?thesis
      unfolding unf 2 leaf_identity(1) [OF va] using entry_kinds(1) [OF table_not_block(3) [OF lay idx]] by simp
  next
    case 3
    show ?thesis
      unfolding unf 3 desc_types(8) [OF table_fields(2) [OF lay idx]] walk_l2 [OF assms]
      using entry_kinds(2) [OF table_not_block(1) [OF lay idx]] by simp
  qed
qed

end
