(* ===== verification/Idmap.thy ===== *)
theory Idmap
  imports Idmap_Walk
begin

text \<open>
  The mapping code of \<open>src/src/memory/mmu.cpp\<close> against the map it is meant to build: each
  operation on the tables keeps the invariant and changes the map of addresses at the
  addresses it maps and nowhere else.
\<close>

section \<open>Updating one entry\<close>

definition set_ent :: "Layout \<Rightarrow> slot \<Rightarrow> u64 \<Rightarrow> PageTables \<Rightarrow> PageTables" where
  "set_ent lay x v s = s\<lparr>pts_mem := (pts_mem s)(slot_addr lay x := v)\<rparr>"

lemma ent_set:
  assumes "layout_ok lay" "slot_ok x" "slot_ok y"
  shows "ent lay (pts_mem (set_ent lay x v s)) y = (if y = x then v else ent lay (pts_mem s) y)"
  using ent_upd [OF assms] by (simp add: set_ent_def)

lemma num_set [simp]: "pts_num_l3_page_tables (set_ent lay x v s) = pts_num_l3_page_tables s"
  by (simp add: set_ent_def)

lemma idmap_okD:
  assumes "idmap_ok lay s"
  shows "unat (pts_num_l3_page_tables s) \<le> 32" "ent lay (pts_mem s) S0 = table_desc (lay_l1 lay)"
    "i < 512 \<Longrightarrow> l1_ok lay s i" "j < 262144 \<Longrightarrow> l2_ok lay s j" "j < 262144 \<Longrightarrow> l2_reached lay s j"
    "j < 262144 \<Longrightarrow> j' < 262144 \<Longrightarrow> k < 32 \<Longrightarrow> l3_unique lay s j j' k"
    "k < 32 \<Longrightarrow> unat (pts_num_l3_page_tables s) \<le> k \<Longrightarrow> l3_free lay s k"
  using assms by (simp_all add: idmap_ok_def)

lemma idmap_okI:
  assumes "unat (pts_num_l3_page_tables s) \<le> 32" "ent lay (pts_mem s) S0 = table_desc (lay_l1 lay)"
    "\<And>i. i < 512 \<Longrightarrow> l1_ok lay s i" "\<And>j. j < 262144 \<Longrightarrow> l2_ok lay s j"
    "\<And>j. j < 262144 \<Longrightarrow> l2_reached lay s j"
    "\<And>j j' k. j < 262144 \<Longrightarrow> j' < 262144 \<Longrightarrow> k < 32 \<Longrightarrow> l3_unique lay s j j' k"
    "\<And>k. k < 32 \<Longrightarrow> unat (pts_num_l3_page_tables s) \<le> k \<Longrightarrow> l3_free lay s k"
  shows "idmap_ok lay s"
  using assms by (simp add: idmap_ok_def)

lemma l2_ok_keep:
  assumes "l2_ok lay s j" "ent lay (pts_mem s') (S2 j) = ent lay (pts_mem s) (S2 j)"
    and "unat (pts_num_l3_page_tables s) \<le> unat (pts_num_l3_page_tables s')"
    and "\<And>k e. k < unat (pts_num_l3_page_tables s) \<Longrightarrow> e < 512 \<Longrightarrow>
      ent lay (pts_mem s) (S2 j) = table_desc (l3_table lay k) \<Longrightarrow>
      ent lay (pts_mem s') (S3 k e) = ent lay (pts_mem s) (S3 k e)"
  shows "l2_ok lay s' j"
proof (cases "ent lay (pts_mem s) (S2 j) \<in> {0, normal_block 21 j, device_block j}")
  case True
  with assms(2) show ?thesis by (simp add: l2_ok_def)
next
  case False
  then obtain k where k: "k < unat (pts_num_l3_page_tables s)"
      "ent lay (pts_mem s) (S2 j) = table_desc (l3_table lay k)" "l3_ok lay s j k"
    using assms(1) by (auto simp: l2_ok_def)
  then have "l3_ok lay s' j k" using assms(4) by (simp add: l3_ok_def)
  with k assms(2,3) show ?thesis unfolding l2_ok_def by (metis order_less_le_trans)
qed

lemma lookup_keep:
  assumes "a < 2 ^ 39" "idmap_ok lay s" "layout_ok lay"
    and "ent lay (pts_mem s') (S1 (a div 2 ^ 30)) = ent lay (pts_mem s) (S1 (a div 2 ^ 30))"
    and "ent lay (pts_mem s') (S2 (a div 2 ^ 21)) = ent lay (pts_mem s) (S2 (a div 2 ^ 21))"
    and "\<And>k. k < 32 \<Longrightarrow> ent lay (pts_mem s) (S2 (a div 2 ^ 21)) = table_desc (l3_table lay k) \<Longrightarrow>
      ent lay (pts_mem s') (S3 k (a div 2 ^ 12 mod 512)) = ent lay (pts_mem s) (S3 k (a div 2 ^ 12 mod 512))"
  shows "lookup lay s' a = lookup lay s a"
proof -
  let ?j = "a div 2 ^ 21"
  have "l2_ok lay s ?j" using idmap_okD(4) [OF assms(2) div_lt(2) [OF assms(1)]] .
  moreover have "k < 32" if "k < unat (pts_num_l3_page_tables s)" for k
    using that idmap_okD(1) [OF assms(2)] by simp
  ultimately have "ent lay (pts_mem s) (S2 ?j) \<in> {0, normal_block 21 ?j, device_block ?j} \<or>
      (\<exists>k<32. ent lay (pts_mem s) (S2 ?j) = table_desc (l3_table lay k))"
    unfolding l2_ok_def by blast
  then have "lookup_l2 lay s' a = lookup_l2 lay s a"
    using assms(5,6) l3_index_table [OF assms(3)]
      entry_kinds(1) [OF table_not_block(4) [OF assms(3) div_lt(2) [OF assms(1)]]]
      entry_kinds(1) [OF table_not_block(5) [OF assms(3) div_lt(2) [OF assms(1)]]]
    by (auto simp: lookup_l2_def lookup_l3_def Let_def)
  with assms(4) show ?thesis by (simp add: lookup_def Let_def)
qed

lemma num_lt_32: "idmap_ok lay s \<Longrightarrow> k < unat (pts_num_l3_page_tables s) \<Longrightarrow> k < 32"
  using idmap_okD(1) [of lay s] by simp

text \<open>A first descriptor in an unused L1 entry.\<close>

lemma l1_entry_ok:
  assumes lay: "layout_ok lay" and ok: "idmap_ok lay s" and i: "i < 512"
    and unused: "ent lay (pts_mem s) (S1 i) = 0" and v: "v \<in> {table_desc (l2_table lay i), normal_block 30 i}"
  shows "idmap_ok lay (set_ent lay (S1 i) v s)"
proof (rule idmap_okI)
  note E = ent_set [OF lay, of "S1 i"]
  fix j :: nat assume j: "j < 262144"
  show "l2_ok lay (set_ent lay (S1 i) v s) j"
    using i j num_lt_32 [OF ok] by (intro l2_ok_keep [OF idmap_okD(4) [OF ok j]]) (simp_all add: E)
  have "0 \<noteq> table_desc (l2_table lay i)" using entry_kinds(2) [OF table_not_block(1) [OF lay i]] by simp
  then show "l2_reached lay (set_ent lay (S1 i) v s) j"
    using idmap_okD(5) [OF ok j] j i unused by (auto simp: l2_reached_def E)
next
  fix j j' k :: nat assume "j < 262144" "j' < 262144" "k < 32"
  with idmap_okD(6) [OF ok this] i show "l3_unique lay (set_ent lay (S1 i) v s) j j' k"
    by (simp add: l3_unique_def ent_set [OF lay])
qed (use idmap_okD [OF ok] i v in \<open>auto simp: l1_ok_def l3_free_def ent_set [OF lay]\<close>)

lemma l1_unused_l2:
  assumes "layout_ok lay" "idmap_ok lay s" "j < 262144" "ent lay (pts_mem s) (S1 (j div 512)) = 0"
  shows "ent lay (pts_mem s) (S2 j) = 0"
proof -
  have "j div 512 < 512" using assms(3) by (simp add: less_mult_imp_div_less)
  from entry_kinds(2) [OF table_not_block(1) [OF assms(1) this]] assms(4) idmap_okD(5) [OF assms(2,3)]
  show ?thesis by (auto simp: l2_reached_def)
qed

lemma l1_table_lookup:
  assumes lay: "layout_ok lay" and ok: "idmap_ok lay s" and i: "i < 512"
    and unused: "ent lay (pts_mem s) (S1 i) = 0" and a: "a < 2 ^ 39"
  shows "lookup lay (set_ent lay (S1 i) (table_desc (l2_table lay i)) s) a = lookup lay s a"
proof (cases "a div 2 ^ 30 = i")
  case True
  have "a div 2 ^ 21 div 512 = i" using True by (simp flip: div_mult2_eq)
  then have "ent lay (pts_mem s) (S2 (a div 2 ^ 21)) = 0"
    using l1_unused_l2 [OF lay ok div_lt(2) [OF a]] unused by simp
  with True unused div_lt(2) [OF a] i entry_kinds(2) [OF table_not_block(1) [OF lay i]] show ?thesis
    by (simp add: lookup_def lookup_l2_def ent_set [OF lay] Let_def)
next
  case False
  with i div_lt [OF a] show ?thesis
    by (intro lookup_keep [OF a ok lay]) (simp_all add: ent_set [OF lay])
qed

lemma l1_block_lookup:
  assumes lay: "layout_ok lay" and ok: "idmap_ok lay s" and i: "i < 512" and a: "a < 2 ^ 39"
  shows "lookup lay (set_ent lay (S1 i) (normal_block 30 i) s) a =
    (if a div 2 ^ 30 = i then Some (normal_block 30 i) else lookup lay s a)"
proof (cases "a div 2 ^ 30 = i")
  case True
  with i entry_kinds(1) [OF table_not_block(3) [OF lay i]] show ?thesis
    by (simp add: lookup_def ent_set [OF lay])
next
  case False
  with i div_lt [OF a] have "lookup lay (set_ent lay (S1 i) (normal_block 30 i) s) a = lookup lay s a"
    by (intro lookup_keep [OF a ok lay]) (simp_all add: ent_set [OF lay])
  with False show ?thesis by simp
qed

text \<open>A block in an unused L2 entry that its L1 entry leads to.\<close>

lemma l2_block_ok:
  assumes lay: "layout_ok lay" and ok: "idmap_ok lay s" and j: "j < 262144"
    and reach: "ent lay (pts_mem s) (S1 (j div 512)) = table_desc (l2_table lay (j div 512))"
    and v: "v \<in> {normal_block 21 j, device_block j}"
  shows "idmap_ok lay (set_ent lay (S2 j) v s)"
proof (rule idmap_okI)
  have s1: "slot_ok (S1 (x div 512))" if "x < 262144" for x using that by (simp add: less_mult_imp_div_less)
  have nt: "v \<noteq> table_desc (l3_table lay k)" if "k < 32" for k
    using v entry_kinds(1) [OF table_not_block(4) [OF lay j]] entry_kinds(1) [OF table_not_block(5) [OF lay j]]
      entry_kinds(2) [OF table_not_block(2) [OF lay that]] by auto
  fix x :: nat assume x: "x < 262144"
  show "l2_ok lay (set_ent lay (S2 j) v s) x"
  proof (cases "x = j")
    case True
    with v j show ?thesis by (auto simp: l2_ok_def ent_set [OF lay])
  next
    case False
    with j x num_lt_32 [OF ok] show ?thesis
      by (intro l2_ok_keep [OF idmap_okD(4) [OF ok x]]) (simp_all add: ent_set [OF lay])
  qed
  show "l2_reached lay (set_ent lay (S2 j) v s) x"
    using idmap_okD(5) [OF ok x] s1 [OF x] x j reach by (auto simp: l2_reached_def ent_set [OF lay])
  fix j' k :: nat assume j': "j' < 262144" "k < 32"
  with idmap_okD(6) [OF ok x j'] x j nt [OF j'(2)] show "l3_unique lay (set_ent lay (S2 j) v s) x j' k"
    by (auto simp: l3_unique_def ent_set [OF lay])
qed (use idmap_okD [OF ok] j in \<open>auto simp: l1_ok_def l3_free_def ent_set [OF lay]\<close>)

lemma l2_block_lookup:
  assumes lay: "layout_ok lay" and ok: "idmap_ok lay s" and j: "j < 262144" and a: "a < 2 ^ 39"
    and reach: "ent lay (pts_mem s) (S1 (j div 512)) = table_desc (l2_table lay (j div 512))"
    and v: "v \<in> {normal_block 21 j, device_block j}"
  shows "lookup lay (set_ent lay (S2 j) v s) a = (if a div 2 ^ 21 = j then Some v else lookup lay s a)"
proof (cases "a div 2 ^ 21 = j")
  case True
  have i: "a div 2 ^ 30 = j div 512" using True by (simp flip: div_mult2_eq)
  have lt: "j div 512 < 512" using j by (simp add: less_mult_imp_div_less)
  have "v \<noteq> 0 \<and> v AND 2 = 0"
    using v entry_kinds(1) [OF table_not_block(4) [OF lay j]] entry_kinds(1) [OF table_not_block(5) [OF lay j]] by auto
  with entry_kinds(2) [OF table_not_block(1) [OF lay lt]] i reach True lt j show ?thesis
    by (simp add: lookup_def lookup_l2_def Let_def ent_set [OF lay])
next
  case False
  with j div_lt [OF a] have "lookup lay (set_ent lay (S2 j) v s) a = lookup lay s a"
    by (intro lookup_keep [OF a ok lay]) (simp_all add: ent_set [OF lay])
  with False show ?thesis by simp
qed

text \<open>A new L3 table in an unused L2 entry: empty, so that no address changes.\<close>

definition new_l3 :: "Layout \<Rightarrow> nat \<Rightarrow> PageTables \<Rightarrow> PageTables" where
  "new_l3 lay j s = (set_ent lay (S2 j) (table_desc (l3_table lay (unat (pts_num_l3_page_tables s)))) s)
     \<lparr>pts_num_l3_page_tables := pts_num_l3_page_tables s + 1\<rparr>"

lemma new_l3_ent:
  assumes "layout_ok lay" "j < 262144" "slot_ok y"
  shows "ent lay (pts_mem (new_l3 lay j s)) y =
    (if y = S2 j then table_desc (l3_table lay (unat (pts_num_l3_page_tables s))) else ent lay (pts_mem s) y)"
  using ent_set [OF assms(1) _ assms(3), of "S2 j"] assms(2) by (simp add: new_l3_def)

lemma new_l3_ok:
  assumes lay: "layout_ok lay" and ok: "idmap_ok lay s" and j: "j < 262144"
    and reach: "ent lay (pts_mem s) (S1 (j div 512)) = table_desc (l2_table lay (j div 512))"
    and unused: "ent lay (pts_mem s) (S2 j) = 0" and room: "unat (pts_num_l3_page_tables s) < 32"
  shows "idmap_ok lay (new_l3 lay j s)"
    and "unat (pts_num_l3_page_tables (new_l3 lay j s)) = unat (pts_num_l3_page_tables s) + 1"
proof -
  let ?n = "unat (pts_num_l3_page_tables s)" and ?s' = "new_l3 lay j s"
  note E = new_l3_ent [OF lay j]
  show num: "unat (pts_num_l3_page_tables ?s') = ?n + 1"
    using room by (simp add: new_l3_def unat_word_ariths)
  have fresh: "ent lay (pts_mem s) (S2 x) \<noteq> table_desc (l3_table lay ?n)" if x: "x < 262144" for x
  proof
    assume eq: "ent lay (pts_mem s) (S2 x) = table_desc (l3_table lay ?n)"
    then have "\<exists>k<?n. table_desc (l3_table lay ?n) = table_desc (l3_table lay k)"
      using idmap_okD(4) [OF ok x] entry_kinds(2) [OF table_not_block(2) [OF lay room]]
        entry_kinds(1) [OF table_not_block(4) [OF lay x]] entry_kinds(1) [OF table_not_block(5) [OF lay x]]
      by (auto simp: l2_ok_def)
    then obtain k where "k < ?n" "table_desc (l3_table lay ?n) = table_desc (l3_table lay k)" by blast
    with table_desc_inj [OF lay room, of k] room show False by simp
  qed
  have s1: "slot_ok (S1 (x div 512))" if "x < 262144" for x using that by (simp add: less_mult_imp_div_less)
  show "idmap_ok lay ?s'"
  proof (rule idmap_okI)
    fix x :: nat assume x: "x < 262144"
    show "l2_ok lay ?s' x"
    proof (cases "x = j")
      case True
      have "l3_ok lay ?s' j ?n"
        using idmap_okD(7) [OF ok room] room by (simp add: l3_ok_def l3_free_def E)
      with True j num show ?thesis by (auto simp: l2_ok_def E)
    next
      case False
      with x num num_lt_32 [OF ok] show ?thesis
        by (intro l2_ok_keep [OF idmap_okD(4) [OF ok x]]) (simp_all add: E)
    qed
    show "l2_reached lay ?s' x"
      using idmap_okD(5) [OF ok x] s1 [OF x] x reach by (auto simp: l2_reached_def E)
    fix j' k :: nat assume j': "j' < 262144" "k < 32"
    have "k = ?n" if "table_desc (l3_table lay ?n) = table_desc (l3_table lay k)"
      using table_desc_inj [OF lay room j'(2) that] by simp
    with idmap_okD(6) [OF ok x j'] x j' fresh show "l3_unique lay ?s' x j' k"
      by (auto simp: l3_unique_def E)
  qed (use idmap_okD [OF ok] room num in \<open>auto simp: l1_ok_def l3_free_def E\<close>)
qed

lemma new_l3_lookup:
  assumes lay: "layout_ok lay" and ok: "idmap_ok lay s" and j: "j < 262144" and a: "a < 2 ^ 39"
    and unused: "ent lay (pts_mem s) (S2 j) = 0" and room: "unat (pts_num_l3_page_tables s) < 32"
  shows "lookup lay (new_l3 lay j s) a = lookup lay s a"
proof (cases "a div 2 ^ 21 = j")
  case True
  have "ent lay (pts_mem s) (S3 (unat (pts_num_l3_page_tables s)) (a div 2 ^ 12 mod 512)) = 0"
    using idmap_okD(7) [OF ok room] by (simp add: l3_free_def)
  then have "lookup_l2 lay (new_l3 lay j s) a = lookup_l2 lay s a"
    using True unused room j l3_index_table [OF lay room]
      entry_kinds(2) [OF table_not_block(2) [OF lay room]]
    by (simp add: lookup_l2_def lookup_l3_def Let_def new_l3_ent [OF lay j])
  then show ?thesis using div_lt(1) [OF a] by (simp add: lookup_def Let_def new_l3_ent [OF lay j])
next
  case False
  with div_lt [OF a] show ?thesis
    by (intro lookup_keep [OF a ok lay]) (simp_all add: new_l3_ent [OF lay j])
qed

text \<open>The L3 table an L2 entry leads to is allocated and holds pages of that entry.\<close>

lemma l3_owned:
  assumes lay: "layout_ok lay" and ok: "idmap_ok lay s" and j: "j < 262144" and k: "k < 32"
    and tab: "ent lay (pts_mem s) (S2 j) = table_desc (l3_table lay k)"
  shows "k < unat (pts_num_l3_page_tables s)" "l3_ok lay s j k"
  using idmap_okD(4) [OF ok j] tab table_desc_inj [OF lay k] num_lt_32 [OF ok]
    entry_kinds(2) [OF table_not_block(2) [OF lay k]]
    entry_kinds(1) [OF table_not_block(4) [OF lay j]] entry_kinds(1) [OF table_not_block(5) [OF lay j]]
  by (auto simp: l2_ok_def)

text \<open>A page in the L3 table that the page's L2 entry leads to.\<close>

lemma l3_page_ok:
  assumes lay: "layout_ok lay" and ok: "idmap_ok lay s" and j: "j < 262144" and e: "e < 512" and k: "k < 32"
    and tab: "ent lay (pts_mem s) (S2 j) = table_desc (l3_table lay k)"
  shows "idmap_ok lay (set_ent lay (S3 k e) (device_page (512 * j + e)) s)" (is "idmap_ok lay ?s'")
proof (rule idmap_okI)
  note own = l3_owned [OF lay ok j k tab]
  have s1: "slot_ok (S1 (x div 512))" if "x < 262144" for x using that by (simp add: less_mult_imp_div_less)
  fix x :: nat assume x: "x < 262144"
  show "l2_ok lay ?s' x"
  proof (cases "x = j")
    case True
    have "l3_ok lay ?s' j k" using own e k by (auto simp: l3_ok_def ent_set [OF lay])
    with True own tab e k j show ?thesis by (auto simp: l2_ok_def ent_set [OF lay])
  next
    case False
    have "k' \<noteq> k" if "ent lay (pts_mem s) (S2 x) = table_desc (l3_table lay k')" for k'
      using idmap_okD(6) [OF ok x j k] that tab False by (auto simp: l3_unique_def)
    with x e k num_lt_32 [OF ok] show ?thesis
      by (intro l2_ok_keep [OF idmap_okD(4) [OF ok x]]) (simp_all add: ent_set [OF lay])
  qed
  show "l2_reached lay ?s' x"
    using idmap_okD(5) [OF ok x] s1 [OF x] x e k by (simp add: l2_reached_def ent_set [OF lay])
  fix j' k' :: nat assume j': "j' < 262144" "k' < 32"
  with idmap_okD(6) [OF ok x j'] x e k show "l3_unique lay ?s' x j' k'"
    by (simp add: l3_unique_def ent_set [OF lay])
next
  fix k' assume "k' < 32" "unat (pts_num_l3_page_tables ?s') \<le> k'"
  with l3_owned(1) [OF lay ok j k tab] idmap_okD(7) [OF ok] k e show "l3_free lay ?s' k'"
    by (auto simp: l3_free_def ent_set [OF lay])
qed (use idmap_okD [OF ok] k e in \<open>auto simp: l1_ok_def ent_set [OF lay]\<close>)

lemma l3_page_lookup:
  assumes lay: "layout_ok lay" and ok: "idmap_ok lay s" and j: "j < 262144" and e: "e < 512" and k: "k < 32"
    and reach: "ent lay (pts_mem s) (S1 (j div 512)) = table_desc (l2_table lay (j div 512))"
    and tab: "ent lay (pts_mem s) (S2 j) = table_desc (l3_table lay k)" and a: "a < 2 ^ 39"
  shows "lookup lay (set_ent lay (S3 k e) (device_page (512 * j + e)) s) a =
    (if a div 2 ^ 12 = 512 * j + e then Some (device_page (512 * j + e)) else lookup lay s a)"
proof (cases "a div 2 ^ 12 = 512 * j + e")
  case True
  have "a div 2 ^ 21 = a div 2 ^ 12 div 512" by (simp flip: div_mult2_eq)
  then have j': "a div 2 ^ 21 = j" and e': "a div 2 ^ 12 mod 512 = e" using True e by simp_all
  have i: "a div 2 ^ 30 = j div 512" using j' by (simp flip: div_mult2_eq)
  have lt: "j div 512 < 512" using j by (simp add: less_mult_imp_div_less)
  have p: "512 * j + e < 134217728" using j e by simp
  have "lookup lay (set_ent lay (S3 k e) (device_page (512 * j + e)) s) a = Some (device_page (512 * j + e))"
    unfolding lookup_def lookup_l2_def lookup_l3_def Let_def i j' e'
    using lt j e k reach tab l3_index_table [OF lay k] entry_kinds(2) [OF table_not_block(6) [OF lay p]]
      entry_kinds(2) [OF table_not_block(2) [OF lay k]] entry_kinds(2) [OF table_not_block(1) [OF lay lt]]
    by (simp add: ent_set [OF lay])
  with True show ?thesis by simp
next
  case False
  have other: "\<not> (k' = k \<and> a div 2 ^ 12 mod 512 = e)" if "k' < 32"
    "ent lay (pts_mem s) (S2 (a div 2 ^ 21)) = table_desc (l3_table lay k')" for k'
  proof
    assume "k' = k \<and> a div 2 ^ 12 mod 512 = e"
    then have "a div 2 ^ 21 = j" "a div 2 ^ 12 mod 512 = e"
      using idmap_okD(6) [OF ok div_lt(2) [OF a] j k] that tab by (auto simp: l3_unique_def)
    with page_split [of a] False show False by simp
  qed
  have "lookup lay (set_ent lay (S3 k e) (device_page (512 * j + e)) s) a = lookup lay s a"
    using other e k div_lt [OF a] by (intro lookup_keep [OF a ok lay]) (auto simp: ent_set [OF lay])
  with False show ?thesis by simp
qed

section \<open>The operations on the tables\<close>

lemma u64_div_of_nat:
  "n < 2 ^ 64 \<Longrightarrow> d < 2 ^ 64 \<Longrightarrow> (of_nat n :: u64) div of_nat d = of_nat (n div d)"
  "n < 2 ^ 64 \<Longrightarrow> d < 2 ^ 64 \<Longrightarrow> (of_nat n :: u64) mod of_nat d = of_nat (n mod d)"
proof -
  assume n: "n < 2 ^ 64" and d: "d < 2 ^ 64"
  have "n div d < 2 ^ 64" "n mod d < 2 ^ 64"
    using n div_le_dividend [of n d] mod_less_eq_dividend [of n d] by linarith+
  with n d show "(of_nat n :: u64) div of_nat d = of_nat (n div d)" "(of_nat n :: u64) mod of_nat d = of_nat (n mod d)"
    by (simp_all add: word_unat_eq_iff unat_div unat_mod unat_of_nat)
qed

lemma entry_sizes: "L1_ENTRY_SIZE = of_nat (2 ^ 30)" "L2_ENTRY_SIZE = of_nat (2 ^ 21)" "L3_ENTRY_SIZE = of_nat (2 ^ 12)"
  by (simp_all add: L1_ENTRY_SIZE_def L2_ENTRY_SIZE_def L3_ENTRY_SIZE_def)

text \<open>\<open>|=\<close> on one entry, several times.\<close>

lemma pte_or_ent:
  assumes "layout_ok lay" "slot_ok x"
  shows "pte_or lay (slot_table lay x) (of_nat (slot_idx x)) bits (pts_mem s) =
    Inr (pts_mem (set_ent lay x (ent lay (pts_mem s) x OR bits) s))"
  using pte_or_slot [OF assms] by (simp add: set_ent_def)

lemma set_ent_twice: "set_ent lay x v (set_ent lay x w s) = set_ent lay x v s"
  by (simp add: set_ent_def)

lemma set_ent_mem: "s\<lparr>pts_mem := pts_mem (set_ent lay x v s)\<rparr> = set_ent lay x v s"
  by (simp add: set_ent_def)

lemma set_ent_same: "ent lay (pts_mem s) x = v \<Longrightarrow> set_ent lay x v s = s"
  by (simp add: set_ent_def ent_def fun_upd_idem)

lemma ensure_l2_spec:
  assumes lay: "layout_ok lay" and i: "i < 512"
    and e: "ent lay (pts_mem s) (S1 i) \<in> {0, table_desc (l2_table lay i)}"
  shows "ensure_l2_page_table lay (of_nat i) s = Inr (set_ent lay (S1 i) (table_desc (l2_table lay i)) s)"
proof -
  let ?x = "S1 i"
  have ok: "slot_ok ?x" using i by simp
  have entry: "table_entry lay (lay_l1 lay) (of_nat i) = Inr (slot_addr lay ?x)"
    using table_entry_slot [OF lay ok] by simp
  note or = pte_or_ent [OF lay ok, simplified]
  have nxt: "lay_l2 lay + 4096 * of_nat i = l2_table lay i" by (simp add: l2_table_def)
  show ?thesis
  proof (cases "ent lay (pts_mem s) ?x = 0")
    case False
    with e have t: "ent lay (pts_mem s) ?x = table_desc (l2_table lay i)" by simp
    then have "pte_is_valid (pts_mem s (slot_addr lay ?x))"
      using entry_kinds(2) [OF table_not_block(1) [OF lay i]] by (simp add: pte_is_valid_def ent_def)
    with entry t show ?thesis by (simp add: ensure_l2_page_table_def set_ent_same)
  next
    case True
    have "(3 :: u64) OR l2_table lay i = table_desc (l2_table lay i)" by (simp add: table_desc_def or.commute)
    moreover have "\<not> pte_is_valid (pts_mem s (slot_addr lay ?x))"
      using True by (simp add: pte_is_valid_def ent_def)
    ultimately show ?thesis
      using True entry field_next_level [OF table_fields(2) [OF lay i]]
      by (simp add: ensure_l2_page_table_def pte_mark_as_table_descriptor_def pte_point_to_next_level_def
          or nxt PTE_TABLE_TYPE_def ent_set [OF lay ok ok] set_ent_twice set_ent_mem)
  qed
qed

lemma block_phys:
  assumes "j < 262144"
  shows "(of_nat (j * 2 ^ 21) :: u64) mod L2_ENTRY_SIZE = 0" "(of_nat (j * 2 ^ 21) :: u64) div L2_ENTRY_SIZE = of_nat j"
    "(of_nat (j * 2 ^ 21) :: u64) div L1_ENTRY_SIZE = of_nat (j div 512)"
proof -
  have b: "j * 2 ^ 21 < (2 ^ 64 :: nat)" using assms by simp
  have "j * 2 ^ 21 div 2 ^ 30 = j * 2 ^ 21 div 2 ^ 21 div (512 :: nat)" by (subst div_mult2_eq [symmetric]) simp
  then have d: "j * 2 ^ 21 div 2 ^ 30 = j div (512 :: nat)" by simp
  show "(of_nat (j * 2 ^ 21) :: u64) mod L2_ENTRY_SIZE = 0" "(of_nat (j * 2 ^ 21) :: u64) div L2_ENTRY_SIZE = of_nat j"
    "(of_nat (j * 2 ^ 21) :: u64) div L1_ENTRY_SIZE = of_nat (j div 512)"
    unfolding entry_sizes u64_div_of_nat [OF b, of "2 ^ 21", simplified] using b
    by (subst u64_div_of_nat; simp add: d)+
qed

lemma map_device_l2_block_spec:
  assumes lay: "layout_ok lay" and j: "j < 262144"
    and e1: "ent lay (pts_mem s) (S1 (j div 512)) \<in> {0, table_desc (l2_table lay (j div 512))}"
    and e2: "ent lay (pts_mem s) (S2 j) = 0"
  shows "map_device_l2_block lay (of_nat (j * 2 ^ 21)) s =
    Inr (set_ent lay (S2 j) (device_block j)
      (set_ent lay (S1 (j div 512)) (table_desc (l2_table lay (j div 512))) s))"
proof -
  let ?x = "S2 j"
  define phys :: u64 where "phys = of_nat (j * 2 ^ 21)"
  note ph = block_phys [OF j, folded phys_def]
  have fld: "phys AND 0xFFF = 0" using field_low [OF block_fields(2) [OF j]] by (simp add: phys_def)
  have i: "j div 512 < 512" using j by (simp add: less_mult_imp_div_less)
  define s1 where "s1 = set_ent lay (S1 (j div 512)) (table_desc (l2_table lay (j div 512))) s"
  have ens: "ensure_l2_page_table lay (of_nat (j div 512)) s = Inr s1"
    unfolding s1_def by (rule ensure_l2_spec [OF lay i e1])
  have ok: "slot_ok ?x" using j by simp
  have "ent lay (pts_mem s1) ?x = 0" using e2 i j by (simp add: s1_def ent_set [OF lay])
  moreover have "device_block j = block_device_bits OR phys" by (simp add: device_block_def phys_def)
  ultimately show ?thesis
    unfolding phys_def [symmetric] s1_def [symmetric]
    using ens fld ph
    by (simp add: map_device_l2_block_def Let_def pte_mark_as_block_descriptor_device_def
        pte_point_to_offset_def pte_set_mair_attr_def MAIR_INDEX_DEVICE_def
        pte_or_ent [OF lay ok, simplified] ent_set [OF lay ok ok] set_ent_twice set_ent_mem)
qed

lemma page_phys:
  assumes "p < 134217728"
  shows "(of_nat (p * 2 ^ 12) :: u64) mod L3_ENTRY_SIZE = 0" "(of_nat (p * 2 ^ 12) :: u64) div L2_ENTRY_SIZE = of_nat (p div 512)"
    "((of_nat (p * 2 ^ 12) :: u64) mod L2_ENTRY_SIZE) div L3_ENTRY_SIZE = of_nat (p mod 512)"
    "(of_nat (p * 2 ^ 12) :: u64) div L1_ENTRY_SIZE = of_nat (p div 512 div 512)"
proof -
  have b: "p * 2 ^ 12 < (2 ^ 64 :: nat)" using assms by simp
  have "p * 2 ^ 12 div 2 ^ 21 = p * 2 ^ 12 div 2 ^ 12 div (512 :: nat)" by (subst div_mult2_eq [symmetric]) simp
  then have d2: "p * 2 ^ 12 div 2 ^ 21 = p div (512 :: nat)" by simp
  have "p * 2 ^ 12 div 2 ^ 30 = p * 2 ^ 12 div 2 ^ 21 div (512 :: nat)" by (subst div_mult2_eq [symmetric]) simp
  then have d1: "p * 2 ^ 12 div 2 ^ 30 = p div 512 div (512 :: nat)" using d2 by simp
  have "p * 2 ^ 12 mod (512 * 2 ^ 12) = p mod 512 * (2 ^ 12 :: nat)" by (rule mult_mod_left [symmetric])
  then have m2: "p * 2 ^ 12 mod 2 ^ 21 = p mod 512 * (2 ^ 12 :: nat)" by simp
  have b2: "p mod 512 * 2 ^ 12 < (2 ^ 64 :: nat)" using b by (simp add: less_le_trans)
  show "(of_nat (p * 2 ^ 12) :: u64) mod L3_ENTRY_SIZE = 0"
    unfolding entry_sizes by (subst u64_div_of_nat(2) [OF b]) simp_all
  show "(of_nat (p * 2 ^ 12) :: u64) div L2_ENTRY_SIZE = of_nat (p div 512)"
    unfolding entry_sizes by (subst u64_div_of_nat(1) [OF b]) (simp, simp only: d2)
  show "(of_nat (p * 2 ^ 12) :: u64) div L1_ENTRY_SIZE = of_nat (p div 512 div 512)"
    unfolding entry_sizes by (subst u64_div_of_nat(1) [OF b]) (simp, simp only: d1)
  have "(of_nat (p * 2 ^ 12) :: u64) mod L2_ENTRY_SIZE = of_nat (p mod 512 * 2 ^ 12)"
    unfolding entry_sizes by (subst u64_div_of_nat(2) [OF b]) (simp, simp only: m2)
  then show "((of_nat (p * 2 ^ 12) :: u64) mod L2_ENTRY_SIZE) div L3_ENTRY_SIZE = of_nat (p mod 512)"
    unfolding entry_sizes by (simp only:, subst u64_div_of_nat(1) [OF b2]) simp_all
qed

text \<open>The table a page goes to: the one its L2 entry leads to, or a new one.\<close>

definition with_l3 :: "Layout \<Rightarrow> nat \<Rightarrow> PageTables \<Rightarrow> nat \<times> PageTables" where
  "with_l3 lay j s =
     (if ent lay (pts_mem s) (S2 j) = 0 then (unat (pts_num_l3_page_tables s), new_l3 lay j s)
      else (l3_index lay (ent lay (pts_mem s) (S2 j)), s))"

lemma ensure_l3_spec:
  assumes lay: "layout_ok lay" and j: "j < 262144"
    and e1: "ent lay (pts_mem s) (S1 (j div 512)) \<in> {0, table_desc (l2_table lay (j div 512))}"
    and s1: "s1 = set_ent lay (S1 (j div 512)) (table_desc (l2_table lay (j div 512))) s"
    and e2: "ent lay (pts_mem s) (S2 j) = 0 \<and> unat (pts_num_l3_page_tables s) < 32 \<or>
      k < 32 \<and> ent lay (pts_mem s) (S2 j) = table_desc (l3_table lay k)"
  shows "ensure_l3_page_table lay (of_nat (j div 512)) (of_nat j) s =
    Inr (l3_table lay (fst (with_l3 lay j s1)), snd (with_l3 lay j s1))"
proof -
  have i: "j div 512 < 512" using j by (simp add: less_mult_imp_div_less)
  have ens: "ensure_l2_page_table lay (of_nat (j div 512)) s = Inr s1"
    unfolding s1 by (rule ensure_l2_spec [OF lay i e1])
  have same: "ent lay (pts_mem s1) (S2 j) = ent lay (pts_mem s) (S2 j)"
    "pts_num_l3_page_tables s1 = pts_num_l3_page_tables s"
    using i j by (simp_all add: s1 ent_set [OF lay])
  have entry: "table_entry lay (lay_l2 lay) (of_nat j) = Inr (slot_addr lay (S2 j))"
    using table_entry_slot [OF lay, of "S2 j"] j by simp
  show ?thesis
  proof (cases "ent lay (pts_mem s) (S2 j) = 0")
    case True
    then have room: "pts_num_l3_page_tables s < 32" and nv: "\<not> pte_is_valid (pts_mem s1 (slot_addr lay (S2 j)))"
      using e2 same entry_kinds(2) [OF table_not_block(2) [OF lay, of k]]
      by (auto simp: word_less_nat_alt pte_is_valid_def ent_def)
    have "lay_l3 lay + ucast (pts_num_l3_page_tables s) * 4096 =
        l3_table lay (unat (pts_num_l3_page_tables s))"
      by (simp add: l3_table_def mult.commute)
    with True room nv same ens entry show ?thesis
      by (simp add: ensure_l3_page_table_def allocate_l3_page_table_def MaxNumL3PageTables_def with_l3_def
          new_l3_def set_ent_def table_desc_def PTE_TABLE_TYPE_def)
  next
    case False
    then have k: "k < 32" "ent lay (pts_mem s) (S2 j) = table_desc (l3_table lay k)" using e2 by auto
    then have "pte_is_valid (pts_mem s1 (slot_addr lay (S2 j)))"
      using same(1) entry_kinds(2) [OF table_not_block(2) [OF lay k(1)]] by (simp add: pte_is_valid_def ent_def)
    with False k same(1) ens entry show ?thesis
      by (simp add: ensure_l3_page_table_def with_l3_def l3_index_table [OF lay]
          desc_types(8) [OF table_fields(3) [OF lay k(1)]] flip: ent_def)
  qed
qed

lemma map_device_l3_page_spec:
  assumes lay: "layout_ok lay" and p: "p < 134217728"
    and e1: "ent lay (pts_mem s) (S1 (p div 512 div 512)) \<in> {0, table_desc (l2_table lay (p div 512 div 512))}"
    and s1: "s1 = set_ent lay (S1 (p div 512 div 512)) (table_desc (l2_table lay (p div 512 div 512))) s"
    and e2: "ent lay (pts_mem s) (S2 (p div 512)) = 0 \<and> unat (pts_num_l3_page_tables s) < 32 \<or>
      k < 32 \<and> ent lay (pts_mem s) (S2 (p div 512)) = table_desc (l3_table lay k)"
    and w: "with_l3 lay (p div 512) s1 = (k', s2)" and k': "k' < 32"
    and e3: "ent lay (pts_mem s2) (S3 k' (p mod 512)) = 0"
  shows "map_device_l3_page lay (of_nat (p * 2 ^ 12)) s = Inr (set_ent lay (S3 k' (p mod 512)) (device_page p) s2)"
proof -
  let ?x = "S3 k' (p mod 512)"
  define phys :: u64 where "phys = of_nat (p * 2 ^ 12)"
  note ph = page_phys [OF p, folded phys_def]
  have j: "p div 512 < 262144" using p by (simp add: less_mult_imp_div_less)
  have fld: "phys AND 0xFFF = 0" using field_low [OF block_fields(3) [OF p]] by (simp add: phys_def)
  have ok: "slot_ok ?x" using k' by simp
  have ens: "ensure_l3_page_table lay (of_nat (p div 512 div 512)) (of_nat (p div 512)) s = Inr (l3_table lay k', s2)"
    using ensure_l3_spec [OF lay j e1 s1 e2] w by simp
  have "device_page p = page_device_bits OR phys" by (simp add: device_page_def phys_def)
  moreover have "pte_or lay (l3_table lay k') (of_nat (p mod 512)) bits (pts_mem t) =
    Inr (pts_mem (set_ent lay ?x (ent lay (pts_mem t) ?x OR bits) t))" for bits t
    using pte_or_ent [OF lay ok] by (simp add: l3_table_def)
  ultimately show ?thesis
    unfolding phys_def [symmetric]
    using ens fld ph e3
    by (simp add: map_device_l3_page_def Let_def pte_mark_as_page_descriptor_device_def
        pte_point_to_offset_def pte_set_mair_attr_def MAIR_INDEX_DEVICE_def
        ent_set [OF lay ok ok] set_ent_twice set_ent_mem)
qed

section \<open>One device block or page more\<close>

text \<open>No L3 table is left without a page.\<close>

definition tight :: "Layout \<Rightarrow> PageTables \<Rightarrow> bool" where
  "tight lay s \<longleftrightarrow> (\<forall>j<262144. \<forall>k<32. ent lay (pts_mem s) (S2 j) = table_desc (l3_table lay k) \<longrightarrow>
     (\<exists>e<512. ent lay (pts_mem s) (S3 k e) \<noteq> 0))"

lemma l1_cases:
  assumes "layout_ok lay" "idmap_ok lay s" "i < 512" "a div 2 ^ 30 = i" "lookup lay s a = None"
  shows "ent lay (pts_mem s) (S1 i) \<in> {0, table_desc (l2_table lay i)}"
  using idmap_okD(3) [OF assms(2,3)] assms(4,5) entry_kinds(1) [OF table_not_block(3) [OF assms(1,3)]]
  by (auto simp: l1_ok_def lookup_def Let_def)

lemma l2_cases:
  assumes lay: "layout_ok lay" and ok: "idmap_ok lay s" and a: "a < 2 ^ 39" and none: "lookup lay s a = None"
  obtains "ent lay (pts_mem s) (S2 (a div 2 ^ 21)) = 0"
  | k where "k < 32" "ent lay (pts_mem s) (S2 (a div 2 ^ 21)) = table_desc (l3_table lay k)"
      "ent lay (pts_mem s) (S3 k (a div 2 ^ 12 mod 512)) = 0"
proof -
  let ?j = "a div 2 ^ 21"
  note j = div_lt(2) [OF a]
  have i: "?j div 512 = a div 2 ^ 30" by (simp flip: div_mult2_eq)
  have lt: "?j div 512 < 512" using div_lt(1) [OF a] i by simp
  show thesis
  proof (cases "ent lay (pts_mem s) (S1 (?j div 512)) = 0")
    case True
    then show thesis using l1_unused_l2 [OF lay ok j] that(1) by blast
  next
    case False
    then have t: "ent lay (pts_mem s) (S1 (a div 2 ^ 30)) = table_desc (l2_table lay (a div 2 ^ 30))"
      using l1_cases [OF lay ok div_lt(1) [OF a] refl none] i by auto
    then have l2: "lookup_l2 lay s a = None"
      using none entry_kinds(2) [OF table_not_block(1) [OF lay div_lt(1) [OF a]]] by (simp add: lookup_def Let_def)
    consider "ent lay (pts_mem s) (S2 ?j) \<in> {normal_block 21 ?j, device_block ?j}"
      | "ent lay (pts_mem s) (S2 ?j) = 0"
      | k where "k < 32" "ent lay (pts_mem s) (S2 ?j) = table_desc (l3_table lay k)"
      using idmap_okD(4) [OF ok j] num_lt_32 [OF ok] unfolding l2_ok_def by blast
    then show thesis
    proof cases
      case 1
      then show thesis
        using l2 entry_kinds(1) [OF table_not_block(4) [OF lay j]] entry_kinds(1) [OF table_not_block(5) [OF lay j]]
        by (auto simp: lookup_l2_def Let_def)
    next
      case 2
      then show thesis by (rule that(1))
    next
      case 3
      then have "ent lay (pts_mem s) (S3 k (a div 2 ^ 12 mod 512)) = 0"
        using l2 l3_index_table [OF lay 3(1)] entry_kinds(2) [OF table_not_block(2) [OF lay 3(1)]]
        by (auto simp: lookup_l2_def lookup_l3_def Let_def split: if_splits)
      with 3 show thesis by (rule that(2))
    qed
  qed
qed

text \<open>After \<open>ensure_l2_page_table\<close>: the same map, with the L2 part in place.\<close>

lemma linked_l2:
  assumes lay: "layout_ok lay" and ok: "idmap_ok lay s" and i: "i < 512"
    and e: "ent lay (pts_mem s) (S1 i) \<in> {0, table_desc (l2_table lay i)}"
    and s1: "s1 = set_ent lay (S1 i) (table_desc (l2_table lay i)) s"
  shows "idmap_ok lay s1" "a < 2 ^ 39 \<Longrightarrow> lookup lay s1 a = lookup lay s a"
    "ent lay (pts_mem s1) (S1 i) = table_desc (l2_table lay i)"
    "slot_ok y \<Longrightarrow> y \<noteq> S1 i \<Longrightarrow> ent lay (pts_mem s1) y = ent lay (pts_mem s) y"
proof -
  show "idmap_ok lay s1" "a < 2 ^ 39 \<Longrightarrow> lookup lay s1 a = lookup lay s a"
    using e l1_entry_ok [OF lay ok i] l1_table_lookup [OF lay ok i] ok set_ent_same [of lay s "S1 i"]
    by (auto simp: s1)
qed (use i in \<open>simp_all add: s1 ent_set [OF lay]\<close>)

lemma tight_keep:
  assumes "tight lay s"
    and "\<And>j k. j < 262144 \<Longrightarrow> k < 32 \<Longrightarrow> ent lay (pts_mem s') (S2 j) = table_desc (l3_table lay k) \<Longrightarrow>
      ent lay (pts_mem s) (S2 j) = table_desc (l3_table lay k)"
    and "\<And>k e. k < 32 \<Longrightarrow> e < 512 \<Longrightarrow> ent lay (pts_mem s') (S3 k e) = ent lay (pts_mem s) (S3 k e)"
  shows "tight lay s'"
  using assms unfolding tight_def by metis

lemma device_block_step:
  assumes lay: "layout_ok lay" and ok: "idmap_ok lay s" and tight: "tight lay s" and j: "j < 262144"
    and none: "\<And>a. a div 2 ^ 21 = j \<Longrightarrow> lookup lay s a = None"
  obtains s' where "map_device_l2_block lay (of_nat (j * 2 ^ 21)) s = Inr s'" "idmap_ok lay s'" "tight lay s'"
    "pts_num_l3_page_tables s' = pts_num_l3_page_tables s"
    "\<And>a. a < 2 ^ 39 \<Longrightarrow> lookup lay s' a = (if a div 2 ^ 21 = j then Some (device_block j) else lookup lay s a)"
    "\<And>x. x < 262144 \<Longrightarrow> ent lay (pts_mem s') (S2 x) = 0 \<Longrightarrow> ent lay (pts_mem s) (S2 x) = 0"
proof -
  let ?i = "j div 512"
  have i: "?i < 512" using j by (simp add: less_mult_imp_div_less)
  have a0: "j * 2 ^ 21 < (2 ^ 39 :: nat)" "j * 2 ^ 21 div 2 ^ 21 = j" using j by simp_all
  have "j * 2 ^ 21 div 2 ^ 30 = j * 2 ^ 21 div 2 ^ 21 div 512" by (subst div_mult2_eq [symmetric]) simp
  then have a1: "j * 2 ^ 21 div 2 ^ 30 = ?i" by simp
  have e1: "ent lay (pts_mem s) (S1 ?i) \<in> {0, table_desc (l2_table lay ?i)}"
    by (rule l1_cases [OF lay ok i a1 none [OF a0(2)]])
  have e2: "ent lay (pts_mem s) (S2 j) = 0"
  proof (cases rule: l2_cases [OF lay ok a0(1) none [OF a0(2)]])
    case 1
    then show ?thesis using a0(2) by simp
  next
    case (2 k)
    then obtain e where e: "e < 512" "ent lay (pts_mem s) (S3 k e) \<noteq> 0"
      using tight j a0(2) by (auto simp: tight_def)
    let ?a = "j * 2 ^ 21 + e * 2 ^ 12"
    have d: "?a div 2 ^ 21 = j" "?a < 2 ^ 39" "?a div 2 ^ 12 mod 512 = e"
      using e(1) j by simp_all
    have "ent lay (pts_mem s) (S3 k e) = 0"
    proof (cases rule: l2_cases [OF lay ok d(2) none [OF d(1)]])
      case 1
      with 2 d(1) a0(2) entry_kinds(2) [OF table_not_block(2) [OF lay 2(1)]] show ?thesis by simp
    next
      case (2 k2)
      with \<open>ent lay (pts_mem s) (S2 (j * 2 ^ 21 div 2 ^ 21)) = table_desc (l3_table lay k)\<close> d a0(2)
        table_desc_inj [OF lay \<open>k < 32\<close> 2(1)] show ?thesis by simp
    qed
    with e(2) show ?thesis by simp
  qed
  define s1 where "s1 = set_ent lay (S1 ?i) (table_desc (l2_table lay ?i)) s"
  note l = linked_l2 [OF lay ok i e1 s1_def]
  let ?s' = "set_ent lay (S2 j) (device_block j) s1"
  have E: "ent lay (pts_mem ?s') y = (if y = S2 j then device_block j else ent lay (pts_mem s1) y)" if "slot_ok y" for y
    using ent_set [OF lay _ that, of "S2 j"] j by simp
  have nb: "device_block j \<noteq> table_desc (l3_table lay k)" "device_block j \<noteq> 0" if "k < 32" for k
    using entry_kinds(1) [OF table_not_block(5) [OF lay j]] entry_kinds(2) [OF table_not_block(2) [OF lay that]] by auto
  show thesis
  proof (rule that)
    show "map_device_l2_block lay (of_nat (j * 2 ^ 21)) s = Inr ?s'"
      unfolding s1_def by (rule map_device_l2_block_spec [OF lay j e1 e2])
    show "idmap_ok lay ?s'" by (rule l2_block_ok [OF lay l(1) j l(3)]) simp
    show "tight lay ?s'"
      using nb l(4) by (intro tight_keep [OF tight]) (auto simp: E split: if_splits)
    show "lookup lay ?s' a = (if a div 2 ^ 21 = j then Some (device_block j) else lookup lay s a)" if "a < 2 ^ 39" for a
      using l2_block_lookup [OF lay l(1) j that l(3)] l(2) [OF that] by simp
    show "ent lay (pts_mem s) (S2 x) = 0" if "x < 262144" "ent lay (pts_mem ?s') (S2 x) = 0" for x
      using that E [of "S2 x"] l(4) nb(2) [of 0] by (auto split: if_splits)
  qed (simp add: s1_def)
qed

lemma linked_l3:
  assumes lay: "layout_ok lay" and ok: "idmap_ok lay s" and j: "j < 262144"
    and reach: "ent lay (pts_mem s) (S1 (j div 512)) = table_desc (l2_table lay (j div 512))"
    and e2: "ent lay (pts_mem s) (S2 j) = 0 \<and> unat (pts_num_l3_page_tables s) < 32 \<or>
      k0 < 32 \<and> ent lay (pts_mem s) (S2 j) = table_desc (l3_table lay k0)"
    and w: "with_l3 lay j s = (k, s2)"
  shows "k < 32" "idmap_ok lay s2" "a < 2 ^ 39 \<Longrightarrow> lookup lay s2 a = lookup lay s a"
    "ent lay (pts_mem s2) (S2 j) = table_desc (l3_table lay k)"
    "slot_ok y \<Longrightarrow> y \<noteq> S2 j \<Longrightarrow> ent lay (pts_mem s2) y = ent lay (pts_mem s) y"
    "unat (pts_num_l3_page_tables s2) =
       unat (pts_num_l3_page_tables s) + (if ent lay (pts_mem s) (S2 j) = 0 then 1 else 0)"
    "e < 512 \<Longrightarrow> ent lay (pts_mem s) (S2 j) = 0 \<Longrightarrow> ent lay (pts_mem s2) (S3 k e) = 0"
    "ent lay (pts_mem s) (S2 j) \<noteq> 0 \<Longrightarrow> k = k0"
proof -
  have "k < 32 \<and> idmap_ok lay s2 \<and> (a < 2 ^ 39 \<longrightarrow> lookup lay s2 a = lookup lay s a) \<and>
    ent lay (pts_mem s2) (S2 j) = table_desc (l3_table lay k) \<and>
    (slot_ok y \<longrightarrow> y \<noteq> S2 j \<longrightarrow> ent lay (pts_mem s2) y = ent lay (pts_mem s) y) \<and>
    unat (pts_num_l3_page_tables s2) =
       unat (pts_num_l3_page_tables s) + (if ent lay (pts_mem s) (S2 j) = 0 then 1 else 0) \<and>
    (e < 512 \<longrightarrow> ent lay (pts_mem s) (S2 j) = 0 \<longrightarrow> ent lay (pts_mem s2) (S3 k e) = 0) \<and>
    (ent lay (pts_mem s) (S2 j) \<noteq> 0 \<longrightarrow> k = k0)"
  proof (cases "ent lay (pts_mem s) (S2 j) = 0")
    case True
    then have room: "unat (pts_num_l3_page_tables s) < 32"
      using e2 entry_kinds(2) [OF table_not_block(2) [OF lay, of k0]] by auto
    from True w have w: "k = unat (pts_num_l3_page_tables s)" "s2 = new_l3 lay j s" by (simp_all add: with_l3_def)
    show ?thesis
      using True room new_l3_ok [OF lay ok j reach True room] new_l3_lookup [OF lay ok j _ True room]
        idmap_okD(7) [OF ok room] j
      by (simp add: w new_l3_ent [OF lay j] l3_free_def)
  next
    case False
    then have k0: "k0 < 32" "ent lay (pts_mem s) (S2 j) = table_desc (l3_table lay k0)" using e2 by auto
    from False w have w: "k = k0" "s2 = s" using l3_index_table [OF lay k0(1)] k0(2) by (auto simp: with_l3_def)
    show ?thesis using False k0 ok by (simp add: w)
  qed
  then show "k < 32" "idmap_ok lay s2" "a < 2 ^ 39 \<Longrightarrow> lookup lay s2 a = lookup lay s a"
    "ent lay (pts_mem s2) (S2 j) = table_desc (l3_table lay k)"
    "slot_ok y \<Longrightarrow> y \<noteq> S2 j \<Longrightarrow> ent lay (pts_mem s2) y = ent lay (pts_mem s) y"
    "unat (pts_num_l3_page_tables s2) =
       unat (pts_num_l3_page_tables s) + (if ent lay (pts_mem s) (S2 j) = 0 then 1 else 0)"
    "e < 512 \<Longrightarrow> ent lay (pts_mem s) (S2 j) = 0 \<Longrightarrow> ent lay (pts_mem s2) (S3 k e) = 0"
    "ent lay (pts_mem s) (S2 j) \<noteq> 0 \<Longrightarrow> k = k0" by blast+
qed

lemma device_page_step:
  assumes lay: "layout_ok lay" and ok: "idmap_ok lay s" and tight: "tight lay s" and p: "p < 134217728"
    and none: "lookup lay s (p * 2 ^ 12) = None"
    and room: "ent lay (pts_mem s) (S2 (p div 512)) = 0 \<Longrightarrow> unat (pts_num_l3_page_tables s) < 32"
  obtains s' where "map_device_l3_page lay (of_nat (p * 2 ^ 12)) s = Inr s'" "idmap_ok lay s'" "tight lay s'"
    "unat (pts_num_l3_page_tables s') =
       unat (pts_num_l3_page_tables s) + (if ent lay (pts_mem s) (S2 (p div 512)) = 0 then 1 else 0)"
    "\<And>a. a < 2 ^ 39 \<Longrightarrow> lookup lay s' a = (if a div 2 ^ 12 = p then Some (device_page p) else lookup lay s a)"
    "ent lay (pts_mem s') (S2 (p div 512)) \<noteq> 0"
    "\<And>x. x < 262144 \<Longrightarrow> x \<noteq> p div 512 \<Longrightarrow> ent lay (pts_mem s') (S2 x) = ent lay (pts_mem s) (S2 x)"
proof -
  let ?j = "p div 512" and ?i = "p div 512 div 512" and ?e = "p mod 512" and ?a = "p * 2 ^ 12"
  have j: "?j < 262144" using p by (simp add: less_mult_imp_div_less)
  have i: "?i < 512" using j by (simp add: less_mult_imp_div_less)
  have a: "?a < 2 ^ 39" using p by simp
  have "?a div 2 ^ 21 = ?a div 2 ^ 12 div 512" by (subst div_mult2_eq [symmetric]) simp
  then have d2: "?a div 2 ^ 21 = ?j" by simp
  have "?a div 2 ^ 30 = ?a div 2 ^ 21 div 512" by (subst div_mult2_eq [symmetric]) simp
  then have d1: "?a div 2 ^ 30 = ?i" using d2 by simp
  have d3: "?a div 2 ^ 12 mod 512 = ?e" by simp
  have pe: "512 * ?j + ?e = p" by simp
  have e1: "ent lay (pts_mem s) (S1 ?i) \<in> {0, table_desc (l2_table lay ?i)}"
    by (rule l1_cases [OF lay ok i d1 none])
  obtain k0 where e2: "ent lay (pts_mem s) (S2 ?j) = 0 \<and> unat (pts_num_l3_page_tables s) < 32 \<or>
      k0 < 32 \<and> ent lay (pts_mem s) (S2 ?j) = table_desc (l3_table lay k0)"
    and e3: "ent lay (pts_mem s) (S2 ?j) \<noteq> 0 \<Longrightarrow> ent lay (pts_mem s) (S3 k0 ?e) = 0"
    by (cases rule: l2_cases [OF lay ok a none]) (use d2 d3 room in auto)
  define s1 where "s1 = set_ent lay (S1 ?i) (table_desc (l2_table lay ?i)) s"
  note l = linked_l2 [OF lay ok i e1 s1_def]
  have n1: "pts_num_l3_page_tables s1 = pts_num_l3_page_tables s" by (simp add: s1_def)
  have same: "ent lay (pts_mem s1) (S2 ?j) = ent lay (pts_mem s) (S2 ?j)" using l(4) j by simp
  obtain k s2 where w: "with_l3 lay ?j s1 = (k, s2)" by fastforce
  note q = linked_l3 [OF lay l(1) j l(3) _ w, of k0, unfolded same n1, OF e2]
  have e3': "ent lay (pts_mem s2) (S3 k ?e) = 0"
    using q(5) [of "S3 k ?e"] q(1,7,8) l(4) [of "S3 k ?e"] e3
    by (cases "ent lay (pts_mem s) (S2 ?j) = 0") auto
  let ?s' = "set_ent lay (S3 k ?e) (device_page p) s2"
  have E: "ent lay (pts_mem ?s') y = (if y = S3 k ?e then device_page p else ent lay (pts_mem s2) y)" if "slot_ok y" for y
    using ent_set [OF lay _ that, of "S3 k ?e"] q(1) by simp
  have reach: "ent lay (pts_mem s2) (S1 ?i) = table_desc (l2_table lay ?i)"
    using q(5) [of "S1 ?i"] i l(3) by simp
  have ok': "idmap_ok lay ?s'" using l3_page_ok [OF lay q(2) j _ q(1,4), of ?e] pe by simp
  have page: "device_page p \<noteq> 0" using entry_kinds(2) [OF table_not_block(6) [OF lay p]] by simp
  show thesis
  proof (rule that)
    show "map_device_l3_page lay (of_nat ?a) s = Inr ?s'"
      by (rule map_device_l3_page_spec [OF lay p e1 s1_def e2 w q(1) e3'])
    show "idmap_ok lay ?s'" by (rule ok')
    show "tight lay ?s'"
      unfolding tight_def
    proof (intro allI impI)
      fix x k' assume x: "x < 262144" "k' < 32" "ent lay (pts_mem ?s') (S2 x) = table_desc (l3_table lay k')"
      show "\<exists>e<512. ent lay (pts_mem ?s') (S3 k' e) \<noteq> 0"
      proof (cases "x = ?j")
        case True
        then have "k' = k" using x q(4) E [of "S2 x"] table_desc_inj [OF lay x(2) q(1)] by simp
        then show ?thesis using page E [of "S3 k ?e"] q(1) by (intro exI [of _ ?e]) simp
      next
        case False
        then have "ent lay (pts_mem s) (S2 x) = table_desc (l3_table lay k')"
          using x E [of "S2 x"] q(5) [of "S2 x"] l(4) [of "S2 x"] by simp
        then obtain e where e: "e < 512" "ent lay (pts_mem s) (S3 k' e) \<noteq> 0"
          using tight x(1,2) by (auto simp: tight_def)
        then show ?thesis
          using E [of "S3 k' e"] q(5) [of "S3 k' e"] l(4) [of "S3 k' e"] x(2) page
          by (intro exI [of _ e]) simp
      qed
    qed
    show "lookup lay ?s' b = (if b div 2 ^ 12 = p then Some (device_page p) else lookup lay s b)" if "b < 2 ^ 39" for b
      using l3_page_lookup [OF lay q(2) j _ q(1) reach q(4) that, of ?e] q(3) [OF that] l(2) [OF that] pe by simp
    show "ent lay (pts_mem ?s') (S2 ?j) \<noteq> 0"
      using E [of "S2 ?j"] j q(4) entry_kinds(2) [OF table_not_block(2) [OF lay q(1)]] by simp
    show "ent lay (pts_mem ?s') (S2 x) = ent lay (pts_mem s) (S2 x)" if "x < 262144" "x \<noteq> ?j" for x
      using E [of "S2 x"] q(5) [of "S2 x"] l(4) [of "S2 x"] that by simp
  qed (use q(6) in simp)
qed

section \<open>Device regions\<close>

text \<open>The L2 entries the loop from \<open>x\<close> to \<open>y\<close> fills page by page, and how many L3 tables
  they still need.\<close>

definition page_slots :: "nat \<Rightarrow> nat \<Rightarrow> nat set" where
  "page_slots x y = (if x mod 2 ^ 21 = 0 then {} else {x div 2 ^ 21}) \<union> (if y mod 2 ^ 21 = 0 then {} else {y div 2 ^ 21})"

definition l3_need :: "Layout \<Rightarrow> PageTables \<Rightarrow> nat \<Rightarrow> nat \<Rightarrow> nat" where
  "l3_need lay s x y = card {j \<in> page_slots x y. ent lay (pts_mem s) (S2 j) = 0}"

definition device_desc :: "nat \<Rightarrow> u64 \<Rightarrow> bool" where
  "device_desc a d \<longleftrightarrow> d = device_block (a div 2 ^ 21) \<or> d = device_page (a div 2 ^ 12)"

definition device_mapped :: "Layout \<Rightarrow> nat \<Rightarrow> nat \<Rightarrow> PageTables \<Rightarrow> PageTables \<Rightarrow> bool" where
  "device_mapped lay x y s s' \<longleftrightarrow> (\<forall>a<2 ^ 39. if x \<le> a \<and> a < y
     then \<exists>d. lookup lay s' a = Some d \<and> device_desc a d else lookup lay s' a = lookup lay s a)"

lemma finite_page_slots [simp]: "finite (page_slots x y)"
  by (simp add: page_slots_def)

lemma l3_need_le_2: "l3_need lay s x y \<le> 2"
proof -
  have "card {j \<in> page_slots x y. ent lay (pts_mem s) (S2 j) = 0} \<le> card (page_slots x y)"
    by (intro card_mono) auto
  also have "\<dots> \<le> card {x div 2 ^ 21, y div 2 ^ 21}"
    by (intro card_mono) (auto simp: page_slots_def)
  also have "\<dots> \<le> 2" by (simp add: card_insert_if)
  finally show ?thesis by (simp add: l3_need_def)
qed

lemma div_slot:
  fixes a q m :: nat
  assumes "0 < m"
  shows "a div m = q \<longleftrightarrow> q * m \<le> a \<and> a < q * m + m"
proof -
  have "q \<le> a div m \<longleftrightarrow> q * m \<le> a" by (simp add: less_eq_div_iff_mult_less_eq assms)
  moreover have "a div m < Suc q \<longleftrightarrow> a < Suc q * m" by (simp add: div_less_iff_less_mult assms)
  ultimately show ?thesis by (auto simp: add.commute)
qed

lemma page_slots_block: "x mod 2 ^ 21 = 0 \<Longrightarrow> page_slots (x + 2 ^ 21) y = page_slots x y"
  by (simp add: page_slots_def)

lemma page_slots_page:
  assumes "x mod 4096 = 0" "x < y" "x mod 2 ^ 21 \<noteq> 0 \<or> y - x < 2 ^ 21"
  shows "page_slots (x + 4096) y \<subseteq> page_slots x y" "x div 2 ^ 21 \<in> page_slots x y"
proof -
  have last: "y div 2 ^ 21 = x div 2 ^ 21 \<and> y mod 2 ^ 21 \<noteq> 0" if "x mod 2 ^ 21 = 0"
  proof -
    have lt: "y - x < 2 ^ 21" using assms(3) that by simp
    define q where "q = x div 2 ^ 21"
    have q: "x = 2 ^ 21 * q" using that mult_div_mod_eq [of "2 ^ 21" x] by (simp add: q_def)
    define r where "r = y - x"
    have "y = r + 2 ^ 21 * q" "0 < r" "r < 2 ^ 21" using q assms(2) lt by (simp_all add: r_def)
    with q show ?thesis by simp
  qed
  then show "x div 2 ^ 21 \<in> page_slots x y" by (auto simp: page_slots_def)
  have "(x + 4096) div 2 ^ 21 = x div 2 ^ 21" if "(x + 4096) mod 2 ^ 21 \<noteq> 0"
  proof -
    define p where "p = x div 4096"
    have x: "x = p * 4096" using assms(1) mult_div_mod_eq [of 4096 x] by (simp add: p_def)
    have d: "z * 4096 div 2 ^ 21 = z div 512" "z * 4096 mod 2 ^ 21 = z mod 512 * 4096" for z :: nat
      using div_mult_mult2 [of 4096 z 512] mult_mod_left [of z 512 4096] by simp_all
    have s: "x + 4096 = Suc p * 4096" by (simp add: x)
    have "Suc p mod 512 \<noteq> 0" using that unfolding s d(2) by simp
    then show ?thesis unfolding s d(1) unfolding x d(1) by (simp add: div_Suc)
  qed
  with last show "page_slots (x + 4096) y \<subseteq> page_slots x y"
    by (auto simp: page_slots_def split: if_splits)
qed

lemma loop_words:
  assumes "x < y" "y \<le> 2 ^ 39"
  shows "(of_nat x :: u64) < of_nat y" "(of_nat x :: u64) mod L2_ENTRY_SIZE = 0 \<longleftrightarrow> x mod 2 ^ 21 = 0"
    "(of_nat y :: u64) - of_nat x \<ge> L2_ENTRY_SIZE \<longleftrightarrow> y - x \<ge> 2 ^ 21"
    "(of_nat x :: u64) + L2_ENTRY_SIZE = of_nat (x + 2 ^ 21)" "(of_nat x :: u64) + L3_ENTRY_SIZE = of_nat (x + 4096)"
proof -
  have b: "x < 2 ^ 64" "y < 2 ^ 64" using assms by simp_all
  have u: "unat (of_nat x :: u64) = x" "unat (of_nat y :: u64) = y" using b by (simp_all add: unat_of_nat)
  show "(of_nat x :: u64) < of_nat y" using u assms(1) by (simp add: word_less_nat_alt)
  define r where "r = x mod 2 ^ 21"
  have "(of_nat x :: u64) mod L2_ENTRY_SIZE = of_nat r"
    unfolding entry_sizes r_def by (rule u64_div_of_nat(2) [OF b(1)]) simp
  moreover have "r < 2 ^ 21" by (simp add: r_def)
  then have "(of_nat r :: u64) = 0 \<longleftrightarrow> r = 0" by (simp add: word_unat_eq_iff unat_of_nat)
  ultimately show "(of_nat x :: u64) mod L2_ENTRY_SIZE = 0 \<longleftrightarrow> x mod 2 ^ 21 = 0"
    by (simp only: r_def)
  have "(of_nat y :: u64) - of_nat x = of_nat (y - x)" using assms(1) by (simp add: of_nat_diff)
  moreover have "unat (of_nat (y - x) :: u64) = y - x" using b by (simp add: unat_of_nat)
  ultimately show "(of_nat y :: u64) - of_nat x \<ge> L2_ENTRY_SIZE \<longleftrightarrow> y - x \<ge> 2 ^ 21"
    by (simp add: word_le_nat_alt L2_ENTRY_SIZE_def)
qed (simp_all add: entry_sizes)

lemma page_slots_bound: "x < y \<Longrightarrow> y \<le> 2 ^ 39 \<Longrightarrow> z \<in> page_slots x y \<Longrightarrow> z < 262144"
proof -
  assume x: "x < y" and y: "y \<le> 2 ^ 39" and z: "z \<in> page_slots x y"
  have "y < 2 ^ 39" if "y mod 2 ^ 21 \<noteq> 0" using y that by (cases "y = 2 ^ 39") auto
  with x y z show ?thesis
    by (auto simp: page_slots_def less_mult_imp_div_less split: if_splits)
qed

lemma l3_need_step:
  assumes "page_slots x' y \<subseteq> page_slots x y"
    and "\<And>z. z \<in> page_slots x y \<Longrightarrow> ent lay (pts_mem s1) (S2 z) = 0 \<Longrightarrow> ent lay (pts_mem s) (S2 z) = 0"
  shows "l3_need lay s1 x' y \<le> l3_need lay s x y"
    and "j \<in> page_slots x y \<Longrightarrow> ent lay (pts_mem s) (S2 j) = 0 \<Longrightarrow> ent lay (pts_mem s1) (S2 j) \<noteq> 0 \<Longrightarrow>
      l3_need lay s1 x' y + 1 \<le> l3_need lay s x y"
proof -
  let ?A = "{j \<in> page_slots x' y. ent lay (pts_mem s1) (S2 j) = 0}"
    and ?B = "{j \<in> page_slots x y. ent lay (pts_mem s) (S2 j) = 0}"
  have sub: "?A \<subseteq> ?B" using assms by auto
  then show "l3_need lay s1 x' y \<le> l3_need lay s x y"
    unfolding l3_need_def by (intro card_mono) auto
  assume "j \<in> page_slots x y" "ent lay (pts_mem s) (S2 j) = 0" "ent lay (pts_mem s1) (S2 j) \<noteq> 0"
  with sub have "?A \<subset> ?B" by auto
  then have "card ?A < card ?B" by (intro psubset_card_mono) auto
  then show "l3_need lay s1 x' y + 1 \<le> l3_need lay s x y" by (simp add: l3_need_def)
qed

lemma device_mapped_trans:
  assumes "x \<le> x'" "x' \<le> y" "device_mapped lay x x' s s1" "device_mapped lay x' y s1 s'"
  shows "device_mapped lay x y s s'"
  unfolding device_mapped_def
proof (intro allI impI)
  fix a :: nat assume a: "a < 2 ^ 39"
  from assms(3,4) a have
    "if x \<le> a \<and> a < x' then \<exists>d. lookup lay s1 a = Some d \<and> device_desc a d else lookup lay s1 a = lookup lay s a"
    "if x' \<le> a \<and> a < y then \<exists>d. lookup lay s' a = Some d \<and> device_desc a d else lookup lay s' a = lookup lay s1 a"
    unfolding device_mapped_def by blast+
  with assms(1,2) show "if x \<le> a \<and> a < y then \<exists>d. lookup lay s' a = Some d \<and> device_desc a d
      else lookup lay s' a = lookup lay s a"
    by (cases "x \<le> a"; cases "a < x'"; cases "a < y") auto
qed

text \<open>One round of the loop, for a block and for a page.\<close>

definition loop_state :: "Layout \<Rightarrow> nat \<Rightarrow> nat \<Rightarrow> PageTables \<Rightarrow> bool" where
  "loop_state lay x y s \<longleftrightarrow> idmap_ok lay s \<and> tight lay s \<and>
     x mod 4096 = 0 \<and> y mod 4096 = 0 \<and> x \<le> y \<and> y \<le> 2 ^ 39 \<and>
     (\<forall>a. x \<le> a \<and> a < y \<longrightarrow> lookup lay s a = None) \<and>
     unat (pts_num_l3_page_tables s) + l3_need lay s x y \<le> 32"

definition loop_progress :: "Layout \<Rightarrow> nat \<Rightarrow> nat \<Rightarrow> nat \<Rightarrow> PageTables \<Rightarrow> PageTables \<Rightarrow> bool" where
  "loop_progress lay x x' y s s1 \<longleftrightarrow> loop_state lay x' y s1 \<and> x < x' \<and> x' \<le> y \<and> device_mapped lay x x' s s1 \<and>
     unat (pts_num_l3_page_tables s1) + l3_need lay s1 x' y \<le> unat (pts_num_l3_page_tables s) + l3_need lay s x y"

lemma block_round:
  assumes lay: "layout_ok lay" and st: "loop_state lay x y s" and blk: "x mod 2 ^ 21 = 0" "y - x \<ge> 2 ^ 21"
  shows "\<exists>s1. map_device_l2_block lay (of_nat x) s = Inr s1 \<and> loop_progress lay x (x + 2 ^ 21) y s s1"
proof -
  have lt: "x < y" using blk(2) by simp
  have y: "y \<le> 2 ^ 39" and ok: "idmap_ok lay s" and tg: "tight lay s" using st by (simp_all add: loop_state_def)
  define j where "j = x div 2 ^ 21"
  have x: "x = j * 2 ^ 21" using blk(1) by (auto simp: j_def)
  have j: "j < 262144" using lt y x by simp
  have in_slot: "a div 2 ^ 21 = j \<longleftrightarrow> x \<le> a \<and> a < x + 2 ^ 21" for a
    unfolding x by (subst div_slot) simp_all
  have none: "a div 2 ^ 21 = j \<Longrightarrow> lookup lay s a = None" for a
    using in_slot [of a] blk(2) st unfolding loop_state_def by (metis le_add_diff_inverse lt less_imp_le nat_add_left_cancel_le order_less_le_trans)
  obtain s1 where s1: "map_device_l2_block lay (of_nat (j * 2 ^ 21)) s = Inr s1" "idmap_ok lay s1" "tight lay s1"
    "pts_num_l3_page_tables s1 = pts_num_l3_page_tables s"
    "\<And>a. a < 2 ^ 39 \<Longrightarrow> lookup lay s1 a = (if a div 2 ^ 21 = j then Some (device_block j) else lookup lay s a)"
    "\<And>z. z < 262144 \<Longrightarrow> ent lay (pts_mem s1) (S2 z) = 0 \<Longrightarrow> ent lay (pts_mem s) (S2 z) = 0"
    using device_block_step [OF lay ok tg j none, of thesis] by blast
  have need: "l3_need lay s1 (x + 2 ^ 21) y \<le> l3_need lay s x y"
  proof (rule l3_need_step(1))
    show "page_slots (x + 2 ^ 21) y \<subseteq> page_slots x y" by (simp only: page_slots_block [OF blk(1)] order_refl)
  qed (rule s1(6) [OF page_slots_bound [OF lt y]])
  have dm: "device_mapped lay x (x + 2 ^ 21) s s1"
    unfolding device_mapped_def
  proof (intro allI impI)
    fix a :: nat assume a: "a < 2 ^ 39"
    show "if x \<le> a \<and> a < x + 2 ^ 21 then \<exists>d. lookup lay s1 a = Some d \<and> device_desc a d
        else lookup lay s1 a = lookup lay s a"
      using s1(5) [OF a] in_slot [of a] by (cases "a div 2 ^ 21 = j") (auto simp: device_desc_def)
  qed
  have "lookup lay s1 a = None" if "x + 2 ^ 21 \<le> a" "a < y" for a
    using s1(5) [of a] in_slot [of a] that y st by (simp add: loop_state_def)
  moreover have "(x + 2 ^ 21) mod 4096 = 0" unfolding x by simp
  ultimately have "loop_state lay (x + 2 ^ 21) y s1"
    using st s1(2-4) blk(2) need by (auto simp: loop_state_def)
  with s1(1) need dm s1(4) blk(2) show ?thesis
    unfolding x [symmetric] loop_progress_def by auto
qed

lemma page_round:
  assumes lay: "layout_ok lay" and st: "loop_state lay x y s" and lt: "x < y"
    and pg: "x mod 2 ^ 21 \<noteq> 0 \<or> y - x < 2 ^ 21"
  shows "\<exists>s1. map_device_l3_page lay (of_nat x) s = Inr s1 \<and> loop_progress lay x (x + 4096) y s s1"
proof -
  have y: "y \<le> 2 ^ 39" and ok: "idmap_ok lay s" and tg: "tight lay s" and al: "x mod 4096 = 0" "y mod 4096 = 0"
    using st by (simp_all add: loop_state_def)
  define p where "p = x div 2 ^ 12"
  have x: "x = p * 2 ^ 12" using al(1) by (auto simp: p_def)
  have p: "p < 134217728" using lt y x by simp
  have "x div 2 ^ 21 = x div 2 ^ 12 div 512" by (subst div_mult2_eq [symmetric]) simp
  then have j: "p div 512 = x div 2 ^ 21" by (simp add: p_def)
  note ps = page_slots_page [OF al(1) lt pg]
  have in_page: "a div 2 ^ 12 = p \<longleftrightarrow> x \<le> a \<and> a < x + 4096" for a
    unfolding x by (subst div_slot) simp_all
  have none: "lookup lay s (p * 2 ^ 12) = None" using st lt x by (simp add: loop_state_def)
  have room: "unat (pts_num_l3_page_tables s) < 32" if "ent lay (pts_mem s) (S2 (p div 512)) = 0"
  proof -
    have "x div 2 ^ 21 \<in> {z \<in> page_slots x y. ent lay (pts_mem s) (S2 z) = 0}" using ps(2) that j by simp
    then have "0 < l3_need lay s x y" unfolding l3_need_def by (subst card_gt_0_iff) auto
    then show ?thesis using st by (simp add: loop_state_def)
  qed
  obtain s1 where s1: "map_device_l3_page lay (of_nat (p * 2 ^ 12)) s = Inr s1" "idmap_ok lay s1" "tight lay s1"
    "unat (pts_num_l3_page_tables s1) =
       unat (pts_num_l3_page_tables s) + (if ent lay (pts_mem s) (S2 (p div 512)) = 0 then 1 else 0)"
    "\<And>a. a < 2 ^ 39 \<Longrightarrow> lookup lay s1 a = (if a div 2 ^ 12 = p then Some (device_page p) else lookup lay s a)"
    "ent lay (pts_mem s1) (S2 (p div 512)) \<noteq> 0"
    "\<And>z. z < 262144 \<Longrightarrow> z \<noteq> p div 512 \<Longrightarrow> ent lay (pts_mem s1) (S2 z) = ent lay (pts_mem s) (S2 z)"
    using device_page_step [OF lay ok tg p none room, of thesis] by blast
  have keep: "ent lay (pts_mem s) (S2 z) = 0" if "z \<in> page_slots x y" "ent lay (pts_mem s1) (S2 z) = 0" for z
    using that s1(6,7) page_slots_bound [OF lt y that(1)] by (cases "z = p div 512") auto
  have n1: "l3_need lay s1 (x + 4096) y \<le> l3_need lay s x y"
    by (rule l3_need_step(1) [OF ps(1)]) (rule keep)
  have n2: "l3_need lay s1 (x + 4096) y + 1 \<le> l3_need lay s x y" if "ent lay (pts_mem s) (S2 (p div 512)) = 0"
  proof (rule l3_need_step(2) [OF ps(1) keep])
    show "x div 2 ^ 21 \<in> page_slots x y" by (rule ps(2))
    show "ent lay (pts_mem s) (S2 (x div 2 ^ 21)) = 0" using that unfolding j .
    show "ent lay (pts_mem s1) (S2 (x div 2 ^ 21)) \<noteq> 0" using s1(6) unfolding j .
  qed
  have need: "unat (pts_num_l3_page_tables s1) + l3_need lay s1 (x + 4096) y
      \<le> unat (pts_num_l3_page_tables s) + l3_need lay s x y"
    using s1(4) n1 n2 by (cases "ent lay (pts_mem s) (S2 (p div 512)) = 0") simp_all
  have le: "x + 4096 \<le> y"
  proof -
    obtain q where "y = 4096 * q" using al(2) by (metis mod_0_imp_dvd dvdE)
    with lt x show ?thesis by simp
  qed
  have dm: "device_mapped lay x (x + 4096) s s1"
    unfolding device_mapped_def
  proof (intro allI impI)
    fix a :: nat assume a: "a < 2 ^ 39"
    show "if x \<le> a \<and> a < x + 4096 then \<exists>d. lookup lay s1 a = Some d \<and> device_desc a d
        else lookup lay s1 a = lookup lay s a"
      using s1(5) [OF a] in_page [of a] by (cases "a div 2 ^ 12 = p") (auto simp: device_desc_def)
  qed
  have "lookup lay s1 a = None" if "x + 4096 \<le> a" "a < y" for a
    using s1(5) [of a] in_page [of a] that y st by (simp add: loop_state_def)
  moreover have "(x + 4096) mod 4096 = 0" using al(1) by simp
  ultimately have "loop_state lay (x + 4096) y s1"
    using st s1(2,3) le need by (auto simp: loop_state_def)
  with s1(1) need dm le show ?thesis
    unfolding x [symmetric] loop_progress_def by auto
qed

lemma map_device_loop_spec:
  assumes lay: "layout_ok lay"
  shows "loop_state lay x y s \<Longrightarrow>
    \<exists>s'. map_device_loop lay (of_nat x) (of_nat y) s = Some (Inr s') \<and> idmap_ok lay s' \<and> tight lay s' \<and>
      unat (pts_num_l3_page_tables s') \<le> unat (pts_num_l3_page_tables s) + l3_need lay s x y \<and>
      device_mapped lay x y s s'"
proof (induction "y - x" arbitrary: x s rule: less_induct)
  case less
  note unfold = map_device_loop.simps [of lay "of_nat x" "of_nat y" s]
  have y: "y \<le> 2 ^ 39" "x \<le> y" using less.prems by (simp_all add: loop_state_def)
  have step: ?case if prog: "loop_progress lay x x' y s s1"
    and eq: "map_device_loop lay (of_nat x) (of_nat y) s = map_device_loop lay (of_nat x') (of_nat y) s1" for x' s1
  proof -
    have st: "loop_state lay x' y s1" and lt: "y - x' < y - x" and le: "x \<le> x'" "x' \<le> y"
      using prog by (auto simp: loop_progress_def)
    obtain s' where s': "map_device_loop lay (of_nat x') (of_nat y) s1 = Some (Inr s')" "idmap_ok lay s'" "tight lay s'"
      "unat (pts_num_l3_page_tables s') \<le> unat (pts_num_l3_page_tables s1) + l3_need lay s1 x' y"
      "device_mapped lay x' y s1 s'"
      using less.hyps [OF lt st] by blast
    have "device_mapped lay x y s s'"
      using device_mapped_trans [OF le _ s'(5)] prog by (simp add: loop_progress_def)
    with s' eq prog show ?thesis by (auto simp: loop_progress_def)
  qed
  show ?case
  proof (cases "x < y")
    case False
    then have "map_device_loop lay (of_nat x) (of_nat y) s = Some (Inr s)"
      unfolding unfold using y(2) by simp
    with False less.prems show ?thesis by (auto simp: loop_state_def device_mapped_def)
  next
    case lt: True
    note lw = loop_words [OF lt y(1)]
    show ?thesis
    proof (cases "x mod 2 ^ 21 = 0 \<and> y - x \<ge> 2 ^ 21")
      case True
      then obtain s1 where "map_device_l2_block lay (of_nat x) s = Inr s1" "loop_progress lay x (x + 2 ^ 21) y s s1"
        using block_round [OF lay less.prems conjunct1 [OF True] conjunct2 [OF True]] by (elim exE conjE)
      with True lw show ?thesis by (intro step [of "x + 2 ^ 21" s1]) (simp_all add: unfold)
    next
      case False
      then obtain s1 where "map_device_l3_page lay (of_nat x) s = Inr s1" "loop_progress lay x (x + 4096) y s s1"
        using page_round [OF lay less.prems lt] by (auto simp: not_le)
      moreover from this(1) False lw
      have "map_device_loop lay (of_nat x) (of_nat y) s = map_device_loop lay (of_nat (x + 4096)) (of_nat y) s1"
        unfolding unfold by (simp only: if_True if_False simp_thms bind_comp_simps)
      ultimately show ?thesis by (intro step [of "x + 4096" s1])
    qed
  qed
qed

end
