(* ===== verification/Idmap_Setup.thy ===== *)
theory Idmap_Setup
  imports Idmap
begin

text \<open>
  \<open>MMU::setup_idmap_page_tables\<close> as a whole (\<open>src/src/memory/mmu.cpp\<close>): RAM as blocks at L1 or
  L2, every device region, and the registers, against the map the translation hardware then
  sees: RAM and device pages translated to themselves, each with its memory type, and a fault
  everywhere else.
\<close>

section \<open>Mapping a set of addresses\<close>

definition maps :: "(nat \<Rightarrow> u64 \<Rightarrow> bool) \<Rightarrow> nat set \<Rightarrow> Layout \<Rightarrow> PageTables \<Rightarrow> PageTables \<Rightarrow> bool" where
  "maps D X lay s s' \<longleftrightarrow> (\<forall>a<2 ^ 39. if a \<in> X then \<exists>d. lookup lay s' a = Some d \<and> D a d
     else lookup lay s' a = lookup lay s a)"

definition unmapped :: "Layout \<Rightarrow> PageTables \<Rightarrow> nat set \<Rightarrow> bool" where
  "unmapped lay s X \<longleftrightarrow> (\<forall>a\<in>X. a < 2 ^ 39 \<longrightarrow> lookup lay s a = None)"

definition normal_desc :: "nat \<Rightarrow> u64 \<Rightarrow> bool" where
  "normal_desc a d \<longleftrightarrow> d = normal_block 30 (a div 2 ^ 30) \<or> d = normal_block 21 (a div 2 ^ 21)"

lemma maps_refl: "X = {} \<Longrightarrow> maps D X lay s s"
  by (simp add: maps_def)

lemma maps_trans: "maps D X lay s s1 \<Longrightarrow> maps D Y lay s1 s2 \<Longrightarrow> maps D (X \<union> Y) lay s s2"
  unfolding maps_def by (metis UnE UnI1 UnI2)

lemma maps_same: "(\<And>a. a < 2 ^ 39 \<Longrightarrow> lookup lay s1 a = lookup lay s a) \<Longrightarrow> maps D {} lay s s1"
  by (simp add: maps_def)

lemma maps_lookup:
  assumes "maps D X lay s s'" "a < 2 ^ 39"
  shows "a \<notin> X \<Longrightarrow> lookup lay s' a = lookup lay s a" "a \<in> X \<Longrightarrow> \<exists>d. lookup lay s' a = Some d \<and> D a d"
  using assms by (auto simp: maps_def)

lemma unmapped_maps: "maps D X lay s s' \<Longrightarrow> unmapped lay s Y \<Longrightarrow> X \<inter> Y = {} \<Longrightarrow> unmapped lay s' Y"
  unfolding unmapped_def using maps_lookup(1) by fastforce

lemma unmapped_subset: "unmapped lay s X \<Longrightarrow> Y \<subseteq> X \<Longrightarrow> unmapped lay s Y"
  by (auto simp: unmapped_def)

lemma device_mapped_maps: "device_mapped lay x y s s' \<longleftrightarrow> maps device_desc {x..<y} lay s s'"
  by (simp add: device_mapped_def maps_def)

lemma maps_stays: "maps D X lay s s' \<Longrightarrow> a < 2 ^ 39 \<Longrightarrow> lookup lay s a \<noteq> None \<Longrightarrow> lookup lay s' a \<noteq> None"
  using maps_lookup by (cases "a \<in> X") fastforce+

section \<open>RAM\<close>

text \<open>While RAM is mapped there is no L3 table, and an L2 part that is linked maps something.\<close>

definition ram_state :: "Layout \<Rightarrow> PageTables \<Rightarrow> bool" where
  "ram_state lay s \<longleftrightarrow> idmap_ok lay s \<and> pts_num_l3_page_tables s = 0 \<and>
     (\<forall>i<512. ent lay (pts_mem s) (S1 i) = table_desc (l2_table lay i) \<longrightarrow>
       (\<exists>a<2 ^ 39. a div 2 ^ 30 = i \<and> lookup lay s a \<noteq> None))"

lemma ram_l1_unused:
  assumes lay: "layout_ok lay" and st: "ram_state lay s" and i: "i < 512"
    and free: "unmapped lay s {a. a div 2 ^ 30 = i}"
  shows "ent lay (pts_mem s) (S1 i) = 0"
proof -
  have "i * 2 ^ 30 < (2 ^ 39 :: nat)" using i by simp
  then have "lookup lay s (i * 2 ^ 30) = None" using free by (simp add: unmapped_def)
  then have "ent lay (pts_mem s) (S1 i) \<in> {0, table_desc (l2_table lay i)}"
    using st by (intro l1_cases [OF lay _ i, of s "i * 2 ^ 30"]) (simp_all add: ram_state_def)
  moreover have "ent lay (pts_mem s) (S1 i) \<noteq> table_desc (l2_table lay i)"
    using st i free by (auto simp: ram_state_def unmapped_def)
  ultimately show ?thesis by simp
qed

lemma no_l3:
  assumes lay: "layout_ok lay" and ok: "idmap_ok lay s" "pts_num_l3_page_tables s = 0"
  shows "j < 262144 \<Longrightarrow> k < 32 \<Longrightarrow> ent lay (pts_mem s) (S2 j) \<noteq> table_desc (l3_table lay k)" "tight lay s"
  using l3_owned(1) [OF lay ok(1)] ok(2) by (auto simp: tight_def)

lemma ram_l2_unused:
  assumes lay: "layout_ok lay" and ok: "idmap_ok lay s" "pts_num_l3_page_tables s = 0" and j: "j < 262144"
    and free: "lookup lay s (j * 2 ^ 21) = None"
  shows "ent lay (pts_mem s) (S2 j) = 0"
proof -
  have a: "j * 2 ^ 21 < (2 ^ 39 :: nat)" using j by simp
  have d: "j * 2 ^ 21 div 2 ^ 21 = j" by simp
  show ?thesis
    by (cases rule: l2_cases [OF lay ok(1) a free, unfolded d]) (use no_l3(1) [OF lay ok j] in auto)
qed

lemma map_normal_block_spec:
  assumes lay: "layout_ok lay" and ok: "slot_ok x" and unused: "ent lay (pts_mem s) x = 0"
    and fld: "field_ok (of_nat (slot_idx x * 2 ^ n))"
  shows "map_normal_block lay (slot_table lay x) (of_nat (slot_idx x)) (of_nat (2 ^ n)) (pts_mem s) =
    Inr (pts_mem (set_ent lay x (normal_block n (slot_idx x)) s))"
proof -
  define phys :: u64 where "phys = of_nat (slot_idx x * 2 ^ n)"
  have ph: "of_nat (slot_idx x) * 2 ^ n = phys" by (simp add: phys_def)
  have "phys AND 0xFFF = 0" using field_low [OF fld] by (simp add: phys_def)
  moreover have "normal_block n (slot_idx x) = block_normal_bits OR phys OR 8" by (simp add: normal_block_def phys_def)
  ultimately show ?thesis
    using unused
    by (simp add: map_normal_block_def pte_mark_as_block_descriptor_normal_def ph pte_point_to_offset_def
        pte_set_mair_attr_def MAIR_INDEX_NORMAL_WB_def pte_or_ent [OF lay ok] ent_set [OF lay ok ok] set_ent_twice
        or.assoc)
qed

text \<open>RAM in whole gigabytes: L1 blocks.\<close>

lemma ram_l1_blocks:
  assumes lay: "layout_ok lay"
  shows "ram_state lay s \<Longrightarrow> i + n \<le> 512 \<Longrightarrow> unmapped lay s {a. i \<le> a div 2 ^ 30 \<and> a div 2 ^ 30 < i + n} \<Longrightarrow>
    \<exists>pt. ram_block_loop lay (lay_l1 lay) L1_ENTRY_SIZE (of_nat i) n (pts_mem s) = Inr pt \<and>
      ram_state lay (s\<lparr>pts_mem := pt\<rparr>) \<and>
      maps normal_desc {a. i \<le> a div 2 ^ 30 \<and> a div 2 ^ 30 < i + n} lay s (s\<lparr>pts_mem := pt\<rparr>)"
proof (induction n arbitrary: i s)
  case 0
  then show ?case by (auto intro!: maps_refl)
next
  case (Suc n)
  have i: "i < 512" and le: "i + 1 + n \<le> 512" and ok: "idmap_ok lay s"
    using Suc.prems by (simp_all add: ram_state_def)
  have unused: "ent lay (pts_mem s) (S1 i) = 0"
    using Suc.prems by (intro ram_l1_unused [OF lay _ i]) (auto simp: unmapped_def)
  define s1 where "s1 = set_ent lay (S1 i) (normal_block 30 i) s"
  have step: "map_normal_block lay (lay_l1 lay) (of_nat i) L1_ENTRY_SIZE (pts_mem s) = Inr (pts_mem s1)"
    using map_normal_block_spec [OF lay _ unused, of 30] block_fields(1) [OF i] i
    unfolding s1_def entry_sizes by (simp only: slot_ok.simps slot_idx.simps slot_table.simps)
  have m1: "maps normal_desc {a. a div 2 ^ 30 = i} lay s s1"
    unfolding maps_def
  proof (intro allI impI)
    fix a :: nat assume a: "a < 2 ^ 39"
    show "if a \<in> {a. a div 2 ^ 30 = i} then \<exists>d. lookup lay s1 a = Some d \<and> normal_desc a d
        else lookup lay s1 a = lookup lay s a"
      using l1_block_lookup [OF lay ok i a] by (simp add: s1_def normal_desc_def)
  qed
  have st1: "ram_state lay s1"
    unfolding ram_state_def
  proof (intro conjI allI impI)
    show "idmap_ok lay s1" unfolding s1_def by (rule l1_entry_ok [OF lay ok i unused]) simp
    show "pts_num_l3_page_tables s1 = 0" using Suc.prems(1) by (simp add: s1_def ram_state_def)
    fix x :: nat assume x: "x < 512" "ent lay (pts_mem s1) (S1 x) = table_desc (l2_table lay x)"
    then have "ent lay (pts_mem s) (S1 x) = table_desc (l2_table lay x)"
      using i entry_kinds(1) [OF table_not_block(3) [OF lay i]] entry_kinds(2) [OF table_not_block(1) [OF lay i]]
      by (cases "x = i") (auto simp: s1_def ent_set [OF lay])
    then obtain a where "a < 2 ^ 39" "a div 2 ^ 30 = x" "lookup lay s a \<noteq> None"
      using Suc.prems(1) x(1) unfolding ram_state_def by blast
    then show "\<exists>a<2 ^ 39. a div 2 ^ 30 = x \<and> lookup lay s1 a \<noteq> None"
      using maps_stays [OF m1] by blast
  qed
  have split: "{a. i \<le> a div 2 ^ 30 \<and> a div 2 ^ 30 < i + Suc n} =
      {a. a div 2 ^ 30 = i} \<union> {a. i + 1 \<le> a div 2 ^ 30 \<and> a div 2 ^ 30 < i + 1 + n}" by auto
  have "unmapped lay s1 {a. i + 1 \<le> a div 2 ^ 30 \<and> a div 2 ^ 30 < i + 1 + n}"
    by (rule unmapped_maps [OF m1 unmapped_subset [OF Suc.prems(3)]]) auto
  then obtain pt where pt: "ram_block_loop lay (lay_l1 lay) L1_ENTRY_SIZE (of_nat (i + 1)) n (pts_mem s1) = Inr pt"
      "ram_state lay (s1\<lparr>pts_mem := pt\<rparr>)"
      "maps normal_desc {a. i + 1 \<le> a div 2 ^ 30 \<and> a div 2 ^ 30 < i + 1 + n} lay s1 (s1\<lparr>pts_mem := pt\<rparr>)"
    using Suc.IH [OF st1 le] by blast
  have "s1\<lparr>pts_mem := pt\<rparr> = s\<lparr>pts_mem := pt\<rparr>" by (simp add: s1_def set_ent_def)
  moreover have "(of_nat i :: u64) + 1 = of_nat (i + 1)" by simp
  ultimately show ?case
    using step pt maps_trans [OF m1 pt(3)] unfolding split by (auto simp: add.commute)
qed

text \<open>RAM in units of 2MB: the L2 parts are linked first, then L2 blocks.\<close>

lemma ram_link_tables:
  assumes lay: "layout_ok lay"
  shows "idmap_ok lay s \<Longrightarrow> i + n \<le> 512 \<Longrightarrow>
    \<forall>x. i \<le> x \<and> x < i + n \<longrightarrow> ent lay (pts_mem s) (S1 x) \<in> {0, table_desc (l2_table lay x)} \<Longrightarrow>
    \<exists>pt. ram_table_loop lay (of_nat i) n (pts_mem s) = Inr pt \<and> idmap_ok lay (s\<lparr>pts_mem := pt\<rparr>) \<and>
      maps D {} lay s (s\<lparr>pts_mem := pt\<rparr>) \<and>
      (\<forall>x<512. ent lay pt (S1 x) = (if i \<le> x \<and> x < i + n then table_desc (l2_table lay x) else ent lay (pts_mem s) (S1 x)))"
proof (induction n arbitrary: i s)
  case 0
  then show ?case by (auto intro!: maps_refl)
next
  case (Suc n)
  have i: "i < 512" and le: "i + 1 + n \<le> 512" using Suc.prems(2) by simp_all
  have e: "ent lay (pts_mem s) (S1 i) \<in> {0, table_desc (l2_table lay i)}" using Suc.prems(3) by simp
  define s1 where "s1 = set_ent lay (S1 i) (table_desc (l2_table lay i)) s"
  note l = linked_l2 [OF lay Suc.prems(1) i e s1_def]
  have ok: "slot_ok (S1 i)" using i by simp
  have nxt: "lay_l2 lay + 4096 * of_nat i = l2_table lay i" by (simp add: l2_table_def)
  have val: "(ent lay (pts_mem s) (S1 i) OR 3) OR l2_table lay i = table_desc (l2_table lay i)"
  proof -
    have "(x OR 3) OR x = x OR 3" "((x OR 3) OR 3) OR x = x OR 3" for x :: u64
      by (simp_all add: or.assoc or.left_commute or.commute)
    with e show ?thesis by (auto simp: table_desc_def or.commute)
  qed
  have step: "ram_table_loop lay (of_nat i) (Suc n) (pts_mem s) = ram_table_loop lay (of_nat (i + 1)) n (pts_mem s1)"
    using field_next_level [OF table_fields(2) [OF lay i]] val
    by (simp add: pte_mark_as_table_descriptor_def pte_point_to_next_level_def pte_or_ent [OF lay ok, simplified]
        nxt PTE_TABLE_TYPE_def ent_set [OF lay ok ok] set_ent_twice s1_def add.commute)
  have "\<forall>x. i + 1 \<le> x \<and> x < i + 1 + n \<longrightarrow> ent lay (pts_mem s1) (S1 x) \<in> {0, table_desc (l2_table lay x)}"
  proof (intro allI impI)
    fix x assume x: "i + 1 \<le> x \<and> x < i + 1 + n"
    then have "ent lay (pts_mem s1) (S1 x) = ent lay (pts_mem s) (S1 x)" using l(4) [of "S1 x"] Suc.prems(2) by simp
    with x Suc.prems(3) show "ent lay (pts_mem s1) (S1 x) \<in> {0, table_desc (l2_table lay x)}" by simp
  qed
  then obtain pt where pt: "ram_table_loop lay (of_nat (i + 1)) n (pts_mem s1) = Inr pt" "idmap_ok lay (s1\<lparr>pts_mem := pt\<rparr>)"
      "maps D {} lay s1 (s1\<lparr>pts_mem := pt\<rparr>)"
      "\<forall>x<512. ent lay pt (S1 x) = (if i + 1 \<le> x \<and> x < i + 1 + n then table_desc (l2_table lay x) else ent lay (pts_mem s1) (S1 x))"
    using Suc.IH [OF l(1) le] by blast
  have same: "s1\<lparr>pts_mem := pt\<rparr> = s\<lparr>pts_mem := pt\<rparr>" by (simp add: s1_def set_ent_def)
  have "maps D ({} \<union> {}) lay s (s\<lparr>pts_mem := pt\<rparr>)"
    by (rule maps_trans [OF maps_same [OF l(2)] pt(3) [unfolded same]])
  moreover have "\<forall>x<512. ent lay pt (S1 x) =
      (if i \<le> x \<and> x < i + Suc n then table_desc (l2_table lay x) else ent lay (pts_mem s) (S1 x))"
  proof (intro allI impI)
    fix x :: nat assume x: "x < 512"
    show "ent lay pt (S1 x) = (if i \<le> x \<and> x < i + Suc n then table_desc (l2_table lay x) else ent lay (pts_mem s) (S1 x))"
      using pt(4) x l(3) l(4) [of "S1 x"] by (cases "x = i") auto
  qed
  ultimately show ?case using step pt(1,2) same by auto
qed

lemma ram_l2_blocks:
  assumes lay: "layout_ok lay"
  shows "idmap_ok lay s \<Longrightarrow> pts_num_l3_page_tables s = 0 \<Longrightarrow> j + n \<le> 262144 \<Longrightarrow>
    unmapped lay s {a. j \<le> a div 2 ^ 21 \<and> a div 2 ^ 21 < j + n} \<Longrightarrow>
    \<forall>x. j \<le> x \<and> x < j + n \<longrightarrow> ent lay (pts_mem s) (S1 (x div 512)) = table_desc (l2_table lay (x div 512)) \<Longrightarrow>
    \<exists>pt. ram_block_loop lay (lay_l2 lay) L2_ENTRY_SIZE (of_nat j) n (pts_mem s) = Inr pt \<and>
      idmap_ok lay (s\<lparr>pts_mem := pt\<rparr>) \<and> (\<forall>x<512. ent lay pt (S1 x) = ent lay (pts_mem s) (S1 x)) \<and>
      maps normal_desc {a. j \<le> a div 2 ^ 21 \<and> a div 2 ^ 21 < j + n} lay s (s\<lparr>pts_mem := pt\<rparr>)"
proof (induction n arbitrary: j s)
  case 0
  then show ?case by (auto intro!: maps_refl)
next
  case (Suc n)
  have j: "j < 262144" and le: "j + 1 + n \<le> 262144" and ok: "idmap_ok lay s" using Suc.prems by simp_all
  have "j * 2 ^ 21 < (2 ^ 39 :: nat)" using j by simp
  then have "lookup lay s (j * 2 ^ 21) = None" using Suc.prems(4) by (simp add: unmapped_def)
  then have unused: "ent lay (pts_mem s) (S2 j) = 0" by (rule ram_l2_unused [OF lay ok Suc.prems(2) j])
  have reach: "ent lay (pts_mem s) (S1 (j div 512)) = table_desc (l2_table lay (j div 512))" using Suc.prems(5) by simp
  define s1 where "s1 = set_ent lay (S2 j) (normal_block 21 j) s"
  have step: "map_normal_block lay (lay_l2 lay) (of_nat j) L2_ENTRY_SIZE (pts_mem s) = Inr (pts_mem s1)"
    using map_normal_block_spec [OF lay _ unused, of 21] block_fields(2) [OF j] j
    unfolding s1_def entry_sizes by (simp only: slot_ok.simps slot_idx.simps slot_table.simps)
  have m1: "maps normal_desc {a. a div 2 ^ 21 = j} lay s s1"
    unfolding maps_def
  proof (intro allI impI)
    fix a :: nat assume a: "a < 2 ^ 39"
    show "if a \<in> {a. a div 2 ^ 21 = j} then \<exists>d. lookup lay s1 a = Some d \<and> normal_desc a d
        else lookup lay s1 a = lookup lay s a"
      using l2_block_lookup [OF lay ok j a reach, of "normal_block 21 j"] by (simp add: s1_def normal_desc_def)
  qed
  have ok1: "idmap_ok lay s1" unfolding s1_def by (rule l2_block_ok [OF lay ok j reach]) simp
  have l1: "ent lay (pts_mem s1) (S1 x) = ent lay (pts_mem s) (S1 x)" if "x < 512" for x
    using that j by (simp add: s1_def ent_set [OF lay])
  have split: "{a. j \<le> a div 2 ^ 21 \<and> a div 2 ^ 21 < j + Suc n} =
      {a. a div 2 ^ 21 = j} \<union> {a. j + 1 \<le> a div 2 ^ 21 \<and> a div 2 ^ 21 < j + 1 + n}" by auto
  have "unmapped lay s1 {a. j + 1 \<le> a div 2 ^ 21 \<and> a div 2 ^ 21 < j + 1 + n}"
    by (rule unmapped_maps [OF m1 unmapped_subset [OF Suc.prems(4)]]) auto
  moreover have "\<forall>x. j + 1 \<le> x \<and> x < j + 1 + n \<longrightarrow>
      ent lay (pts_mem s1) (S1 (x div 512)) = table_desc (l2_table lay (x div 512))"
    using Suc.prems(3,5) l1 by (auto simp: less_mult_imp_div_less)
  moreover have "pts_num_l3_page_tables s1 = 0" using Suc.prems(2) by (simp add: s1_def)
  ultimately obtain pt where pt: "ram_block_loop lay (lay_l2 lay) L2_ENTRY_SIZE (of_nat (j + 1)) n (pts_mem s1) = Inr pt"
      "idmap_ok lay (s1\<lparr>pts_mem := pt\<rparr>)" "\<forall>x<512. ent lay pt (S1 x) = ent lay (pts_mem s1) (S1 x)"
      "maps normal_desc {a. j + 1 \<le> a div 2 ^ 21 \<and> a div 2 ^ 21 < j + 1 + n} lay s1 (s1\<lparr>pts_mem := pt\<rparr>)"
    using Suc.IH [OF ok1 _ le] by blast
  have "s1\<lparr>pts_mem := pt\<rparr> = s\<lparr>pts_mem := pt\<rparr>" by (simp add: s1_def set_ent_def)
  moreover have "(of_nat j :: u64) + 1 = of_nat (j + 1)" by simp
  ultimately show ?case
    using step pt l1 maps_trans [OF m1 pt(4)] unfolding split by (auto simp: add.commute)
qed

text \<open>
  The RAM regions the code can map: below 512GB and either aligned gigabytes, or in units
  of 2MB such that the number of gigabytes rounded up covers the gigabytes that the region
  touches (which is the case for a start at a multiple of 1GB).
\<close>

definition ram_region_ok :: "Region \<Rightarrow> bool" where
  "ram_region_ok r \<longleftrightarrow> unat (reg_start r) + unat (reg_size r) \<le> 2 ^ 39 \<and>
     (if unat (reg_size r) mod 2 ^ 30 = 0 then unat (reg_start r) mod 2 ^ 30 = 0
      else unat (reg_size r) mod 2 ^ 21 = 0 \<and> unat (reg_start r) mod 2 ^ 21 = 0 \<and>
        unat (reg_start r) mod 2 ^ 30 + unat (reg_size r) mod 2 ^ 30 \<le> 2 ^ 30)"

lemma block_range:
  fixes m :: nat
  assumes "0 < m"
  shows "{a. i \<le> a div m \<and> a div m < i + n} = {i * m..<i * m + n * m}"
proof -
  have "i \<le> a div m \<longleftrightarrow> i * m \<le> a" for a by (simp add: less_eq_div_iff_mult_less_eq assms)
  moreover have "a div m < i + n \<longleftrightarrow> a < i * m + n * m" for a
    by (simp add: div_less_iff_less_mult assms add_mult_distrib)
  ultimately show ?thesis by auto
qed

lemma touched_parts:
  fixes x z G :: nat
  assumes "0 < G" "z mod G \<noteq> 0" "x mod G + z mod G \<le> G"
  shows "(z + G - 1) div G = z div G + 1"
    and "x div G \<le> t \<Longrightarrow> t < x div G + (z div G + 1) \<Longrightarrow> \<exists>a. x \<le> a \<and> a < x + z \<and> a div G = t"
    and "x \<le> a \<Longrightarrow> a < x + z \<Longrightarrow> x div G \<le> a div G \<and> a div G < x div G + (z div G + 1)"
proof -
  define i r k q where "i = x div G" "r = x mod G" "k = z div G" "q = z mod G"
  have x: "x = i * G + r" and z: "z = k * G + q" by (simp_all add: i_r_k_q_def)
  have q: "0 < q" "q < G" "r < G" "r + q \<le> G" using assms by (simp_all add: i_r_k_q_def)
  have "(z + G - 1) div G = ((q - 1) + (k + 1) * G) div G" using q by (simp add: z algebra_simps)
  also have "\<dots> = k + 1" using q assms(1) by (subst div_mult_self1) simp_all
  finally show "(z + G - 1) div G = z div G + 1" by (simp add: i_r_k_q_def)
  show "\<exists>a. x \<le> a \<and> a < x + z \<and> a div G = t" if "x div G \<le> t" "t < x div G + (z div G + 1)"
  proof (cases "t = i")
    case True
    moreover have "0 < z" using q(1) z by simp
    ultimately show ?thesis by (intro exI [of _ x]) (simp add: i_r_k_q_def)
  next
    case False
    then have "i + 1 \<le> t" "t \<le> i + k" using that by (simp_all add: i_r_k_q_def)
    then have "(i + 1) * G \<le> t * G" "t * G \<le> (i + k) * G" using mult_le_mono1 by blast+
    then show ?thesis using q assms(1) x z by (intro exI [of _ "t * G"]) (auto simp: algebra_simps)
  qed
  show "x div G \<le> a div G \<and> a div G < x div G + (z div G + 1)" if a: "x \<le> a" "a < x + z"
  proof -
    have "x + z \<le> (i + (k + 1)) * G" using q by (simp add: x z algebra_simps)
    with a have "a < (i + (k + 1)) * G" by linarith
    then have "a div G < i + (k + 1)" by (simp add: div_less_iff_less_mult assms(1))
    with a(1) div_le_mono [of x a G] show ?thesis by (simp add: i_r_k_q_def)
  qed
qed

lemma entry_size_words:
  fixes w :: u64
  shows "w mod L1_ENTRY_SIZE = 0 \<longleftrightarrow> unat w mod 2 ^ 30 = 0" "w mod L2_ENTRY_SIZE = 0 \<longleftrightarrow> unat w mod 2 ^ 21 = 0"
    "w div L1_ENTRY_SIZE = of_nat (unat w div 2 ^ 30)" "w div L2_ENTRY_SIZE = of_nat (unat w div 2 ^ 21)"
    "unat (w div L1_ENTRY_SIZE) = unat w div 2 ^ 30" "unat (w div L2_ENTRY_SIZE) = unat w div 2 ^ 21"
    "unat w \<le> 2 ^ 39 \<Longrightarrow> unat ((w + L1_ENTRY_SIZE - 1) div L1_ENTRY_SIZE) = (unat w + 2 ^ 30 - 1) div 2 ^ 30"
proof -
  show d: "unat (w div L1_ENTRY_SIZE) = unat w div 2 ^ 30" "unat (w div L2_ENTRY_SIZE) = unat w div 2 ^ 21" for w :: u64
    by (simp_all add: unat_div L1_ENTRY_SIZE_def L2_ENTRY_SIZE_def)
  show "w div L1_ENTRY_SIZE = of_nat (unat w div 2 ^ 30)" "w div L2_ENTRY_SIZE = of_nat (unat w div 2 ^ 21)"
    unfolding d [symmetric] by simp_all
  show "w mod L1_ENTRY_SIZE = 0 \<longleftrightarrow> unat w mod 2 ^ 30 = 0" "w mod L2_ENTRY_SIZE = 0 \<longleftrightarrow> unat w mod 2 ^ 21 = 0"
    by (simp_all add: word_unat_eq_iff unat_mod L1_ENTRY_SIZE_def L2_ENTRY_SIZE_def)
  assume "unat w \<le> 2 ^ 39"
  then have "unat (w + 0x3FFFFFFF) = unat w + 0x3FFFFFFF" by (subst unat_u64_add_numeral) simp_all
  moreover have e: "w + L1_ENTRY_SIZE - 1 = w + 0x3FFFFFFF" by (simp add: L1_ENTRY_SIZE_def)
  ultimately show "unat ((w + L1_ENTRY_SIZE - 1) div L1_ENTRY_SIZE) = (unat w + 2 ^ 30 - 1) div 2 ^ 30"
    unfolding d e by simp
qed

lemma map_ram_region_gigabytes:
  assumes lay: "layout_ok lay" and st: "ram_state lay s" and r: "ram_region_ok r"
    and free: "unmapped lay s (region_span r)" and giga: "unat (reg_size r) mod 2 ^ 30 = 0"
  shows "\<exists>pt. map_ram_region lay r (pts_mem s) = Inr pt \<and> ram_state lay (s\<lparr>pts_mem := pt\<rparr>) \<and>
    maps normal_desc (region_span r) lay s (s\<lparr>pts_mem := pt\<rparr>)"
proof -
  define i n where "i = unat (reg_start r) div 2 ^ 30" and "n = unat (reg_size r) div 2 ^ 30"
  have "unat (reg_start r) mod 2 ^ 30 = 0" using r giga by (simp add: ram_region_ok_def)
  then have x: "unat (reg_start r) = i * 2 ^ 30" and z: "unat (reg_size r) = n * 2 ^ 30"
    using giga div_mult_mod_eq [of "unat (reg_start r)" "2 ^ 30"] div_mult_mod_eq [of "unat (reg_size r)" "2 ^ 30"]
    by (simp_all only: i_def n_def add_0_right)
  have span: "region_span r = {a. i \<le> a div 2 ^ 30 \<and> a div 2 ^ 30 < i + n}"
    unfolding region_span_def span_def x z by (subst block_range) simp_all
  have "(i + n) * 2 ^ 30 \<le> 512 * 2 ^ 30" using r unfolding ram_region_ok_def x z by simp
  then have le: "i + n \<le> 512" by simp
  have "map_ram_region lay r (pts_mem s) =
      ram_block_loop lay (lay_l1 lay) L1_ENTRY_SIZE (of_nat i) n (pts_mem s)"
    unfolding map_ram_region_def entry_size_words(5) unfolding entry_size_words(1,3) i_def n_def
    by (simp only: giga if_True simp_thms)
  with ram_l1_blocks [OF lay st le free [unfolded span]] show ?thesis unfolding span by simp
qed

lemma map_ram_region_blocks:
  assumes lay: "layout_ok lay" and st: "ram_state lay s" and r: "ram_region_ok r"
    and free: "unmapped lay s (region_span r)" and nogiga: "unat (reg_size r) mod 2 ^ 30 \<noteq> 0"
  shows "\<exists>pt. map_ram_region lay r (pts_mem s) = Inr pt \<and> ram_state lay (s\<lparr>pts_mem := pt\<rparr>) \<and>
    maps normal_desc (region_span r) lay s (s\<lparr>pts_mem := pt\<rparr>)"
proof -
  define x z where "x = unat (reg_start r)" and "z = unat (reg_size r)"
  define i m j n where "i = x div 2 ^ 30" and "m = z div 2 ^ 30 + 1" and "j = x div 2 ^ 21" and "n = z div 2 ^ 21"
  have ro: "x + z \<le> 2 ^ 39" "z mod 2 ^ 21 = 0" "x mod 2 ^ 21 = 0" "x mod 2 ^ 30 + z mod 2 ^ 30 \<le> 2 ^ 30"
    using r nogiga by (simp_all add: ram_region_ok_def x_def z_def)
  have G: "(0 :: nat) < 2 ^ 30" by simp
  note t = touched_parts [OF G nogiga [folded z_def] ro(4), folded i_def m_def]
  have xz: "x = j * 2 ^ 21" "z = n * 2 ^ 21" using ro(2,3) by (auto simp: j_def n_def)
  have span: "region_span r = {a. j \<le> a div 2 ^ 21 \<and> a div 2 ^ 21 < j + n}"
    unfolding region_span_def span_def x_def [symmetric] z_def [symmetric] unfolding xz
    by (subst block_range) simp_all
  have in_span: "a \<in> region_span r \<longleftrightarrow> x \<le> a \<and> a < x + z" for a
    by (auto simp: region_span_def span_def x_def z_def)
  have touch: "\<exists>a<2 ^ 39. a \<in> region_span r \<and> a div 2 ^ 30 = y" if y: "i \<le> y" "y < i + m" for y
  proof -
    obtain a where a: "x \<le> a" "a < x + z" "a div 2 ^ 30 = y" using t(2) [OF y] by blast
    then have "a < 2 ^ 39" using ro(1) by linarith
    with a in_span show ?thesis by blast
  qed
  have im: "i + m \<le> 512" using touch [of "i + m - 1"] div_lt(1) by (fastforce simp: m_def)
  have l1: "\<forall>y. i \<le> y \<and> y < i + m \<longrightarrow> ent lay (pts_mem s) (S1 y) \<in> {0, table_desc (l2_table lay y)}"
  proof (intro allI impI)
    fix y assume y: "i \<le> y \<and> y < i + m"
    then obtain a where "a < 2 ^ 39" "a \<in> region_span r" "a div 2 ^ 30 = y" using touch by blast
    with free st im y show "ent lay (pts_mem s) (S1 y) \<in> {0, table_desc (l2_table lay y)}"
      by (intro l1_cases [OF lay, of s y a]) (auto simp: unmapped_def ram_state_def)
  qed
  have ok: "idmap_ok lay s" and num: "pts_num_l3_page_tables s = 0" using st by (simp_all add: ram_state_def)
  obtain pt1 where pt1: "ram_table_loop lay (of_nat i) m (pts_mem s) = Inr pt1" "idmap_ok lay (s\<lparr>pts_mem := pt1\<rparr>)"
      "maps normal_desc {} lay s (s\<lparr>pts_mem := pt1\<rparr>)"
      "\<forall>y<512. ent lay pt1 (S1 y) = (if i \<le> y \<and> y < i + m then table_desc (l2_table lay y) else ent lay (pts_mem s) (S1 y))"
    using ram_link_tables [OF lay ok im l1, of normal_desc] by blast
  define s1 where "s1 = s\<lparr>pts_mem := pt1\<rparr>"
  have "(j + n) * 2 ^ 21 \<le> 262144 * 2 ^ 21" using ro(1) unfolding xz by simp
  then have jn: "j + n \<le> 262144" by simp
  have "unmapped lay s1 {a. j \<le> a div 2 ^ 21 \<and> a div 2 ^ 21 < j + n}"
    unfolding span [symmetric] s1_def by (rule unmapped_maps [OF pt1(3) free]) simp
  moreover have "\<forall>y. j \<le> y \<and> y < j + n \<longrightarrow> ent lay (pts_mem s1) (S1 (y div 512)) = table_desc (l2_table lay (y div 512))"
  proof (intro allI impI)
    fix y assume y: "j \<le> y \<and> y < j + n"
    then have "j * 2 ^ 21 \<le> y * 2 ^ 21" "y * 2 ^ 21 < (j + n) * 2 ^ 21" by simp_all
    then have "x \<le> y * 2 ^ 21" "y * 2 ^ 21 < x + z" unfolding xz by (simp_all add: add_mult_distrib)
    from t(3) [OF this] have "i \<le> y * 2 ^ 21 div 2 ^ 30 \<and> y * 2 ^ 21 div 2 ^ 30 < i + m" .
    moreover have "y * 2 ^ 21 div 2 ^ 30 = y * 2 ^ 21 div 2 ^ 21 div (512 :: nat)" by (subst div_mult2_eq [symmetric]) simp
    then have "y * 2 ^ 21 div 2 ^ 30 = y div 512" by simp
    ultimately show "ent lay (pts_mem s1) (S1 (y div 512)) = table_desc (l2_table lay (y div 512))"
      using pt1(4) im by (simp add: s1_def)
  qed
  moreover have "idmap_ok lay s1" "pts_num_l3_page_tables s1 = 0" using pt1(2) num by (simp_all add: s1_def)
  ultimately obtain pt where pt: "ram_block_loop lay (lay_l2 lay) L2_ENTRY_SIZE (of_nat j) n (pts_mem s1) = Inr pt"
      "idmap_ok lay (s1\<lparr>pts_mem := pt\<rparr>)" "\<forall>y<512. ent lay pt (S1 y) = ent lay (pts_mem s1) (S1 y)"
      "maps normal_desc (region_span r) lay s1 (s1\<lparr>pts_mem := pt\<rparr>)"
    using ram_l2_blocks [OF lay _ _ jn] unfolding span by blast
  have same: "s1\<lparr>pts_mem := pt\<rparr> = s\<lparr>pts_mem := pt\<rparr>" by (simp add: s1_def)
  have m: "maps normal_desc (region_span r) lay s (s\<lparr>pts_mem := pt\<rparr>)"
    using maps_trans [OF pt1(3) [folded s1_def] pt(4)] same by simp
  have "ram_state lay (s\<lparr>pts_mem := pt\<rparr>)"
    unfolding ram_state_def
  proof (intro conjI allI impI)
    fix y :: nat assume y: "y < 512" "ent lay (pts_mem (s\<lparr>pts_mem := pt\<rparr>)) (S1 y) = table_desc (l2_table lay y)"
    show "\<exists>a<2 ^ 39. a div 2 ^ 30 = y \<and> lookup lay (s\<lparr>pts_mem := pt\<rparr>) a \<noteq> None"
    proof (cases "i \<le> y \<and> y < i + m")
      case True
      then show ?thesis using touch maps_lookup(2) [OF m] by (metis option.distinct(1))
    next
      case False
      then have "ent lay (pts_mem s) (S1 y) = table_desc (l2_table lay y)" using y pt(3) pt1(4) by (auto simp: s1_def)
      then obtain a where "a < 2 ^ 39" "a div 2 ^ 30 = y" "lookup lay s a \<noteq> None"
        using st y(1) unfolding ram_state_def by blast
      then show ?thesis using maps_stays [OF m] by blast
    qed
  qed (use pt(2) same num in simp_all)
  moreover have cnt: "unat ((reg_size r + L1_ENTRY_SIZE - 1) div L1_ENTRY_SIZE) = m"
    using entry_size_words(7) [of "reg_size r"] ro(1) t(1) unfolding z_def [symmetric] by linarith
  have "map_ram_region lay r (pts_mem s) =
      bind_res (ram_table_loop lay (of_nat i) m (pts_mem s)) (ram_block_loop lay (lay_l2 lay) L2_ENTRY_SIZE (of_nat j) n)"
    unfolding map_ram_region_def cnt entry_size_words(6)
    unfolding entry_size_words(1-4) x_def [symmetric] z_def [symmetric] i_def j_def n_def
    using nogiga ro(2) by (simp only: z_def simp_thms if_True if_False)
  then have "map_ram_region lay r (pts_mem s) = Inr pt" using pt1(1) pt(1) by (simp add: s1_def)
  ultimately show ?thesis using m by blast
qed

lemma map_ram_region_spec:
  assumes "layout_ok lay" "ram_state lay s" "ram_region_ok r" "unmapped lay s (region_span r)"
  shows "\<exists>pt. map_ram_region lay r (pts_mem s) = Inr pt \<and> ram_state lay (s\<lparr>pts_mem := pt\<rparr>) \<and>
    maps normal_desc (region_span r) lay s (s\<lparr>pts_mem := pt\<rparr>)"
  using map_ram_region_gigabytes [OF assms] map_ram_region_blocks [OF assms] by blast

lemma map_ram_regions_spec:
  assumes lay: "layout_ok lay"
  shows "ram_state lay s \<Longrightarrow> \<forall>r\<in>set rs. ram_region_ok r \<Longrightarrow> disjoint_regions rs \<Longrightarrow>
    unmapped lay s (\<Union>r\<in>set rs. region_span r) \<Longrightarrow>
    \<exists>pt. map_ram_regions lay rs (pts_mem s) = Inr pt \<and> ram_state lay (s\<lparr>pts_mem := pt\<rparr>) \<and>
      maps normal_desc (\<Union>r\<in>set rs. region_span r) lay s (s\<lparr>pts_mem := pt\<rparr>)"
proof (induction rs arbitrary: s)
  case Nil
  then show ?case by (simp add: maps_refl)
next
  case (Cons r rs)
  have "unmapped lay s (region_span r)" by (rule unmapped_subset [OF Cons.prems(4)]) auto
  then obtain pt1 where pt1: "map_ram_region lay r (pts_mem s) = Inr pt1" "ram_state lay (s\<lparr>pts_mem := pt1\<rparr>)"
      "maps normal_desc (region_span r) lay s (s\<lparr>pts_mem := pt1\<rparr>)"
    using map_ram_region_spec [OF lay Cons.prems(1)] Cons.prems(2) by auto
  have "unmapped lay (s\<lparr>pts_mem := pt1\<rparr>) (\<Union>r\<in>set rs. region_span r)"
    using Cons.prems(3) by (intro unmapped_maps [OF pt1(3) unmapped_subset [OF Cons.prems(4)]]) auto
  then obtain pt where pt: "map_ram_regions lay rs pt1 = Inr pt" "ram_state lay (s\<lparr>pts_mem := pt\<rparr>)"
      "maps normal_desc (\<Union>r\<in>set rs. region_span r) lay (s\<lparr>pts_mem := pt1\<rparr>) (s\<lparr>pts_mem := pt\<rparr>)"
    using Cons.IH [OF pt1(2)] Cons.prems(2,3) by auto
  with pt1(1) maps_trans [OF pt1(3) pt(3)] show ?case by simp
qed

section \<open>Device regions\<close>

text \<open>The whole pages a device region touches.\<close>

definition page_span :: "Region \<Rightarrow> nat set" where
  "page_span r = {unat (reg_start r) div 4096 * 4096..<(unat (reg_start r) + unat (reg_size r) + 4095) div 4096 * 4096}"

fun pages_disjoint :: "Region list \<Rightarrow> bool" where
  "pages_disjoint [] = True"
| "pages_disjoint (r # rs) \<longleftrightarrow> (\<forall>r'\<in>set rs. page_span r \<inter> page_span r' = {}) \<and> pages_disjoint rs"

definition device_region_ok :: "Region \<Rightarrow> bool" where
  "device_region_ok r \<longleftrightarrow> 0 < reg_size r \<and> unat (reg_start r) + unat (reg_size r) \<le> 2 ^ 39"

lemma and_not_mask_12: "unat (w AND NOT (0xFFF :: u64)) = unat w div 4096 * 4096"
proof -
  have "w AND NOT (0xFFF :: u64) = push_bit 12 (drop_bit 12 w)"
  proof (rule bit_word_eqI)
    fix b assume "b < LENGTH(64)"
    have m: "(0xFFF :: u64) = mask 12" by (simp add: mask_eq_exp_minus_1)
    show "bit (w AND NOT (0xFFF :: u64)) b = bit (push_bit 12 (drop_bit 12 w)) b"
      unfolding m using \<open>b < LENGTH(64)\<close> by (auto simp: bit_simps)
  qed
  also have "\<dots> = of_nat (unat w div 4096 * 4096)"
  proof -
    have "unat w div 4096 = unat (drop_bit 12 w)" by (simp only: unat_drop_bit_eq) (simp add: drop_bit_eq_div)
    then have "drop_bit 12 w = of_nat (unat w div 4096)" by simp
    then show ?thesis by (simp add: push_bit_eq_mult)
  qed
  also have "unat (of_nat (unat w div 4096 * 4096) :: u64) = unat w div 4096 * 4096"
  proof -
    have "unat w div 4096 * 4096 \<le> unat w" by simp
    then have "unat w div 4096 * 4096 < 18446744073709551616" by (rule le_less_trans) (rule unat_u64_bound)
    then show ?thesis by (subst unat_of_nat, subst mod_less) simp_all
  qed
  finally show ?thesis .
qed

lemma page_bounds:
  assumes "device_region_ok r"
  shows "align_down (reg_start r) L3_ENTRY_SIZE = of_nat (unat (reg_start r) div 4096 * 4096)"
    "align_up (reg_start r + reg_size r) L3_ENTRY_SIZE =
      of_nat ((unat (reg_start r) + unat (reg_size r) + 4095) div 4096 * 4096)"
    "(unat (reg_start r) + unat (reg_size r) + 4095) div 4096 * 4096 \<le> 2 ^ 39"
    "unat (reg_start r) div 4096 * 4096 \<le> (unat (reg_start r) + unat (reg_size r) + 4095) div 4096 * 4096"
proof -
  let ?e = "unat (reg_start r) + unat (reg_size r)"
  have e: "?e \<le> 549755813888" using assms by (simp add: device_region_ok_def)
  have L: "L3_ENTRY_SIZE - 1 = 0xFFF" by (simp add: L3_ENTRY_SIZE_def)
  have "reg_start r AND NOT 0xFFF = of_nat (unat (reg_start r) div 4096 * 4096)"
    by (metis and_not_mask_12 of_nat_unat ucast_id)
  then show "align_down (reg_start r) L3_ENTRY_SIZE = of_nat (unat (reg_start r) div 4096 * 4096)"
    unfolding align_down_def L .
  have "unat (reg_start r + reg_size r) = ?e" using e by (intro unat_u64_add) simp
  then have "unat (reg_start r + reg_size r + 0xFFF) = ?e + 4095" using e by (subst unat_u64_add_numeral) simp_all
  then have "reg_start r + reg_size r + 0xFFF AND NOT 0xFFF = of_nat ((?e + 4095) div 4096 * 4096)"
    by (metis and_not_mask_12 of_nat_unat ucast_id)
  moreover have "reg_start r + reg_size r + L3_ENTRY_SIZE - 1 = reg_start r + reg_size r + 0xFFF"
    by (simp add: L3_ENTRY_SIZE_def)
  ultimately show "align_up (reg_start r + reg_size r) L3_ENTRY_SIZE = of_nat ((?e + 4095) div 4096 * 4096)"
    unfolding align_up_def L by (simp only:)
  have "(?e + 4095) div 4096 < 134217729" using e by (simp add: div_less_iff_less_mult)
  then show "(?e + 4095) div 4096 * 4096 \<le> 2 ^ 39" by simp
  show "unat (reg_start r) div 4096 * 4096 \<le> (?e + 4095) div 4096 * 4096" by (intro mult_le_mono1 div_le_mono) simp
qed

lemma map_device_region_spec:
  assumes lay: "layout_ok lay" and ok: "idmap_ok lay s" and tg: "tight lay s" and r: "device_region_ok r"
    and free: "unmapped lay s (page_span r)" and room: "unat (pts_num_l3_page_tables s) + 2 \<le> 32"
  shows "\<exists>s'. map_device_region lay r s = Some (Inr s') \<and> idmap_ok lay s' \<and> tight lay s' \<and>
    unat (pts_num_l3_page_tables s') \<le> unat (pts_num_l3_page_tables s) + 2 \<and>
    maps device_desc (page_span r) lay s s'"
proof -
  define x y where "x = unat (reg_start r) div 4096 * 4096"
    and "y = (unat (reg_start r) + unat (reg_size r) + 4095) div 4096 * 4096"
  note b = page_bounds [OF r, folded x_def y_def]
  have span: "page_span r = {x..<y}" by (simp add: page_span_def x_def y_def)
  have need: "l3_need lay s x y \<le> 2" by (rule l3_need_le_2)
  have "\<forall>a. x \<le> a \<and> a < y \<longrightarrow> lookup lay s a = None"
    using free b(3) unfolding span unmapped_def by (meson atLeastLessThan_iff order_less_le_trans)
  moreover have "x mod 4096 = 0" "y mod 4096 = 0" by (simp_all add: x_def y_def)
  ultimately have "loop_state lay x y s" using ok tg b(3,4) need room by (auto simp: loop_state_def)
  from map_device_loop_spec [OF lay this] obtain s' where s': "map_device_loop lay (of_nat x) (of_nat y) s = Some (Inr s')"
    "idmap_ok lay s'" "tight lay s'" "unat (pts_num_l3_page_tables s') \<le> unat (pts_num_l3_page_tables s) + l3_need lay s x y"
    "device_mapped lay x y s s'" by blast
  then show ?thesis
    using need unfolding map_device_region_def b(1,2) span device_mapped_maps by auto
qed

lemma map_device_regions_spec:
  assumes lay: "layout_ok lay"
  shows "idmap_ok lay s \<Longrightarrow> tight lay s \<Longrightarrow> \<forall>r\<in>set rs. device_region_ok r \<Longrightarrow> pages_disjoint rs \<Longrightarrow>
    unmapped lay s (\<Union>r\<in>set rs. page_span r) \<Longrightarrow> unat (pts_num_l3_page_tables s) + 2 * length rs \<le> 32 \<Longrightarrow>
    \<exists>s'. map_device_regions lay rs s = Some (Inr s') \<and> idmap_ok lay s' \<and>
      maps device_desc (\<Union>r\<in>set rs. page_span r) lay s s'"
proof (induction rs arbitrary: s)
  case Nil
  then show ?case by (simp add: maps_refl)
next
  case (Cons r rs)
  have "unmapped lay s (page_span r)" by (rule unmapped_subset [OF Cons.prems(5)]) auto
  then obtain s1 where s1: "map_device_region lay r s = Some (Inr s1)" "idmap_ok lay s1" "tight lay s1"
      "unat (pts_num_l3_page_tables s1) \<le> unat (pts_num_l3_page_tables s) + 2" "maps device_desc (page_span r) lay s s1"
    using map_device_region_spec [OF lay Cons.prems(1,2)] Cons.prems(3,6) by auto
  have "unmapped lay s1 (\<Union>r\<in>set rs. page_span r)"
    using Cons.prems(4) by (intro unmapped_maps [OF s1(5) unmapped_subset [OF Cons.prems(5)]]) auto
  then obtain s' where s': "map_device_regions lay rs s1 = Some (Inr s')" "idmap_ok lay s'"
      "maps device_desc (\<Union>r\<in>set rs. page_span r) lay s1 s'"
    using Cons.IH [OF s1(2,3)] Cons.prems(3,4,6) s1(4) by auto
  with s1(1) maps_trans [OF s1(5) s'(3)] show ?case by simp
qed

text \<open>RAM is page aligned, so a device region outside RAM touches no page of it.\<close>

lemma page_span_outside:
  assumes d: "device_region_ok d" and r: "ram_region_ok r" and dis: "region_span d \<inter> region_span r = {}"
  shows "page_span d \<inter> region_span r = {}"
proof (rule ccontr)
  assume "page_span d \<inter> region_span r \<noteq> {}"
  then obtain a where a: "a \<in> page_span d" "a \<in> region_span r" by blast
  define x e p where "x = unat (reg_start d)" and "e = x + unat (reg_size d)" and "p = a div 4096"
  define y z where "y = unat (reg_start r)" and "z = unat (reg_size r)"
  have xe: "x < e" using d by (simp add: device_region_ok_def e_def word_less_nat_alt)
  have al: "y mod 4096 = 0" "z mod 4096 = 0"
  proof -
    have "(4096 :: nat) dvd 2 ^ 21" "(4096 :: nat) dvd 2 ^ 30" by simp_all
    with r show "y mod 4096 = 0" "z mod 4096 = 0"
      unfolding ram_region_ok_def y_def [symmetric] z_def [symmetric] mod_eq_0_iff_dvd
      by (meson dvd_trans)+
  qed
  have a1: "x div 4096 * 4096 \<le> a" "a < (e + 4095) div 4096 * 4096"
    using a(1) unfolding page_span_def x_def [symmetric] e_def [symmetric] by simp_all
  have "p < (e + 4095) div 4096" using a1(2) unfolding p_def by (simp add: div_less_iff_less_mult)
  then have "p * 4096 + 4096 \<le> e + 4095" using div_times_less_eq_dividend [of "e + 4095" 4096] by linarith
  then have pa: "x div 4096 \<le> p" "p * 4096 < e"
    using a1(1) unfolding p_def by (simp_all add: less_eq_div_iff_mult_less_eq)
  have pr: "y \<le> p * 4096" "p * 4096 + 4096 \<le> y + z"
  proof -
    obtain q t where q: "y = 4096 * q" "z = 4096 * t" using al by (metis mod_0_imp_dvd dvdE)
    have "y \<le> a" "a < y + z" using a(2) by (auto simp: region_span_def span_def y_def z_def)
    then have "q \<le> p" "p < q + t"
      unfolding q p_def by (simp_all add: less_eq_div_iff_mult_less_eq div_less_iff_less_mult)
    then show "y \<le> p * 4096" "p * 4096 + 4096 \<le> y + z" unfolding q by simp_all
  qed
  define b where "b = max x (p * 4096)"
  have "x < p * 4096 + 4096" using pa(1) by linarith
  then have "x \<le> b \<and> b < e" "y \<le> b \<and> b < y + z" using xe pa pr by (auto simp: b_def max_def)
  then have "b \<in> region_span d \<inter> region_span r"
    by (auto simp: region_span_def span_def x_def e_def y_def z_def)
  with dis show False by blast
qed

section \<open>The whole set-up\<close>

text \<open>The static tables before the first entry is written.\<close>

definition tables_zero :: "Layout \<Rightarrow> PageTables \<Rightarrow> bool" where
  "tables_zero lay s \<longleftrightarrow> pts_num_l3_page_tables s = 0 \<and> (\<forall>x. slot_ok x \<longrightarrow> ent lay (pts_mem s) x = 0)"

lemma tables_zero_linked:
  assumes lay: "layout_ok lay" and zero: "tables_zero lay s"
  defines "s1 \<equiv> set_ent lay S0 (table_desc (lay_l1 lay)) s"
  shows "bind_res (pte_mark_as_table_descriptor lay (lay_l0 lay) 0 (pts_mem s))
      (\<lambda>pt. pte_point_to_next_level lay (lay_l0 lay) 0 (lay_l1 lay) pt) = Inr (pts_mem s1)"
    and "ram_state lay s1" and "a < 2 ^ 39 \<Longrightarrow> lookup lay s1 a = None"
proof -
  have ok: "slot_ok S0" by simp
  have e: "ent lay (pts_mem s1) x = (if x = S0 then table_desc (lay_l1 lay) else 0)" if "slot_ok x" for x
    using that zero by (simp add: s1_def ent_set [OF lay ok that] tables_zero_def)
  have "(3 :: u64) OR lay_l1 lay = table_desc (lay_l1 lay)" by (simp add: table_desc_def or.commute)
  then show "bind_res (pte_mark_as_table_descriptor lay (lay_l0 lay) 0 (pts_mem s))
      (\<lambda>pt. pte_point_to_next_level lay (lay_l0 lay) 0 (lay_l1 lay) pt) = Inr (pts_mem s1)"
    using zero field_next_level [OF table_fields(1) [OF lay]]
    by (simp add: pte_mark_as_table_descriptor_def pte_point_to_next_level_def pte_or_ent [OF lay ok, simplified]
        PTE_TABLE_TYPE_def ent_set [OF lay ok ok] set_ent_twice s1_def tables_zero_def)
  have nz: "table_desc (l2_table lay i) \<noteq> 0" if "i < 512" for i
    using entry_kinds(2) [OF table_not_block(1) [OF lay that]] by simp
  have nz3: "table_desc (l3_table lay k) \<noteq> 0" if "k < 32" for k
    using entry_kinds(2) [OF table_not_block(2) [OF lay that]] by simp
  have "idmap_ok lay s1"
  proof (rule idmap_okI)
    fix j j' k :: nat assume "j < 262144" "j' < 262144" "k < 32"
    then show "l3_unique lay s1 j j' k" using nz3 [of k] by (simp add: l3_unique_def e)
  qed (simp_all add: e l1_ok_def l2_ok_def l2_reached_def l3_free_def, simp add: s1_def zero [unfolded tables_zero_def])
  moreover have "pts_num_l3_page_tables s1 = 0" using zero by (simp add: s1_def tables_zero_def)
  moreover have "ent lay (pts_mem s1) (S1 i) \<noteq> table_desc (l2_table lay i)" if "i < 512" for i
    using nz [OF that] that by (simp add: e)
  ultimately show "ram_state lay s1" by (simp add: ram_state_def)
  show "lookup lay s1 a = None" if "a < 2 ^ 39"
    using div_lt(1) [OF that] by (simp add: lookup_def e)
qed

text \<open>The memory type a descriptor selects through \<open>MAIR_EL1\<close>, and whether code may run there.\<close>

definition hw_attr :: "SysRegs \<Rightarrow> u64 \<Rightarrow> u64" where
  "hw_attr r e = drop_bit (8 * unat (drop_bit 2 e AND 7)) (sr_mair r) AND 0xFF"

definition hw_execute_never :: "u64 \<Rightarrow> bool" where
  "hw_execute_never e \<longleftrightarrow> e AND 0x60000000000000 = 0x60000000000000"

lemma attr_index:
  fixes e :: u64
  shows "drop_bit 2 e AND 7 = drop_bit 2 (e AND 0x1C)"
proof -
  have "drop_bit 2 (e AND 0x1C) = drop_bit 2 e AND drop_bit 2 0x1C" by (rule drop_bit_and)
  then show ?thesis by simp
qed

lemma field_above:
  assumes "field_ok x" "PTE_ADDR_MASK AND c = 0"
  shows "x AND c = 0"
proof -
  have "x AND c = x AND (PTE_ADDR_MASK AND c)" using assms(1) by (simp add: field_ok_def flip: and.assoc)
  with assms(2) show ?thesis by simp
qed

lemma desc_attr:
  assumes "field_ok x"
  shows "drop_bit 2 (block_normal_bits OR x OR 8) AND 7 = 2" "drop_bit 2 (block_device_bits OR x) AND 7 = 0"
    "drop_bit 2 (page_device_bits OR x) AND 7 = 0"
    "hw_execute_never (block_device_bits OR x)" "hw_execute_never (page_device_bits OR x)"
proof -
  have "x AND 0x1C = 0" "x AND 0x60000000000000 = 0"
    using field_above [OF assms] by (simp_all add: PTE_ADDR_MASK_def)
  then show "drop_bit 2 (block_normal_bits OR x OR 8) AND 7 = 2" "drop_bit 2 (block_device_bits OR x) AND 7 = 0"
    "drop_bit 2 (page_device_bits OR x) AND 7 = 0"
    "hw_execute_never (block_device_bits OR x)" "hw_execute_never (page_device_bits OR x)"
    unfolding attr_index bits_values hw_execute_never_def by (simp_all add: bit.conj_disj_distrib2)
qed

lemma setup_core_specific_regs:
  "setup_core_specific lay r = Inr \<lparr>sr_mair = sr_mair r OR 0xFF0000, sr_ttbr0 = lay_l0 lay,
     sr_ttbr1 = sr_ttbr1 r, sr_tcr = 0x500103510, sr_sctlr = sr_sctlr r OR 1\<rparr>"
  by (cases r) (simp add: setup_core_specific_def setup_mair_ranges_def configure_mair_range_def set_ttbr_def
      setup_translation_control_def tcr_value_def mmu_enable_def SCTLR_MMU_ENABLE_def MAIR_NORMAL_WB_def
      MAIR_INDEX_NORMAL_WB_def MAIR_DEVICE_NGNRNE_def MAIR_INDEX_DEVICE_def)

lemma mair_fields:
  assumes "sr_mair r = m OR 0xFF0000"
  shows "drop_bit 2 e AND 7 = 2 \<Longrightarrow> hw_attr r e = MAIR_NORMAL_WB"
    "drop_bit 2 e AND 7 = 0 \<Longrightarrow> m AND 0xFF = 0 \<Longrightarrow> hw_attr r e = MAIR_DEVICE_NGNRNE"
proof -
  have "(drop_bit 16 m OR 0xFF) AND 0xFF = (0xFF :: u64)" by (rule bit_word_eqI) (auto simp: bit_simps)
  then show "drop_bit 2 e AND 7 = 2 \<Longrightarrow> hw_attr r e = MAIR_NORMAL_WB"
    by (simp add: hw_attr_def assms MAIR_NORMAL_WB_def)
  show "drop_bit 2 e AND 7 = 0 \<Longrightarrow> m AND 0xFF = 0 \<Longrightarrow> hw_attr r e = MAIR_DEVICE_NGNRNE"
    by (simp add: hw_attr_def assms MAIR_DEVICE_NGNRNE_def bit.conj_disj_distrib2)
qed

lemma normal_desc_attr:
  assumes "sr_mair r = m OR 0xFF0000" "a < 2 ^ 39" "normal_desc a d"
  shows "hw_attr r d = MAIR_NORMAL_WB"
proof (rule mair_fields(1) [OF assms(1)])
  show "drop_bit 2 d AND 7 = 2"
    using assms(3) desc_attr(1) [OF block_fields(1) [OF div_lt(1) [OF assms(2)]]]
      desc_attr(1) [OF block_fields(2) [OF div_lt(2) [OF assms(2)]]]
    unfolding normal_desc_def normal_block_def by metis
qed

lemma device_desc_attr:
  assumes "sr_mair r = m OR 0xFF0000" "m AND 0xFF = 0" "a < 2 ^ 39" "device_desc a d"
  shows "hw_attr r d = MAIR_DEVICE_NGNRNE" "hw_execute_never d"
proof -
  note d = desc_attr(2-5) [OF block_fields(2) [OF div_lt(2) [OF assms(3)]]]
    desc_attr(2-5) [OF block_fields(3) [OF div_lt(3) [OF assms(3)]]]
  show "hw_attr r d = MAIR_DEVICE_NGNRNE"
  proof (rule mair_fields(2) [OF assms(1) _ assms(2)])
    show "drop_bit 2 d AND 7 = 0" using assms(4) d unfolding device_desc_def device_block_def device_page_def by metis
  qed
  show "hw_execute_never d" using assms(4) d unfolding device_desc_def device_block_def device_page_def by metis
qed

definition device_pages :: "RegionList \<Rightarrow> nat set" where
  "device_pages l = (\<Union>d\<in>set (regions l). page_span d)"

lemma setup_tables_spec:
  assumes lay: "layout_ok lay" and zero: "tables_zero lay s" and shape: "list_shape (mm_device_regions mm)"
    and ram: "\<forall>q\<in>set (regions (mm_ram_regions mm)). ram_region_ok q" "disjoint_regions (regions (mm_ram_regions mm))"
    and dev: "\<forall>d\<in>set (regions (mm_device_regions mm)). device_region_ok d" "pages_disjoint (regions (mm_device_regions mm))"
    and apart: "\<forall>d\<in>set (regions (mm_device_regions mm)). \<forall>q\<in>set (regions (mm_ram_regions mm)). region_span d \<inter> region_span q = {}"
    and regs: "setup_core_specific lay r = Inr r'"
  shows "\<exists>s1 s2 s'. setup_idmap_page_tables lay mm s r = Some (Inr (s', r')) \<and> idmap_ok lay s' \<and>
    (\<forall>a<2 ^ 39. lookup lay s1 a = None) \<and> maps normal_desc (coverage (mm_ram_regions mm)) lay s1 s2 \<and>
    maps device_desc (device_pages (mm_device_regions mm)) lay s2 s' \<and>
    coverage (mm_ram_regions mm) \<inter> device_pages (mm_device_regions mm) = {}"
proof -
  let ?ram = "regions (mm_ram_regions mm)" and ?dev = "regions (mm_device_regions mm)"
  define s1 where "s1 = set_ent lay S0 (table_desc (lay_l1 lay)) s"
  note z = tables_zero_linked [OF lay zero, folded s1_def]
  have "unmapped lay s1 (\<Union>q\<in>set ?ram. region_span q)" using z(3) by (simp add: unmapped_def)
  then obtain pt where pt: "map_ram_regions lay ?ram (pts_mem s1) = Inr pt" "ram_state lay (s1\<lparr>pts_mem := pt\<rparr>)"
      "maps normal_desc (coverage (mm_ram_regions mm)) lay s1 (s1\<lparr>pts_mem := pt\<rparr>)"
    using map_ram_regions_spec [OF lay z(2) ram] unfolding coverage_def by blast
  define s2 where "s2 = s1\<lparr>pts_mem := pt\<rparr>"
  have s2: "idmap_ok lay s2" "pts_num_l3_page_tables s2 = 0" using pt(2) by (simp_all add: ram_state_def s2_def)
  have dis: "coverage (mm_ram_regions mm) \<inter> device_pages (mm_device_regions mm) = {}"
    using page_span_outside ram(1) dev(1) apart unfolding coverage_def device_pages_def by blast
  have "unmapped lay s1 (device_pages (mm_device_regions mm))" using z(3) by (simp add: unmapped_def)
  then have "unmapped lay s2 (device_pages (mm_device_regions mm))"
    using unmapped_maps [OF pt(3) _ dis] by (simp add: s2_def)
  moreover have "2 * length ?dev \<le> 30"
    using shape by (simp add: list_shape_def regions_def word_le_nat_alt)
  ultimately obtain s' where s': "map_device_regions lay ?dev s2 = Some (Inr s')" "idmap_ok lay s'"
      "maps device_desc (device_pages (mm_device_regions mm)) lay s2 s'"
    using map_device_regions_spec [OF lay s2(1) no_l3(2) [OF lay s2] dev] s2(2) unfolding device_pages_def by auto
  have wrap: "\<forall>d\<in>set ?dev. no_wrap (reg_start d) (reg_size d)" "\<forall>q\<in>set ?ram. no_wrap (reg_start q) (reg_size q)"
    using dev(1) ram(1) by (auto simp: device_region_ok_def ram_region_ok_def no_wrap_def)
  have valid: "validate_device_regions mm = Inr ()"
    unfolding validate_device_regions_def check_devices_iff [OF wrap] using apart by simp
  obtain pt0 where pt0: "pte_mark_as_table_descriptor lay (lay_l0 lay) 0 (pts_mem s) = Inr pt0"
      "pte_point_to_next_level lay (lay_l0 lay) 0 (lay_l1 lay) pt0 = Inr (pts_mem s1)"
    using z(1) by (auto simp: bind_res_Inr_iff)
  have same: "s\<lparr>pts_mem := pt\<rparr> = s2" by (simp add: s2_def s1_def set_ent_def)
  have "setup_idmap_page_tables lay mm s r = Some (Inr (s', r'))"
    using valid pt0 pt(1) s'(1) regs by (simp add: setup_idmap_page_tables_def same)
  with s' pt(3) z(3) dis show ?thesis unfolding s2_def by blast
qed

lemma setup_refuses:
  assumes "\<forall>q\<in>set (regions (mm_ram_regions mm)). ram_region_ok q"
    and "\<forall>d\<in>set (regions (mm_device_regions mm)). device_region_ok d"
    and "\<not> (\<forall>d\<in>set (regions (mm_device_regions mm)). \<forall>q\<in>set (regions (mm_ram_regions mm)). region_span d \<inter> region_span q = {})"
  shows "setup_idmap_page_tables lay mm s r = Some (Inl (Kassert ''Device region overlaps RAM''))"
proof -
  have wrap: "\<forall>d\<in>set (regions (mm_device_regions mm)). no_wrap (reg_start d) (reg_size d)"
    "\<forall>q\<in>set (regions (mm_ram_regions mm)). no_wrap (reg_start q) (reg_size q)"
    using assms(1,2) by (auto simp: device_region_ok_def ram_region_ok_def no_wrap_def)
  have "validate_device_regions mm = Inl (Kassert ''Device region overlaps RAM'')"
    unfolding validate_device_regions_def check_devices_iff [OF wrap] using assms(3) by (simp only: if_False)
  then show ?thesis by (simp add: setup_idmap_page_tables_def)
qed

lemma coverage_apart_iff:
  "coverage l \<inter> coverage l' = {} \<longleftrightarrow> (\<forall>d\<in>set (regions l'). \<forall>q\<in>set (regions l). region_span d \<inter> region_span q = {})"
  unfolding coverage_def by blast

lemma setup_idmap_spec:
  assumes "layout_ok lay" and "tables_zero lay s" and "sr_mair r AND 0xFF = 0"
    and "list_shape (mm_device_regions mm)"
    and "\<forall>q\<in>set (regions (mm_ram_regions mm)). ram_region_ok q" and "disjoint_regions (regions (mm_ram_regions mm))"
    and "\<forall>d\<in>set (regions (mm_device_regions mm)). device_region_ok d"
    and "pages_disjoint (regions (mm_device_regions mm))"
  shows "if coverage (mm_ram_regions mm) \<inter> coverage (mm_device_regions mm) = {}
    then \<exists>s' r'. setup_idmap_page_tables lay mm s r = Some (Inr (s', r')) \<and>
      sr_ttbr0 r' = lay_l0 lay \<and> sr_sctlr r' AND 1 = 1 \<and>
      (\<forall>va. unat va < 2 ^ 39 \<longrightarrow>
        (case hw_walk (pts_mem s') (sr_ttbr0 r') va of
           None \<Rightarrow> unat va \<notin> coverage (mm_ram_regions mm) \<and> unat va \<notin> device_pages (mm_device_regions mm)
         | Some (pa, e) \<Rightarrow> pa = va \<and>
             (if unat va \<in> coverage (mm_ram_regions mm) then hw_attr r' e = MAIR_NORMAL_WB
              else unat va \<in> device_pages (mm_device_regions mm) \<and>
                hw_attr r' e = MAIR_DEVICE_NGNRNE \<and> hw_execute_never e)))
    else setup_idmap_page_tables lay mm s r = Some (Inl (Kassert ''Device region overlaps RAM''))"
proof (cases "coverage (mm_ram_regions mm) \<inter> coverage (mm_device_regions mm) = {}")
  case False
  then show ?thesis using setup_refuses [OF assms(5,7)] coverage_apart_iff by auto
next
  case True
  obtain r' where r': "setup_core_specific lay r = Inr r'" "sr_mair r' = sr_mair r OR 0xFF0000"
      "sr_ttbr0 r' = lay_l0 lay" "sr_sctlr r' = sr_sctlr r OR 1"
    unfolding setup_core_specific_regs by simp
  obtain s1 s2 s' where s': "setup_idmap_page_tables lay mm s r = Some (Inr (s', r'))" "idmap_ok lay s'"
      "\<forall>a<2 ^ 39. lookup lay s1 a = None" "maps normal_desc (coverage (mm_ram_regions mm)) lay s1 s2"
      "maps device_desc (device_pages (mm_device_regions mm)) lay s2 s'"
      "coverage (mm_ram_regions mm) \<inter> device_pages (mm_device_regions mm) = {}"
    using setup_tables_spec [OF assms(1,2,4-8) True [unfolded coverage_apart_iff] r'(1)] by blast
  have walk: "case hw_walk (pts_mem s') (sr_ttbr0 r') va of
      None \<Rightarrow> unat va \<notin> coverage (mm_ram_regions mm) \<and> unat va \<notin> device_pages (mm_device_regions mm)
    | Some (pa, e) \<Rightarrow> pa = va \<and>
       (if unat va \<in> coverage (mm_ram_regions mm) then hw_attr r' e = MAIR_NORMAL_WB
        else unat va \<in> device_pages (mm_device_regions mm) \<and> hw_attr r' e = MAIR_DEVICE_NGNRNE \<and> hw_execute_never e)"
    if va: "unat va < 2 ^ 39" for va
    unfolding r'(3) walk_lookup [OF assms(1) s'(2) va]
    using maps_lookup [OF s'(4) va] maps_lookup [OF s'(5) va] s'(3,6) va
      normal_desc_attr [OF r'(2) va] device_desc_attr [OF r'(2) assms(3) va]
    by (cases "unat va \<in> coverage (mm_ram_regions mm)"; cases "unat va \<in> device_pages (mm_device_regions mm)") auto
  have "sr_sctlr r' AND 1 = 1" unfolding r'(4) by (simp add: bit.conj_disj_distrib2)
  with True s'(1) r'(3) walk show ?thesis by auto
qed

text \<open>C3: Setting up the identity map on zeroed tables: when the device regions stay clear of
  RAM, \<open>setup_idmap_page_tables\<close> returns with the MMU on, and below 512GB the translation
  hardware then translates exactly the RAM and the whole pages of the device regions, every
  address to itself, RAM as normal write-back memory and devices as device memory that is
  never executed; when a device region overlaps RAM it stops with the assertion.\<close>

theorem setup_idmap_identity:
  assumes "layout_ok lay" and "tables_zero lay s" and "sr_mair r AND 0xFF = 0"
    and "list_shape (mm_device_regions mm)"
    and "\<forall>q\<in>set (regions (mm_ram_regions mm)). ram_region_ok q" and "disjoint_regions (regions (mm_ram_regions mm))"
    and "\<forall>d\<in>set (regions (mm_device_regions mm)). device_region_ok d"
    and "pages_disjoint (regions (mm_device_regions mm))"
  shows "if coverage (mm_ram_regions mm) \<inter> coverage (mm_device_regions mm) = {}
    then \<exists>s' r'. setup_idmap_page_tables lay mm s r = Some (Inr (s', r')) \<and>
      sr_ttbr0 r' = lay_l0 lay \<and> sr_sctlr r' AND 1 = 1 \<and>
      (\<forall>va. unat va < 2 ^ 39 \<longrightarrow>
        (case hw_walk (pts_mem s') (sr_ttbr0 r') va of
           None \<Rightarrow> unat va \<notin> coverage (mm_ram_regions mm) \<and> unat va \<notin> device_pages (mm_device_regions mm)
         | Some (pa, e) \<Rightarrow> pa = va \<and>
             (if unat va \<in> coverage (mm_ram_regions mm) then hw_attr r' e = MAIR_NORMAL_WB
              else unat va \<in> device_pages (mm_device_regions mm) \<and>
                hw_attr r' e = MAIR_DEVICE_NGNRNE \<and> hw_execute_never e)))
    else setup_idmap_page_tables lay mm s r = Some (Inl (Kassert ''Device region overlaps RAM''))"
  by (rule setup_idmap_spec [OF assms])

text \<open>QEMU's virt machine with 1GB of RAM and a UART, and tables inside RAM.\<close>

definition virt_layout :: Layout where
  "virt_layout = \<lparr>lay_l0 = 0x40100000, lay_l1 = 0x40101000, lay_l2 = 0x40200000, lay_l3 = 0x40400000\<rparr>"

definition one_region :: "u64 \<Rightarrow> u64 \<Rightarrow> RegionList" where
  "one_region start sz = \<lparr>rl_num_regions = 1,
     rl_regions = \<lparr>reg_start = start, reg_size = sz\<rparr> # replicate 15 \<lparr>reg_start = 0, reg_size = 0\<rparr>\<rparr>"

definition virt_map :: MemoryMap where
  "virt_map = \<lparr>mm_reserved_regions = empty_list, mm_ram_regions = one_region 0x40000000 0x40000000,
     mm_device_regions = one_region 0x9000000 0x1000\<rparr>"

definition bss_tables :: PageTables where
  "bss_tables = \<lparr>pts_mem = (\<lambda>_. 0), pts_num_l3_page_tables = 0\<rparr>"

definition reset_regs :: SysRegs where
  "reset_regs = \<lparr>sr_mair = 0, sr_ttbr0 = 0, sr_ttbr1 = 0, sr_tcr = 0, sr_sctlr = 0\<rparr>"

lemma regions_one: "regions (one_region start sz) = [\<lparr>reg_start = start, reg_size = sz\<rparr>]"
  by (simp add: regions_def one_region_def)

lemma virt_setup:
  "layout_ok virt_layout" "tables_zero virt_layout bss_tables" "sr_mair reset_regs AND 0xFF = 0"
  "list_shape (mm_device_regions virt_map)"
  "\<forall>q\<in>set (regions (mm_ram_regions virt_map)). ram_region_ok q" "disjoint_regions (regions (mm_ram_regions virt_map))"
  "\<forall>d\<in>set (regions (mm_device_regions virt_map)). device_region_ok d"
  "pages_disjoint (regions (mm_device_regions virt_map))"
  "coverage (mm_ram_regions virt_map) = {0x40000000..<0x80000000}"
  "coverage (mm_device_regions virt_map) = {0x9000000..<0x9001000}"
  "device_pages (mm_device_regions virt_map) = {0x9000000..<0x9001000}"
  by (simp_all add: virt_layout_def layout_ok_def L2_BYTES_def L3_BYTES_def apart_def tables_zero_def bss_tables_def
      ent_def reset_regs_def virt_map_def list_shape_def one_region_def regions_def ram_region_ok_def
      device_region_ok_def coverage_def device_pages_def page_span_def region_span_def span_def)

theorem setup_idmap_identity_witness:
  "\<exists>s' r' e. setup_idmap_page_tables virt_layout virt_map bss_tables reset_regs = Some (Inr (s', r')) \<and>
     hw_walk (pts_mem s') 0x40100000 0x9000010 = Some (0x9000010, e) \<and> hw_attr r' e = MAIR_DEVICE_NGNRNE \<and>
     hw_walk (pts_mem s') 0x40100000 0x80000000 = None"
proof -
  obtain s' r' where w: "setup_idmap_page_tables virt_layout virt_map bss_tables reset_regs = Some (Inr (s', r'))"
      "sr_ttbr0 r' = lay_l0 virt_layout"
    "\<And>va. unat va < 2 ^ 39 \<Longrightarrow>
        (case hw_walk (pts_mem s') (sr_ttbr0 r') va of
           None \<Rightarrow> unat va \<notin> coverage (mm_ram_regions virt_map) \<and> unat va \<notin> device_pages (mm_device_regions virt_map)
         | Some (pa, e) \<Rightarrow> pa = va \<and>
             (if unat va \<in> coverage (mm_ram_regions virt_map) then hw_attr r' e = MAIR_NORMAL_WB
              else unat va \<in> device_pages (mm_device_regions virt_map) \<and>
                hw_attr r' e = MAIR_DEVICE_NGNRNE \<and> hw_execute_never e))"
    using setup_idmap_identity [OF virt_setup(1-8)] by (auto simp: virt_setup(9,10))
  note vs = virt_setup(9,11) w(2)
  show ?thesis
    using w(1) w(3) [of "0x9000010"] w(3) [of "0x80000000"]
    unfolding vs by (auto simp: virt_layout_def split: option.splits)
qed

text \<open>A region of whole gigabytes is mapped from the gigabyte its start lies in, whatever
  its start is.\<close>

lemma ram_unaligned_start:
  "map_ram_region lay \<lparr>reg_start = 0x60000000, reg_size = 0x40000000\<rparr> pt =
   map_ram_region lay \<lparr>reg_start = 0x40000000, reg_size = 0x40000000\<rparr> pt"
  by (simp add: map_ram_region_def L1_ENTRY_SIZE_def)

end
