(* ===== verification/Machine.thy ===== *)
theory Machine
  imports Prelude
begin

text \<open>
  The machine below the kernel: device registers that are reached by address, system
  registers, calls of the firmware, and the event that \<open>sev\<close> sends to the other cores. The sources only access them, so a machine is an
  argument of every routine that does: how an access answers and what it does to the
  hardware state \<open>'h\<close>. What a device promises (the reference manual of the PL011, the GIC
  architecture, PSCI) is a named hypothesis of the theorems that rely on it.
\<close>

datatype SysReg =
    ICC_SRE_EL1 | ICC_IGRPEN1_EL1 | ICC_PMR_EL1 | ICC_IAR1_EL1 | ICC_EOIR1_EL1
  | CNTP_CTL_EL0 | CNTP_TVAL_EL0 | CNTFRQ_EL0
  | MPIDR_EL1 | CurrentEL | ESR_EL1 | ELR_EL1 | DAIFSet | DAIFClr

datatype Conduit = HVC | SMC

record 'h Machine =
  mc_read32 :: "u64 \<Rightarrow> 'h \<Rightarrow> u32 \<times> 'h"
  mc_write32 :: "u64 \<Rightarrow> u32 \<Rightarrow> 'h \<Rightarrow> 'h"
  mc_read64 :: "u64 \<Rightarrow> 'h \<Rightarrow> u64 \<times> 'h"
  mc_write64 :: "u64 \<Rightarrow> u64 \<Rightarrow> 'h \<Rightarrow> 'h"
  mc_write8 :: "u64 \<Rightarrow> u8 \<Rightarrow> 'h \<Rightarrow> 'h"
  mc_mrs :: "SysReg \<Rightarrow> 'h \<Rightarrow> u64 \<times> 'h"
  mc_msr :: "SysReg \<Rightarrow> u64 \<Rightarrow> 'h \<Rightarrow> 'h"
  mc_firmware :: "Conduit \<Rightarrow> u64 \<times> u64 \<times> u64 \<times> u64 \<Rightarrow> 'h \<Rightarrow> u64 \<times> 'h"
  mc_sev :: "'h \<Rightarrow> 'h"

end
