(* ===== verification/CharBuffer.thy ===== *)
theory CharBuffer
  imports Prelude
begin

text \<open>
  The ring buffer of the UART driver (\<open>UART::CharBuffer\<close> in \<open>src/src/uart.h\<close> and
  \<open>src/src/uart.cpp\<close>). It is a queue of at most 63 characters that drops its oldest one when
  a character is put into a full buffer: the locale \<open>dropping_queue\<close> is that contract, and
  the buffer is an instance of it.
\<close>

record CharBuffer =
  cb_start :: u8
  cb_end :: u8
  cb_ring_buffer :: "u8 list"

definition BufferSize :: u8 where "BufferSize = 64"

definition CharBuffer_init :: CharBuffer where
  "CharBuffer_init = \<lparr>cb_start = 0, cb_end = 0, cb_ring_buffer = replicate 64 0\<rparr>"

definition buffer_char :: "u8 \<Rightarrow> CharBuffer \<Rightarrow> CharBuffer res" where
  "buffer_char c b =
     (if unat (cb_end b) < length (cb_ring_buffer b)
      then
        let b1 = b\<lparr>cb_ring_buffer := (cb_ring_buffer b)[unat (cb_end b) := c]\<rparr>;
            b2 = b1\<lparr>cb_end := (cb_end b1 + 1) mod BufferSize\<rparr> in
        Inr (if cb_end b2 = cb_start b2 then b2\<lparr>cb_start := (cb_start b2 + 1) mod BufferSize\<rparr> else b2)
      else Inl (OutOfBounds (unat (cb_end b))))"

text \<open>The character that is read, if the buffer has one, and the buffer after it.\<close>

definition read_char :: "CharBuffer \<Rightarrow> (u8 option \<times> CharBuffer) res" where
  "read_char b =
     (if cb_start b = cb_end b then Inr (None, b)
      else if unat (cb_start b) < length (cb_ring_buffer b)
      then Inr (Some (cb_ring_buffer b ! unat (cb_start b)), b\<lparr>cb_start := (cb_start b + 1) mod BufferSize\<rparr>)
      else Inl (OutOfBounds (unat (cb_start b))))"

definition elements_in_buffer :: "CharBuffer \<Rightarrow> u8" where
  "elements_in_buffer b =
     (if cb_start b = cb_end b then 0
      else if cb_start b < cb_end b then cb_start b - cb_end b
      else BufferSize - cb_start b + cb_end b + 1)"

section \<open>The queue a buffer stands for\<close>

definition buffer_ok :: "CharBuffer \<Rightarrow> bool" where
  "buffer_ok b \<longleftrightarrow> unat (cb_start b) < 64 \<and> unat (cb_end b) < 64 \<and> length (cb_ring_buffer b) = 64"

definition buffer_count :: "CharBuffer \<Rightarrow> nat" where
  "buffer_count b = (unat (cb_end b) + 64 - unat (cb_start b)) mod 64"

definition contents :: "CharBuffer \<Rightarrow> u8 list" where
  "contents b = map (\<lambda>k. cb_ring_buffer b ! ((unat (cb_start b) + k) mod 64)) [0..<buffer_count b]"

text \<open>A queue of bounded length that keeps the newest elements.\<close>

definition keep_last :: "nat \<Rightarrow> 'a list \<Rightarrow> 'a list" where
  "keep_last n xs = drop (length xs - n) xs"

lemma keep_last_short: "length xs \<le> n \<Longrightarrow> keep_last n xs = xs"
  by (simp add: keep_last_def)

lemma keep_last_Nil: "keep_last n xs = [] \<longleftrightarrow> n = 0 \<or> xs = []"
  by (cases xs) (auto simp: keep_last_def)

lemma length_keep_last: "length (keep_last n xs) \<le> n"
  by (simp add: keep_last_def)

lemma keep_last_append: "keep_last n (keep_last n xs @ ys) = keep_last n (xs @ ys)"
proof -
  have "length xs - (length xs - n) + length ys - n + (length xs - n) = length xs + length ys - n" if "n < length xs"
    using that by simp
  then show ?thesis by (cases "n < length xs") (auto simp: keep_last_def drop_append add.commute)
qed

locale dropping_queue =
  fixes put :: "'e \<Rightarrow> 'b \<Rightarrow> 'b res"
    and get :: "'b \<Rightarrow> ('e option \<times> 'b) res"
    and queue :: "'b \<Rightarrow> 'e list"
    and wf :: "'b \<Rightarrow> bool"
    and cap :: nat
  assumes put_accepts: "wf b \<Longrightarrow> \<exists>b'. put c b = Inr b' \<and> wf b' \<and> queue b' = keep_last cap (queue b @ [c])"
    and get_empty: "wf b \<Longrightarrow> queue b = [] \<Longrightarrow> get b = Inr (None, b)"
    and get_first: "wf b \<Longrightarrow> queue b = c # cs \<Longrightarrow> \<exists>b'. get b = Inr (Some c, b') \<and> wf b' \<and> queue b' = cs"
    and queue_bound: "wf b \<Longrightarrow> length (queue b) \<le> cap"
begin

fun put_all :: "'e list \<Rightarrow> 'b \<Rightarrow> 'b res" where
  "put_all [] b = Inr b"
| "put_all (c # cs) b = bind_res (put c b) (\<lambda>b1. put_all cs b1)"

lemma put_all_spec: "wf b \<Longrightarrow> \<exists>b'. put_all cs b = Inr b' \<and> wf b' \<and> queue b' = keep_last cap (queue b @ cs)"
proof (induction cs arbitrary: b)
  case Nil
  then show ?case using queue_bound by (simp add: keep_last_short)
next
  case (Cons c cs)
  obtain b1 where b1: "put c b = Inr b1" "wf b1" "queue b1 = keep_last cap (queue b @ [c])"
    using put_accepts [OF Cons.prems] by blast
  obtain b' where "put_all cs b1 = Inr b'" "wf b'" "queue b' = keep_last cap (queue b1 @ cs)"
    using Cons.IH [OF b1(2)] by blast
  with b1 show ?case by (simp add: keep_last_append)
qed

fun get_all :: "nat \<Rightarrow> 'b \<Rightarrow> ('e list \<times> 'b) res" where
  "get_all 0 b = Inr ([], b)"
| "get_all (Suc n) b = bind_res (get b) (\<lambda>(c, b1).
     case c of None \<Rightarrow> Inr ([], b1) | Some x \<Rightarrow> bind_res (get_all n b1) (\<lambda>(xs, b2). Inr (x # xs, b2)))"

lemma get_all_spec: "wf b \<Longrightarrow> \<exists>b'. get_all n b = Inr (take n (queue b), b') \<and> wf b' \<and> queue b' = drop n (queue b)"
proof (induction n arbitrary: b)
  case 0
  then show ?case by simp
next
  case (Suc n)
  show ?case
  proof (cases "queue b")
    case Nil
    with Suc.prems show ?thesis by (simp add: get_empty)
  next
    case (Cons c cs)
    obtain b1 where b1: "get b = Inr (Some c, b1)" "wf b1" "queue b1 = cs" using get_first [OF Suc.prems Cons] by blast
    with Suc.IH [OF b1(2)] Cons show ?thesis by auto
  qed
qed

lemma put_then_get:
  assumes "wf b"
  shows "\<exists>b1 b2. put_all cs b = Inr b1 \<and> get_all cap b1 = Inr (keep_last cap (queue b @ cs), b2) \<and> queue b2 = []"
proof -
  obtain b1 where b1: "put_all cs b = Inr b1" "wf b1" "queue b1 = keep_last cap (queue b @ cs)"
    using put_all_spec [OF assms] by blast
  obtain b2 where "get_all cap b1 = Inr (take cap (queue b1), b2)" "queue b2 = drop cap (queue b1)"
    using get_all_spec [OF b1(2)] by blast
  with b1 length_keep_last [of cap "queue b @ cs"] show ?thesis by simp
qed

end

section \<open>The ring buffer is such a queue\<close>

lemma ring_step:
  assumes "unat (x :: u8) < 64"
  shows "unat ((x + 1) mod BufferSize) = (if unat x = 63 then 0 else unat x + 1)"
proof -
  have "unat (x + 1) = unat x + 1" using assms by (simp add: unat_word_ariths)
  then have "unat ((x + 1) mod BufferSize) = (unat x + 1) mod 64" by (simp add: BufferSize_def unat_mod)
  with assms show ?thesis by auto
qed

lemma ring_index:
  fixes s k :: nat
  assumes "s < 64" "k < 64"
  shows "(s + k) mod 64 = (if s + k < 64 then s + k else s + k - 64)"
  using assms by (simp add: mod_if)

lemma buffer_end:
  assumes "buffer_ok b"
  shows "buffer_count b < 64" "unat (cb_end b) = (unat (cb_start b) + buffer_count b) mod 64"
    "buffer_count b = 0 \<longleftrightarrow> cb_start b = cb_end b"
proof -
  have b: "unat (cb_start b) < 64" "unat (cb_end b) < 64" using assms by (simp_all add: buffer_ok_def)
  have c: "buffer_count b = (if unat (cb_start b) \<le> unat (cb_end b) then unat (cb_end b) - unat (cb_start b)
      else unat (cb_end b) + 64 - unat (cb_start b))"
    using b by (auto simp: buffer_count_def mod_if)
  show "buffer_count b < 64" by (simp add: buffer_count_def)
  show "unat (cb_end b) = (unat (cb_start b) + buffer_count b) mod 64" using b by (auto simp: c)
  show "buffer_count b = 0 \<longleftrightarrow> cb_start b = cb_end b" using b by (auto simp: c word_unat_eq_iff)
qed

text \<open>A buffer is given by its first index, its number of characters and their places.\<close>

lemma contents_eqI:
  assumes "buffer_ok b" "n < 64" "unat (cb_end b) = (unat (cb_start b) + n) mod 64" "length xs = n"
    "\<And>k. k < n \<Longrightarrow> cb_ring_buffer b ! ((unat (cb_start b) + k) mod 64) = xs ! k"
  shows "contents b = xs"
proof -
  have s: "unat (cb_start b) < 64" using assms(1) by (simp add: buffer_ok_def)
  have "buffer_count b = n"
    using assms(2,3) s ring_index [OF s assms(2)] by (auto simp: buffer_count_def mod_if split: if_splits)
  with assms(4,5) show ?thesis by (auto simp: contents_def intro: nth_equalityI)
qed

lemma contents_nth:
  "k < buffer_count b \<Longrightarrow> contents b ! k = cb_ring_buffer b ! ((unat (cb_start b) + k) mod 64)"
  "length (contents b) = buffer_count b"
  by (simp_all add: contents_def)

lemma put_ring:
  assumes ok: "buffer_ok b"
  shows "\<exists>b'. buffer_char c b = Inr b' \<and> buffer_ok b' \<and> contents b' = keep_last 63 (contents b @ [c])"
proof -
  define s n where "s = unat (cb_start b)" and "n = buffer_count b"
  have s: "s < 64" and e: "unat (cb_end b) < 64" and len: "length (cb_ring_buffer b) = 64"
    using ok by (simp_all add: buffer_ok_def s_def)
  note be = buffer_end [OF ok, folded s_def n_def]
  note cn = contents_nth(1) [of _ b, folded s_def n_def] contents_nth(2) [of b, folded n_def]
  define ring where "ring = (cb_ring_buffer b)[(s + n) mod 64 := c]"
  have ring: "ring ! ((s + k) mod 64) = (if k = n then c else contents b ! k)" if "k \<le> n" for k
  proof -
    have "(s + k) mod 64 = (s + n) mod 64 \<longleftrightarrow> k = n"
      using that be(1) s by (auto simp: ring_index split: if_splits)
    then show ?thesis using cn(1) [of k] that len by (auto simp: ring_def)
  qed
  have e': "unat ((cb_end b + 1) mod BufferSize) = (s + (n + 1)) mod 64"
    using ring_step [OF e] be s by (auto simp: ring_index mod_if split: if_splits)
  define b2 where "b2 = b\<lparr>cb_ring_buffer := ring, cb_end := (cb_end b + 1) mod BufferSize\<rparr>"
  have put: "buffer_char c b = Inr (if cb_end b2 = cb_start b2 then b2\<lparr>cb_start := (cb_start b2 + 1) mod BufferSize\<rparr> else b2)"
    using e len be(2) by (simp add: buffer_char_def Let_def b2_def ring_def)
  have e2: "unat (cb_end b2) = (s + (n + 1)) mod 64" "unat (cb_end b2) < 64" "unat (cb_start b2) = s"
    using e' by (simp_all add: b2_def s_def)
  have full: "cb_end b2 = cb_start b2 \<longleftrightarrow> n = 63"
    using e2 s be(1) by (auto simp: word_unat_eq_iff ring_index mod_if split: if_splits)
  show ?thesis
  proof (cases "n = 63")
    case False
    have "contents b2 = contents b @ [c]"
      using False be(1) ring cn(2) s e2 len
      by (intro contents_eqI [of b2 "n + 1"]) (auto simp: buffer_ok_def b2_def ring_def nth_append s_def)
    moreover have "buffer_ok b2" using e2 s len by (simp add: buffer_ok_def b2_def ring_def)
    ultimately show ?thesis using False put full be(1) cn(2) by (simp add: keep_last_short)
  next
    case True
    define b3 where "b3 = b2\<lparr>cb_start := (cb_start b2 + 1) mod BufferSize\<rparr>"
    have s3: "unat (cb_start b3) = (s + 1) mod 64"
      using ring_step [of "cb_start b2"] e2(3) s by (auto simp: b3_def ring_index)
    have ok3: "buffer_ok b3" using s3 e2 len by (simp add: buffer_ok_def b3_def b2_def ring_def)
    have "contents b3 = tl (contents b) @ [c]"
    proof (rule contents_eqI [OF ok3, of 63])
      have "(s + (n + 1)) mod 64 = ((s + 1) mod 64 + 63) mod 64" using True by (simp add: mod_add_left_eq)
      then show "unat (cb_end b3) = (unat (cb_start b3) + 63) mod 64" using e2(1) s3 by (simp add: b3_def)
      fix k :: nat assume k: "k < 63"
      have "cb_ring_buffer b3 ! ((unat (cb_start b3) + k) mod 64) = ring ! ((s + (k + 1)) mod 64)"
        using s3 by (simp add: b3_def b2_def mod_add_left_eq add.assoc)
      also have "\<dots> = (tl (contents b) @ [c]) ! k"
        using ring [of "k + 1"] k True cn(2) by (auto simp: nth_append nth_tl)
      finally show "cb_ring_buffer b3 ! ((unat (cb_start b3) + k) mod 64) = (tl (contents b) @ [c]) ! k" .
    qed (use True cn(2) in simp_all)
    moreover have "keep_last 63 (contents b @ [c]) = tl (contents b) @ [c]"
      using True cn(2) by (simp add: keep_last_def drop_Suc)
    ultimately show ?thesis using True put full ok3 by (simp add: b3_def)
  qed
qed

lemma get_ring:
  assumes ok: "buffer_ok b"
  shows "contents b = [] \<Longrightarrow> read_char b = Inr (None, b)"
    and "contents b = c # cs \<Longrightarrow> \<exists>b'. read_char b = Inr (Some c, b') \<and> buffer_ok b' \<and> contents b' = cs"
proof -
  define s n where "s = unat (cb_start b)" and "n = buffer_count b"
  have s: "s < 64" and len: "length (cb_ring_buffer b) = 64" using ok by (simp_all add: buffer_ok_def s_def)
  note be = buffer_end [OF ok, folded s_def n_def]
  note cn = contents_nth(1) [of _ b, folded s_def n_def] contents_nth(2) [of b, folded n_def]
  show "contents b = [] \<Longrightarrow> read_char b = Inr (None, b)"
    using be(3) cn(2) by (simp add: read_char_def)
  assume c: "contents b = c # cs"
  then have n: "n = Suc (length cs)" using cn(2) by simp
  define b' where "b' = b\<lparr>cb_start := (cb_start b + 1) mod BufferSize\<rparr>"
  have s': "unat (cb_start b') = (s + 1) mod 64"
    using ring_step [of "cb_start b"] s by (auto simp: b'_def ring_index s_def [symmetric])
  have "cb_ring_buffer b ! s = c" using cn(1) [of 0] c n s by simp
  then have "read_char b = Inr (Some c, b')"
    using be(3) n s len by (simp add: read_char_def b'_def s_def)
  moreover have ok': "buffer_ok b'" using ok s' by (simp add: buffer_ok_def b'_def)
  moreover have "contents b' = cs"
  proof (rule contents_eqI [OF ok', of "length cs"])
    show "length cs < 64" using be(1) n by simp
    show "unat (cb_end b') = (unat (cb_start b') + length cs) mod 64"
      using be(2) n s' by (simp add: b'_def mod_add_left_eq add.assoc)
    fix k assume k: "k < length cs"
    then show "cb_ring_buffer b' ! ((unat (cb_start b') + k) mod 64) = cs ! k"
      using cn(1) [of "k + 1"] n s' c by (simp add: b'_def mod_add_left_eq add.assoc)
  qed simp
  ultimately show "\<exists>b'. read_char b = Inr (Some c, b') \<and> buffer_ok b' \<and> contents b' = cs" by blast
qed

interpretation ring: dropping_queue buffer_char read_char contents buffer_ok 63
proof unfold_locales
  fix b :: CharBuffer assume ok: "buffer_ok b"
  show "\<exists>b'. buffer_char c b = Inr b' \<and> buffer_ok b' \<and> contents b' = keep_last 63 (contents b @ [c])" for c
    by (rule put_ring [OF ok])
  show "contents b = [] \<Longrightarrow> read_char b = Inr (None, b)" by (rule get_ring(1) [OF ok])
  show "contents b = c # cs \<Longrightarrow> \<exists>b'. read_char b = Inr (Some c, b') \<and> buffer_ok b' \<and> contents b' = cs" for c cs
    by (rule get_ring(2) [OF ok])
  show "length (contents b) \<le> 63" using buffer_end(1) [OF ok] by (simp add: contents_nth(2))
qed

text \<open>The driver asks only whether the buffer is empty; the number itself is wrong.\<close>

lemma elements_in_buffer_zero:
  assumes ok: "buffer_ok b"
  shows "elements_in_buffer b = 0 \<longleftrightarrow> contents b = []"
proof -
  have b: "unat (cb_start b) < 64" "unat (cb_end b) < 64" using ok by (simp_all add: buffer_ok_def)
  have "contents b = [] \<longleftrightarrow> cb_start b = cb_end b"
    using buffer_end(3) [OF ok] contents_nth(2) [of b] by auto
  moreover have "BufferSize - cb_start b + cb_end b + 1 \<noteq> 0" if "cb_end b < cb_start b"
  proof
    assume "BufferSize - cb_start b + cb_end b + 1 = 0"
    then have "cb_start b = BufferSize + cb_end b + 1" by (simp add: algebra_simps)
    then have "unat (cb_start b) = unat (BufferSize + cb_end b + 1)" by simp
    then have "unat (cb_start b) = unat (cb_end b) + 65" using b by (simp add: BufferSize_def unat_word_ariths)
    with b show False by simp
  qed
  ultimately show ?thesis by (auto simp: elements_in_buffer_def)
qed

lemma elements_in_buffer_wrong:
  "bind_res (buffer_char 65 CharBuffer_init) (\<lambda>b. Inr (length (contents b), elements_in_buffer b)) = Inr (1, 255)"
  by (simp add: buffer_char_def CharBuffer_init_def BufferSize_def elements_in_buffer_def contents_def buffer_count_def)

lemma CharBuffer_init_ok: "buffer_ok CharBuffer_init" "contents CharBuffer_init = []"
  by (simp_all add: buffer_ok_def CharBuffer_init_def contents_def buffer_count_def)

text \<open>The operations one after the other, as the driver calls them.\<close>

fun buffer_chars :: "u8 list \<Rightarrow> CharBuffer \<Rightarrow> CharBuffer res" where
  "buffer_chars [] b = Inr b"
| "buffer_chars (c # cs) b = bind_res (buffer_char c b) (\<lambda>b1. buffer_chars cs b1)"

fun read_chars :: "nat \<Rightarrow> CharBuffer \<Rightarrow> (u8 list \<times> CharBuffer) res" where
  "read_chars 0 b = Inr ([], b)"
| "read_chars (Suc n) b = bind_res (read_char b) (\<lambda>(c, b1).
     case c of None \<Rightarrow> Inr ([], b1) | Some x \<Rightarrow> bind_res (read_chars n b1) (\<lambda>(xs, b2). Inr (x # xs, b2)))"

lemma chars_all: "buffer_chars cs b = ring.put_all cs b" "read_chars n b = ring.get_all n b"
proof -
  show "buffer_chars cs b = ring.put_all cs b" by (induction cs arbitrary: b) (auto intro: bind_res_cong)
  show "read_chars n b = ring.get_all n b" by (induction n arbitrary: b) (auto intro!: bind_res_cong split: option.splits)
qed

text \<open>C12: The ring buffer is a queue that keeps the newest 63 characters: after any characters
  are put into a well-formed buffer, reading gives back the last 63 of what it held and was
  given, in order, and leaves it empty; and \<open>elements_in_buffer\<close> is zero exactly when the
  buffer is empty.\<close>

theorem char_buffer_queue:
  assumes "buffer_ok b"
  shows "\<exists>b1 b2. buffer_chars cs b = Inr b1 \<and> buffer_ok b1 \<and>
    read_chars 63 b1 = Inr (keep_last 63 (contents b @ cs), b2) \<and> contents b2 = [] \<and>
    (elements_in_buffer b1 = 0 \<longleftrightarrow> contents b = [] \<and> cs = [])"
proof -
  obtain b1 where b1: "ring.put_all cs b = Inr b1" "buffer_ok b1" "contents b1 = keep_last 63 (contents b @ cs)"
    using ring.put_all_spec [OF assms] by blast
  have "contents b1 = [] \<longleftrightarrow> contents b = [] \<and> cs = []" unfolding b1(3) by (simp add: keep_last_Nil)
  with ring.put_then_get [OF assms, of cs] b1 elements_in_buffer_zero [OF b1(2)] show ?thesis
    unfolding chars_all by auto
qed

theorem char_buffer_queue_witness:
  "\<exists>b1 b2. buffer_chars [72, 105] CharBuffer_init = Inr b1 \<and> read_chars 63 b1 = Inr ([72, 105], b2) \<and> contents b2 = []"
  using char_buffer_queue [OF CharBuffer_init_ok(1), of "[72, 105]"] CharBuffer_init_ok(2)
  by (auto simp: keep_last_def)

end
