(* ===== verification/Uart.thy ===== *)
theory Uart
  imports Memory_Map Machine CharBuffer
begin

text \<open>
  The PL011 driver (\<open>src/src/uart.cpp\<close>): its device-tree handler, the baud rate, set-up,
  the polled and the buffered transmission of characters, and the interrupt handler. The
  registers are reached through the machine; a polling loop that the device never ends is
  \<open>None\<close>.
\<close>

section \<open>State\<close>

record Uart =
  ua_uart :: u64
  ua_interrupts :: Interrupts
  ua_clock_frequency :: u32
  ua_rx_buffer :: CharBuffer
  ua_tx_buffer :: CharBuffer
  ua_irqs_ready :: bool

text \<open>Offsets of the registers in \<open>MMDR_UART\<close>.\<close>

definition DR :: u64 where "DR = 0x00"
definition FR :: u64 where "FR = 0x18"
definition IBRD :: u64 where "IBRD = 0x24"
definition FBRD :: u64 where "FBRD = 0x28"
definition LCR_H :: u64 where "LCR_H = 0x2C"
definition CR :: u64 where "CR = 0x30"
definition IMSC :: u64 where "IMSC = 0x38"
definition MIS :: u64 where "MIS = 0x40"
definition ICR :: u64 where "ICR = 0x44"
definition DMACR :: u64 where "DMACR = 0x48"

definition BAUD_RATE :: u32 where "BAUD_RATE = 115200"
definition FR_TXFF :: u32 where "FR_TXFF = push_bit 5 1"
definition FR_RXFE :: u32 where "FR_RXFE = push_bit 4 1"
definition CR_RXE :: u32 where "CR_RXE = push_bit 9 1"
definition CR_TXE :: u32 where "CR_TXE = push_bit 8 1"
definition CR_UARTEN :: u32 where "CR_UARTEN = push_bit 0 1"
definition LCR_H_FEN :: u32 where "LCR_H_FEN = push_bit 4 1"
definition DMACR_TXDMAE :: u32 where "DMACR_TXDMAE = push_bit 1 1"
definition DMACR_RXDMAE :: u32 where "DMACR_RXDMAE = push_bit 0 1"
definition IMSC_TXIM_BIT :: u32 where "IMSC_TXIM_BIT = push_bit 5 1"
definition IMSC_RXIM_BIT :: u32 where "IMSC_RXIM_BIT = push_bit 4 1"
definition MIS_TX :: u32 where "MIS_TX = push_bit 5 1"
definition MIS_RX :: u32 where "MIS_RX = push_bit 4 1"

text \<open>\<open>uart->R\<close>, read and written; \<open>uart\<close> may be null.\<close>

definition uart_read :: "'h Machine \<Rightarrow> Uart \<Rightarrow> u64 \<Rightarrow> 'h \<Rightarrow> (u32 \<times> 'h) res" where
  "uart_read mc u off h =
     (if ua_uart u = 0 then Inl (Fault off) else Inr (mc_read32 mc (ua_uart u + off) h))"

definition uart_write :: "'h Machine \<Rightarrow> Uart \<Rightarrow> u64 \<Rightarrow> u32 \<Rightarrow> 'h \<Rightarrow> 'h res" where
  "uart_write mc u off v h =
     (if ua_uart u = 0 then Inl (Fault off) else Inr (mc_write32 mc (ua_uart u + off) v h))"

section \<open>Device tree\<close>

fun uart_disabled :: "mem \<Rightarrow> PropFrame list \<Rightarrow> bool res" where
  "uart_disabled m [] = Inr False"
| "uart_disabled m (p # ps) =
     bind_res (str_is m (pf_name p) ''status'') (\<lambda>b.
     bind_res (if b then bind_res (str_is m (pf_value p) ''okay'') (\<lambda>ok. Inr (\<not> ok)) else Inr False) (\<lambda>off.
     if off then Inr True else uart_disabled m ps))"

fun uart_reg_pairs ::
    "mem \<Rightarrow> NodeFrame list \<Rightarrow> nat \<Rightarrow> NodeCells \<Rightarrow> u32 \<Rightarrow> nat \<Rightarrow> nat \<Rightarrow> u64 \<Rightarrow> MemoryMap \<times> Uart \<Rightarrow> (MemoryMap \<times> Uart) comp" where
  "uart_reg_pairs m frames node cells rp_size_bytes j 0 current_value st = Some (Inr st)"
| "uart_reg_pairs m frames node cells rp_size_bytes j (Suc n) current_value st =
     bind_comp (Some (read_reg_pair m cells current_value)) (\<lambda>rp.
     bind_comp
       (if j = 0
        then bind_comp (translate_address m frames node (rp_address rp)) (\<lambda>phys.
             bind_comp (Some (record_device_region (fst st) phys (rp_length rp))) (\<lambda>mm.
             Some (Inr (mm, (snd st)\<lparr>ua_uart := phys\<rparr>))))
        else Some (Inr st)) (\<lambda>st1.
     uart_reg_pairs m frames node cells rp_size_bytes (j + 1) n (current_value + ucast rp_size_bytes) st1))"

definition uart_reg :: "mem \<Rightarrow> NodeFrame list \<Rightarrow> nat \<Rightarrow> NodeCells \<Rightarrow> PropFrame \<Rightarrow> MemoryMap \<times> Uart \<Rightarrow> (MemoryMap \<times> Uart) comp" where
  "uart_reg m frames node cells prop st =
     (let rp_size_bytes = cells_byte_size cells in
      if rp_size_bytes = 0 then Some (Inl DivZero)
      else
        let num_reg_pairs = pf_len prop div rp_size_bytes in
        bind_comp (Some (kassert (pf_len prop mod rp_size_bytes = 0) ''Invalid reg length'')) (\<lambda>_.
        uart_reg_pairs m frames node cells rp_size_bytes 0 (unat num_reg_pairs) (pf_value prop) st))"

fun register_intids :: "mem \<Rightarrow> PropFrame \<Rightarrow> u32 \<Rightarrow> u32 \<Rightarrow> nat \<Rightarrow> Interrupts \<Rightarrow> Interrupts res" where
  "register_intids m prop interrupt_cells j 0 ints = Inr ints"
| "register_intids m prop interrupt_cells j (Suc n) ints =
     bind_res (read_interrupt_id m prop j interrupt_cells) (\<lambda>intid.
     bind_res (register_intid ints intid) (\<lambda>ints1.
     register_intids m prop interrupt_cells (j + 1) n ints1))"

definition read_intids :: "mem \<Rightarrow> NodeMapping list \<Rightarrow> NodeCells \<Rightarrow> PropFrame \<Rightarrow> Interrupts \<Rightarrow> Interrupts res" where
  "read_intids m maps cells prop ints =
     (let ints1 = interrupts_reset ints in
      bind_res (lookup_interrupt_cells maps cells) (\<lambda>interrupt_cells.
      let unit_bytes = ucast interrupt_cells * 4 :: u64 in
      if unit_bytes = 0 then Inl DivZero
      else
        let num_interrupts = ucast (ucast (pf_len prop) div unit_bytes) :: u32 in
        bind_res (kassert (num_interrupts \<le> Interrupts_Capacity) ''precond'') (\<lambda>_.
        register_intids m prop interrupt_cells 0 (unat num_interrupts) ints1)))"

definition uart_prop ::
    "mem \<Rightarrow> NodeMapping list \<Rightarrow> NodeFrame list \<Rightarrow> nat \<Rightarrow> PropFrame \<Rightarrow> MemoryMap \<times> Uart \<Rightarrow> (MemoryMap \<times> Uart) comp" where
  "uart_prop m maps frames node prop st =
     bind_comp (Some (str_is m (pf_name prop) ''reg'')) (\<lambda>reg.
     if reg then uart_reg m frames node (nf_parent_cells (frames ! node)) prop st
     else
     bind_comp (Some (str_is m (pf_name prop) ''interrupts'')) (\<lambda>ints.
     if ints
     then bind_comp (Some (read_intids m maps (nf_own_cells (frames ! node)) prop (ua_interrupts (snd st)))) (\<lambda>i.
          Some (Inr (fst st, (snd st)\<lparr>ua_interrupts := i\<rparr>)))
     else
     bind_comp (Some (str_is m (pf_name prop) ''clocks'')) (\<lambda>clocks.
     if clocks
     then bind_comp (Some (read_u32 m (pf_value prop))) (\<lambda>clock_phandle.
          bind_comp (lookup_clock_frequency maps clock_phandle) (\<lambda>f.
          Some (Inr (fst st, (snd st)\<lparr>ua_clock_frequency := f\<rparr>))))
     else Some (Inr st))))"

fun uart_props ::
    "mem \<Rightarrow> NodeMapping list \<Rightarrow> NodeFrame list \<Rightarrow> nat \<Rightarrow> PropFrame list \<Rightarrow> MemoryMap \<times> Uart \<Rightarrow> (MemoryMap \<times> Uart) comp" where
  "uart_props m maps frames node [] st = Some (Inr st)"
| "uart_props m maps frames node (p # ps) st =
     bind_comp (uart_prop m maps frames node p st) (\<lambda>st1. uart_props m maps frames node ps st1)"

definition uart_dt_parse ::
    "mem \<Rightarrow> NodeMapping list \<Rightarrow> NodeFrame list \<Rightarrow> nat \<Rightarrow> MemoryMap \<times> Uart \<Rightarrow> (MemoryMap \<times> Uart) comp" where
  "uart_dt_parse m maps frames node st =
     (let f = frames ! node in
      bind_comp (Some (uart_disabled m (node_props f))) (\<lambda>disabled.
      if disabled then Some (Inr st)
      else
      bind_comp (Some (nprops_overrun f)) (\<lambda>_.
      uart_props m maps frames node (node_props f) st)))"

definition uart_intid :: "Uart \<Rightarrow> u32 res" where
  "uart_intid u = interrupts_get (ua_interrupts u) 0"

section \<open>Set-up\<close>

definition calculate_divisors :: "Uart \<Rightarrow> (u32 \<times> u32) res" where
  "calculate_divisors u =
     bind_res (kassert (ua_clock_frequency u \<noteq> 0) ''precond'') (\<lambda>_.
     let divi = 4 * ua_clock_frequency u div BAUD_RATE in
     Inr (drop_bit 6 divi AND 0xffff, divi AND 0x3f))"

partial_function (option) pl011_wait_poll_tx_complete :: "'h Machine \<Rightarrow> Uart \<Rightarrow> 'h \<Rightarrow> 'h comp" where
  "pl011_wait_poll_tx_complete mc u h =
     bind_comp (Some (uart_read mc u FR h)) (\<lambda>vh.
     if fst vh AND FR_TXFF \<noteq> 0 then pl011_wait_poll_tx_complete mc u (snd vh) else Some (Inr (snd vh)))"

partial_function (option) pl011_wait_poll_rx_complete :: "'h Machine \<Rightarrow> Uart \<Rightarrow> 'h \<Rightarrow> 'h comp" where
  "pl011_wait_poll_rx_complete mc u h =
     bind_comp (Some (uart_read mc u FR h)) (\<lambda>vh.
     if fst vh AND FR_RXFE \<noteq> 0 then pl011_wait_poll_rx_complete mc u (snd vh) else Some (Inr (snd vh)))"

text \<open>Read-modify-write of one register.\<close>

definition uart_modify :: "'h Machine \<Rightarrow> Uart \<Rightarrow> u64 \<Rightarrow> (u32 \<Rightarrow> u32) \<Rightarrow> 'h \<Rightarrow> 'h res" where
  "uart_modify mc u off f h =
     bind_res (uart_read mc u off h) (\<lambda>(v, h1). uart_write mc u off (f v) h1)"

definition toggle_imsc_mask :: "'h Machine \<Rightarrow> Uart \<Rightarrow> bool \<Rightarrow> u32 \<Rightarrow> 'h \<Rightarrow> 'h res" where
  "toggle_imsc_mask mc u on bits h =
     bind_res (kassert (ua_uart u \<noteq> 0) ''precond'') (\<lambda>_.
     uart_modify mc u IMSC (\<lambda>old_mask. if on then old_mask OR bits else old_mask AND NOT bits) h)"

definition pl011_toggle_tx_interrupts :: "'h Machine \<Rightarrow> Uart \<Rightarrow> bool \<Rightarrow> 'h \<Rightarrow> 'h res" where
  "pl011_toggle_tx_interrupts mc u on h = toggle_imsc_mask mc u on IMSC_TXIM_BIT h"

definition pl011_toggle_rx_interrupts :: "'h Machine \<Rightarrow> Uart \<Rightarrow> bool \<Rightarrow> 'h \<Rightarrow> 'h res" where
  "pl011_toggle_rx_interrupts mc u on h = toggle_imsc_mask mc u on IMSC_RXIM_BIT h"

definition uart_initialize :: "'h Machine \<Rightarrow> Uart \<Rightarrow> 'h \<Rightarrow> 'h comp" where
  "uart_initialize mc u h =
     bind_comp (Some (uart_modify mc u CR (\<lambda>v. v AND NOT (CR_RXE OR CR_TXE OR CR_UARTEN)) h)) (\<lambda>h1.
     bind_comp (pl011_wait_poll_tx_complete mc u h1) (\<lambda>h2.
     bind_comp (Some (uart_modify mc u LCR_H (\<lambda>v. v AND NOT LCR_H_FEN) h2)) (\<lambda>h3.
     bind_comp (Some (calculate_divisors u)) (\<lambda>(ibrd, fbrd).
     bind_comp (Some (uart_write mc u IBRD ibrd h3)) (\<lambda>h4.
     bind_comp (Some (uart_write mc u FBRD fbrd h4)) (\<lambda>h5.
     bind_comp (Some (pl011_toggle_rx_interrupts mc u True h5)) (\<lambda>h6.
     bind_comp (Some (uart_modify mc u DMACR (\<lambda>v. v AND NOT DMACR_RXDMAE) h6)) (\<lambda>h7.
     bind_comp (Some (uart_modify mc u DMACR (\<lambda>v. v AND NOT DMACR_TXDMAE) h7)) (\<lambda>h8.
     Some (uart_modify mc u CR (\<lambda>v. v OR CR_RXE OR CR_TXE OR CR_UARTEN) h8))))))))))"

definition signal_irqs_ready :: "Uart \<Rightarrow> Uart" where
  "signal_irqs_ready u = u\<lparr>ua_irqs_ready := True\<rparr>"

section \<open>Polled input and output\<close>

definition pl011_recv_sync :: "'h Machine \<Rightarrow> Uart \<Rightarrow> 'h \<Rightarrow> (u8 \<times> 'h) comp" where
  "pl011_recv_sync mc u h =
     bind_comp (Some (pl011_toggle_rx_interrupts mc u False h)) (\<lambda>h1.
     bind_comp (pl011_wait_poll_rx_complete mc u h1) (\<lambda>h2.
     bind_comp (Some (uart_read mc u DR h2)) (\<lambda>(c, h3).
     bind_comp (Some (pl011_toggle_rx_interrupts mc u True h3)) (\<lambda>h4.
     Some (Inr (ucast c, h4))))))"

text \<open>\<open>'\n'\<close> and \<open>'\r'\<close>.\<close>

definition NL :: u8 where "NL = 10"
definition CRET :: u8 where "CRET = 13"

text \<open>The body that the two polled routines share: a carriage return before a newline.\<close>

definition send_polled :: "'h Machine \<Rightarrow> Uart \<Rightarrow> u8 \<Rightarrow> 'h \<Rightarrow> 'h comp" where
  "send_polled mc u c h =
     bind_comp
       (if c = NL
        then bind_comp (Some (uart_write mc u DR (ucast CRET) h)) (\<lambda>h1. pl011_wait_poll_tx_complete mc u h1)
        else Some (Inr h)) (\<lambda>h2.
     bind_comp (Some (uart_write mc u DR (ucast c) h2)) (\<lambda>h3. pl011_wait_poll_tx_complete mc u h3))"

definition pl011_send_char_sync :: "'h Machine \<Rightarrow> Uart \<Rightarrow> u8 \<Rightarrow> 'h \<Rightarrow> 'h comp" where
  "pl011_send_char_sync mc u c h =
     bind_comp (pl011_wait_poll_tx_complete mc u h) (\<lambda>h1. send_polled mc u c h1)"

partial_function (option) send_str_sync_loop :: "'h Machine \<Rightarrow> Uart \<Rightarrow> mem \<Rightarrow> u64 \<Rightarrow> 'h \<Rightarrow> 'h comp" where
  "send_str_sync_loop mc u m current h =
     bind_comp (Some (load8 m current)) (\<lambda>c.
     if c \<noteq> 0
     then bind_comp (send_polled mc u c h) (\<lambda>h1. send_str_sync_loop mc u m (current + 1) h1)
     else Some (Inr h))"

definition pl011_send_str_sync :: "'h Machine \<Rightarrow> Uart \<Rightarrow> mem \<Rightarrow> u64 \<Rightarrow> 'h \<Rightarrow> 'h comp" where
  "pl011_send_str_sync mc u m str h =
     bind_comp (pl011_wait_poll_tx_complete mc u h) (\<lambda>h1. send_str_sync_loop mc u m str h1)"

section \<open>Buffered output\<close>

partial_function (option) pl011_drain_tx :: "'h Machine \<Rightarrow> Uart \<Rightarrow> 'h \<Rightarrow> (Uart \<times> 'h) comp" where
  "pl011_drain_tx mc u h =
     bind_comp (Some (uart_read mc u FR h)) (\<lambda>vh.
     if fst vh AND FR_TXFF = 0
     then bind_comp (Some (read_char (ua_tx_buffer u))) (\<lambda>cb.
          case fst cb of
            None \<Rightarrow> Some (Inr (u, snd vh))
          | Some c \<Rightarrow>
              bind_comp (Some (uart_write mc u DR (ucast c) (snd vh))) (\<lambda>h2.
              pl011_drain_tx mc (u\<lparr>ua_tx_buffer := snd cb\<rparr>) h2))
     else Some (Inr (u, snd vh)))"

partial_function (option) drain_sync_loop :: "'h Machine \<Rightarrow> Uart \<Rightarrow> 'h \<Rightarrow> (Uart \<times> 'h) comp" where
  "drain_sync_loop mc u h =
     (if elements_in_buffer (ua_tx_buffer u) \<noteq> 0
      then bind_comp (pl011_wait_poll_tx_complete mc u h) (\<lambda>h1.
           bind_comp (pl011_drain_tx mc u h1) (\<lambda>uh. drain_sync_loop mc (fst uh) (snd uh)))
      else Some (Inr (u, h)))"

definition uart_put :: "u8 \<Rightarrow> Uart \<Rightarrow> Uart res" where
  "uart_put c u = bind_res (buffer_char c (ua_tx_buffer u)) (\<lambda>b. Inr (u\<lparr>ua_tx_buffer := b\<rparr>))"

definition pl011_send_char_async :: "'h Machine \<Rightarrow> u8 \<Rightarrow> Uart \<times> 'h \<Rightarrow> (Uart \<times> 'h) comp" where
  "pl011_send_char_async mc c uh =
     bind_comp (Some (if c = NL then uart_put CRET (fst uh) else Inr (fst uh))) (\<lambda>u1.
     bind_comp (Some (uart_put c u1)) (\<lambda>u2.
     bind_comp (pl011_drain_tx mc u2 (snd uh)) (\<lambda>(u3, h3).
     if elements_in_buffer (ua_tx_buffer u3) = 0
     then bind_comp (Some (pl011_toggle_tx_interrupts mc u3 False h3)) (\<lambda>h4. Some (Inr (u3, h4)))
     else if ua_irqs_ready u3
     then bind_comp (Some (pl011_toggle_tx_interrupts mc u3 True h3)) (\<lambda>h4. Some (Inr (u3, h4)))
     else drain_sync_loop mc u3 h3)))"

partial_function (option) pl011_send_str_async :: "'h Machine \<Rightarrow> mem \<Rightarrow> u64 \<Rightarrow> Uart \<times> 'h \<Rightarrow> (Uart \<times> 'h) comp" where
  "pl011_send_str_async mc m current uh =
     bind_comp (Some (load8 m current)) (\<lambda>c.
     if c \<noteq> 0
     then bind_comp (if c = NL then pl011_send_char_async mc CRET uh else Some (Inr uh)) (\<lambda>uh1.
          bind_comp (pl011_send_char_async mc c uh1) (\<lambda>uh2.
          pl011_send_str_async mc m (current + 1) uh2))
     else Some (Inr uh))"

partial_function (option) print_buffer_loop ::
    "'h Machine \<Rightarrow> CharBuffer \<Rightarrow> u8 \<Rightarrow> Uart \<times> 'h \<Rightarrow> (Uart \<times> 'h) comp" where
  "print_buffer_loop mc b current uh =
     (if unat current < length (cb_ring_buffer b)
      then bind_comp (pl011_send_char_async mc (cb_ring_buffer b ! unat current) uh) (\<lambda>uh1.
           let nxt = (current + 1) mod BufferSize in
           if nxt \<noteq> cb_end b then print_buffer_loop mc b nxt uh1 else Some (Inr uh1))
      else Some (Inl (OutOfBounds (unat current))))"

definition print_buffer :: "'h Machine \<Rightarrow> CharBuffer \<Rightarrow> Uart \<times> 'h \<Rightarrow> (Uart \<times> 'h) comp" where
  "print_buffer mc b uh =
     (if cb_start b = cb_end b then Some (Inr uh)
      else
        bind_comp (pl011_send_str_async mc (lit ''Ring buffer content: '') 0 uh) (\<lambda>uh1.
        bind_comp (print_buffer_loop mc b (cb_start b) uh1) (\<lambda>uh2.
        pl011_send_char_async mc NL uh2)))"

section \<open>Interrupts\<close>

definition handle_tx :: "'h Machine \<Rightarrow> Uart \<Rightarrow> 'h \<Rightarrow> (Uart \<times> 'h) comp" where
  "handle_tx mc u h =
     bind_comp (pl011_drain_tx mc u h) (\<lambda>(u1, h1).
     if elements_in_buffer (ua_tx_buffer u1) = 0
     then bind_comp (Some (pl011_toggle_tx_interrupts mc u1 False h1)) (\<lambda>h2. Some (Inr (u1, h2)))
     else Some (Inr (u1, h1)))"

definition handle_rx :: "'h Machine \<Rightarrow> Uart \<Rightarrow> 'h \<Rightarrow> (Uart \<times> 'h) comp" where
  "handle_rx mc u h =
     bind_comp (Some (uart_read mc u DR h)) (\<lambda>(c, h1).
     bind_comp (Some (buffer_char (ucast c) (ua_rx_buffer u))) (\<lambda>b.
     print_buffer mc b (u\<lparr>ua_rx_buffer := b\<rparr>, h1)))"

definition pl011_handle_irq :: "'h Machine \<Rightarrow> Uart \<times> 'h \<Rightarrow> (Uart \<times> 'h) comp" where
  "pl011_handle_irq mc uh =
     bind_comp (Some (uart_read mc (fst uh) MIS (snd uh))) (\<lambda>(mis, h1).
     bind_comp (if mis AND MIS_TX \<noteq> 0 then handle_tx mc (fst uh) h1 else Some (Inr (fst uh, h1))) (\<lambda>(u2, h2).
     bind_comp (if mis AND MIS_RX \<noteq> 0 then handle_rx mc u2 h2 else Some (Inr (u2, h2))) (\<lambda>(u3, h3).
     bind_comp (Some (uart_write mc u3 ICR mis h3)) (\<lambda>h4. Some (Inr (u3, h4))))))"

end
