(* ===== verification/Uart_Send.thy ===== *)
theory Uart_Send
  imports Uart "HOL-Library.Sublist"
begin

text \<open>
  What the PL011 driver puts on the line. The device is described by what its reference
  manual says of the registers the driver touches (\<open>pl011\<close>): the characters that have been
  accepted so far, the interrupt mask, whether the transmit FIFO has room, and a bound on
  how long it stays full.
\<close>

section \<open>The device\<close>

record 'h PL011 =
  pl_line :: "'h \<Rightarrow> u8 list"
  pl_imsc :: "'h \<Rightarrow> u32"
  pl_room :: "'h \<Rightarrow> bool"
  pl_busy :: "'h \<Rightarrow> nat"

definition quiet :: "'h PL011 \<Rightarrow> 'h \<Rightarrow> 'h \<Rightarrow> bool" where
  "quiet d h h' \<longleftrightarrow> pl_line d h' = pl_line d h \<and> pl_imsc d h' = pl_imsc d h"

definition pl011 :: "'h Machine \<Rightarrow> u64 \<Rightarrow> 'h PL011 \<Rightarrow> bool" where
  "pl011 mc base d \<longleftrightarrow> base \<noteq> 0 \<and>
     (\<forall>h. let (v, h') = mc_read32 mc (base + FR) h in
        quiet d h h' \<and> (v AND FR_TXFF = 0 \<longrightarrow> pl_room d h') \<and>
        (v AND FR_TXFF \<noteq> 0 \<longrightarrow> \<not> pl_room d h \<and> pl_busy d h' < pl_busy d h)) \<and>
     (\<forall>h c. pl_room d h \<longrightarrow> pl_line d (mc_write32 mc (base + DR) c h) = pl_line d h @ [ucast c] \<and>
        pl_imsc d (mc_write32 mc (base + DR) c h) = pl_imsc d h) \<and>
     (\<forall>h. fst (mc_read32 mc (base + IMSC) h) = pl_imsc d h \<and> quiet d h (snd (mc_read32 mc (base + IMSC) h))) \<and>
     (\<forall>h v. pl_imsc d (mc_write32 mc (base + IMSC) v h) = v \<and>
        pl_line d (mc_write32 mc (base + IMSC) v h) = pl_line d h) \<and>
     (\<forall>h. quiet d h (snd (mc_read32 mc (base + DR) h)) \<and> quiet d h (snd (mc_read32 mc (base + MIS) h))) \<and>
     (\<forall>h v. quiet d h (mc_write32 mc (base + ICR) v h))"

lemma pl011D:
  assumes "pl011 mc base d"
  shows "base \<noteq> 0" "quiet d h (snd (mc_read32 mc (base + FR) h))"
    "fst (mc_read32 mc (base + FR) h) AND FR_TXFF = 0 \<Longrightarrow> pl_room d (snd (mc_read32 mc (base + FR) h))"
    "fst (mc_read32 mc (base + FR) h) AND FR_TXFF \<noteq> 0 \<Longrightarrow>
       \<not> pl_room d h \<and> pl_busy d (snd (mc_read32 mc (base + FR) h)) < pl_busy d h"
    "pl_room d h \<Longrightarrow> pl_line d (mc_write32 mc (base + DR) c h) = pl_line d h @ [ucast c]"
    "pl_room d h \<Longrightarrow> pl_imsc d (mc_write32 mc (base + DR) c h) = pl_imsc d h"
    "fst (mc_read32 mc (base + IMSC) h) = pl_imsc d h" "quiet d h (snd (mc_read32 mc (base + IMSC) h))"
    "pl_imsc d (mc_write32 mc (base + IMSC) v h) = v" "pl_line d (mc_write32 mc (base + IMSC) v h) = pl_line d h"
    "quiet d h (snd (mc_read32 mc (base + DR) h))" "quiet d h (snd (mc_read32 mc (base + MIS) h))"
    "quiet d h (mc_write32 mc (base + ICR) v h)"
  using assms unfolding pl011_def by (auto simp: split_beta Let_def)

lemma quiet_refl [simp]: "quiet d h h"
  by (simp add: quiet_def)

lemma quiet_trans: "quiet d h h1 \<Longrightarrow> quiet d h1 h2 \<Longrightarrow> quiet d h h2"
  by (simp add: quiet_def)

lemma char_on_line [simp]: "(ucast (ucast (c :: u8) :: u32) :: u8) = c"
  by (rule bit_word_eqI) (simp add: bit_simps)

section \<open>Polling\<close>

lemma wait_tx:
  assumes dev: "pl011 mc (ua_uart u) d"
  shows "\<exists>h'. pl011_wait_poll_tx_complete mc u h = Some (Inr h') \<and> pl_room d h' \<and> quiet d h h'"
proof (induction "pl_busy d h" arbitrary: h rule: less_induct)
  case less
  note D = pl011D [OF dev]
  let ?v = "fst (mc_read32 mc (ua_uart u + FR) h)" and ?h = "snd (mc_read32 mc (ua_uart u + FR) h)"
  have unf: "pl011_wait_poll_tx_complete mc u h =
      (if ?v AND FR_TXFF \<noteq> 0 then pl011_wait_poll_tx_complete mc u ?h else Some (Inr ?h))"
    using D(1) by (subst pl011_wait_poll_tx_complete.simps) (simp add: uart_read_def)
  show ?case
  proof (cases "?v AND FR_TXFF = 0")
    case True
    with unf D(2,3) [of h] show ?thesis by simp
  next
    case False
    with less [of ?h] D(4) [of h] obtain h' where
      "pl011_wait_poll_tx_complete mc u ?h = Some (Inr h')" "pl_room d h'" "quiet d ?h h'" by blast
    with unf False quiet_trans [OF D(2) [of h]] show ?thesis by auto
  qed
qed

text \<open>What a character is sent as.\<close>

definition crlf :: "u8 \<Rightarrow> u8 list" where
  "crlf c = (if c = NL then [CRET, NL] else [c])"

lemma send_polled_spec:
  assumes dev: "pl011 mc (ua_uart u) d" and room: "pl_room d h"
  shows "\<exists>h'. send_polled mc u c h = Some (Inr h') \<and> pl_room d h' \<and> pl_line d h' = pl_line d h @ crlf c \<and>
    pl_imsc d h' = pl_imsc d h"
proof -
  note D = pl011D [OF dev]
  have one: "\<exists>h'. bind_comp (Some (uart_write mc u DR (ucast c) h)) (\<lambda>h3. pl011_wait_poll_tx_complete mc u h3) = Some (Inr h') \<and>
      pl_room d h' \<and> pl_line d h' = pl_line d h @ [c] \<and> pl_imsc d h' = pl_imsc d h" if "pl_room d h" for c :: u8 and h
    using wait_tx [OF dev, of "mc_write32 mc (ua_uart u + DR) (ucast c) h"] D(1) D(5,6) [OF that, of "ucast c"]
    by (auto simp: uart_write_def quiet_def)
  show ?thesis
  proof (cases "c = NL")
    case True
    obtain h1 where h1: "bind_comp (Some (uart_write mc u DR (ucast CRET) h)) (\<lambda>h3. pl011_wait_poll_tx_complete mc u h3) = Some (Inr h1)"
      "pl_room d h1" "pl_line d h1 = pl_line d h @ [CRET]" "pl_imsc d h1 = pl_imsc d h"
      using one [OF room] by blast
    with one [OF h1(2), of c] True show ?thesis by (auto simp: send_polled_def crlf_def)
  next
    case False
    with one [OF room, of c] show ?thesis by (auto simp: send_polled_def crlf_def)
  qed
qed

lemma send_str_sync_loop_spec:
  assumes dev: "pl011 mc (ua_uart u) d"
  shows "cstring m p s \<Longrightarrow> pl_room d h \<Longrightarrow>
    \<exists>h'. send_str_sync_loop mc u m p h = Some (Inr h') \<and> pl_line d h' = pl_line d h @ concat (map crlf s) \<and>
      pl_imsc d h' = pl_imsc d h"
proof (induction s arbitrary: p h)
  case Nil
  then show ?case by (subst send_str_sync_loop.simps) simp
next
  case (Cons c s)
  obtain h1 where h1: "send_polled mc u c h = Some (Inr h1)" "pl_room d h1" "pl_line d h1 = pl_line d h @ crlf c"
      "pl_imsc d h1 = pl_imsc d h"
    using send_polled_spec [OF dev Cons.prems(2)] by blast
  obtain h' where "send_str_sync_loop mc u m (p + 1) h1 = Some (Inr h')"
      "pl_line d h' = pl_line d h1 @ concat (map crlf s)" "pl_imsc d h' = pl_imsc d h1"
    using Cons.IH [OF _ h1(2)] Cons.prems(1) by auto
  with h1 Cons.prems(1) show ?case by (subst send_str_sync_loop.simps) simp
qed

text \<open>C29: On a PL011 the polled routine sends a string: it returns, and the line has gained
  exactly the characters of the string in order, a carriage return before every newline.\<close>

theorem send_str_sync_line:
  assumes "pl011 mc (ua_uart u) d" and "cstring m p s"
  shows "\<exists>h'. pl011_send_str_sync mc u m p h = Some (Inr h') \<and> pl_line d h' = pl_line d h @ concat (map crlf s) \<and>
    pl_imsc d h' = pl_imsc d h"
proof -
  obtain h1 where h1: "pl011_wait_poll_tx_complete mc u h = Some (Inr h1)" "pl_room d h1" "quiet d h h1"
    using wait_tx [OF assms(1)] by blast
  from send_str_sync_loop_spec [OF assms h1(2)] h1 show ?thesis
    by (auto simp: pl011_send_str_sync_def quiet_def)
qed

text \<open>
  A PL011 whose FIFO is full for two status reads after every character, with both interrupts pending and the
  character \<open>A\<close> received.
\<close>

definition sim_machine :: "(u8 list \<times> u32 \<times> nat) Machine" where
  "sim_machine =
     \<lparr>mc_read32 = (\<lambda>a (line, mask, n).
        if a = 0x9000018 then (if n = 0 then 0 else 0x20, line, mask, n - 1)
        else if a = 0x9000038 then (mask, line, mask, n)
        else if a = 0x9000040 then (0x30, line, mask, n)
        else if a = 0x9000000 then (0x41, line, mask, n)
        else (0, line, mask, n)),
      mc_write32 = (\<lambda>a v (line, mask, n).
        if a = 0x9000000 then (if n = 0 then (line @ [ucast v], mask, 2) else (line, mask, n))
        else if a = 0x9000038 then (line, v, n)
        else (line, mask, n)),
      mc_read64 = (\<lambda>a h. (0, h)), mc_write64 = (\<lambda>a v h. h), mc_write8 = (\<lambda>a v h. h),
      mc_mrs = (\<lambda>r h. (0, h)), mc_msr = (\<lambda>r v h. h), mc_firmware = (\<lambda>c x h. (0, h)),
      mc_sev = (\<lambda>h. h)\<rparr>"

definition sim_pl011 :: "(u8 list \<times> u32 \<times> nat) PL011" where
  "sim_pl011 = \<lparr>pl_line = fst, pl_imsc = (\<lambda>h. fst (snd h)), pl_room = (\<lambda>h. snd (snd h) = 0), pl_busy = (\<lambda>h. snd (snd h))\<rparr>"

definition sim_uart :: Uart where
  "sim_uart = \<lparr>ua_uart = 0x9000000, ua_interrupts = \<lparr>int_num_intids = 1, int_intids = [33, 0, 0, 0, 0]\<rparr>,
     ua_clock_frequency = 24000000, ua_rx_buffer = CharBuffer_init, ua_tx_buffer = CharBuffer_init, ua_irqs_ready = False\<rparr>"

lemma sim_pl011_ok: "pl011 sim_machine (ua_uart sim_uart) sim_pl011"
  by (auto simp: pl011_def sim_machine_def sim_pl011_def sim_uart_def quiet_def FR_def DR_def IMSC_def MIS_def ICR_def
      FR_TXFF_def Let_def split: prod.splits)

lemma sim_line: "pl_line sim_pl011 h = fst h"
  by (simp add: sim_pl011_def)

lemma sim_string: "cstring (lit ''ok'') 0 [111, 107]"
  using cstring_bytes_of [of "''ok''"] by (simp add: bytes_of_def)

theorem send_str_sync_line_witness:
  "\<exists>h'. pl011_send_str_sync sim_machine sim_uart (lit ''ok'') 0 ([], 0, 0) = Some (Inr h') \<and>
     pl_line sim_pl011 h' = [111, 107]"
  using send_str_sync_line [OF sim_pl011_ok sim_string, of "([], 0, 0)"]
  by (auto simp: sim_pl011_def crlf_def NL_def)

section \<open>Buffered sending\<close>

text \<open>The last thing that was done is a read of the status register, and it said that the FIFO is full.\<close>

definition tx_full :: "'h Machine \<Rightarrow> Uart \<Rightarrow> 'h \<Rightarrow> bool" where
  "tx_full mc u h \<longleftrightarrow> (\<exists>h0. fst (mc_read32 mc (ua_uart u + FR) h0) AND FR_TXFF \<noteq> 0 \<and> h = snd (mc_read32 mc (ua_uart u + FR) h0))"

lemma drain_tx:
  assumes dev: "pl011 mc (ua_uart u) d" and ok: "buffer_ok (ua_tx_buffer u)"
  shows "\<exists>b h' ys. pl011_drain_tx mc u h = Some (Inr (u\<lparr>ua_tx_buffer := b\<rparr>, h')) \<and> buffer_ok b \<and>
    pl_line d h' = pl_line d h @ ys \<and> contents (ua_tx_buffer u) = ys @ contents b \<and> pl_imsc d h' = pl_imsc d h \<and>
    (contents b \<noteq> [] \<longrightarrow> tx_full mc u h') \<and> (pl_room d h \<longrightarrow> contents (ua_tx_buffer u) \<noteq> [] \<longrightarrow> ys \<noteq> [])"
  using assms
proof (induction "length (contents (ua_tx_buffer u))" arbitrary: u h rule: less_induct)
  case less
  note D = pl011D [OF less.prems(1)]
  let ?v = "fst (mc_read32 mc (ua_uart u + FR) h)" and ?h = "snd (mc_read32 mc (ua_uart u + FR) h)"
  let ?q = "contents (ua_tx_buffer u)"
  have q: "pl_line d ?h = pl_line d h" "pl_imsc d ?h = pl_imsc d h" using D(2) [of h] by (simp_all add: quiet_def)
  note unf = pl011_drain_tx.simps [of mc u h, unfolded uart_read_def if_not_P [OF D(1)] bind_comp_simps]
  show ?case
  proof (cases "?v AND FR_TXFF = 0")
    case False
    then have "tx_full mc u ?h" by (auto simp: tx_full_def)
    with False D(4) [of h] q less.prems(2) show ?thesis
      by (intro exI [of _ "ua_tx_buffer u"] exI [of _ ?h] exI [of _ "[]"]) (simp add: unf)
  next
    case full: True
    show ?thesis
    proof (cases ?q)
      case Nil
      with full q less.prems(2) ring.get_empty [OF less.prems(2) Nil] show ?thesis
        by (intro exI [of _ "ua_tx_buffer u"] exI [of _ ?h] exI [of _ "[]"]) (simp add: unf)
    next
      case (Cons c cs)
      obtain b1 where b1: "read_char (ua_tx_buffer u) = Inr (Some c, b1)" "buffer_ok b1" "contents b1 = cs"
        using ring.get_first [OF less.prems(2) Cons] by blast
      define h2 where "h2 = mc_write32 mc (ua_uart u + DR) (ucast c) ?h"
      have h2: "pl_line d h2 = pl_line d h @ [c]" "pl_imsc d h2 = pl_imsc d h"
        using D(5,6) [OF D(3) [OF full], of "ucast c"] q by (simp_all add: h2_def)
      have "\<exists>b h' ys. pl011_drain_tx mc (u\<lparr>ua_tx_buffer := b1\<rparr>) h2 = Some (Inr (u\<lparr>ua_tx_buffer := b1\<rparr>\<lparr>ua_tx_buffer := b\<rparr>, h')) \<and>
          buffer_ok b \<and> pl_line d h' = pl_line d h2 @ ys \<and> contents b1 = ys @ contents b \<and> pl_imsc d h' = pl_imsc d h2 \<and>
          (contents b \<noteq> [] \<longrightarrow> tx_full mc (u\<lparr>ua_tx_buffer := b1\<rparr>) h')"
        using less.hyps [of "u\<lparr>ua_tx_buffer := b1\<rparr>" h2] less.prems(1) b1 Cons by auto
      then obtain b h' ys where r: "pl011_drain_tx mc (u\<lparr>ua_tx_buffer := b1\<rparr>) h2 = Some (Inr (u\<lparr>ua_tx_buffer := b\<rparr>, h'))"
          "buffer_ok b" "pl_line d h' = pl_line d h2 @ ys" "contents b1 = ys @ contents b" "pl_imsc d h' = pl_imsc d h2"
          "contents b \<noteq> [] \<longrightarrow> tx_full mc u h'" by (auto simp: tx_full_def)
      have "pl011_drain_tx mc u h = Some (Inr (u\<lparr>ua_tx_buffer := b\<rparr>, h'))"
        using full b1(1) r(1) D(1) by (simp add: unf uart_write_def h2_def)
      with r h2 b1(3) Cons show ?thesis by (intro exI [of _ b] exI [of _ h'] exI [of _ "c # ys"]) simp
    qed
  qed
qed

lemma drain_sync:
  assumes dev: "pl011 mc (ua_uart u) d" and ok: "buffer_ok (ua_tx_buffer u)"
  shows "\<exists>b h'. drain_sync_loop mc u h = Some (Inr (u\<lparr>ua_tx_buffer := b\<rparr>, h')) \<and> buffer_ok b \<and> contents b = [] \<and>
    pl_line d h' = pl_line d h @ contents (ua_tx_buffer u) \<and> pl_imsc d h' = pl_imsc d h"
  using assms
proof (induction "length (contents (ua_tx_buffer u))" arbitrary: u h rule: less_induct)
  case less
  show ?case
  proof (cases "contents (ua_tx_buffer u) = []")
    case True
    with elements_in_buffer_zero [OF less.prems(2)] less.prems(2) show ?thesis
      by (intro exI [of _ "ua_tx_buffer u"] exI [of _ h]) (simp add: drain_sync_loop.simps)
  next
    case False
    obtain h1 where h1: "pl011_wait_poll_tx_complete mc u h = Some (Inr h1)" "pl_room d h1" "quiet d h h1"
      using wait_tx [OF less.prems(1)] by blast
    obtain b1 h2 ys where b1: "pl011_drain_tx mc u h1 = Some (Inr (u\<lparr>ua_tx_buffer := b1\<rparr>, h2))" "buffer_ok b1"
      "pl_line d h2 = pl_line d h1 @ ys" "contents (ua_tx_buffer u) = ys @ contents b1" "pl_imsc d h2 = pl_imsc d h1" "ys \<noteq> []"
      using drain_tx [OF less.prems, of h1] h1(2) False by blast
    have "\<exists>b h'. drain_sync_loop mc (u\<lparr>ua_tx_buffer := b1\<rparr>) h2 = Some (Inr (u\<lparr>ua_tx_buffer := b1\<rparr>\<lparr>ua_tx_buffer := b\<rparr>, h')) \<and>
        buffer_ok b \<and> contents b = [] \<and> pl_line d h' = pl_line d h2 @ contents b1 \<and> pl_imsc d h' = pl_imsc d h2"
      using less.hyps [of "u\<lparr>ua_tx_buffer := b1\<rparr>" h2] less.prems(1) b1 by simp
    then obtain b h' where r: "drain_sync_loop mc (u\<lparr>ua_tx_buffer := b1\<rparr>) h2 = Some (Inr (u\<lparr>ua_tx_buffer := b\<rparr>, h'))"
        "buffer_ok b" "contents b = []" "pl_line d h' = pl_line d h2 @ contents b1" "pl_imsc d h' = pl_imsc d h2" by auto
    have "drain_sync_loop mc u h = Some (Inr (u\<lparr>ua_tx_buffer := b\<rparr>, h'))"
      using False elements_in_buffer_zero [OF less.prems(2)] h1(1) b1(1) r(1)
      by (subst drain_sync_loop.simps) simp
    with r b1 h1(3) show ?thesis by (auto simp: quiet_def)
  qed
qed

lemma toggle_tx:
  assumes dev: "pl011 mc (ua_uart u) d"
  shows "\<exists>h'. pl011_toggle_tx_interrupts mc u on h = Inr h' \<and> pl_line d h' = pl_line d h \<and>
    pl_imsc d h' = (if on then pl_imsc d h OR IMSC_TXIM_BIT else pl_imsc d h AND NOT IMSC_TXIM_BIT)"
proof -
  note D = pl011D [OF dev]
  show ?thesis
    using D(1) D(7,8) [of h] D(9,10) [of _ "snd (mc_read32 mc (ua_uart u + IMSC) h)"]
    by (simp add: pl011_toggle_tx_interrupts_def toggle_imsc_mask_def uart_modify_def uart_read_def uart_write_def
        split_beta quiet_def kassert_def)
qed

lemma uart_put_spec:
  assumes "buffer_ok (ua_tx_buffer u)"
  shows "\<exists>b. uart_put c u = Inr (u\<lparr>ua_tx_buffer := b\<rparr>) \<and> buffer_ok b \<and>
    contents b = keep_last 63 (contents (ua_tx_buffer u) @ [c])"
  using ring.put_accepts [OF assms, of c] by (auto simp: uart_put_def)

lemma put_crlf:
  assumes "buffer_ok (ua_tx_buffer u)"
  shows "\<exists>b. bind_res (if c = NL then uart_put CRET u else Inr u) (uart_put c) = Inr (u\<lparr>ua_tx_buffer := b\<rparr>) \<and>
    buffer_ok b \<and> contents b = keep_last 63 (contents (ua_tx_buffer u) @ crlf c)"
proof (cases "c = NL")
  case True
  obtain b1 where b1: "uart_put CRET u = Inr (u\<lparr>ua_tx_buffer := b1\<rparr>)" "buffer_ok b1"
      "contents b1 = keep_last 63 (contents (ua_tx_buffer u) @ [CRET])"
    using uart_put_spec [OF assms] by blast
  then obtain b where "uart_put c (u\<lparr>ua_tx_buffer := b1\<rparr>) = Inr (u\<lparr>ua_tx_buffer := b\<rparr>)" "buffer_ok b"
      "contents b = keep_last 63 (contents b1 @ [c])"
    using uart_put_spec [of "u\<lparr>ua_tx_buffer := b1\<rparr>" c] by auto
  with b1 True show ?thesis by (intro exI [of _ b]) (simp add: crlf_def keep_last_append)
next
  case False
  with uart_put_spec [OF assms, of c] show ?thesis by (simp add: crlf_def)
qed

text \<open>The interrupt for transmission is on exactly when characters wait, once interrupts work.\<close>

definition tx_interrupt_on :: "'h PL011 \<Rightarrow> 'h \<Rightarrow> bool" where
  "tx_interrupt_on d h \<longleftrightarrow> pl_imsc d h AND IMSC_TXIM_BIT \<noteq> 0"

definition sent :: "'h PL011 \<Rightarrow> Uart \<times> 'h \<Rightarrow> u8 list \<Rightarrow> Uart \<times> 'h \<Rightarrow> bool" where
  "sent d uh q uh' \<longleftrightarrow> (\<exists>b ys. fst uh' = (fst uh)\<lparr>ua_tx_buffer := b\<rparr> \<and> buffer_ok b \<and>
     pl_line d (snd uh') = pl_line d (snd uh) @ ys \<and> q = ys @ contents b) \<and>
     pl_imsc d (snd uh') AND NOT IMSC_TXIM_BIT = pl_imsc d (snd uh) AND NOT IMSC_TXIM_BIT \<and>
     (if ua_irqs_ready (fst uh) then tx_interrupt_on d (snd uh') \<longleftrightarrow> contents (ua_tx_buffer (fst uh')) \<noteq> []
      else contents (ua_tx_buffer (fst uh')) = [])"

lemma sentI:
  assumes "buffer_ok b" "pl_line d h' = pl_line d h @ ys" "q = ys @ contents b"
    "pl_imsc d h' AND NOT IMSC_TXIM_BIT = pl_imsc d h AND NOT IMSC_TXIM_BIT"
    "ua_irqs_ready u \<Longrightarrow> tx_interrupt_on d h' \<longleftrightarrow> contents b \<noteq> []" "\<not> ua_irqs_ready u \<Longrightarrow> contents b = []"
  shows "sent d (u, h) q (u\<lparr>ua_tx_buffer := b\<rparr>, h')"
  using assms by (auto simp: sent_def)

lemma send_char_spec:
  assumes dev: "pl011 mc (ua_uart u) d" and ok: "buffer_ok (ua_tx_buffer u)"
  shows "\<exists>uh'. pl011_send_char_async mc c (u, h) = Some (Inr uh') \<and>
    sent d (u, h) (keep_last 63 (contents (ua_tx_buffer u) @ crlf c)) uh'"
proof -
  let ?bits = IMSC_TXIM_BIT
  have bits: "(x AND NOT ?bits) AND NOT ?bits = x AND NOT ?bits" "(x OR ?bits) AND NOT ?bits = x AND NOT ?bits"
    "(x AND NOT ?bits) AND ?bits = 0" "(x OR ?bits) AND ?bits = ?bits" "?bits \<noteq> 0" for x :: u32
    by (simp_all add: IMSC_TXIM_BIT_def bit.conj_disj_distrib2 and.assoc)
  obtain b1 where b1: "bind_res (if c = NL then uart_put CRET u else Inr u) (uart_put c) = Inr (u\<lparr>ua_tx_buffer := b1\<rparr>)"
      "buffer_ok b1" "contents b1 = keep_last 63 (contents (ua_tx_buffer u) @ crlf c)"
    using put_crlf [OF ok] by blast
  define u1 where "u1 = u\<lparr>ua_tx_buffer := b1\<rparr>"
  have dev1: "pl011 mc (ua_uart u1) d" and ok1: "buffer_ok (ua_tx_buffer u1)" using dev b1(2) by (simp_all add: u1_def)
  obtain b2 h2 ys where b2: "pl011_drain_tx mc u1 h = Some (Inr (u1\<lparr>ua_tx_buffer := b2\<rparr>, h2))" "buffer_ok b2"
      "pl_line d h2 = pl_line d h @ ys" "contents b1 = ys @ contents b2" "pl_imsc d h2 = pl_imsc d h"
    using drain_tx [OF dev1 ok1, of h] by (auto simp: u1_def)
  define u2 where "u2 = u\<lparr>ua_tx_buffer := b2\<rparr>"
  have dev2: "pl011 mc (ua_uart u2) d" and ok2: "buffer_ok (ua_tx_buffer u2)" using dev b2(2) by (simp_all add: u2_def)
  have run: "pl011_send_char_async mc c (u, h) =
      (if elements_in_buffer b2 = 0
       then bind_comp (Some (pl011_toggle_tx_interrupts mc u2 False h2)) (\<lambda>h4. Some (Inr (u2, h4)))
       else if ua_irqs_ready u
       then bind_comp (Some (pl011_toggle_tx_interrupts mc u2 True h2)) (\<lambda>h4. Some (Inr (u2, h4)))
       else drain_sync_loop mc u2 h2)"
  proof -
    obtain u0 where e: "(if c = NL then uart_put CRET u else Inr u) = Inr u0" "uart_put c u0 = Inr u1"
      using b1(1) by (auto simp: bind_res_Inr_iff u1_def)
    show ?thesis
      unfolding pl011_send_char_async_def fst_conv snd_conv e bind_comp_simps b2(1) by (simp add: u1_def u2_def)
  qed
  note z = elements_in_buffer_zero [OF b2(2)]
  show ?thesis
  proof (cases "contents b2 = []")
    case True
    obtain h4 where h4: "pl011_toggle_tx_interrupts mc u2 False h2 = Inr h4" "pl_line d h4 = pl_line d h2"
        "pl_imsc d h4 = pl_imsc d h2 AND NOT ?bits"
      using toggle_tx [OF dev2, of False h2] by auto
    have "sent d (u, h) (contents b1) (u2, h4)"
      unfolding u2_def using True h4 b2 by (intro sentI [where ys = ys]) (simp_all add: tx_interrupt_on_def bits)
    with True h4(1) z b1(3) run show ?thesis by auto
  next
    case ne: False
    show ?thesis
    proof (cases "ua_irqs_ready u")
      case True
      obtain h4 where h4: "pl011_toggle_tx_interrupts mc u2 True h2 = Inr h4" "pl_line d h4 = pl_line d h2"
          "pl_imsc d h4 = pl_imsc d h2 OR ?bits"
        using toggle_tx [OF dev2, of True h2] by auto
      have "sent d (u, h) (contents b1) (u2, h4)"
        unfolding u2_def using True ne h4 b2 by (intro sentI [where ys = ys]) (simp_all add: tx_interrupt_on_def bits)
      with ne True h4(1) z b1(3) run show ?thesis by auto
    next
      case False
      obtain b3 h4 where h4: "drain_sync_loop mc u2 h2 = Some (Inr (u2\<lparr>ua_tx_buffer := b3\<rparr>, h4))" "buffer_ok b3"
          "contents b3 = []" "pl_line d h4 = pl_line d h2 @ contents b2" "pl_imsc d h4 = pl_imsc d h2"
        using drain_sync [OF dev2 ok2, of h2] by (auto simp: u2_def)
      have "sent d (u, h) (contents b1) (u\<lparr>ua_tx_buffer := b3\<rparr>, h4)"
        using False h4 b2 by (intro sentI [where ys = "ys @ contents b2"]) simp_all
      with ne False h4(1) z b1(3) run show ?thesis by (auto simp: u2_def)
    qed
  qed
qed

text \<open>C13: Sending a character through the buffer on a PL011: the routine returns; what is on the
  line followed by what still waits is what was on the line followed by the newest 63 of the
  waiting characters and the new one (with a carriage return before a newline); once
  interrupts work, the transmit interrupt is on exactly when something waits, and before
  that nothing is left waiting; no other interrupt is switched.\<close>

theorem send_char_async_line:
  assumes "pl011 mc (ua_uart u) d" and "buffer_ok (ua_tx_buffer u)"
  shows "\<exists>u' h'. pl011_send_char_async mc c (u, h) = Some (Inr (u', h')) \<and> buffer_ok (ua_tx_buffer u') \<and>
    pl_line d h' @ contents (ua_tx_buffer u') = pl_line d h @ keep_last 63 (contents (ua_tx_buffer u) @ crlf c) \<and>
    pl_imsc d h' AND NOT IMSC_TXIM_BIT = pl_imsc d h AND NOT IMSC_TXIM_BIT \<and>
    (if ua_irqs_ready u then tx_interrupt_on d h' \<longleftrightarrow> contents (ua_tx_buffer u') \<noteq> [] else contents (ua_tx_buffer u') = [])"
proof -
  obtain u' h' where "pl011_send_char_async mc c (u, h) = Some (Inr (u', h'))"
      "sent d (u, h) (keep_last 63 (contents (ua_tx_buffer u) @ crlf c)) (u', h')"
    using send_char_spec [OF assms, of c h] by auto
  then show ?thesis by (intro exI [of _ u'] exI [of _ h']) (auto simp: sent_def)
qed

theorem send_char_async_line_witness:
  "\<exists>u' h'. pl011_send_char_async sim_machine NL (sim_uart, [], 0, 0) = Some (Inr (u', h')) \<and>
     pl_line sim_pl011 h' = [CRET, NL]"
proof -
  have "buffer_ok (ua_tx_buffer sim_uart)" "contents (ua_tx_buffer sim_uart) = []" "\<not> ua_irqs_ready sim_uart"
    using CharBuffer_init_ok by (simp_all add: sim_uart_def)
  then show ?thesis
    using send_char_async_line [OF sim_pl011_ok, of NL "([], 0, 0)"]
    by (auto simp: crlf_def keep_last_def sim_pl011_def)
qed

section \<open>Sequences of characters\<close>

text \<open>\<open>z\<close> is what can come out of a queue of 63 that was given \<open>q\<close>: some characters may be lost, but none of the newest 63.\<close>

definition queued :: "u8 list \<Rightarrow> u8 list \<Rightarrow> bool" where
  "queued q z \<longleftrightarrow> subseq z q \<and> suffix (keep_last 63 q) z"

lemma suffix_keep_last: "suffix (keep_last n xs) xs"
  by (simp add: keep_last_def suffix_drop)

lemma queued_refl: "queued q q" "queued q (keep_last 63 q)"
  by (simp_all add: queued_def suffix_keep_last suffix_imp_subseq)

lemma queued_all: "queued q z \<Longrightarrow> length q \<le> 63 \<Longrightarrow> z = q"
  by (auto simp: queued_def keep_last_short dest!: suffix_imp_subseq intro: subseq_order.antisym)

lemma queued_append:
  assumes "queued (q :: u8 list) (p @ c)" "queued (c @ ys) z"
  shows "queued (q @ ys) (p @ z)"
proof -
  have sub: "subseq (p @ c) q" "subseq z (c @ ys)" and suf: "suffix (keep_last 63 q) (p @ c)" "suffix (keep_last 63 (c @ ys)) z"
    using assms by (simp_all add: queued_def)
  have "subseq (p @ z) (p @ c @ ys)" by (rule list_emb_append_mono [OF _ sub(2)]) simp
  moreover have "subseq ((p @ c) @ ys) (q @ ys)" using sub(1) by (rule list_emb_append_mono) simp
  ultimately have 1: "subseq (p @ z) (q @ ys)" unfolding append.assoc by (rule subseq_order.trans)
  have "suffix (keep_last 63 q @ ys) ((p @ c) @ ys)" using suf(1) by (auto simp: suffix_def)
  with suffix_keep_last [of 63 "keep_last 63 q @ ys"] have all: "suffix (keep_last 63 (q @ ys)) ((p @ c) @ ys)"
    unfolding keep_last_append by (rule suffix_order.trans)
  have "suffix (keep_last 63 (q @ ys)) (p @ z)"
  proof (cases "length (keep_last 63 (q @ ys)) \<le> length (keep_last 63 (c @ ys))")
    case True
    have "suffix (keep_last 63 (c @ ys)) ((p @ c) @ ys)" using suffix_keep_last [of 63 "c @ ys"] by (simp add: suffix_append)
    from suffix_order.trans [OF suffix_length_suffix [OF all this True] suf(2)] show ?thesis by (rule suffix_appendI)
  next
    case False
    moreover have "length (keep_last 63 xs) = min 63 (length xs)" for xs :: "u8 list" by (auto simp: keep_last_def)
    ultimately have "length (c @ ys) < 63" by (simp only:)
    then have "z = c @ ys" by (intro queued_all [OF assms(2)]) simp
    with all show ?thesis by simp
  qed
  with 1 show ?thesis by (simp add: queued_def)
qed

text \<open>
  \<open>console\<close>: a driver that can send. \<open>put_out d uh xs uh'\<close>: the driver has been given the
  characters \<open>xs\<close>. The line has grown by \<open>ys\<close>; that and what still waits is what waited and \<open>xs\<close>, but for
  characters that a full buffer has lost; before interrupts work all of \<open>xs\<close> is on the line. Only the transmit
  interrupt is switched.
\<close>

definition console :: "'h Machine \<Rightarrow> 'h PL011 \<Rightarrow> Uart \<times> 'h \<Rightarrow> bool" where
  "console mc d uh \<longleftrightarrow> pl011 mc (ua_uart (fst uh)) d \<and> buffer_ok (ua_tx_buffer (fst uh))"

definition put_out :: "'h PL011 \<Rightarrow> Uart \<times> 'h \<Rightarrow> u8 list \<Rightarrow> Uart \<times> 'h \<Rightarrow> bool" where
  "put_out d uh xs uh' \<longleftrightarrow>
     (\<exists>b ys. fst uh' = (fst uh)\<lparr>ua_tx_buffer := b\<rparr> \<and> buffer_ok b \<and> pl_line d (snd uh') = pl_line d (snd uh) @ ys \<and>
        queued (contents (ua_tx_buffer (fst uh)) @ xs) (ys @ contents b) \<and>
        (\<not> ua_irqs_ready (fst uh) \<and> contents (ua_tx_buffer (fst uh)) = [] \<longrightarrow> contents b = [] \<and> ys = xs)) \<and>
     pl_imsc d (snd uh') AND NOT IMSC_TXIM_BIT = pl_imsc d (snd uh) AND NOT IMSC_TXIM_BIT"

lemma put_out_console: "console mc d uh \<Longrightarrow> put_out d uh xs uh' \<Longrightarrow> console mc d uh'"
  by (auto simp: console_def put_out_def)

lemma put_out_refl: "console mc d uh \<Longrightarrow> put_out d uh [] uh"
  unfolding put_out_def console_def
  by (intro conjI exI [of _ "ua_tx_buffer (fst uh)"] exI [of _ "[]"]) (simp_all add: queued_refl)

lemma put_out_trans:
  assumes "put_out d uh xs uh1" "put_out d uh1 ys uh2"
  shows "put_out d uh (xs @ ys) uh2"
proof -
  let ?q = "contents (ua_tx_buffer (fst uh))"
  obtain b1 zs1 where b1: "fst uh1 = (fst uh)\<lparr>ua_tx_buffer := b1\<rparr>" "pl_line d (snd uh1) = pl_line d (snd uh) @ zs1"
      "queued (?q @ xs) (zs1 @ contents b1)"
      "\<not> ua_irqs_ready (fst uh) \<and> ?q = [] \<Longrightarrow> contents b1 = [] \<and> zs1 = xs"
    using assms(1) by (auto simp: put_out_def)
  obtain b2 zs2 where b2: "fst uh2 = (fst uh1)\<lparr>ua_tx_buffer := b2\<rparr>" "buffer_ok b2" "pl_line d (snd uh2) = pl_line d (snd uh1) @ zs2"
      "queued (contents b1 @ ys) (zs2 @ contents b2)"
      "\<not> ua_irqs_ready (fst uh1) \<and> contents (ua_tx_buffer (fst uh1)) = [] \<Longrightarrow> contents b2 = [] \<and> zs2 = ys"
    using assms(2) b1(1) by (auto simp: put_out_def)
  have "queued (?q @ xs @ ys) ((zs1 @ zs2) @ contents b2)" using queued_append [OF b1(3) b2(4)] by simp
  moreover have "pl_imsc d (snd uh2) AND NOT IMSC_TXIM_BIT = pl_imsc d (snd uh) AND NOT IMSC_TXIM_BIT"
    using assms by (simp add: put_out_def)
  ultimately show ?thesis unfolding put_out_def using b1 b2 by (intro conjI exI [of _ b2] exI [of _ "zs1 @ zs2"]) auto
qed

text \<open>As long as the buffer has room nothing is lost.\<close>

lemma put_out_room:
  assumes "put_out d uh xs uh'" "length (contents (ua_tx_buffer (fst uh)) @ xs) \<le> 63"
  shows "pl_line d (snd uh') @ contents (ua_tx_buffer (fst uh')) = pl_line d (snd uh) @ contents (ua_tx_buffer (fst uh)) @ xs"
proof -
  obtain b ys where b: "fst uh' = (fst uh)\<lparr>ua_tx_buffer := b\<rparr>" "pl_line d (snd uh') = pl_line d (snd uh) @ ys"
      "queued (contents (ua_tx_buffer (fst uh)) @ xs) (ys @ contents b)"
    using assms(1) by (auto simp: put_out_def)
  from b(1,2) queued_all [OF b(3) assms(2)] show ?thesis by simp
qed

lemma send_char_out:
  assumes "console mc d uh"
  shows "\<exists>uh'. pl011_send_char_async mc c uh = Some (Inr uh') \<and> put_out d uh (crlf c) uh'"
proof -
  obtain u h where uh: "uh = (u, h)" by fastforce
  obtain uh' where s: "pl011_send_char_async mc c (u, h) = Some (Inr uh')"
      "sent d (u, h) (keep_last 63 (contents (ua_tx_buffer u) @ crlf c)) uh'"
    using send_char_spec [of mc u d c h] assms by (auto simp: console_def uh)
  have short: "keep_last 63 (crlf c) = crlf c" by (simp add: keep_last_short crlf_def)
  have "put_out d uh (crlf c) uh'"
  proof -
    obtain b ys where b: "fst uh' = u\<lparr>ua_tx_buffer := b\<rparr>" "buffer_ok b" "pl_line d (snd uh') = pl_line d h @ ys"
        "keep_last 63 (contents (ua_tx_buffer u) @ crlf c) = ys @ contents b"
      using s(2) by (auto simp: sent_def)
    have "queued (contents (ua_tx_buffer u) @ crlf c) (ys @ contents b)" unfolding b(4) [symmetric] by (rule queued_refl(2))
    moreover have "\<not> ua_irqs_ready u \<and> contents (ua_tx_buffer u) = [] \<longrightarrow> contents b = [] \<and> ys = crlf c"
    proof
      assume q: "\<not> ua_irqs_ready u \<and> contents (ua_tx_buffer u) = []"
      then have "contents (ua_tx_buffer (fst uh')) = []" using s(2) by (simp add: sent_def)
      with q b(1,4) short show "contents b = [] \<and> ys = crlf c" by simp
    qed
    moreover have "pl_imsc d (snd uh') AND NOT IMSC_TXIM_BIT = pl_imsc d h AND NOT IMSC_TXIM_BIT" using s(2) by (simp add: sent_def)
    ultimately show ?thesis unfolding put_out_def uh using b(1-3) by (intro conjI exI [of _ b] exI [of _ ys]) simp_all
  qed
  with s(1) show ?thesis by (auto simp: uh)
qed

text \<open>The string routine adds a carriage return of its own, so a newline gets two.\<close>

definition crcrlf :: "u8 \<Rightarrow> u8 list" where
  "crcrlf c = (if c = NL then [CRET, CRET, NL] else [c])"

lemma send_str_out:
  "cstring m p s \<Longrightarrow> console mc d uh \<Longrightarrow>
   \<exists>uh'. pl011_send_str_async mc m p uh = Some (Inr uh') \<and> put_out d uh (concat (map crcrlf s)) uh'"
proof (induction s arbitrary: p uh)
  case Nil
  then show ?case using put_out_refl by (subst pl011_send_str_async.simps) simp
next
  case (Cons c s)
  have c: "load8 m p = Inr c" "c \<noteq> 0" "cstring m (p + 1) s" using Cons.prems(1) by simp_all
  obtain uh1 where uh1: "(if c = NL then pl011_send_char_async mc CRET uh else Some (Inr uh)) = Some (Inr uh1)"
      "put_out d uh (if c = NL then [CRET] else []) uh1"
    using send_char_out [OF Cons.prems(2), of CRET] put_out_refl [OF Cons.prems(2)]
    by (cases "c = NL") (auto simp: crlf_def CRET_def NL_def)
  obtain uh2 where uh2: "pl011_send_char_async mc c uh1 = Some (Inr uh2)" "put_out d uh1 (crlf c) uh2"
    using send_char_out [OF put_out_console [OF Cons.prems(2) uh1(2)]] by blast
  have p2: "put_out d uh (crcrlf c) uh2"
    using put_out_trans [OF uh1(2) uh2(2)] by (cases "c = NL") (simp_all add: crcrlf_def crlf_def)
  obtain uh3 where uh3: "pl011_send_str_async mc m (p + 1) uh2 = Some (Inr uh3)" "put_out d uh2 (concat (map crcrlf s)) uh3"
    using Cons.IH [OF c(3) put_out_console [OF Cons.prems(2) p2]] by blast
  have "pl011_send_str_async mc m p uh = Some (Inr uh3)"
    unfolding pl011_send_str_async.simps [of mc m p uh] c(1) bind_comp_simps uh1(1) uh2(1) uh3(1) using c(2) by simp
  with put_out_trans [OF p2 uh3(2)] show ?case by auto
qed

lemma literal_string: "CHR 0x00 \<notin> set s \<Longrightarrow> length s < 1000 \<Longrightarrow> cstring (lit s) 0 (bytes_of s)"
  by (rule cstring_bytes_of) simp_all

text \<open>The \<open>n\<close> characters of a ring from position \<open>i\<close> on.\<close>

definition ring_from :: "CharBuffer \<Rightarrow> nat \<Rightarrow> nat \<Rightarrow> u8 list" where
  "ring_from b i n = map (\<lambda>k. cb_ring_buffer b ! ((i + k) mod 64)) [0..<n]"

lemma ring_from_Suc: "i < 64 \<Longrightarrow> ring_from b i (Suc n) = cb_ring_buffer b ! i # ring_from b (if i = 63 then 0 else i + 1) n"
proof -
  assume i: "i < 64"
  have "(i + Suc k) mod 64 = ((if i = 63 then 0 else i + 1) + k) mod 64" for k
  proof (cases "i = 63")
    case True
    have "(63 + Suc k) mod 64 = (64 + k) mod 64" by simp
    also have "\<dots> = k mod 64" by (rule mod_add_self1)
    finally show ?thesis using True by simp
  qed simp
  then show ?thesis using i by (simp add: ring_from_def map_upt_Suc del: upt_Suc)
qed

lemma print_buffer_loop_out:
  assumes b: "buffer_ok b"
  shows "console mc d uh \<Longrightarrow> unat cur < 64 \<Longrightarrow> k < 63 \<Longrightarrow> (unat cur + k + 1) mod 64 = unat (cb_end b) \<Longrightarrow>
    \<exists>uh'. print_buffer_loop mc b cur uh = Some (Inr uh') \<and> put_out d uh (concat (map crlf (ring_from b (unat cur) (Suc k)))) uh'"
proof (induction k arbitrary: cur uh)
  case 0
  have len: "length (cb_ring_buffer b) = 64" and e: "unat (cb_end b) < 64" using b by (simp_all add: buffer_ok_def)
  have "unat ((cur + 1) mod BufferSize) = unat (cb_end b)" using ring_step [OF 0(2)] 0(2,4) by (auto simp: mod_if split: if_splits)
  then have "(cur + 1) mod BufferSize = cb_end b" by (simp add: word_unat_eq_iff)
  moreover obtain uh' where "pl011_send_char_async mc (cb_ring_buffer b ! unat cur) uh = Some (Inr uh')"
      "put_out d uh (crlf (cb_ring_buffer b ! unat cur)) uh'"
    using send_char_out [OF 0(1)] by blast
  moreover have "ring_from b (unat cur) (Suc 0) = [cb_ring_buffer b ! unat cur]"
    unfolding ring_from_Suc [OF 0(2)] by (simp add: ring_from_def)
  ultimately show ?case using 0(2) len by (subst print_buffer_loop.simps) (auto simp: Let_def)
next
  case (Suc k)
  have len: "length (cb_ring_buffer b) = 64" using b by (simp add: buffer_ok_def)
  let ?n = "(cur + 1) mod BufferSize"
  have n: "unat ?n = (if unat cur = 63 then 0 else unat cur + 1)" by (rule ring_step [OF Suc.prems(2)])
  have e: "(unat ?n + k + 1) mod 64 = unat (cb_end b)"
  proof (cases "unat cur = 63")
    case True
    then have "unat cur + Suc k + 1 = 64 + (k + 1)" by simp
    with Suc.prems(4) True n show ?thesis by (metis add_0 add.assoc mod_add_self1)
  next
    case False
    with Suc.prems(4) n show ?thesis by (simp add: add.commute add.left_commute)
  qed
  have lt: "unat ?n < 64" using Suc.prems(2) by (auto simp: n)
  have "unat ?n \<noteq> (unat ?n + (k + 1)) mod 64" using ring_index [OF lt, of "k + 1"] Suc.prems(3) by (simp split: if_splits)
  then have "unat ?n \<noteq> unat (cb_end b)" using e by (simp add: add.assoc)
  then have ne: "?n \<noteq> cb_end b" by auto
  obtain uh1 where uh1: "pl011_send_char_async mc (cb_ring_buffer b ! unat cur) uh = Some (Inr uh1)"
      "put_out d uh (crlf (cb_ring_buffer b ! unat cur)) uh1"
    using send_char_out [OF Suc.prems(1)] by blast
  obtain uh' where r: "print_buffer_loop mc b ?n uh1 = Some (Inr uh')"
      "put_out d uh1 (concat (map crlf (ring_from b (unat ?n) (Suc k)))) uh'"
    using Suc.IH [OF put_out_console [OF Suc.prems(1) uh1(2)] lt _ e] Suc.prems(3) by auto
  have "print_buffer_loop mc b cur uh = Some (Inr uh')"
    using uh1(1) r(1) ne len Suc.prems(2) by (subst print_buffer_loop.simps) (simp add: Let_def)
  moreover have "ring_from b (unat cur) (Suc (Suc k)) = cb_ring_buffer b ! unat cur # ring_from b (unat ?n) (Suc k)"
    unfolding ring_from_Suc [OF Suc.prems(2), of b "Suc k"] n ..
  ultimately show ?case using put_out_trans [OF uh1(2) r(2)] by simp
qed

text \<open>What \<open>print_buffer\<close> prints of a buffer that holds \<open>cs\<close>.\<close>

definition ring_text :: "u8 list \<Rightarrow> u8 list" where
  "ring_text cs = (if cs = [] then [] else bytes_of ''Ring buffer content: '' @ concat (map crlf cs) @ [CRET, NL])"

lemma ring_message: "cstring (lit ''Ring buffer content: '') 0 (bytes_of ''Ring buffer content: '')"
  by (rule literal_string) simp_all

lemma print_buffer_out:
  assumes b: "buffer_ok b" and con: "console mc d uh"
  shows "\<exists>uh'. print_buffer mc b uh = Some (Inr uh') \<and> put_out d uh (ring_text (contents b)) uh'"
proof (cases "cb_start b = cb_end b")
  case True
  then have "contents b = []" using buffer_end [OF b] by (simp add: contents_def)
  with True put_out_refl [OF con] show ?thesis by (auto simp: print_buffer_def ring_text_def)
next
  case False
  have n: "buffer_count b < 64" "unat (cb_end b) = (unat (cb_start b) + buffer_count b) mod 64" "buffer_count b \<noteq> 0"
    using buffer_end [OF b] False by auto
  then obtain k where k: "buffer_count b = Suc k" by (cases "buffer_count b") auto
  have s: "unat (cb_start b) < 64" using b by (simp add: buffer_ok_def)
  have cs: "contents b = ring_from b (unat (cb_start b)) (Suc k)" "contents b \<noteq> []"
    using k by (simp_all add: contents_def ring_from_def)
  have plain: "concat (map crcrlf (bytes_of ''Ring buffer content: '')) = bytes_of ''Ring buffer content: ''"
    by (simp add: bytes_of_def crcrlf_def NL_def)
  obtain uh1 where uh1: "pl011_send_str_async mc (lit ''Ring buffer content: '') 0 uh = Some (Inr uh1)"
      "put_out d uh (bytes_of ''Ring buffer content: '') uh1"
    using send_str_out [OF ring_message con] unfolding plain by blast
  note con1 = put_out_console [OF con uh1(2)]
  obtain uh2 where uh2: "print_buffer_loop mc b (cb_start b) uh1 = Some (Inr uh2)" "put_out d uh1 (concat (map crlf (contents b))) uh2"
    using print_buffer_loop_out [OF b con1 s, of k] n k cs(1) by auto
  obtain uh3 where uh3: "pl011_send_char_async mc NL uh2 = Some (Inr uh3)" "put_out d uh2 (crlf NL) uh3"
    using send_char_out [OF put_out_console [OF con1 uh2(2)]] by blast
  have "print_buffer mc b uh = Some (Inr uh3)" using False uh1(1) uh2(1) uh3(1) by (simp add: print_buffer_def)
  with put_out_trans [OF put_out_trans [OF uh1(2) uh2(2)] uh3(2)] cs(2) show ?thesis by (auto simp: ring_text_def crlf_def)
qed

section \<open>The interrupt handler\<close>

definition uart_ok :: "'h Machine \<Rightarrow> 'h PL011 \<Rightarrow> Uart \<Rightarrow> bool" where
  "uart_ok mc d u \<longleftrightarrow> pl011 mc (ua_uart u) d \<and> buffer_ok (ua_tx_buffer u) \<and> buffer_ok (ua_rx_buffer u)"

text \<open>
  The transmit half: the line has taken over characters from the front of what waited, until nothing waits (then the
  transmit interrupt is off) or the FIFO is full (then the interrupts are as they were).
\<close>

definition tx_drained :: "'h Machine \<Rightarrow> 'h PL011 \<Rightarrow> Uart \<times> 'h \<Rightarrow> Uart \<times> 'h \<Rightarrow> bool" where
  "tx_drained mc d uh uh' \<longleftrightarrow>
     (\<exists>b ys. fst uh' = (fst uh)\<lparr>ua_tx_buffer := b\<rparr> \<and> buffer_ok b \<and> pl_line d (snd uh') = pl_line d (snd uh) @ ys \<and>
        contents (ua_tx_buffer (fst uh)) = ys @ contents b \<and>
        (if contents b = [] then pl_imsc d (snd uh') = pl_imsc d (snd uh) AND NOT IMSC_TXIM_BIT
         else tx_full mc (fst uh) (snd uh') \<and> pl_imsc d (snd uh') = pl_imsc d (snd uh)))"

text \<open>The receive half: the character in the data register joins the newest 63, and the buffer is printed.\<close>

definition rx_taken :: "'h Machine \<Rightarrow> 'h PL011 \<Rightarrow> Uart \<times> 'h \<Rightarrow> Uart \<times> 'h \<Rightarrow> bool" where
  "rx_taken mc d uh uh' \<longleftrightarrow>
     (\<exists>c h1 b. mc_read32 mc (ua_uart (fst uh) + DR) (snd uh) = (c, h1) \<and> buffer_ok b \<and>
        contents b = keep_last 63 (contents (ua_rx_buffer (fst uh)) @ [ucast c]) \<and>
        put_out d ((fst uh)\<lparr>ua_rx_buffer := b\<rparr>, h1) (ring_text (contents b)) uh')"

text \<open>The handler: what the masked status asks for, then the same bits written to the clear register.\<close>

definition irq_served :: "'h Machine \<Rightarrow> 'h PL011 \<Rightarrow> Uart \<times> 'h \<Rightarrow> Uart \<times> 'h \<Rightarrow> bool" where
  "irq_served mc d uh uh' \<longleftrightarrow>
     (\<exists>mis h1 uh2 uh3. mc_read32 mc (ua_uart (fst uh) + MIS) (snd uh) = (mis, h1) \<and>
        (if mis AND MIS_TX \<noteq> 0 then tx_drained mc d (fst uh, h1) uh2 else uh2 = (fst uh, h1)) \<and>
        (if mis AND MIS_RX \<noteq> 0 then rx_taken mc d uh2 uh3 else uh3 = uh2) \<and>
        uh' = (fst uh3, mc_write32 mc (ua_uart (fst uh) + ICR) mis (snd uh3)))"

lemma handle_tx_spec:
  assumes "uart_ok mc d u"
  shows "\<exists>uh'. handle_tx mc u h = Some (Inr uh') \<and> tx_drained mc d (u, h) uh'"
proof -
  have dev: "pl011 mc (ua_uart u) d" and ok: "buffer_ok (ua_tx_buffer u)" using assms by (simp_all add: uart_ok_def)
  obtain b h1 ys where b: "pl011_drain_tx mc u h = Some (Inr (u\<lparr>ua_tx_buffer := b\<rparr>, h1))" "buffer_ok b"
      "pl_line d h1 = pl_line d h @ ys" "contents (ua_tx_buffer u) = ys @ contents b" "pl_imsc d h1 = pl_imsc d h"
      "contents b \<noteq> [] \<longrightarrow> tx_full mc u h1"
    using drain_tx [OF dev ok, of h] by blast
  obtain h2 where h2: "pl011_toggle_tx_interrupts mc (u\<lparr>ua_tx_buffer := b\<rparr>) False h1 = Inr h2"
      "pl_line d h2 = pl_line d h1" "pl_imsc d h2 = pl_imsc d h1 AND NOT IMSC_TXIM_BIT"
    using toggle_tx [of mc "u\<lparr>ua_tx_buffer := b\<rparr>" d False h1] dev by auto
  show ?thesis
  proof (cases "contents b = []")
    case True
    with b h2 elements_in_buffer_zero [OF b(2)] show ?thesis
      by (intro exI [of _ "(u\<lparr>ua_tx_buffer := b\<rparr>, h2)"]) (auto simp: handle_tx_def tx_drained_def)
  next
    case False
    with b elements_in_buffer_zero [OF b(2)] show ?thesis
      by (intro exI [of _ "(u\<lparr>ua_tx_buffer := b\<rparr>, h1)"]) (auto simp: handle_tx_def tx_drained_def)
  qed
qed

lemma handle_rx_spec:
  assumes "uart_ok mc d u"
  shows "\<exists>uh'. handle_rx mc u h = Some (Inr uh') \<and> rx_taken mc d (u, h) uh'"
proof -
  let ?c = "ucast (fst (mc_read32 mc (ua_uart u + DR) h)) :: u8" and ?h = "snd (mc_read32 mc (ua_uart u + DR) h)"
  have dev: "pl011 mc (ua_uart u) d" and ok: "buffer_ok (ua_tx_buffer u)" "buffer_ok (ua_rx_buffer u)"
    using assms by (simp_all add: uart_ok_def)
  obtain b where b: "buffer_char ?c (ua_rx_buffer u) = Inr b" "buffer_ok b"
      "contents b = keep_last 63 (contents (ua_rx_buffer u) @ [?c])"
    using ring.put_accepts [OF ok(2)] by blast
  have "console mc d (u\<lparr>ua_rx_buffer := b\<rparr>, ?h)" using dev ok(1) by (simp add: console_def)
  from print_buffer_out [OF b(2) this] obtain uh' where p: "print_buffer mc b (u\<lparr>ua_rx_buffer := b\<rparr>, ?h) = Some (Inr uh')"
      "put_out d (u\<lparr>ua_rx_buffer := b\<rparr>, ?h) (ring_text (contents b)) uh'" by blast
  have "handle_rx mc u h = Some (Inr uh')"
    using p(1) b(1) pl011D(1) [OF dev] by (simp add: handle_rx_def uart_read_def split_beta)
  moreover have "rx_taken mc d (u, h) uh'"
    unfolding rx_taken_def fst_conv snd_conv using b(2,3) p(2)
    by (intro exI [of _ "fst (mc_read32 mc (ua_uart u + DR) h)"] exI [of _ ?h] exI [of _ b]) simp
  ultimately show ?thesis by blast
qed

lemma tx_drained_ok: "tx_drained mc d uh uh' \<Longrightarrow> uart_ok mc d (fst uh) \<Longrightarrow> uart_ok mc d (fst uh') \<and> ua_uart (fst uh') = ua_uart (fst uh)"
  by (auto simp: tx_drained_def uart_ok_def)

lemma rx_taken_ok: "rx_taken mc d uh uh' \<Longrightarrow> uart_ok mc d (fst uh) \<Longrightarrow> uart_ok mc d (fst uh') \<and> ua_uart (fst uh') = ua_uart (fst uh)"
  by (auto simp: rx_taken_def put_out_def uart_ok_def)

lemma uart_irq_spec:
  assumes "uart_ok mc d (fst uh)"
  shows "\<exists>uh'. pl011_handle_irq mc uh = Some (Inr uh') \<and> uart_ok mc d (fst uh') \<and> irq_served mc d uh uh'"
proof -
  obtain u h where uh: "uh = (u, h)" by (cases uh)
  obtain mis h1 where m: "mc_read32 mc (ua_uart u + MIS) h = (mis, h1)" by fastforce
  have ok: "uart_ok mc d u" and nz: "ua_uart u \<noteq> 0" using assms by (auto simp: uh uart_ok_def pl011_def)
  obtain uh2 where r2: "(if mis AND MIS_TX \<noteq> 0 then handle_tx mc u h1 else Some (Inr (u, h1))) = Some (Inr uh2)"
      "if mis AND MIS_TX \<noteq> 0 then tx_drained mc d (u, h1) uh2 else uh2 = (u, h1)"
    using handle_tx_spec [OF ok, of h1] by (cases "mis AND MIS_TX = 0") auto
  have ok2: "uart_ok mc d (fst uh2)" "ua_uart (fst uh2) = ua_uart u"
    using r2(2) tx_drained_ok [of mc d "(u, h1)" uh2] ok by (auto split: if_splits)
  obtain uh3 where r3: "(if mis AND MIS_RX \<noteq> 0 then handle_rx mc (fst uh2) (snd uh2) else Some (Inr uh2)) = Some (Inr uh3)"
      "if mis AND MIS_RX \<noteq> 0 then rx_taken mc d uh2 uh3 else uh3 = uh2"
    using handle_rx_spec [OF ok2(1), of "snd uh2"] by (cases "mis AND MIS_RX = 0") auto
  have ok3: "uart_ok mc d (fst uh3)" "ua_uart (fst uh3) = ua_uart u"
    using r3(2) rx_taken_ok [of mc d uh2 uh3] ok2 by (auto split: if_splits)
  have "pl011_handle_irq mc uh = Some (Inr (fst uh3, mc_write32 mc (ua_uart u + ICR) mis (snd uh3)))"
    unfolding pl011_handle_irq_def uh fst_conv snd_conv uart_read_def if_not_P [OF nz] m bind_comp_simps prod.case r2(1) split_beta
      prod.collapse r3(1)
    using nz ok3(2) by (simp add: uart_write_def)
  moreover have "irq_served mc d uh (fst uh3, mc_write32 mc (ua_uart u + ICR) mis (snd uh3))"
    unfolding irq_served_def uh fst_conv snd_conv
    by (rule exI [of _ mis], rule exI [of _ h1], rule exI [of _ uh2], rule exI [of _ uh3]) (intro conjI m r2(2) r3(2) refl)
  ultimately show ?thesis using ok3(1) by auto
qed

text \<open>C30: The UART's interrupt handler returns with the driver well formed. On a transmit interrupt it moves characters from the
  front of the transmit buffer to the line until none waits, and then switches the transmit interrupt off, or until the
  status register says that the FIFO is full; on a receive interrupt the character in the data register joins the receive
  buffer, which keeps the newest 63 and is printed in order; without the one or the other interrupt that half does
  nothing; and the last access writes exactly the bits of the masked status to the clear register.\<close>

theorem uart_irq_correct:
  assumes "uart_ok mc d u" and "mc_read32 mc (ua_uart u + MIS) h = (mis, h1)"
  shows "\<exists>uh2 u3 h3. pl011_handle_irq mc (u, h) = Some (Inr (u3, mc_write32 mc (ua_uart u + ICR) mis h3)) \<and> uart_ok mc d u3 \<and>
    (if mis AND MIS_TX \<noteq> 0
     then \<exists>b ys. fst uh2 = u\<lparr>ua_tx_buffer := b\<rparr> \<and> pl_line d (snd uh2) = pl_line d h1 @ ys \<and>
       contents (ua_tx_buffer u) = ys @ contents b \<and>
       (if contents b = [] then pl_imsc d (snd uh2) = pl_imsc d h1 AND NOT IMSC_TXIM_BIT
        else tx_full mc u (snd uh2) \<and> pl_imsc d (snd uh2) = pl_imsc d h1)
     else uh2 = (u, h1)) \<and>
    (if mis AND MIS_RX \<noteq> 0
     then \<exists>c h' b. mc_read32 mc (ua_uart u + DR) (snd uh2) = (c, h') \<and>
       contents b = keep_last 63 (contents (ua_rx_buffer u) @ [ucast c]) \<and>
       put_out d ((fst uh2)\<lparr>ua_rx_buffer := b\<rparr>, h') (ring_text (contents b)) (u3, h3)
     else (u3, h3) = uh2)"
proof -
  obtain uh' where r: "pl011_handle_irq mc (u, h) = Some (Inr uh')" "uart_ok mc d (fst uh')" "irq_served mc d (u, h) uh'"
    using uart_irq_spec [of mc d "(u, h)"] assms(1) by auto
  obtain uh2 uh3 where s: "if mis AND MIS_TX \<noteq> 0 then tx_drained mc d (u, h1) uh2 else uh2 = (u, h1)"
      "if mis AND MIS_RX \<noteq> 0 then rx_taken mc d uh2 uh3 else uh3 = uh2"
      "uh' = (fst uh3, mc_write32 mc (ua_uart u + ICR) mis (snd uh3))"
    using r(3) unfolding irq_served_def fst_conv snd_conv assms(2) prod.inject by blast
  have u2: "ua_uart (fst uh2) = ua_uart u" "ua_rx_buffer (fst uh2) = ua_rx_buffer u" using s(1) by (auto simp: tx_drained_def split: if_splits)
  have "if mis AND MIS_RX \<noteq> 0 then \<exists>c h' b. mc_read32 mc (ua_uart u + DR) (snd uh2) = (c, h') \<and>
       contents b = keep_last 63 (contents (ua_rx_buffer u) @ [ucast c]) \<and>
       put_out d ((fst uh2)\<lparr>ua_rx_buffer := b\<rparr>, h') (ring_text (contents b)) (fst uh3, snd uh3) else (fst uh3, snd uh3) = uh2"
    using s(2) unfolding rx_taken_def u2 by (auto split: if_splits)
  moreover have "if mis AND MIS_TX \<noteq> 0
     then \<exists>b ys. fst uh2 = u\<lparr>ua_tx_buffer := b\<rparr> \<and> pl_line d (snd uh2) = pl_line d h1 @ ys \<and>
       contents (ua_tx_buffer u) = ys @ contents b \<and>
       (if contents b = [] then pl_imsc d (snd uh2) = pl_imsc d h1 AND NOT IMSC_TXIM_BIT
        else tx_full mc u (snd uh2) \<and> pl_imsc d (snd uh2) = pl_imsc d h1)
     else uh2 = (u, h1)"
    using s(1) unfolding tx_drained_def fst_conv snd_conv by (auto split: if_splits)
  ultimately show ?thesis using r(1,2) s(3) by (intro exI [of _ uh2] exI [of _ "fst uh3"] exI [of _ "snd uh3"]) simp
qed

lemma sim_uart_ok: "uart_ok sim_machine sim_pl011 sim_uart"
  using sim_pl011_ok CharBuffer_init_ok by (simp add: uart_ok_def sim_uart_def)

theorem uart_irq_correct_witness:
  "\<exists>u' h'. pl011_handle_irq sim_machine (sim_uart, [], 0x30, 0) = Some (Inr (u', h')) \<and>
     contents (ua_rx_buffer u') = [0x41] \<and> pl_line sim_pl011 h' = ring_text [0x41]"
proof -
  have r: "mc_read32 sim_machine (ua_uart sim_uart + MIS) ([], 0x30, 0) = (0x30, [], 0x30, 0)"
    by (simp add: sim_machine_def sim_uart_def MIS_def)
  have c: "contents (ua_rx_buffer sim_uart) = []" "contents (ua_tx_buffer sim_uart) = []" "\<not> ua_irqs_ready sim_uart"
    using CharBuffer_init_ok by (simp_all add: sim_uart_def)
  have bits: "(0x30 :: u32) AND MIS_TX \<noteq> 0" "(0x30 :: u32) AND MIS_RX \<noteq> 0" by (simp_all add: MIS_TX_def MIS_RX_def)
  have dr: "fst (mc_read32 sim_machine (ua_uart sim_uart + DR) h) = 0x41" "pl_line sim_pl011 (snd (mc_read32 sim_machine (ua_uart sim_uart + DR) h)) = pl_line sim_pl011 h"
    "pl_line sim_pl011 (mc_write32 sim_machine (ua_uart sim_uart + ICR) v h) = pl_line sim_pl011 h" for h v
    by (cases h; simp add: sim_machine_def sim_uart_def DR_def ICR_def sim_pl011_def)+
  obtain uh2 u3 h3 b ys c' h' b' where i: "pl011_handle_irq sim_machine (sim_uart, [], 0x30, 0) =
        Some (Inr (u3, mc_write32 sim_machine (ua_uart sim_uart + ICR) 0x30 h3))"
      "fst uh2 = sim_uart\<lparr>ua_tx_buffer := b\<rparr>" "pl_line sim_pl011 (snd uh2) = pl_line sim_pl011 ([], 0x30, 0) @ ys" "[] = ys @ contents b"
      "mc_read32 sim_machine (ua_uart sim_uart + DR) (snd uh2) = (c', h')" "contents b' = keep_last 63 ([] @ [ucast c'])"
      "put_out sim_pl011 ((fst uh2)\<lparr>ua_rx_buffer := b'\<rparr>, h') (ring_text (contents b')) (u3, h3)"
    using uart_irq_correct [OF sim_uart_ok r] unfolding if_P [OF bits(1)] if_P [OF bits(2)] c by blast
  have c': "c' = 0x41" "pl_line sim_pl011 h' = []" using dr(1,2) [of "snd uh2"] i(3-5) by (simp_all add: sim_line)
  then have b': "contents b' = [0x41]" using i(6) by (simp add: keep_last_def)
  from i(7) have "pl_line sim_pl011 h3 = ring_text [0x41]" "ua_rx_buffer u3 = b'"
    using i(2,4) c(3) c'(2) unfolding b' by (auto simp: put_out_def)
  with i(1) b' dr(3) show ?thesis by auto
qed

section \<open>The baud rate\<close>

text \<open>C31: The divisors are the integer and the 6-bit fractional part of the clock divided by
  16 times the baud rate, for every clock frequency up to 1GHz; a frequency of zero stops the
  kernel.\<close>

theorem calculate_divisors_correct:
  assumes "unat (ua_clock_frequency u) \<le> 10 ^ 9"
  shows "if ua_clock_frequency u = 0 then calculate_divisors u = Inl (Kassert ''precond'')
    else \<exists>i f. calculate_divisors u = Inr (i, f) \<and> unat f < 64 \<and> unat i < 2 ^ 16 \<and>
      64 * unat i + unat f = 64 * unat (ua_clock_frequency u) div (16 * 115200)"
proof (cases "ua_clock_frequency u = 0")
  case True
  then show ?thesis by (simp add: calculate_divisors_def kassert_def)
next
  case False
  define w where "w = 4 * ua_clock_frequency u div BAUD_RATE"
  have "unat (4 * ua_clock_frequency u) = 4 * unat (ua_clock_frequency u)"
    using assms by (subst unat_mult_lem [THEN iffD1]) simp_all
  then have w: "unat w = 4 * unat (ua_clock_frequency u) div 115200" by (simp add: w_def BAUD_RATE_def unat_div)
  also have "\<dots> = 64 * unat (ua_clock_frequency u) div (16 * 115200)"
    using div_mult_mult1 [of 16 "4 * unat (ua_clock_frequency u)" 115200] by simp
  finally have w2: "unat w = 64 * unat (ua_clock_frequency u) div (16 * 115200)" .
  have lt: "unat w < 2 ^ 16 * 64" unfolding w using assms by (simp add: div_less_iff_less_mult)
  have "w AND 0x3f = take_bit 6 w" by (simp add: take_bit_eq_mask mask_eq_exp_minus_1)
  then have f: "unat (w AND 0x3f) = unat w mod 64"
    by (simp only: unsigned_take_bit_eq) (simp add: take_bit_eq_mod)
  have "drop_bit 6 w AND 0xffff = take_bit 16 (drop_bit 6 w)" by (simp add: take_bit_eq_mask mask_eq_exp_minus_1)
  then have "unat (drop_bit 6 w AND 0xffff) = unat w div 64 mod 2 ^ 16"
    by (simp only: unsigned_take_bit_eq unat_drop_bit_eq) (simp add: take_bit_eq_mod drop_bit_eq_div)
  then have i: "unat (drop_bit 6 w AND 0xffff) = unat w div 64" "unat w div 64 < 2 ^ 16"
    using lt by (simp_all add: div_less_iff_less_mult)
  have "calculate_divisors u = Inr (drop_bit 6 w AND 0xffff, w AND 0x3f)"
    using False by (simp add: calculate_divisors_def kassert_def Let_def w_def)
  moreover have "64 * unat (drop_bit 6 w AND 0xffff) + unat (w AND 0x3f) = unat w"
    unfolding f i(1) by simp
  ultimately show ?thesis using False f i w2 by auto
qed

theorem calculate_divisors_correct_witness:
  "\<exists>i f. calculate_divisors sim_uart = Inr (i, f) \<and> 64 * unat i + unat f = 833"
  using calculate_divisors_correct [of sim_uart] by (auto simp: sim_uart_def)

text \<open>A newline in a string is sent with two carriage returns.\<close>

lemma send_str_doubles_cr:
  "\<exists>u' h'. pl011_send_str_async sim_machine (lit [CHR 0x0A]) 0 (sim_uart, [], 0, 0) = Some (Inr (u', h')) \<and>
     pl_line sim_pl011 h' = [CRET, CRET, NL]"
proof -
  have "cstring (lit [CHR 0x0A]) 0 [NL]"
    using literal_string [of "[CHR 0x0A]"] by (simp add: bytes_of_def NL_def)
  moreover have "console sim_machine sim_pl011 (sim_uart, [], 0, 0)"
    using sim_uart_ok by (simp add: console_def uart_ok_def)
  ultimately show ?thesis
    using send_str_out [of "lit [CHR 0x0A]" 0 "[NL]" sim_machine sim_pl011 "(sim_uart, [], 0, 0)"] CharBuffer_init_ok(2)
    by (auto simp: put_out_def crcrlf_def sim_line sim_uart_def)
qed

end
