(* ===== verification/Kstdio.thy ===== *)
theory Kstdio
  imports Uart_Send
begin

text \<open>
  Formatted output (\<open>src/src/kstdio.cpp\<close>) on top of the UART driver: \<open>kprintf_print_number\<close>
  with its buffer of twenty digits, \<open>vkprintf\<close>, and the report of a failed assertion
  (\<open>src/src/util/assert.cpp\<close>). The relation \<open>renders\<close> says what a format string and its
  arguments stand for; the routines put exactly that on the line.
\<close>

section \<open>The routines\<close>

text \<open>
  A variable argument: an eight-byte slot, or a pointer to a string literal of the kernel.
\<close>

datatype va = Slot u64 | Lit string

definition ch :: "char \<Rightarrow> u8" where
  "ch c = of_char c"

definition digit :: "int \<Rightarrow> u8" where
  "digit remainder = (if remainder < 10 then word_of_int (48 + remainder) else word_of_int (97 + remainder - 10))"

text \<open>
  The number is positive in the loop, so that division rounds as in C. The buffer has twenty
  places; only those the loop has written are read, so it starts with zeros here.
\<close>

partial_function (option) number_loop :: "int \<Rightarrow> int \<Rightarrow> nat \<Rightarrow> u8 list \<Rightarrow> (nat \<times> u8 list) comp" where
  "number_loop number base max_idx number_buf =
     (if number \<noteq> 0
      then if max_idx < length number_buf
           then number_loop (number div base) base (max_idx + 1) (number_buf[max_idx := digit (number mod base)])
           else Some (Inl (OutOfBounds max_idx))
      else Some (Inr (max_idx, number_buf)))"

fun send_digits :: "'h Machine \<Rightarrow> u8 list \<Rightarrow> nat \<Rightarrow> Uart \<times> 'h \<Rightarrow> (Uart \<times> 'h) comp" where
  "send_digits mc number_buf 0 uh = Some (Inr uh)"
| "send_digits mc number_buf (Suc i) uh =
     bind_comp (pl011_send_char_async mc (number_buf ! i) uh) (\<lambda>uh1. send_digits mc number_buf i uh1)"

definition kprintf_print_number :: "'h Machine \<Rightarrow> int \<Rightarrow> int \<Rightarrow> Uart \<times> 'h \<Rightarrow> (Uart \<times> 'h) comp" where
  "kprintf_print_number mc number base uh =
     (if number = 0 then pl011_send_char_async mc (ch CHR ''0'') uh
      else
        bind_comp
          (if number < 0
           then bind_comp (pl011_send_char_async mc (ch CHR ''-'') uh) (\<lambda>uh1.
                if number = - (2 ^ 31) then Some (Inl SignedOverflow) else Some (Inr (- number, uh1)))
           else Some (Inr (number, uh))) (\<lambda>(n, uh1).
        bind_comp (number_loop n base 0 (replicate 20 0)) (\<lambda>(max_idx, number_buf).
        send_digits mc number_buf max_idx uh1)))"

text \<open>\<open>va_arg\<close>: the next argument.\<close>

definition va_slot :: "va list \<Rightarrow> (u64 \<times> va list) res" where
  "va_slot args = (case args of Slot v # rest \<Rightarrow> Inr (v, rest) | _ \<Rightarrow> Inl (Uninit ''va_arg''))"

definition send_str_arg :: "'h Machine \<Rightarrow> mem \<Rightarrow> va list \<Rightarrow> Uart \<times> 'h \<Rightarrow> (va list \<times> Uart \<times> 'h) comp" where
  "send_str_arg mc m args uh =
     (case args of
        [] \<Rightarrow> Some (Inl (Uninit ''va_arg''))
      | Lit s # rest \<Rightarrow> bind_comp (pl011_send_str_async mc (lit s) 0 uh) (\<lambda>uh1. Some (Inr (rest, uh1)))
      | Slot p # rest \<Rightarrow>
          bind_comp
            (if p \<noteq> 0 then pl011_send_str_async mc m p uh else pl011_send_str_async mc (lit ''(null)'') 0 uh) (\<lambda>uh1.
          Some (Inr (rest, uh1))))"

definition print_spec :: "'h Machine \<Rightarrow> mem \<Rightarrow> u8 \<Rightarrow> va list \<Rightarrow> Uart \<times> 'h \<Rightarrow> (va list \<times> Uart \<times> 'h) comp" where
  "print_spec mc m specifier args uh =
     (if specifier = ch CHR ''d''
      then bind_comp (Some (va_slot args)) (\<lambda>(v, rest).
           bind_comp (kprintf_print_number mc (sint (ucast v :: u32)) 10 uh) (\<lambda>uh1. Some (Inr (rest, uh1))))
      else if specifier = ch CHR ''z''
      then bind_comp (Some (va_slot args)) (\<lambda>(v, rest).
           bind_comp (kprintf_print_number mc (uint v) 10 uh) (\<lambda>uh1. Some (Inr (rest, uh1))))
      else if specifier = ch CHR ''s'' then send_str_arg mc m args uh
      else if specifier = ch CHR ''p''
      then bind_comp (Some (va_slot args)) (\<lambda>(v, rest).
           bind_comp (pl011_send_str_async mc (lit ''0x'') 0 uh) (\<lambda>uh1.
           bind_comp (kprintf_print_number mc (uint v) 16 uh1) (\<lambda>uh2. Some (Inr (rest, uh2)))))
      else if specifier = ch CHR ''c''
      then bind_comp (Some (va_slot args)) (\<lambda>(v, rest).
           bind_comp (pl011_send_char_async mc (ucast v) uh) (\<lambda>uh1. Some (Inr (rest, uh1))))
      else Some (Inr (args, uh)))"

partial_function (option) vkprintf ::
    "'h Machine \<Rightarrow> mem \<Rightarrow> mem \<Rightarrow> u64 \<Rightarrow> va list \<Rightarrow> Uart \<times> 'h \<Rightarrow> (Uart \<times> 'h) comp" where
  "vkprintf mc m fm current args uh =
     bind_comp (Some (load8 fm current)) (\<lambda>c.
     if c \<noteq> 0
     then
       if c = ch CHR ''%''
       then bind_comp (Some (load8 fm (current + 1))) (\<lambda>specifier.
            if specifier \<noteq> 0
            then bind_comp (print_spec mc m specifier args uh) (\<lambda>r.
                 vkprintf mc m fm (current + 2) (fst r) (snd r))
            else vkprintf mc m fm (current + 1) args uh)
       else bind_comp (pl011_send_char_async mc c uh) (\<lambda>uh1. vkprintf mc m fm (current + 1) args uh1)
     else Some (Inr uh))"

text \<open>\<open>kprintf\<close> with a format that is a literal of the kernel.\<close>

definition kprintf :: "'h Machine \<Rightarrow> mem \<Rightarrow> string \<Rightarrow> va list \<Rightarrow> Uart \<times> 'h \<Rightarrow> (Uart \<times> 'h) comp" where
  "kprintf mc m format args uh = vkprintf mc m (lit format) 0 args uh"

text \<open>
  What \<open>report_error\<close> prints before it spins; the caller never continues.
\<close>

definition report_error_output ::
    "'h Machine \<Rightarrow> mem \<Rightarrow> string \<Rightarrow> u64 \<Rightarrow> string \<Rightarrow> string \<Rightarrow> va list \<Rightarrow> Uart \<times> 'h \<Rightarrow> (Uart \<times> 'h) comp" where
  "report_error_output mc m file line error_msg detail_fmt args uh =
     bind_comp (kprintf mc m (''=========================================='' @ [CHR 0x0A]) [] uh) (\<lambda>uh1.
     bind_comp (kprintf mc m (''Error at %s:%d:'' @ [CHR 0x0A]) [Lit file, Slot line] uh1) (\<lambda>uh2.
     bind_comp (kprintf mc m error_msg [] uh2) (\<lambda>uh3.
     vkprintf mc m (lit detail_fmt) 0 args uh3)))"

definition report_error ::
    "'h Machine \<Rightarrow> mem \<Rightarrow> string \<Rightarrow> u64 \<Rightarrow> string \<Rightarrow> string \<Rightarrow> va list \<Rightarrow> Uart \<times> 'h \<Rightarrow> (Uart \<times> 'h) comp" where
  "report_error mc m file line error_msg detail_fmt args uh =
     bind_comp (report_error_output mc m file line error_msg detail_fmt args uh) (\<lambda>_. None)"

section \<open>Numbers\<close>

function digits :: "int \<Rightarrow> int \<Rightarrow> u8 list" where
  "digits base n = (if n < base \<or> base < 2 then [digit n] else digits base (n div base) @ [digit (n mod base)])"
  by pat_completeness auto
termination
proof (relation "measure (\<lambda>(b, n). nat n)", goal_cases)
  case (2 base n)
  then have "n div base < n" "0 < n" by (simp_all add: int_div_less_self)
  then show ?case by simp
qed simp

declare digits.simps [simp del]

definition number_text :: "int \<Rightarrow> int \<Rightarrow> u8 list" where
  "number_text base n = (if n < 0 then ch CHR ''-'' # digits base (- n) else digits base n)"

lemma digits_length:
  assumes "2 \<le> base"
  shows "0 \<le> n \<Longrightarrow> n < base ^ Suc k \<Longrightarrow> length (digits base n) \<le> Suc k"
proof (induction k arbitrary: n)
  case 0
  then show ?case by (simp add: digits.simps)
next
  case (Suc k)
  show ?case
  proof (cases "n < base")
    case True
    then show ?thesis by (simp add: digits.simps)
  next
    case False
    have "n div base < base ^ Suc k"
    proof (rule ccontr)
      assume "\<not> n div base < base ^ Suc k"
      then have "base ^ Suc k * base \<le> n div base * base" using assms by (intro mult_right_mono) simp_all
      also have "\<dots> \<le> n" using assms minus_mod_eq_div_mult [of n base] by (simp add: pos_mod_sign flip: minus_mod_eq_div_mult)
      finally show False using Suc.prems(2) by (simp add: mult.commute)
    qed
    moreover have "0 \<le> n div base" using Suc.prems(1) assms by (simp add: pos_imp_zdiv_nonneg_iff)
    ultimately have "length (digits base (n div base)) \<le> Suc k" using Suc.IH by blast
    with False assms show ?thesis by (subst digits.simps) simp
  qed
qed

lemma number_loop_spec:
  assumes "2 \<le> base"
  shows "0 < n \<Longrightarrow> k + length (digits base n) \<le> length buf \<Longrightarrow>
    \<exists>buf'. number_loop n base k buf = Some (Inr (k + length (digits base n), buf')) \<and> length buf' = length buf \<and>
      take (k + length (digits base n)) buf' = take k buf @ rev (digits base n)"
  using assms
proof (induction base n arbitrary: k buf rule: digits.induct)
  case (1 base n)
  let ?d = "digit (n mod base)"
  have k: "k < length buf" using "1.prems"(2) by (subst (asm) digits.simps) (auto split: if_splits)
  have step: "number_loop n base k buf = number_loop (n div base) base (k + 1) (buf[k := ?d])"
    using "1.prems"(1) k by (subst number_loop.simps) simp
  have tk: "take (k + 1) (buf[k := ?d]) = take k buf @ [?d]" using k by (simp add: take_Suc_conv_app_nth)
  show ?case
  proof (cases "n < base")
    case True
    then have z: "n div base = 0" "n mod base = n" "digits base n = [digit n]"
      using "1.prems"(1) by (simp_all add: digits.simps)
    show ?thesis
      unfolding step z(1) z(3) using tk z(2) by (subst number_loop.simps) simp
  next
    case False
    then have d: "digits base n = digits base (n div base) @ [?d]" using "1.prems"(3) by (subst digits.simps) simp
    have "0 < n div base" using False "1.prems"(3) by (simp add: pos_imp_zdiv_pos_iff)
    moreover have "k + 1 + length (digits base (n div base)) \<le> length (buf[k := ?d])" using "1.prems"(2) d by simp
    ultimately obtain buf' where b: "number_loop (n div base) base (k + 1) (buf[k := ?d]) =
          Some (Inr (k + 1 + length (digits base (n div base)), buf'))" "length buf' = length (buf[k := ?d])"
        "take (k + 1 + length (digits base (n div base))) buf' = take (k + 1) (buf[k := ?d]) @ rev (digits base (n div base))"
      using "1.IH" [of "k + 1" "buf[k := ?d]"] False "1.prems"(3) by auto
    then show ?thesis unfolding step d using tk by simp
  qed
qed

text \<open>Every digit is a character that is sent as it is.\<close>

lemma crlf_digit: "0 \<le> n \<Longrightarrow> n < 16 \<Longrightarrow> crlf (digit n) = [digit n]"
proof -
  assume n: "0 \<le> n" "n < 16"
  have "uint (word_of_int (48 + n) :: u8) = 48 + n" "uint (word_of_int (97 + n - 10) :: u8) = 97 + n - 10"
    using n by (simp_all only: uint_word_of_int) simp_all
  then have "uint (digit n) \<noteq> 10" using n by (simp only: digit_def split: if_split) linarith
  then have "digit n \<noteq> NL" by (auto simp: NL_def)
  then show ?thesis by (simp add: crlf_def)
qed

lemma crlf_digits:
  assumes "2 \<le> base" "base \<le> 16"
  shows "0 \<le> n \<Longrightarrow> concat (map crlf (digits base n)) = digits base n"
  using assms
proof (induction base n rule: digits.induct)
  case (1 base n)
  have "n mod base < base" using "1.prems" by simp
  with "1.prems" have m: "n mod base < 16" "0 \<le> n mod base" by (linarith, simp)
  show ?case
  proof (cases "n < base")
    case True
    with "1.prems" show ?thesis by (simp add: digits.simps crlf_digit)
  next
    case False
    with "1.IH" "1.prems" m show ?thesis
      by (simp add: digits.simps [of base n] crlf_digit pos_imp_zdiv_nonneg_iff)
  qed
qed

lemma send_digits_out:
  "n \<le> length buf \<Longrightarrow> console mc d uh \<Longrightarrow>
   \<exists>uh'. send_digits mc buf n uh = Some (Inr uh') \<and> put_out d uh (concat (map crlf (rev (take n buf)))) uh'"
proof (induction n arbitrary: uh)
  case 0
  then show ?case by (simp add: put_out_refl)
next
  case (Suc n)
  obtain uh1 where uh1: "pl011_send_char_async mc (buf ! n) uh = Some (Inr uh1)" "put_out d uh (crlf (buf ! n)) uh1"
    using send_char_out [OF Suc.prems(2)] by blast
  obtain uh2 where "send_digits mc buf n uh1 = Some (Inr uh2)" "put_out d uh1 (concat (map crlf (rev (take n buf)))) uh2"
    using Suc.IH [OF _ put_out_console [OF Suc.prems(2) uh1(2)]] Suc.prems(1) by auto
  with uh1 put_out_trans [OF uh1(2)] Suc.prems(1) show ?case by (auto simp: take_Suc_conv_app_nth)
qed

lemma print_positive_out:
  assumes con: "console mc d uh" and n: "0 < n" "n < 2 ^ 64" and base: "base \<in> {10, 16}"
  shows "\<exists>uh'. bind_comp (number_loop n base 0 (replicate 20 0)) (\<lambda>(max_idx, buf). send_digits mc buf max_idx uh) = Some (Inr uh') \<and>
    put_out d uh (digits base n) uh'"
proof -
  have b: "2 \<le> base" "base \<le> 16" using base by auto
  have "n < base ^ Suc 19" using n(2) base by auto
  then have len: "length (digits base n) \<le> 20" using digits_length [OF b(1), of n 19] n(1) by simp
  obtain buf where buf: "number_loop n base 0 (replicate 20 0) = Some (Inr (length (digits base n), buf))"
      "length buf = 20" "take (length (digits base n)) buf = rev (digits base n)"
    using number_loop_spec [OF b(1) n(1), of 0 "replicate 20 0"] len by auto
  show ?thesis
    using send_digits_out [of "length (digits base n)" buf, OF _ con] buf len crlf_digits [OF b, of n] n(1) by simp
qed

lemma print_number_out:
  assumes con: "console mc d uh" and n: "- (2 ^ 31) < n" "n < 2 ^ 64" and base: "base \<in> {10, 16}"
  shows "\<exists>uh'. kprintf_print_number mc n base uh = Some (Inr uh') \<and> put_out d uh (number_text base n) uh'"
proof -
  consider "n = 0" | "0 < n" | "n < 0" by linarith
  then show ?thesis
  proof cases
    case 1
    have "digits base 0 = [digit 0]" using base by (subst digits.simps) auto
    moreover have "digit 0 = ch CHR ''0''" by (simp add: digit_def ch_def)
    ultimately have "number_text base n = crlf (ch CHR ''0'')" using 1 by (simp add: number_text_def crlf_def ch_def NL_def)
    then show ?thesis using 1 send_char_out [OF con] by (simp add: kprintf_print_number_def)
  next
    case 2
    then show ?thesis using print_positive_out [OF con 2 n(2) base] by (simp add: kprintf_print_number_def number_text_def)
  next
    case 3
    obtain uh1 where uh1: "pl011_send_char_async mc (ch CHR ''-'') uh = Some (Inr uh1)" "put_out d uh (crlf (ch CHR ''-'')) uh1"
      using send_char_out [OF con] by blast
    obtain uh2 where uh2: "bind_comp (number_loop (- n) base 0 (replicate 20 0)) (\<lambda>(max_idx, buf). send_digits mc buf max_idx uh1) = Some (Inr uh2)"
        "put_out d uh1 (digits base (- n)) uh2"
      using print_positive_out [OF put_out_console [OF con uh1(2)], of "- n" base] 3 n base by auto
    have "kprintf_print_number mc n base uh = Some (Inr uh2)"
      using 3 n uh1(1) uh2(1) by (simp add: kprintf_print_number_def)
    with put_out_trans [OF uh1(2) uh2(2)] 3 show ?thesis by (auto simp: number_text_def crlf_def ch_def NL_def)
  qed
qed

section \<open>Formats\<close>

text \<open>What a format and its arguments are printed as, with pointers into \<open>m\<close>.\<close>

inductive renders :: "mem \<Rightarrow> u8 list \<Rightarrow> va list \<Rightarrow> u8 list \<Rightarrow> bool" for m where
  stop: "renders m [] args []"
| percent: "renders m [ch CHR ''%''] args []"
| plain: "c \<noteq> ch CHR ''%'' \<Longrightarrow> renders m f args xs \<Longrightarrow> renders m (c # f) args (crlf c @ xs)"
| int: "sint (ucast v :: u32) \<noteq> - (2 ^ 31) \<Longrightarrow> renders m f args xs \<Longrightarrow>
    renders m (ch CHR ''%'' # ch CHR ''d'' # f) (Slot v # args) (number_text 10 (sint (ucast v :: u32)) @ xs)"
| wide: "renders m f args xs \<Longrightarrow>
    renders m (ch CHR ''%'' # ch CHR ''z'' # f) (Slot v # args) (digits 10 (uint v) @ xs)"
| str: "p \<noteq> 0 \<Longrightarrow> cstring m p s \<Longrightarrow> renders m f args xs \<Longrightarrow>
    renders m (ch CHR ''%'' # ch CHR ''s'' # f) (Slot p # args) (concat (map crcrlf s) @ xs)"
| null: "renders m f args xs \<Longrightarrow>
    renders m (ch CHR ''%'' # ch CHR ''s'' # f) (Slot 0 # args) (bytes_of ''(null)'' @ xs)"
| literal: "CHR 0x00 \<notin> set s \<Longrightarrow> length s < 1000 \<Longrightarrow> renders m f args xs \<Longrightarrow>
    renders m (ch CHR ''%'' # ch CHR ''s'' # f) (Lit s # args) (concat (map crcrlf (bytes_of s)) @ xs)"
| pointer: "renders m f args xs \<Longrightarrow>
    renders m (ch CHR ''%'' # ch CHR ''p'' # f) (Slot v # args) (bytes_of ''0x'' @ digits 16 (uint v) @ xs)"
| chr: "renders m f args xs \<Longrightarrow>
    renders m (ch CHR ''%'' # ch CHR ''c'' # f) (Slot v # args) (crlf (ucast v) @ xs)"
| unknown: "c \<notin> ch ` {CHR ''d'', CHR ''z'', CHR ''s'', CHR ''p'', CHR ''c''} \<Longrightarrow> renders m f args xs \<Longrightarrow>
    renders m (ch CHR ''%'' # c # f) args xs"

definition spec_out :: "'h Machine \<Rightarrow> 'h PL011 \<Rightarrow> mem \<Rightarrow> u8 \<Rightarrow> va list \<Rightarrow> va list \<Rightarrow> u8 list \<Rightarrow> bool" where
  "spec_out mc d m c args rest xs \<longleftrightarrow> (\<forall>uh. console mc d uh \<longrightarrow>
     (\<exists>uh'. print_spec mc m c args uh = Some (Inr (rest, uh')) \<and> put_out d uh xs uh'))"

lemma vkprintf_spec:
  assumes so: "spec_out mc d m c args rest xs" and f: "cstring fm p (ch CHR ''%'' # c # f)" and con: "console mc d uh"
    and rest: "\<And>uh. console mc d uh \<Longrightarrow>
      \<exists>uh'. vkprintf mc m fm (p + 2) rest uh = Some (Inr uh') \<and> put_out d uh ys uh'"
  shows "\<exists>uh'. vkprintf mc m fm p args uh = Some (Inr uh') \<and> put_out d uh (xs @ ys) uh'"
proof -
  have l: "load8 fm p = Inr (ch CHR ''%'')" "load8 fm (p + 1) = Inr c" "c \<noteq> 0" "ch CHR ''%'' \<noteq> 0"
    using f by (simp_all add: ch_def)
  obtain uh1 where uh1: "print_spec mc m c args uh = Some (Inr (rest, uh1))" "put_out d uh xs uh1"
    using so con unfolding spec_out_def by blast
  obtain uh2 where uh2: "vkprintf mc m fm (p + 2) rest uh1 = Some (Inr uh2)" "put_out d uh1 ys uh2"
    using rest [OF put_out_console [OF con uh1(2)]] by blast
  have "vkprintf mc m fm p args uh = Some (Inr uh2)"
    using l uh1(1) uh2(1) by (subst vkprintf.simps) simp
  with put_out_trans [OF uh1(2) uh2(2)] show ?thesis by blast
qed

lemma ch_diff:
  "ch CHR ''z'' \<noteq> ch CHR ''d''" "ch CHR ''s'' \<noteq> ch CHR ''d''" "ch CHR ''s'' \<noteq> ch CHR ''z''"
  "ch CHR ''p'' \<noteq> ch CHR ''d''" "ch CHR ''p'' \<noteq> ch CHR ''z''" "ch CHR ''p'' \<noteq> ch CHR ''s''"
  "ch CHR ''c'' \<noteq> ch CHR ''d''" "ch CHR ''c'' \<noteq> ch CHR ''z''" "ch CHR ''c'' \<noteq> ch CHR ''s''" "ch CHR ''c'' \<noteq> ch CHR ''p''"
  by (simp_all add: ch_def)

lemma out_literals:
  "concat (map crcrlf (bytes_of ''(null)'')) = bytes_of ''(null)''" "concat (map crcrlf (bytes_of ''0x'')) = bytes_of ''0x''"
  by (simp_all add: bytes_of_def crcrlf_def NL_def)

lemma spec_numbers:
  "sint (ucast v :: u32) \<noteq> - (2 ^ 31) \<Longrightarrow>
     spec_out mc d m (ch CHR ''d'') (Slot v # args) args (number_text 10 (sint (ucast v :: u32)))"
  "spec_out mc d m (ch CHR ''z'') (Slot v # args) args (digits 10 (uint v))"
  "spec_out mc d m (ch CHR ''p'') (Slot v # args) args (bytes_of ''0x'' @ digits 16 (uint v))"
  "spec_out mc d m (ch CHR ''c'') (Slot v # args) args (crlf (ucast v))"
proof -
  have s: "- (2 ^ 31) \<le> sint (ucast v :: u32)" "sint (ucast v :: u32) < 2 ^ 31"
    using sint_ge [of "ucast v :: u32"] sint_lt [of "ucast v :: u32"] by simp_all
  have u: "0 \<le> uint v" "uint v < 2 ^ 64" using uint_bounded [of v] by simp_all
  have t: "number_text b (uint v) = digits b (uint v)" for b by (simp add: number_text_def)
  show "spec_out mc d m (ch CHR ''d'') (Slot v # args) args (number_text 10 (sint (ucast v :: u32)))"
    if "sint (ucast v :: u32) \<noteq> - (2 ^ 31)"
    unfolding spec_out_def
  proof (intro allI impI)
    fix uh assume con: "console mc d uh"
    show "\<exists>uh'. print_spec mc m (ch CHR ''d'') (Slot v # args) uh = Some (Inr (args, uh')) \<and>
        put_out d uh (number_text 10 (sint (ucast v :: u32))) uh'"
      using print_number_out [OF con, of "sint (ucast v :: u32)" 10] s that
      by (auto simp: print_spec_def va_slot_def)
  qed
  show "spec_out mc d m (ch CHR ''z'') (Slot v # args) args (digits 10 (uint v))"
    unfolding spec_out_def
  proof (intro allI impI)
    fix uh assume con: "console mc d uh"
    show "\<exists>uh'. print_spec mc m (ch CHR ''z'') (Slot v # args) uh = Some (Inr (args, uh')) \<and> put_out d uh (digits 10 (uint v)) uh'"
      using print_number_out [OF con, of "uint v" 10] u t by (auto simp: print_spec_def va_slot_def ch_diff)
  qed
  show "spec_out mc d m (ch CHR ''p'') (Slot v # args) args (bytes_of ''0x'' @ digits 16 (uint v))"
    unfolding spec_out_def
  proof (intro allI impI)
    fix uh assume con: "console mc d uh"
    obtain uh1 where uh1: "pl011_send_str_async mc (lit ''0x'') 0 uh = Some (Inr uh1)" "put_out d uh (bytes_of ''0x'') uh1"
      using send_str_out [OF literal_string con, of "''0x''"] unfolding out_literals by auto
    obtain uh2 where uh2: "kprintf_print_number mc (uint v) 16 uh1 = Some (Inr uh2)" "put_out d uh1 (digits 16 (uint v)) uh2"
      using print_number_out [OF put_out_console [OF con uh1(2)], of "uint v" 16] u t by auto
    have "print_spec mc m (ch CHR ''p'') (Slot v # args) uh = Some (Inr (args, uh2))"
      using uh1(1) uh2(1) by (simp add: print_spec_def va_slot_def ch_diff)
    with put_out_trans [OF uh1(2) uh2(2)]
    show "\<exists>uh'. print_spec mc m (ch CHR ''p'') (Slot v # args) uh = Some (Inr (args, uh')) \<and>
        put_out d uh (bytes_of ''0x'' @ digits 16 (uint v)) uh'" by blast
  qed
  show "spec_out mc d m (ch CHR ''c'') (Slot v # args) args (crlf (ucast v))"
    unfolding spec_out_def
  proof (intro allI impI)
    fix uh assume con: "console mc d uh"
    show "\<exists>uh'. print_spec mc m (ch CHR ''c'') (Slot v # args) uh = Some (Inr (args, uh')) \<and> put_out d uh (crlf (ucast v)) uh'"
      using send_char_out [OF con, of "ucast v"] by (auto simp: print_spec_def va_slot_def ch_diff)
  qed
qed

lemma spec_strings:
  "p \<noteq> 0 \<Longrightarrow> cstring m p s \<Longrightarrow> spec_out mc d m (ch CHR ''s'') (Slot p # args) args (concat (map crcrlf s))"
  "spec_out mc d m (ch CHR ''s'') (Slot 0 # args) args (bytes_of ''(null)'')"
  "CHR 0x00 \<notin> set l \<Longrightarrow> length l < 1000 \<Longrightarrow>
     spec_out mc d m (ch CHR ''s'') (Lit l # args) args (concat (map crcrlf (bytes_of l)))"
proof -
  have unf: "print_spec mc m (ch CHR ''s'') as uh = send_str_arg mc m as uh" for as uh
    by (simp add: print_spec_def ch_diff)
  show "spec_out mc d m (ch CHR ''s'') (Slot p # args) args (concat (map crcrlf s))" if "p \<noteq> 0" "cstring m p s"
    unfolding spec_out_def unf
  proof (intro allI impI)
    fix uh assume con: "console mc d uh"
    show "\<exists>uh'. send_str_arg mc m (Slot p # args) uh = Some (Inr (args, uh')) \<and> put_out d uh (concat (map crcrlf s)) uh'"
      using send_str_out [OF that(2) con] that(1) by (auto simp: send_str_arg_def)
  qed
  show "spec_out mc d m (ch CHR ''s'') (Slot 0 # args) args (bytes_of ''(null)'')"
    unfolding spec_out_def unf
  proof (intro allI impI)
    fix uh assume con: "console mc d uh"
    show "\<exists>uh'. send_str_arg mc m (Slot 0 # args) uh = Some (Inr (args, uh')) \<and> put_out d uh (bytes_of ''(null)'') uh'"
      using send_str_out [OF literal_string con, of "''(null)''"] unfolding out_literals by (auto simp: send_str_arg_def)
  qed
  show "spec_out mc d m (ch CHR ''s'') (Lit l # args) args (concat (map crcrlf (bytes_of l)))"
    if "CHR 0x00 \<notin> set l" "length l < 1000"
    unfolding spec_out_def unf
  proof (intro allI impI)
    fix uh assume con: "console mc d uh"
    show "\<exists>uh'. send_str_arg mc m (Lit l # args) uh = Some (Inr (args, uh')) \<and>
        put_out d uh (concat (map crcrlf (bytes_of l))) uh'"
      using send_str_out [OF literal_string [OF that] con] by (auto simp: send_str_arg_def)
  qed
qed

lemma spec_unknown:
  assumes "c \<notin> ch ` {CHR ''d'', CHR ''z'', CHR ''s'', CHR ''p'', CHR ''c''}"
  shows "spec_out mc d m c args args []"
  using assms put_out_refl by (auto simp: spec_out_def print_spec_def)

lemma vkprintf_out:
  "renders m f args xs \<Longrightarrow> cstring fm p f \<Longrightarrow> console mc d uh \<Longrightarrow>
   \<exists>uh'. vkprintf mc m fm p args uh = Some (Inr uh') \<and> put_out d uh xs uh'"
proof (induction arbitrary: p uh rule: renders.induct)
  case (stop args)
  then show ?case using put_out_refl [OF stop.prems(2)] by (subst vkprintf.simps) simp
next
  case (percent args)
  then have "vkprintf mc m fm p args uh = vkprintf mc m fm (p + 1) args uh"
    by (subst vkprintf.simps) (auto simp: ch_def)
  also have "\<dots> = Some (Inr uh)" using percent.prems(1) by (subst vkprintf.simps) auto
  finally show ?case using put_out_refl [OF percent.prems(2)] by simp
next
  case (plain c f args xs)
  have f1: "cstring fm (p + 1) f" using plain.prems(1) by simp
  obtain uh1 where uh1: "pl011_send_char_async mc c uh = Some (Inr uh1)" "put_out d uh (crlf c) uh1"
    using send_char_out [OF plain.prems(2)] by blast
  obtain uh2 where uh2: "vkprintf mc m fm (p + 1) args uh1 = Some (Inr uh2)" "put_out d uh1 xs uh2"
    using plain.IH [OF f1 put_out_console [OF plain.prems(2) uh1(2)]] by blast
  have "vkprintf mc m fm p args uh = Some (Inr uh2)"
    using plain.hyps(1) plain.prems(1) uh1(1) uh2(1) by (subst vkprintf.simps) simp
  with put_out_trans [OF uh1(2) uh2(2)] show ?case by blast
next
  case (int v f args xs)
  show ?case by (rule vkprintf_spec [OF spec_numbers(1) [OF int.hyps(1)] int.prems]) (rule int.IH, use int.prems(1) in \<open>simp add: add.assoc\<close>)
next
  case (wide f args xs v)
  show ?case by (rule vkprintf_spec [OF spec_numbers(2) wide.prems]) (rule wide.IH, use wide.prems(1) in \<open>simp add: add.assoc\<close>)
next
  case (str q s f args xs)
  show ?case by (rule vkprintf_spec [OF spec_strings(1) [OF str.hyps(1,2)] str.prems]) (rule str.IH, use str.prems(1) in \<open>simp add: add.assoc\<close>)
next
  case (null f args xs)
  show ?case by (rule vkprintf_spec [OF spec_strings(2) null.prems]) (rule null.IH, use null.prems(1) in \<open>simp add: add.assoc\<close>)
next
  case (literal s f args xs)
  show ?case by (rule vkprintf_spec [OF spec_strings(3) [OF literal.hyps(1,2)] literal.prems]) (rule literal.IH, use literal.prems(1) in \<open>simp add: add.assoc\<close>)
next
  case (pointer f args xs v)
  show ?case unfolding append_assoc [symmetric]
    by (rule vkprintf_spec [OF spec_numbers(3) pointer.prems]) (rule pointer.IH, use pointer.prems(1) in \<open>simp add: add.assoc\<close>)
next
  case (chr f args xs v)
  show ?case by (rule vkprintf_spec [OF spec_numbers(4) chr.prems]) (rule chr.IH, use chr.prems(1) in \<open>simp add: add.assoc\<close>)
next
  case (unknown c f args xs)
  show ?case
    by (rule vkprintf_spec [where xs = "[]", OF spec_unknown [OF unknown.hyps(1)] unknown.prems, unfolded append_Nil])
      (rule unknown.IH, use unknown.prems(1) in \<open>simp add: add.assoc\<close>)
qed

text \<open>C32: Formatted printing before interrupts work, on a PL011 with an empty transmit buffer:
  \<open>vkprintf\<close> returns, nothing is left waiting, and the line has gained exactly what the format
  and the arguments stand for: numbers in decimal, pointers in hexadecimal with \<open>0x\<close>, strings
  and characters with carriage returns before newlines.\<close>

theorem vkprintf_renders:
  assumes "renders m f args xs" and "cstring fm p f" and "pl011 mc (ua_uart u) d"
    and "buffer_ok (ua_tx_buffer u)" and "contents (ua_tx_buffer u) = []" and "\<not> ua_irqs_ready u"
  shows "\<exists>u' h'. vkprintf mc m fm p args (u, h) = Some (Inr (u', h')) \<and>
    contents (ua_tx_buffer u') = [] \<and> pl_line d h' = pl_line d h @ xs"
proof -
  have "console mc d (u, h)" using assms by (simp add: console_def)
  from vkprintf_out [OF assms(1,2) this] obtain uh' where
    "vkprintf mc m fm p args (u, h) = Some (Inr uh')" "put_out d (u, h) xs uh'" by blast
  with assms(5,6) show ?thesis by (cases uh') (auto simp: put_out_def)
qed

lemma number_text_3: "number_text 10 3 = [51]"
  by (simp add: number_text_def digits.simps digit_def)

theorem vkprintf_renders_witness:
  "\<exists>u' h'. vkprintf sim_machine (\<lambda>_. None) (lit ''core %d!'') 0 [Slot 3] (sim_uart, [], 0, 0) = Some (Inr (u', h')) \<and>
     pl_line sim_pl011 h' = [99, 111, 114, 101, 32, 51, 33]"
proof -
  have f: "bytes_of ''core %d!'' = [99, 111, 114, 101, 32, ch CHR ''%'', ch CHR ''d'', 33]"
    by (simp add: bytes_of_def ch_def)
  have ne: "(99 :: u8) \<noteq> ch CHR ''%''" "(111 :: u8) \<noteq> ch CHR ''%''" "(114 :: u8) \<noteq> ch CHR ''%''" "(101 :: u8) \<noteq> ch CHR ''%''"
    "(32 :: u8) \<noteq> ch CHR ''%''" "(33 :: u8) \<noteq> ch CHR ''%''" by (simp_all add: ch_def)
  have "renders (\<lambda>_. None) (bytes_of ''core %d!'') [Slot 3]
     (crlf 99 @ crlf 111 @ crlf 114 @ crlf 101 @ crlf 32 @ number_text 10 (sint (ucast (3 :: u64) :: u32)) @ crlf 33 @ [])"
    unfolding f by (intro renders.plain ne renders.int renders.stop) simp
  moreover have "cstring (lit ''core %d!'') 0 (bytes_of ''core %d!'')" by (rule literal_string) simp_all
  moreover have "buffer_ok (ua_tx_buffer sim_uart)" "contents (ua_tx_buffer sim_uart) = []" "\<not> ua_irqs_ready sim_uart"
    using CharBuffer_init_ok by (simp_all add: sim_uart_def)
  ultimately show ?thesis
    using vkprintf_renders [OF _ _ sim_pl011_ok, of "\<lambda>_. None" "bytes_of ''core %d!''" "[Slot 3]" _ "lit ''core %d!''" 0 "([], 0, 0)"]
    by (fastforce simp: sim_line crlf_def NL_def number_text_3)
qed

text \<open>The smallest integer cannot be negated.\<close>

lemma print_int_min:
  assumes "console mc d uh"
  shows "kprintf_print_number mc (- (2 ^ 31)) 10 uh = Some (Inl SignedOverflow)"
  using send_char_out [OF assms, of "ch CHR ''-''"] by (auto simp: kprintf_print_number_def)

lemma kprintf_out:
  assumes "renders m (bytes_of f) args xs" "CHR 0x00 \<notin> set f" "length f < 1000" "console mc d uh"
  shows "\<exists>uh'. kprintf mc m f args uh = Some (Inr uh') \<and> put_out d uh xs uh'"
  unfolding kprintf_def using vkprintf_out [OF assms(1) literal_string [OF assms(2,3)] assms(4)] .

section \<open>Rendering by computation\<close>

text \<open>What a format stands for, computed, when its strings are literals.\<close>

fun render_text :: "u8 list \<Rightarrow> va list \<Rightarrow> u8 list option" where
  "render_text [] args = Some []"
| "render_text [c] args = Some (if c = ch CHR ''%'' then [] else crlf c)"
| "render_text (c # s # f) args =
     (if c \<noteq> ch CHR ''%'' then map_option (append (crlf c)) (render_text (s # f) args)
      else
        case args of
          Slot v # rest \<Rightarrow>
            if s = ch CHR ''d''
            then if sint (ucast v :: u32) = - (2 ^ 31) then None
                 else map_option (append (number_text 10 (sint (ucast v :: u32)))) (render_text f rest)
            else if s = ch CHR ''z'' then map_option (append (digits 10 (uint v))) (render_text f rest)
            else if s = ch CHR ''p''
            then map_option (append (bytes_of ''0x'' @ digits 16 (uint v))) (render_text f rest)
            else None
        | Lit l # rest \<Rightarrow>
            if s = ch CHR ''s'' \<and> CHR 0x00 \<notin> set l \<and> length l < 1000
            then map_option (append (concat (map crcrlf (bytes_of l)))) (render_text f rest) else None
        | [] \<Rightarrow> None)"

lemma render_text_renders: "render_text f args = Some xs \<Longrightarrow> renders m f args xs"
proof (induction f args arbitrary: xs rule: render_text.induct)
  case (1 args)
  then show ?case by (simp add: renders.stop)
next
  case (2 c args)
  then show ?case using renders.plain [OF _ renders.stop, of c m args] by (auto intro: renders.percent)
next
  case (3 c s f args)
  show ?case
  proof (cases "c = ch CHR ''%''")
    case False
    then obtain ys where "render_text (s # f) args = Some ys" "xs = crlf c @ ys" using "3.prems" by auto
    then show ?thesis using "3.IH"(1) False renders.plain by blast
  next
    case True
    consider v rest where "args = Slot v # rest" | l rest where "args = Lit l # rest"
      using "3.prems" True by (auto split: list.splits va.splits)
    then show ?thesis
    proof cases
      case (1 v rest)
      then show ?thesis using "3.prems" True "3.IH"(2-4)
        by (auto split: if_splits intro: renders.int renders.wide renders.pointer)
    next
      case (2 l rest)
      then show ?thesis using "3.prems" True "3.IH"(5)
        by (auto split: if_splits intro: renders.literal)
    qed
  qed
qed

lemma kprintf_text:
  assumes "render_text (bytes_of f) args = Some xs" "console mc d uh" "CHR 0x00 \<notin> set f" "length f < 1000"
  shows "\<exists>uh'. kprintf mc m f args uh = Some (Inr uh') \<and> put_out d uh xs uh'"
  by (rule kprintf_out [OF render_text_renders [OF assms(1)] assms(3,4,2)])

end
