(* ===== verification/Gic_Driver.thy ===== *)
theory Gic_Driver
  imports Kstdio
begin

text \<open>
  What the two drivers of the interrupt controller have in common (\<open>src/src/interrupts/gic.h\<close>):
  the enumerations, the registers of a distributor as the architecture describes them, and the
  contract of \<open>GICDriver::initialize_interrupt\<close> as the locale \<open>irq_setup\<close>, which both drivers
  are instances of.
\<close>

datatype InterruptPriority = PriorityDefault | PriorityHigh

definition priority_value :: "InterruptPriority \<Rightarrow> u8" where
  "priority_value p = (case p of PriorityDefault \<Rightarrow> 120 | PriorityHigh \<Rightarrow> 40)"

datatype InterruptType = Secure | NonSecure | Virtual | Hypervisor

datatype DriverVersion = V2 | V3

text \<open>
  \<open>id / 32 * 4\<close> and \<open>1 << (id % 32)\<close>. Both truncate: for a negative multiple of 32 the remainder is 0 and the register
  index wraps, for any other negative \<open>id\<close> the amount of the shift is negative.
\<close>

definition irq_bit :: "int \<Rightarrow> (u64 \<times> u32) res" where
  "irq_bit iid =
     (if iid < 0 \<and> iid mod 32 \<noteq> 0 then Inl (BadShift (- (- iid mod 32)))
      else
        let reg_index = word_of_int (iid div 32) :: u32; reg_offset = reg_index * 4 in
        Inr (ucast reg_offset, push_bit (nat (iid mod 32)) 1))"

text \<open>The part of a distributor (or of the SGI frame of a redistributor) that drivers set up.\<close>

record GicRegs =
  gr_enabled :: "nat \<Rightarrow> bool"
  gr_group1 :: "nat \<Rightarrow> bool"
  gr_priority :: "nat \<Rightarrow> u8"
  gr_target :: "nat \<Rightarrow> u8"
  gr_ctlr :: u32

text \<open>Writing 32 interrupts at once: those of register \<open>n\<close> whose bit is set in \<open>w\<close>.\<close>

definition in_word :: "nat \<Rightarrow> u32 \<Rightarrow> nat \<Rightarrow> bool" where
  "in_word n w i \<longleftrightarrow> i div 32 = n \<and> bit w (i mod 32)"

lemma in_word_one: "i < 1024 \<Longrightarrow> in_word (i div 32) (push_bit (i mod 32) 1) j \<longleftrightarrow> j = i"
proof -
  have "bit (push_bit (i mod 32) (1 :: u32)) (j mod 32) \<longleftrightarrow> j mod 32 = i mod 32"
    by (auto simp: bit_simps)
  moreover have "j div 32 = i div 32 \<and> j mod 32 = i mod 32 \<longleftrightarrow> j = i" by (metis div_mult_mod_eq)
  ultimately show ?thesis by (auto simp: in_word_def)
qed

lemma in_word_all: "in_word n 0xFFFFFFFF i \<longleftrightarrow> i div 32 = n"
proof -
  have "(0xFFFFFFFF :: u32) = - 1" by simp
  moreover have "bit (- 1 :: u32) (i mod 32)" by (simp add: bit_minus_1_iff)
  ultimately show ?thesis unfolding in_word_def by metis
qed

lemma irq_bit_nat:
  assumes "i < 1024"
  shows "irq_bit (int i) = Inr (of_nat (4 * (i div 32)), push_bit (i mod 32) 1)"
proof -
  have d: "i div 32 < 32" using assms by (simp add: less_mult_imp_div_less)
  have "int i div 32 = int (i div 32)" by (simp add: zdiv_int)
  then have "word_of_int (int i div 32) = (of_nat (i div 32) :: u32)" by (simp only: of_int_of_nat_eq)
  moreover have "ucast (of_nat (i div 32) * 4 :: u32) = (of_nat (4 * (i div 32)) :: u64)"
  proof -
    have "unat (of_nat (i div 32) * 4 :: u32) = 4 * (i div 32)" using d by (simp add: unat_word_ariths unat_of_nat)
    then show ?thesis by (metis unat_ucast_32_64 of_nat_unat ucast_id)
  qed
  moreover have "nat (int i mod 32) = i mod 32" by (simp add: nat_mod_distrib)
  ultimately show ?thesis by (simp add: irq_bit_def)
qed

section \<open>The contract of \<open>initialize_interrupt\<close>\<close>

locale irq_setup =
  fixes init_irq :: "int \<Rightarrow> InterruptPriority \<Rightarrow> 's \<Rightarrow> 's res"
    and enabled :: "'s \<Rightarrow> nat \<Rightarrow> bool"
    and priority :: "'s \<Rightarrow> nat \<Rightarrow> u8"
    and ready :: "'s \<Rightarrow> bool"
    and has_irq :: "'s \<Rightarrow> nat \<Rightarrow> bool"
  assumes init_irq_sets: "ready s \<Longrightarrow> has_irq s i \<Longrightarrow>
    \<exists>s'. init_irq (int i) p s = Inr s' \<and> ready s' \<and> has_irq s' = has_irq s \<and>
      enabled s' = (enabled s)(i := True) \<and> priority s' = (priority s)(i := priority_value p)"
begin

fun init_irqs :: "(nat \<times> InterruptPriority) list \<Rightarrow> 's \<Rightarrow> 's res" where
  "init_irqs [] s = Inr s"
| "init_irqs ((i, p) # is) s = bind_res (init_irq (int i) p s) (\<lambda>s1. init_irqs is s1)"

lemma init_irqs_sets:
  "ready s \<Longrightarrow> \<forall>(i, p)\<in>set is. has_irq s i \<Longrightarrow>
   \<exists>s'. init_irqs is s = Inr s' \<and> ready s' \<and>
     (\<forall>i. enabled s' i \<longleftrightarrow> enabled s i \<or> i \<in> fst ` set is) \<and>
     (\<forall>i. i \<notin> fst ` set is \<longrightarrow> priority s' i = priority s i)"
proof (induction "is" arbitrary: s)
  case Nil
  then show ?case by simp
next
  case (Cons x xs)
  obtain i p where x: "x = (i, p)" by fastforce
  obtain s1 where s1: "init_irq (int i) p s = Inr s1" "ready s1" "has_irq s1 = has_irq s" "enabled s1 = (enabled s)(i := True)"
      "priority s1 = (priority s)(i := priority_value p)"
    using init_irq_sets [OF Cons.prems(1), of i p] Cons.prems(2) x by auto
  obtain s' where "init_irqs xs s1 = Inr s'" "ready s'" "\<forall>j. enabled s' j \<longleftrightarrow> enabled s1 j \<or> j \<in> fst ` set xs"
      "\<forall>j. j \<notin> fst ` set xs \<longrightarrow> priority s' j = priority s1 j"
    using Cons.IH [OF s1(2)] Cons.prems(2) s1(3) by auto
  with s1 x show ?case by auto
qed

lemma two_irqs:
  assumes "ready s" "has_irq s i" "has_irq s j"
  shows "\<exists>s'. bind_res (init_irq (int i) p s) (init_irq (int j) q) = Inr s' \<and> ready s' \<and>
    enabled s' = (enabled s)(i := True, j := True) \<and>
    priority s' = (priority s)(i := priority_value p, j := priority_value q)"
proof -
  obtain s1 where s1: "init_irq (int i) p s = Inr s1" "ready s1" "has_irq s1 = has_irq s" "enabled s1 = (enabled s)(i := True)"
      "priority s1 = (priority s)(i := priority_value p)"
    using init_irq_sets [OF assms(1,2), of p] by blast
  with init_irq_sets [OF s1(2), of j q] assms(3) show ?thesis by auto
qed

end

end
