(* ===== verification/Gicv2.thy ===== *)
theory Gicv2
  imports Gic_Driver
begin

text \<open>
  The GICv2 driver (\<open>src/src/interrupts/gicv2.cpp\<close>): one distributor and the CPU interface of
  the core, both in device memory. Barriers have no counterpart: an access takes effect before
  the next one.
\<close>

record DriverV2 =
  v2_gicd_base :: u64
  v2_gicc_base :: u64
  v2_num_interrupts :: u32

definition GICD_CTLR :: u64 where "GICD_CTLR = 0x0000"
definition GICD_TYPER :: u64 where "GICD_TYPER = 0x0004"
definition GICD_IGROUPR :: u64 where "GICD_IGROUPR = 0x80"
definition GICD_ISENABLER :: u64 where "GICD_ISENABLER = 0x100"
definition GICD_ICENABLER :: u64 where "GICD_ICENABLER = 0x180"
definition GICD_IPRIORITY_BASE :: u64 where "GICD_IPRIORITY_BASE = 0x400"
definition GICD_ITARGETSR_BASE :: u64 where "GICD_ITARGETSR_BASE = 0x800"

definition distributor :: "DriverV2 \<Rightarrow> u64 \<Rightarrow> u64" where
  "distributor g offset = v2_gicd_base g + offset"

definition GICC_CTLR :: u64 where "GICC_CTLR = 0x0000"
definition GICC_PMR :: u64 where "GICC_PMR = 0x0004"
definition GICC_IAR :: u64 where "GICC_IAR = 0x000C"
definition GICC_EOIR :: u64 where "GICC_EOIR = 0x0010"

definition cpu_interface :: "DriverV2 \<Rightarrow> u64 \<Rightarrow> u64" where
  "cpu_interface g offset = v2_gicc_base g + offset"

definition GICD_CTLR_EnableGrp1 :: u32 where "GICD_CTLR_EnableGrp1 = 2"
definition GICC_CTLR_Enable :: u32 where "GICC_CTLR_Enable = 1"
definition GICC_CTLR_EnableGrp1 :: u32 where "GICC_CTLR_EnableGrp1 = 2"
definition GICC_CTLR_AckCtl :: u32 where "GICC_CTLR_AckCtl = 4"
definition GICD_TYPER_ITLinesNumber_Mask :: u32 where "GICD_TYPER_ITLinesNumber_Mask = 0x1F"

fun v2_reset_loop :: "'h Machine \<Rightarrow> DriverV2 \<Rightarrow> u32 \<Rightarrow> nat \<Rightarrow> 'h \<Rightarrow> 'h" where
  "v2_reset_loop mc g n 0 h = h"
| "v2_reset_loop mc g n (Suc k) h =
     (let off = ucast (n * 4) :: u64;
          h1 = mc_write32 mc (distributor g (GICD_IGROUPR + off)) 0xFFFFFFFF h;
          h2 = mc_write32 mc (distributor g (GICD_ICENABLER + off)) 0xFFFFFFFF h1 in
      v2_reset_loop mc g (n + 1) k h2)"

definition v2_initialize_gic_distributor :: "'h Machine \<Rightarrow> DriverV2 \<times> 'h \<Rightarrow> DriverV2 \<times> 'h" where
  "v2_initialize_gic_distributor mc gh =
     (let g = fst gh;
          h1 = mc_write32 mc (distributor g GICD_CTLR) 0 (snd gh);
          (typer, h2) = mc_read32 mc (distributor g GICD_TYPER) h1;
          it_lines = typer AND GICD_TYPER_ITLinesNumber_Mask;
          g1 = g\<lparr>v2_num_interrupts := 32 * (it_lines + 1)\<rparr>;
          h3 = v2_reset_loop mc g1 0 (unat (v2_num_interrupts g1 div 32)) h2 in
      (g1, mc_write32 mc (distributor g1 GICD_CTLR) GICD_CTLR_EnableGrp1 h3))"

definition v2_enable_cpu_interface :: "'h Machine \<Rightarrow> DriverV2 \<Rightarrow> 'h \<Rightarrow> 'h" where
  "v2_enable_cpu_interface mc g h = mc_write32 mc (cpu_interface g GICC_CTLR) GICC_CTLR_Enable h"

definition v2_enable_cpu_interrupts :: "'h Machine \<Rightarrow> DriverV2 \<Rightarrow> 'h \<Rightarrow> 'h" where
  "v2_enable_cpu_interrupts mc g h =
     (let (ctlr, h1) = mc_read32 mc (cpu_interface g GICC_CTLR) h in
      mc_write32 mc (cpu_interface g GICC_CTLR) (ctlr OR GICC_CTLR_EnableGrp1 OR GICC_CTLR_AckCtl) h1)"

definition v2_set_cpu_priority_mask :: "'h Machine \<Rightarrow> DriverV2 \<Rightarrow> u64 \<Rightarrow> 'h \<Rightarrow> 'h" where
  "v2_set_cpu_priority_mask mc g priority h = mc_write32 mc (cpu_interface g GICC_PMR) (ucast priority) h"

definition v2_set_interrupt_priority :: "'h Machine \<Rightarrow> DriverV2 \<Rightarrow> int \<Rightarrow> InterruptPriority \<Rightarrow> 'h \<Rightarrow> 'h" where
  "v2_set_interrupt_priority mc g iid priority h =
     mc_write8 mc (v2_gicd_base g + GICD_IPRIORITY_BASE + word_of_int iid) (priority_value priority) h"

definition v2_set_interrupt_group :: "'h Machine \<Rightarrow> DriverV2 \<Rightarrow> int \<Rightarrow> 'h \<Rightarrow> 'h res" where
  "v2_set_interrupt_group mc g iid h =
     bind_res (irq_bit iid) (\<lambda>(reg_offset, bits).
     let (igrouprn, h1) = mc_read32 mc (distributor g (GICD_IGROUPR + reg_offset)) h in
     Inr (mc_write32 mc (distributor g (GICD_IGROUPR + reg_offset)) (igrouprn OR bits) h1))"

definition v2_enable_interrupt :: "'h Machine \<Rightarrow> DriverV2 \<Rightarrow> int \<Rightarrow> 'h \<Rightarrow> 'h res" where
  "v2_enable_interrupt mc g iid h =
     bind_res (irq_bit iid) (\<lambda>(reg_offset, bits).
     Inr (mc_write32 mc (distributor g (GICD_ISENABLER + reg_offset)) bits h))"

definition v2_disable_interrupt :: "'h Machine \<Rightarrow> DriverV2 \<Rightarrow> int \<Rightarrow> 'h \<Rightarrow> 'h res" where
  "v2_disable_interrupt mc g iid h =
     bind_res (irq_bit iid) (\<lambda>(reg_offset, bits).
     Inr (mc_write32 mc (distributor g (GICD_ICENABLER + reg_offset)) bits h))"

definition v2_set_interrupt_routing :: "'h Machine \<Rightarrow> DriverV2 \<Rightarrow> int \<Rightarrow> 'h \<Rightarrow> 'h" where
  "v2_set_interrupt_routing mc g iid h =
     (if iid > 31 then mc_write8 mc (v2_gicd_base g + GICD_ITARGETSR_BASE + word_of_int iid) 1 h else h)"

definition v2_set_gicd_base :: "u64 \<Rightarrow> DriverV2 \<Rightarrow> DriverV2" where
  "v2_set_gicd_base base g = g\<lparr>v2_gicd_base := base\<rparr>"

definition v2_set_gicc_base :: "u64 \<Rightarrow> DriverV2 \<Rightarrow> DriverV2" where
  "v2_set_gicc_base base g = g\<lparr>v2_gicc_base := base\<rparr>"

definition v2_initialize :: "'h Machine \<Rightarrow> mem \<Rightarrow> DriverV2 \<times> Uart \<times> 'h \<Rightarrow> (DriverV2 \<times> Uart \<times> 'h) comp" where
  "v2_initialize mc m s =
     bind_comp (kprintf mc m (''Using GICv2 driver'' @ [CHR 0x0A]) [] (snd s)) (\<lambda>(u, h).
     let (g, h1) = v2_initialize_gic_distributor mc (fst s, h) in Some (Inr (g, u, h1)))"

definition v2_initialize_core_specific :: "'h Machine \<Rightarrow> DriverV2 \<Rightarrow> 'h \<Rightarrow> 'h" where
  "v2_initialize_core_specific mc g h =
     v2_enable_cpu_interrupts mc g (v2_set_cpu_priority_mask mc g 0xFF (v2_enable_cpu_interface mc g h))"

definition v2_initialize_interrupt :: "'h Machine \<Rightarrow> DriverV2 \<Rightarrow> int \<Rightarrow> InterruptPriority \<Rightarrow> 'h \<Rightarrow> 'h res" where
  "v2_initialize_interrupt mc g iid priority h =
     bind_res (v2_set_interrupt_group mc g iid (v2_set_interrupt_priority mc g iid priority h)) (\<lambda>h1.
     v2_enable_interrupt mc g iid (v2_set_interrupt_routing mc g iid h1))"

definition v2_acknowledge_interrupt :: "'h Machine \<Rightarrow> DriverV2 \<Rightarrow> 'h \<Rightarrow> u32 \<times> 'h" where
  "v2_acknowledge_interrupt mc g h = mc_read32 mc (cpu_interface g GICC_IAR) h"

definition v2_end_of_interrupt :: "'h Machine \<Rightarrow> DriverV2 \<Rightarrow> u32 \<Rightarrow> 'h \<Rightarrow> 'h" where
  "v2_end_of_interrupt mc g iid h = mc_write32 mc (cpu_interface g GICC_EOIR) iid h"

section \<open>The distributor\<close>

text \<open>
  The registers of a GICv2 distributor at \<open>base\<close> (GIC architecture specification, chapter 4):
  \<open>rg\<close> is what they hold. ITLinesNumber, the low five bits of GICD_TYPER, is \<open>lines\<close>: the distributor has \<open>lines + 1\<close>
  registers of 32 interrupts each, and only for these does a write do anything. The enable registers set or clear the bits
  that are written as one (also those of the SGIs, which an implementation may instead fix); the
  identification register does not change, and reading changes nothing.
\<close>

definition has_line :: "nat \<Rightarrow> nat \<Rightarrow> bool" where
  "has_line lines i \<longleftrightarrow> i < 1020 \<and> i < 32 * (lines + 1)"

definition gicv2_dist :: "'h Machine \<Rightarrow> u64 \<Rightarrow> nat \<Rightarrow> ('h \<Rightarrow> GicRegs) \<Rightarrow> bool" where
  "gicv2_dist mc base lines rg \<longleftrightarrow> lines < 32 \<and>
     (\<forall>h n w. n \<le> lines \<longrightarrow> rg (mc_write32 mc (base + (GICD_ISENABLER + of_nat (4 * n))) w h) =
        (rg h)\<lparr>gr_enabled := \<lambda>i. gr_enabled (rg h) i \<or> in_word n w i\<rparr>) \<and>
     (\<forall>h n w. n \<le> lines \<longrightarrow> rg (mc_write32 mc (base + (GICD_ICENABLER + of_nat (4 * n))) w h) =
        (rg h)\<lparr>gr_enabled := \<lambda>i. gr_enabled (rg h) i \<and> \<not> in_word n w i\<rparr>) \<and>
     (\<forall>h n w. n \<le> lines \<longrightarrow> rg (mc_write32 mc (base + (GICD_IGROUPR + of_nat (4 * n))) w h) =
        (rg h)\<lparr>gr_group1 := \<lambda>i. if i div 32 = n then bit w (i mod 32) else gr_group1 (rg h) i\<rparr>) \<and>
     (\<forall>h n. n \<le> lines \<longrightarrow> rg (snd (mc_read32 mc (base + (GICD_IGROUPR + of_nat (4 * n))) h)) = rg h \<and>
        (\<forall>k<32. bit (fst (mc_read32 mc (base + (GICD_IGROUPR + of_nat (4 * n))) h)) k = gr_group1 (rg h) (32 * n + k))) \<and>
     (\<forall>h i b. has_line lines i \<longrightarrow> rg (mc_write8 mc (base + GICD_IPRIORITY_BASE + of_nat i) b h) =
        (rg h)\<lparr>gr_priority := (gr_priority (rg h))(i := b)\<rparr>) \<and>
     (\<forall>h i b. has_line lines i \<longrightarrow> rg (mc_write8 mc (base + GICD_ITARGETSR_BASE + of_nat i) b h) =
        (rg h)\<lparr>gr_target := (gr_target (rg h))(i := b)\<rparr>) \<and>
     (\<forall>h w. rg (mc_write32 mc (base + GICD_CTLR) w h) = (rg h)\<lparr>gr_ctlr := w\<rparr>) \<and>
     (\<forall>h. rg (snd (mc_read32 mc (base + GICD_TYPER) h)) = rg h \<and> unat (fst (mc_read32 mc (base + GICD_TYPER) h)) mod 32 = lines)"

lemma gicv2_distD:
  assumes "gicv2_dist mc base lines rg"
  shows "n \<le> lines \<Longrightarrow> rg (mc_write32 mc (base + (GICD_ISENABLER + of_nat (4 * n))) w h) =
        (rg h)\<lparr>gr_enabled := \<lambda>i. gr_enabled (rg h) i \<or> in_word n w i\<rparr>"
    "n \<le> lines \<Longrightarrow> rg (mc_write32 mc (base + (GICD_ICENABLER + of_nat (4 * n))) w h) =
        (rg h)\<lparr>gr_enabled := \<lambda>i. gr_enabled (rg h) i \<and> \<not> in_word n w i\<rparr>"
    "n \<le> lines \<Longrightarrow> rg (mc_write32 mc (base + (GICD_IGROUPR + of_nat (4 * n))) w h) =
        (rg h)\<lparr>gr_group1 := \<lambda>i. if i div 32 = n then bit w (i mod 32) else gr_group1 (rg h) i\<rparr>"
    "n \<le> lines \<Longrightarrow> rg (snd (mc_read32 mc (base + (GICD_IGROUPR + of_nat (4 * n))) h)) = rg h"
    "n \<le> lines \<Longrightarrow> k < 32 \<Longrightarrow>
       bit (fst (mc_read32 mc (base + (GICD_IGROUPR + of_nat (4 * n))) h)) k = gr_group1 (rg h) (32 * n + k)"
    "has_line lines j \<Longrightarrow> rg (mc_write8 mc (base + GICD_IPRIORITY_BASE + of_nat j) b h) =
        (rg h)\<lparr>gr_priority := (gr_priority (rg h))(j := b)\<rparr>"
    "has_line lines j \<Longrightarrow> rg (mc_write8 mc (base + GICD_ITARGETSR_BASE + of_nat j) b h) =
        (rg h)\<lparr>gr_target := (gr_target (rg h))(j := b)\<rparr>"
    "rg (mc_write32 mc (base + GICD_CTLR) w h) = (rg h)\<lparr>gr_ctlr := w\<rparr>"
    "rg (snd (mc_read32 mc (base + GICD_TYPER) h)) = rg h"
    "unat (fst (mc_read32 mc (base + GICD_TYPER) h)) mod 32 = lines" "lines < 32"
  using assms unfolding gicv2_dist_def by (simp_all del: of_nat_mult)

lemma has_line_word: "has_line lines i \<Longrightarrow> i div 32 \<le> lines" "has_line lines i \<Longrightarrow> i < 1020"
  by (auto simp: has_line_def less_mult_imp_div_less mult.commute intro: less_Suc_eq_le [THEN iffD1])

text \<open>The effect of setting up one interrupt.\<close>

definition irq_regs :: "nat \<Rightarrow> u8 \<Rightarrow> bool \<Rightarrow> GicRegs \<Rightarrow> GicRegs" where
  "irq_regs i p routed r = r\<lparr>gr_enabled := (gr_enabled r)(i := True), gr_group1 := (gr_group1 r)(i := True),
     gr_priority := (gr_priority r)(i := p), gr_target := if routed then (gr_target r)(i := 1) else gr_target r\<rparr>"

lemma set_bit_group:
  fixes w :: u32
  assumes "i < 1024" "\<And>k. k < 32 \<Longrightarrow> bit w k = f (32 * (i div 32) + k)"
  shows "(\<lambda>j. if j div 32 = i div 32 then bit (w OR push_bit (i mod 32) 1) (j mod 32) else f j) = f(i := True)"
proof
  fix j
  have "bit (push_bit (i mod 32) (1 :: u32)) (j mod 32) \<longleftrightarrow> j mod 32 = i mod 32" by (auto simp: bit_simps)
  moreover have "j div 32 = i div 32 \<and> j mod 32 = i mod 32 \<longleftrightarrow> j = i" by (metis div_mult_mod_eq)
  moreover have "j div 32 = i div 32 \<Longrightarrow> 32 * (i div 32) + j mod 32 = j" by (metis mult_div_mod_eq)
  ultimately show "(if j div 32 = i div 32 then bit (w OR push_bit (i mod 32) 1) (j mod 32) else f j) = (f(i := True)) j"
    using assms(2) [of "j mod 32"] by (auto simp: bit_or_iff)
qed

lemma v2_initialize_interrupt_spec:
  assumes dev: "gicv2_dist mc (v2_gicd_base g) lines rg" and i: "has_line lines i"
  shows "\<exists>h'. v2_initialize_interrupt mc g (int i) p h = Inr h' \<and> rg h' = irq_regs i (priority_value p) (31 < i) (rg h)"
proof -
  note D = gicv2_distD [OF dev]
  have i': "i < 1024" and n: "i div 32 \<le> lines" using has_line_word [OF i] by simp_all
  note b = irq_bit_nat [OF i']
  define h1 where "h1 = v2_set_interrupt_priority mc g (int i) p h"
  have h1: "rg h1 = (rg h)\<lparr>gr_priority := (gr_priority (rg h))(i := priority_value p)\<rparr>"
    using D(6) [OF i] by (simp add: h1_def v2_set_interrupt_priority_def)
  let ?a = "v2_gicd_base g + (GICD_IGROUPR + of_nat (4 * (i div 32)))"
  define w h2 where "w = fst (mc_read32 mc ?a h1)" and "h2 = mc_write32 mc ?a (w OR push_bit (i mod 32) 1) (snd (mc_read32 mc ?a h1))"
  have g2: "v2_set_interrupt_group mc g (int i) h1 = Inr h2"
    unfolding v2_set_interrupt_group_def b bind_res_simps prod.case distributor_def
    by (simp add: split_beta Let_def w_def h2_def del: of_nat_mult)
  have grp: "(\<lambda>j. if j div 32 = i div 32 then bit (w OR push_bit (i mod 32) 1) (j mod 32) else gr_group1 (rg h1) j) =
      (gr_group1 (rg h1))(i := True)"
    by (rule set_bit_group [OF i']) (simp only: w_def D(5) [OF n])
  have "rg h2 = (rg h1)\<lparr>gr_group1 := (gr_group1 (rg h1))(i := True)\<rparr>"
    unfolding h2_def D(3) [OF n] D(4) [OF n] grp ..
  then have h2: "rg h2 = (rg h)\<lparr>gr_priority := (gr_priority (rg h))(i := priority_value p), gr_group1 := (gr_group1 (rg h))(i := True)\<rparr>"
    by (simp add: h1)
  define h3 where "h3 = v2_set_interrupt_routing mc g (int i) h2"
  have h3: "rg h3 = (rg h2)\<lparr>gr_target := if 31 < i then (gr_target (rg h2))(i := 1) else gr_target (rg h2)\<rparr>"
    using D(7) [OF i] by (simp add: h3_def v2_set_interrupt_routing_def)
  let ?h4 = "mc_write32 mc (v2_gicd_base g + (GICD_ISENABLER + of_nat (4 * (i div 32)))) (push_bit (i mod 32) 1) h3"
  have en: "v2_enable_interrupt mc g (int i) h3 = Inr ?h4"
    unfolding v2_enable_interrupt_def b bind_res_simps prod.case distributor_def ..
  have "(\<lambda>j. gr_enabled (rg h3) j \<or> in_word (i div 32) (push_bit (i mod 32) 1) j) = (gr_enabled (rg h3))(i := True)"
    unfolding in_word_one [OF i'] by (auto simp: fun_eq_iff)
  then have "rg ?h4 = irq_regs i (priority_value p) (31 < i) (rg h)"
    unfolding D(1) [OF n] by (simp add: h3 h2 irq_regs_def)
  moreover have "v2_initialize_interrupt mc g (int i) p h = Inr ?h4"
    using g2 en unfolding v2_initialize_interrupt_def h1_def [symmetric] by (simp add: h3_def)
  ultimately show ?thesis by blast
qed

lemma v2_reset_loop_spec:
  assumes dev: "gicv2_dist mc (v2_gicd_base g) lines rg"
  shows "n + k \<le> lines + 1 \<Longrightarrow> rg (v2_reset_loop mc g (of_nat n) k h) =
    (rg h)\<lparr>gr_enabled := \<lambda>i. gr_enabled (rg h) i \<and> \<not> (n \<le> i div 32 \<and> i div 32 < n + k),
      gr_group1 := \<lambda>i. (n \<le> i div 32 \<and> i div 32 < n + k) \<or> gr_group1 (rg h) i\<rparr>"
proof (induction k arbitrary: n h)
  case 0
  show ?case by (rule GicRegs.equality) (auto simp: fun_eq_iff)
next
  case (Suc k)
  note D = gicv2_distD [OF dev]
  have n: "n \<le> lines" "n < 32" using Suc.prems D(11) by simp_all
  have off: "(ucast (of_nat n * 4 :: u32) :: u64) = of_nat (4 * n)"
  proof -
    have "unat (of_nat n * 4 :: u32) = 4 * n" using n(2) by (simp add: unat_word_ariths unat_of_nat)
    then show ?thesis by (metis unat_ucast_32_64 of_nat_unat ucast_id)
  qed
  let ?h1 = "mc_write32 mc (v2_gicd_base g + (GICD_IGROUPR + of_nat (4 * n))) 0xFFFFFFFF h"
  let ?h2 = "mc_write32 mc (v2_gicd_base g + (GICD_ICENABLER + of_nat (4 * n))) 0xFFFFFFFF ?h1"
  have ones: "bit (0xFFFFFFFF :: u32) (i mod 32)" for i
    using in_word_all [of "i div 32" i] by (simp add: in_word_def)
  have h2: "rg ?h2 = (rg h)\<lparr>gr_enabled := \<lambda>i. gr_enabled (rg h) i \<and> i div 32 \<noteq> n,
      gr_group1 := \<lambda>i. i div 32 = n \<or> gr_group1 (rg h) i\<rparr>"
    unfolding D(2) [OF n(1)] D(3) [OF n(1)] in_word_all using ones by (intro GicRegs.equality) (auto simp: fun_eq_iff)
  have step: "v2_reset_loop mc g (of_nat n) (Suc k) h = v2_reset_loop mc g (of_nat (n + 1)) k ?h2"
    unfolding v2_reset_loop.simps off Let_def distributor_def by (simp only: of_nat_add of_nat_1)
  have rng: "n \<le> x \<and> x < n + Suc k \<longleftrightarrow> x = n \<or> n + 1 \<le> x \<and> x < n + 1 + k" for x by auto
  have le: "n + 1 + k \<le> lines + 1" using Suc.prems by simp
  show ?case
    unfolding step Suc.IH [OF le] h2 rng by (rule GicRegs.equality) (auto intro!: ext)
qed

text \<open>C33: Setting up the distributor of a GICv2 that has \<open>lines + 1\<close> registers of 32 interrupts, as its identification
  register says: afterwards forwarding of group 1 is on, the driver knows the number of interrupts, every one of
  them is disabled and in group 1, and nothing else has changed.\<close>

theorem gicv2_distributor_reset:
  assumes "gicv2_dist mc (v2_gicd_base g) lines rg"
    and "v2_initialize_gic_distributor mc (g, h) = (g', h')"
  shows "unat (v2_num_interrupts g') = 32 * (lines + 1) \<and> gr_ctlr (rg h') = 2 \<and>
    (\<forall>i. (if i < 32 * (lines + 1) then \<not> gr_enabled (rg h') i \<and> gr_group1 (rg h') i
          else gr_enabled (rg h') i = gr_enabled (rg h) i \<and> gr_group1 (rg h') i = gr_group1 (rg h) i)) \<and>
    gr_priority (rg h') = gr_priority (rg h) \<and> gr_target (rg h') = gr_target (rg h)"
proof -
  note D = gicv2_distD [OF assms(1)]
  define h1 where "h1 = mc_write32 mc (v2_gicd_base g + GICD_CTLR) 0 h"
  define t h2 where "t = fst (mc_read32 mc (v2_gicd_base g + GICD_TYPER) h1)" and "h2 = snd (mc_read32 mc (v2_gicd_base g + GICD_TYPER) h1)"
  have "t AND 0x1F = take_bit 5 t" by (simp add: take_bit_eq_mask mask_eq_exp_minus_1)
  then have "unat (t AND 0x1F) = unat t mod 32" by (simp only: unsigned_take_bit_eq) (simp add: take_bit_eq_mod)
  then have k: "unat (t AND 0x1F) = lines" unfolding t_def D(10) .
  define g1 where "g1 = g\<lparr>v2_num_interrupts := 32 * ((t AND 0x1F) + 1)\<rparr>"
  have num: "unat (v2_num_interrupts g1) = 32 * (lines + 1)"
    using D(11) by (simp add: g1_def unat_word_ariths k)
  have cnt: "unat (v2_num_interrupts g1 div 32) = lines + 1" by (simp add: unat_div num)
  have r: "g' = g1" "h' = mc_write32 mc (v2_gicd_base g1 + GICD_CTLR) GICD_CTLR_EnableGrp1 (v2_reset_loop mc g1 0 (lines + 1) h2)"
    using assms(2)
    unfolding v2_initialize_gic_distributor_def Let_def split_beta fst_conv snd_conv distributor_def
      GICD_TYPER_ITLinesNumber_Mask_def h1_def [symmetric] t_def [symmetric] h2_def [symmetric] g1_def [symmetric] cnt
    by (auto simp only: prod.inject)
  have dev1: "gicv2_dist mc (v2_gicd_base g1) lines rg" using assms(1) by (simp add: g1_def)
  have rg2: "rg h2 = (rg h)\<lparr>gr_ctlr := 0\<rparr>" unfolding h2_def D(9) h1_def D(8) ..
  have "rg h' = (rg h2)\<lparr>gr_enabled := \<lambda>i. gr_enabled (rg h2) i \<and> \<not> (0 \<le> i div 32 \<and> i div 32 < 0 + (lines + 1)),
      gr_group1 := \<lambda>i. (0 \<le> i div 32 \<and> i div 32 < 0 + (lines + 1)) \<or> gr_group1 (rg h2) i, gr_ctlr := GICD_CTLR_EnableGrp1\<rparr>"
    using v2_reset_loop_spec [OF dev1, of 0 "lines + 1" h2] unfolding r(2) gicv2_distD(8) [OF dev1] by simp
  moreover have "i div 32 < lines + 1 \<longleftrightarrow> i < 32 * (lines + 1)" for i by (simp add: div_less_iff_less_mult mult.commute)
  ultimately show ?thesis using num rg2 r(1) by (simp add: GICD_CTLR_EnableGrp1_def)
qed

section \<open>The driver meets the contract\<close>

type_synonym 'h v2_state = "'h Machine \<times> ('h \<Rightarrow> GicRegs) \<times> nat \<times> DriverV2 \<times> 'h"

definition v2_init_irq :: "int \<Rightarrow> InterruptPriority \<Rightarrow> 'h v2_state \<Rightarrow> 'h v2_state res" where
  "v2_init_irq iid p s = (case s of (mc, rg, lines, g, h) \<Rightarrow>
     bind_res (v2_initialize_interrupt mc g iid p h) (\<lambda>h1. Inr (mc, rg, lines, g, h1)))"

definition v2_ready :: "'h v2_state \<Rightarrow> bool" where
  "v2_ready s = (case s of (mc, rg, lines, g, h) \<Rightarrow> gicv2_dist mc (v2_gicd_base g) lines rg)"

definition v2_regs :: "'h v2_state \<Rightarrow> GicRegs" where
  "v2_regs s = (case s of (mc, rg, lines, g, h) \<Rightarrow> rg h)"

definition v2_has_irq :: "'h v2_state \<Rightarrow> nat \<Rightarrow> bool" where
  "v2_has_irq s = (case s of (mc, rg, lines, g, h) \<Rightarrow> has_line lines)"

interpretation v2irq: irq_setup v2_init_irq "\<lambda>s. gr_enabled (v2_regs s)" "\<lambda>s. gr_priority (v2_regs s)" v2_ready v2_has_irq
proof
  fix s :: "'h v2_state" and i :: nat and p
  assume r: "v2_ready s" and i: "v2_has_irq s i"
  obtain mc rg lines g h where s: "s = (mc, rg, lines, g, h)" by (cases s)
  obtain h' where "v2_initialize_interrupt mc g (int i) p h = Inr h'" "rg h' = irq_regs i (priority_value p) (31 < i) (rg h)"
    using v2_initialize_interrupt_spec [of mc g lines rg i p h] r i by (auto simp: v2_ready_def v2_has_irq_def s)
  with r show "\<exists>s'. v2_init_irq (int i) p s = Inr s' \<and> v2_ready s' \<and> v2_has_irq s' = v2_has_irq s \<and>
      gr_enabled (v2_regs s') = (gr_enabled (v2_regs s))(i := True) \<and>
      gr_priority (v2_regs s') = (gr_priority (v2_regs s))(i := priority_value p)"
    by (auto simp: v2_init_irq_def v2_ready_def v2_regs_def v2_has_irq_def irq_regs_def s)
qed

text \<open>A distributor at \<open>0x8000000\<close> with 64 interrupts.\<close>

definition sim_gicd_write :: "u64 \<Rightarrow> u32 \<Rightarrow> GicRegs \<Rightarrow> GicRegs" where
  "sim_gicd_write a w r =
     (let off = unat (a - 0x8000000) in
      if off = 0 then r\<lparr>gr_ctlr := w\<rparr>
      else if 0x80 \<le> off \<and> off < 0x100
      then r\<lparr>gr_group1 := \<lambda>i. if i div 32 = (off - 0x80) div 4 then bit w (i mod 32) else gr_group1 r i\<rparr>
      else if 0x100 \<le> off \<and> off < 0x180
      then r\<lparr>gr_enabled := \<lambda>i. gr_enabled r i \<or> in_word ((off - 0x100) div 4) w i\<rparr>
      else if 0x180 \<le> off \<and> off < 0x200
      then r\<lparr>gr_enabled := \<lambda>i. gr_enabled r i \<and> \<not> in_word ((off - 0x180) div 4) w i\<rparr>
      else r)"

definition sim_gicd_read :: "u64 \<Rightarrow> GicRegs \<Rightarrow> u32 \<times> GicRegs" where
  "sim_gicd_read a r =
     (let off = unat (a - 0x8000000) in
      if off = 4 then (1, r)
      else (horner_sum of_bool 2 (map (\<lambda>k. gr_group1 r (32 * ((off - 0x80) div 4) + k)) [0..<32]), r))"

definition sim_gicd_write8 :: "u64 \<Rightarrow> u8 \<Rightarrow> GicRegs \<Rightarrow> GicRegs" where
  "sim_gicd_write8 a b r =
     (let off = unat (a - 0x8000000) in
      if off < 0x800 then r\<lparr>gr_priority := (gr_priority r)(off - 0x400 := b)\<rparr>
      else r\<lparr>gr_target := (gr_target r)(off - 0x800 := b)\<rparr>)"

definition sim_gic :: "GicRegs Machine" where
  "sim_gic =
     \<lparr>mc_read32 = sim_gicd_read, mc_write32 = sim_gicd_write, mc_read64 = (\<lambda>a h. (0, h)), mc_write64 = (\<lambda>a v h. h),
      mc_write8 = sim_gicd_write8, mc_mrs = (\<lambda>r h. (0, h)), mc_msr = (\<lambda>r v h. h), mc_firmware = (\<lambda>c x h. (0, h)),
      mc_sev = (\<lambda>h. h)\<rparr>"

definition sim_driver :: DriverV2 where
  "sim_driver = \<lparr>v2_gicd_base = 0x8000000, v2_gicc_base = 0x8010000, v2_num_interrupts = 0\<rparr>"

definition reset_gic :: GicRegs where
  "reset_gic = \<lparr>gr_enabled = \<lambda>_. True, gr_group1 = \<lambda>_. False, gr_priority = \<lambda>_. 0, gr_target = \<lambda>_. 0, gr_ctlr = 0\<rparr>"

lemma sim_offsets:
  "n < 32 \<Longrightarrow> unat (GICD_ISENABLER + of_nat (4 * n)) = 0x100 + 4 * n"
  "n < 32 \<Longrightarrow> unat (GICD_ICENABLER + of_nat (4 * n)) = 0x180 + 4 * n"
  "n < 32 \<Longrightarrow> unat (GICD_IGROUPR + of_nat (4 * n)) = 0x80 + 4 * n"
  "i < 1020 \<Longrightarrow> unat (GICD_IPRIORITY_BASE + of_nat i) = 0x400 + i"
  "i < 1020 \<Longrightarrow> unat (GICD_ITARGETSR_BASE + of_nat i) = 0x800 + i"
  by (subst unat_u64_add_of_nat; simp add: GICD_ISENABLER_def GICD_ICENABLER_def GICD_IGROUPR_def
      GICD_IPRIORITY_BASE_def GICD_ITARGETSR_BASE_def)+

lemma sim_gic_ok: "gicv2_dist sim_gic (v2_gicd_base sim_driver) 1 (\<lambda>r. r)"
proof -
  have c: "GICD_CTLR = 0" "unat GICD_TYPER = 4" by (simp_all add: GICD_CTLR_def GICD_TYPER_def)
  show ?thesis
    unfolding gicv2_dist_def
    by (simp add: sim_gic_def sim_driver_def sim_gicd_write_def sim_gicd_read_def sim_gicd_write8_def sim_offsets Let_def has_line_def
        c add.assoc bit_horner_sum_bit_word_iff del: of_nat_mult)
qed

text \<open>C15: Setting up one interrupt on a GICv2: the driver returns and the distributor holds what it
  held, except that this interrupt is enabled, in group 1, has the priority that was asked for
  and, when it is a shared one, goes to the boot core; this holds for every interrupt
  the distributor has.\<close>

theorem gicv2_interrupt_setup:
  assumes "gicv2_dist mc (v2_gicd_base g) lines rg" and "i < 1020" and "i < 32 * (lines + 1)"
  shows "\<exists>h'. v2_initialize_interrupt mc g (int i) p h = Inr h' \<and>
    rg h' = (rg h)\<lparr>gr_enabled := (gr_enabled (rg h))(i := True), gr_group1 := (gr_group1 (rg h))(i := True),
      gr_priority := (gr_priority (rg h))(i := priority_value p),
      gr_target := if 31 < i then (gr_target (rg h))(i := 1) else gr_target (rg h)\<rparr>"
  using v2_initialize_interrupt_spec [OF assms(1), of i] assms(2,3) by (simp add: irq_regs_def has_line_def)

theorem gicv2_interrupt_setup_witness:
  "\<exists>h'. v2_initialize_interrupt sim_gic sim_driver (int 33) PriorityHigh reset_gic = Inr h' \<and>
     gr_enabled h' 33 \<and> gr_priority h' 33 = 40 \<and> gr_priority h' 34 = 0"
  using gicv2_interrupt_setup [OF sim_gic_ok, of 33 PriorityHigh reset_gic]
  by (auto simp: priority_value_def reset_gic_def)

theorem gicv2_distributor_reset_witness:
  "unat (v2_num_interrupts (fst (v2_initialize_gic_distributor sim_gic (sim_driver, reset_gic)))) = 64 \<and>
   \<not> gr_enabled (snd (v2_initialize_gic_distributor sim_gic (sim_driver, reset_gic))) 40 \<and>
   gr_enabled (snd (v2_initialize_gic_distributor sim_gic (sim_driver, reset_gic))) 64"
proof -
  obtain g' h' where r: "v2_initialize_gic_distributor sim_gic (sim_driver, reset_gic) = (g', h')" by fastforce
  note t = gicv2_distributor_reset [OF sim_gic_ok r]
  have "if i < 64 then \<not> gr_enabled h' i \<and> gr_group1 h' i else gr_enabled h' i = gr_enabled reset_gic i \<and> gr_group1 h' i = gr_group1 reset_gic i" for i
    using t by simp
  from this [of 40] this [of 64] t r show ?thesis by (simp add: reset_gic_def)
qed

end
