(* ===== verification/Gicv3.thy ===== *)
theory Gicv3
  imports Gicv2
begin

text \<open>
  The GICv3 driver (\<open>src/src/interrupts/gicv3.cpp\<close>): the distributor, one redistributor for every
  core, and the CPU interface in system registers. The offsets of the distributor that the two
  drivers share have the values of the GICv2 theory.
\<close>

record DriverV3 =
  v3_gicd_base :: u64
  v3_gicr_base :: u64
  v3_num_redistributors :: u32

definition GICD_IROUTER :: u64 where "GICD_IROUTER = 0x6000"
definition GICR_STRIDE :: u64 where "GICR_STRIDE = 0x20000"
definition GICR_RD_OFFSET :: u64 where "GICR_RD_OFFSET = 0"
definition GICR_SGI_OFFSET :: u64 where "GICR_SGI_OFFSET = 0x10000"
definition GICR_RD_TYPER :: u64 where "GICR_RD_TYPER = 0x008"
definition GICR_RD_WAKER :: u64 where "GICR_RD_WAKER = 0x014"
definition GICR_SGI_IGROUPR0 :: u64 where "GICR_SGI_IGROUPR0 = 0x080"
definition GICR_SGI_ISENABLER0 :: u64 where "GICR_SGI_ISENABLER0 = 0x100"
definition GICR_SGI_ICENABLER0 :: u64 where "GICR_SGI_ICENABLER0 = 0x180"
definition GICR_SGI_IPRIORITYR_BASE :: u64 where "GICR_SGI_IPRIORITYR_BASE = 0x400"

definition v3_distributor :: "DriverV3 \<Rightarrow> u64 \<Rightarrow> u64" where
  "v3_distributor g offset = v3_gicd_base g + offset"

text \<open>These two take their \<open>n\<close> as a signed \<open>int\<close>.\<close>

definition redistributor_rd :: "DriverV3 \<Rightarrow> u32 \<Rightarrow> u64 \<Rightarrow> u64" where
  "redistributor_rd g n offset = v3_gicr_base g + scast n * GICR_STRIDE + GICR_RD_OFFSET + offset"

definition redistributor_sgi :: "DriverV3 \<Rightarrow> u32 \<Rightarrow> u64 \<Rightarrow> u64" where
  "redistributor_sgi g n offset = v3_gicr_base g + scast n * GICR_STRIDE + GICR_SGI_OFFSET + offset"

definition V3_GICD_CTLR_EnableGrp1 :: u32 where "V3_GICD_CTLR_EnableGrp1 = 2"
definition GICD_CTLR_NS_EnableGrp1A :: u32 where "GICD_CTLR_NS_EnableGrp1A = 2"
definition GICD_CTLR_DS :: u32 where "GICD_CTLR_DS = push_bit 6 1"
definition GICD_CTLR_E1NWF :: u32 where "GICD_CTLR_E1NWF = push_bit 6 1"
definition GICD_CTLR_RWP :: u32 where "GICD_CTLR_RWP = push_bit 31 1"

section \<open>Set-up of the hardware\<close>

partial_function (option) v3_wait_rwp :: "'h Machine \<Rightarrow> DriverV3 \<Rightarrow> 'h \<Rightarrow> 'h comp" where
  "v3_wait_rwp mc g h =
     (let vh = mc_read32 mc (v3_distributor g GICD_CTLR) h in
      if fst vh AND GICD_CTLR_RWP \<noteq> 0 then v3_wait_rwp mc g (snd vh) else Some (Inr (snd vh)))"

definition v3_initialize_gic_distributor :: "'h Machine \<Rightarrow> DriverV3 \<Rightarrow> 'h \<Rightarrow> 'h comp" where
  "v3_initialize_gic_distributor mc g h =
     (let (ctlr, h1) = mc_read32 mc (v3_distributor g GICD_CTLR) h;
          ds = ctlr AND GICD_CTLR_DS \<noteq> 0;
          ctlr1 = (if ds then ctlr OR (GICD_CTLR_E1NWF OR V3_GICD_CTLR_EnableGrp1)
                   else ctlr OR (GICD_CTLR_E1NWF OR GICD_CTLR_NS_EnableGrp1A)) in
      v3_wait_rwp mc g (mc_write32 mc (v3_distributor g GICD_CTLR) ctlr1 h1))"

definition GICR_TYPER_Last :: u64 where "GICR_TYPER_Last = 0x10"
definition GICR_WAKER_ProcessorSleep :: u32 where "GICR_WAKER_ProcessorSleep = 2"
definition GICR_WAKER_ChildrenAsleep :: u32 where "GICR_WAKER_ChildrenAsleep = 4"

partial_function (option) v3_wait_children :: "'h Machine \<Rightarrow> DriverV3 \<Rightarrow> u32 \<Rightarrow> 'h \<Rightarrow> 'h comp" where
  "v3_wait_children mc g n h =
     (let vh = mc_read32 mc (redistributor_rd g n GICR_RD_WAKER) h in
      if fst vh AND GICR_WAKER_ChildrenAsleep \<noteq> 0 then v3_wait_children mc g n (snd vh) else Some (Inr (snd vh)))"

definition v3_wake :: "'h Machine \<Rightarrow> DriverV3 \<Rightarrow> u32 \<Rightarrow> 'h \<Rightarrow> 'h comp" where
  "v3_wake mc g n h =
     (let (waker, h1) = mc_read32 mc (redistributor_rd g n GICR_RD_WAKER) h;
          h2 = mc_write32 mc (redistributor_rd g n GICR_RD_WAKER) (waker AND NOT GICR_WAKER_ProcessorSleep) h1 in
      v3_wait_children mc g n h2)"

partial_function (option) v3_wake_loop :: "'h Machine \<Rightarrow> DriverV3 \<Rightarrow> u32 \<Rightarrow> 'h \<Rightarrow> (DriverV3 \<times> 'h) comp" where
  "v3_wake_loop mc g current_redistributor h =
     bind_comp (v3_wake mc g current_redistributor h) (\<lambda>h1.
     let th = mc_read64 mc (redistributor_rd g current_redistributor GICR_RD_TYPER) h1 in
     if fst th AND GICR_TYPER_Last \<noteq> 0
     then Some (Inr (g\<lparr>v3_num_redistributors := current_redistributor + 1\<rparr>, snd th))
     else v3_wake_loop mc g (current_redistributor + 1) (snd th))"

definition v3_initialize_gic_redistributors :: "'h Machine \<Rightarrow> DriverV3 \<Rightarrow> 'h \<Rightarrow> (DriverV3 \<times> 'h) comp" where
  "v3_initialize_gic_redistributors mc g h = v3_wake_loop mc g 0 h"

definition v3_enable_cpu_interface :: "'h Machine \<Rightarrow> 'h \<Rightarrow> 'h" where
  "v3_enable_cpu_interface mc h =
     (let (v, h1) = mc_mrs mc ICC_SRE_EL1 h in mc_msr mc ICC_SRE_EL1 (v OR 1) h1)"

definition v3_enable_cpu_interrupts :: "'h Machine \<Rightarrow> 'h \<Rightarrow> 'h" where
  "v3_enable_cpu_interrupts mc h = mc_msr mc ICC_IGRPEN1_EL1 1 h"

definition v3_set_cpu_priority_mask :: "'h Machine \<Rightarrow> u64 \<Rightarrow> 'h \<Rightarrow> 'h" where
  "v3_set_cpu_priority_mask mc priority h = mc_msr mc ICC_PMR_EL1 priority h"

section \<open>Interrupts\<close>

text \<open>A loop over the redistributors from number \<open>i\<close> on.\<close>

fun v3_redistributors :: "(u32 \<Rightarrow> 'h \<Rightarrow> 'h) \<Rightarrow> u32 \<Rightarrow> nat \<Rightarrow> 'h \<Rightarrow> 'h" where
  "v3_redistributors f i 0 h = h"
| "v3_redistributors f i (Suc k) h = v3_redistributors f (i + 1) k (f i h)"

definition v3_set_interrupt_priority :: "'h Machine \<Rightarrow> DriverV3 \<Rightarrow> int \<Rightarrow> InterruptPriority \<Rightarrow> 'h \<Rightarrow> 'h" where
  "v3_set_interrupt_priority mc g iid priority h =
     (if iid > 31
      then mc_write8 mc (v3_gicd_base g + GICD_IPRIORITY_BASE + word_of_int iid) (priority_value priority) h
      else v3_redistributors (\<lambda>i. mc_write8 mc (v3_gicr_base g + ucast i * GICR_STRIDE + GICR_SGI_OFFSET +
             GICR_SGI_IPRIORITYR_BASE + word_of_int iid) (priority_value priority)) 0 (unat (v3_num_redistributors g)) h)"

text \<open>\<open>1 << id\<close> in the loops over the redistributors: evaluated only when there are any.\<close>

definition sgi_bit :: "DriverV3 \<Rightarrow> int \<Rightarrow> u32 res" where
  "sgi_bit g iid = (if iid < 0 \<and> v3_num_redistributors g \<noteq> 0 then Inl (BadShift iid) else Inr (push_bit (nat iid) 1))"

definition v3_set_interrupt_group :: "'h Machine \<Rightarrow> DriverV3 \<Rightarrow> int \<Rightarrow> 'h \<Rightarrow> 'h res" where
  "v3_set_interrupt_group mc g iid h =
     (if iid > 31
      then bind_res (irq_bit iid) (\<lambda>(reg_offset, bits).
        let (igrouprn, h1) = mc_read32 mc (v3_distributor g (GICD_IGROUPR + reg_offset)) h in
        Inr (mc_write32 mc (v3_distributor g (GICD_IGROUPR + reg_offset)) (igrouprn OR bits) h1))
      else bind_res (sgi_bit g iid) (\<lambda>bits.
        Inr (v3_redistributors (\<lambda>i h.
          let (igroupr0, h1) = mc_read32 mc (redistributor_sgi g i GICR_SGI_IGROUPR0) h in
          mc_write32 mc (redistributor_sgi g i GICR_SGI_IGROUPR0) (igroupr0 OR bits) h1)
          0 (unat (v3_num_redistributors g)) h)))"

text \<open>\<open>enable_interrupt\<close> and \<open>disable_interrupt\<close> differ in the two registers they write.\<close>

definition v3_write_enable :: "'h Machine \<Rightarrow> DriverV3 \<Rightarrow> u64 \<Rightarrow> u64 \<Rightarrow> int \<Rightarrow> 'h \<Rightarrow> 'h res" where
  "v3_write_enable mc g gicd_reg sgi_reg iid h =
     (if iid > 31
      then bind_res (irq_bit iid) (\<lambda>(reg_offset, bits).
        Inr (mc_write32 mc (v3_distributor g (gicd_reg + reg_offset)) bits h))
      else bind_res (sgi_bit g iid) (\<lambda>bits.
        Inr (v3_redistributors (\<lambda>i. mc_write32 mc (redistributor_sgi g i sgi_reg) bits)
          0 (unat (v3_num_redistributors g)) h)))"

definition v3_enable_interrupt :: "'h Machine \<Rightarrow> DriverV3 \<Rightarrow> int \<Rightarrow> 'h \<Rightarrow> 'h res" where
  "v3_enable_interrupt mc g iid h = v3_write_enable mc g GICD_ISENABLER GICR_SGI_ISENABLER0 iid h"

definition v3_disable_interrupt :: "'h Machine \<Rightarrow> DriverV3 \<Rightarrow> int \<Rightarrow> 'h \<Rightarrow> 'h res" where
  "v3_disable_interrupt mc g iid h = v3_write_enable mc g GICD_ICENABLER GICR_SGI_ICENABLER0 iid h"

definition GICD_IROUTER_IRM :: u64 where "GICD_IROUTER_IRM = push_bit 31 1"

definition v3_set_interrupt_routing :: "'h Machine \<Rightarrow> DriverV3 \<Rightarrow> int \<Rightarrow> bool \<Rightarrow> 'h \<Rightarrow> 'h res" where
  "v3_set_interrupt_routing mc g iid any h =
     (if iid > 31
      then if 8 * iid \<ge> 2 ^ 31 then Inl SignedOverflow
           else let offset = word_of_int (8 * iid) :: u64;
               (iroutern, h1) = mc_read64 mc (v3_distributor g (GICD_IROUTER + offset)) h in
           Inr (mc_write64 mc (v3_distributor g (GICD_IROUTER + offset))
             (if any then iroutern OR GICD_IROUTER_IRM else iroutern) h1)
      else Inr h)"

definition v3_set_gicd_base :: "u64 \<Rightarrow> DriverV3 \<Rightarrow> DriverV3" where
  "v3_set_gicd_base base g = g\<lparr>v3_gicd_base := base\<rparr>"

definition v3_set_gicr_base :: "u64 \<Rightarrow> DriverV3 \<Rightarrow> DriverV3" where
  "v3_set_gicr_base base g = g\<lparr>v3_gicr_base := base\<rparr>"

definition v3_initialize :: "'h Machine \<Rightarrow> mem \<Rightarrow> DriverV3 \<times> Uart \<times> 'h \<Rightarrow> (DriverV3 \<times> Uart \<times> 'h) comp" where
  "v3_initialize mc m s =
     bind_comp (kprintf mc m (''Using GICv3 driver'' @ [CHR 0x0A]) [] (snd s)) (\<lambda>(u, h).
     bind_comp (v3_initialize_gic_distributor mc (fst s) h) (\<lambda>h1.
     bind_comp (v3_initialize_gic_redistributors mc (fst s) h1) (\<lambda>(g, h2).
     Some (Inr (g, u, h2)))))"

definition v3_initialize_core_specific :: "'h Machine \<Rightarrow> 'h \<Rightarrow> 'h" where
  "v3_initialize_core_specific mc h =
     v3_enable_cpu_interrupts mc (v3_set_cpu_priority_mask mc 0xFF (v3_enable_cpu_interface mc h))"

definition v3_initialize_interrupt :: "'h Machine \<Rightarrow> DriverV3 \<Rightarrow> int \<Rightarrow> InterruptPriority \<Rightarrow> 'h \<Rightarrow> 'h res" where
  "v3_initialize_interrupt mc g iid priority h =
     bind_res (v3_set_interrupt_group mc g iid (v3_set_interrupt_priority mc g iid priority h)) (\<lambda>h1.
     v3_enable_interrupt mc g iid h1)"

definition v3_acknowledge_interrupt :: "'h Machine \<Rightarrow> 'h \<Rightarrow> u32 \<times> 'h" where
  "v3_acknowledge_interrupt mc h = (let (intid, h1) = mc_mrs mc ICC_IAR1_EL1 h in (ucast intid, h1))"

definition v3_end_of_interrupt :: "'h Machine \<Rightarrow> u32 \<Rightarrow> 'h \<Rightarrow> 'h" where
  "v3_end_of_interrupt mc iid h = mc_msr mc ICC_EOIR1_EL1 (ucast iid) h"

section \<open>Register writes of the distributor\<close>

text \<open>Writes to GICD_CTLR complete: RWP reads as one only for a bounded time.\<close>

definition gicd_settles :: "'h Machine \<Rightarrow> u64 \<Rightarrow> ('h \<Rightarrow> nat) \<Rightarrow> bool" where
  "gicd_settles mc base busy \<longleftrightarrow>
     (\<forall>h. fst (mc_read32 mc (base + GICD_CTLR) h) AND GICD_CTLR_RWP \<noteq> 0 \<longrightarrow> busy (snd (mc_read32 mc (base + GICD_CTLR) h)) < busy h)"

lemma wait_rwp:
  assumes "gicd_settles mc (v3_gicd_base g) busy"
  shows "\<exists>h'. v3_wait_rwp mc g h = Some (Inr h')"
proof (induction "busy h" arbitrary: h rule: less_induct)
  case less
  let ?vh = "mc_read32 mc (v3_distributor g GICD_CTLR) h"
  show ?case
  proof (cases "fst ?vh AND GICD_CTLR_RWP = 0")
    case False
    then have "busy (snd ?vh) < busy h" using assms by (simp add: gicd_settles_def v3_distributor_def)
    with less [of "snd ?vh"] False show ?thesis by (subst v3_wait_rwp.simps) (simp add: Let_def)
  qed (subst v3_wait_rwp.simps, simp add: Let_def)
qed

lemma v3_distributor_returns:
  assumes "gicd_settles mc (v3_gicd_base g) busy"
  shows "\<exists>h'. v3_initialize_gic_distributor mc g h = Some (Inr h')"
  using wait_rwp [OF assms] by (simp add: v3_initialize_gic_distributor_def split_beta Let_def)

section \<open>Waking the redistributors\<close>

text \<open>
  \<open>N\<close> redistributors at \<open>base\<close> (GIC architecture specification, GICR_WAKER and GICR_TYPER): \<open>asleep\<close> is the ProcessorSleep bit
  of each, as it was last written, and \<open>children\<close> its ChildrenAsleep bit, which the hardware clears some time after
  ProcessorSleep. One that is awake, with both bits clear, stays so while others are written and anything is read. The last one says so in its TYPER.
\<close>

definition gicr_awake :: "('h \<Rightarrow> nat \<Rightarrow> bool) \<Rightarrow> ('h \<Rightarrow> nat \<Rightarrow> bool) \<Rightarrow> 'h \<Rightarrow> nat \<Rightarrow> bool" where
  "gicr_awake asleep children h k \<longleftrightarrow> \<not> asleep h k \<and> \<not> children h k"

definition gicr_power :: "'h Machine \<Rightarrow> u64 \<Rightarrow> nat \<Rightarrow> ('h \<Rightarrow> nat \<Rightarrow> bool) \<Rightarrow> ('h \<Rightarrow> nat \<Rightarrow> bool) \<Rightarrow> ('h \<Rightarrow> nat) \<Rightarrow> bool" where
  "gicr_power mc base N asleep children busy \<longleftrightarrow> 0 < N \<and> N < 2 ^ 31 \<and>
     (\<forall>h k w. k < N \<longrightarrow>
        (let h' = mc_write32 mc (base + of_nat k * GICR_STRIDE + GICR_RD_OFFSET + GICR_RD_WAKER) w h in
         asleep h' = (asleep h)(k := w AND GICR_WAKER_ProcessorSleep \<noteq> 0) \<and>
         (\<forall>j. j \<noteq> k \<longrightarrow> gicr_awake asleep children h j \<longrightarrow> gicr_awake asleep children h' j))) \<and>
     (\<forall>h k. k < N \<longrightarrow>
        (let (w, h') = mc_read32 mc (base + of_nat k * GICR_STRIDE + GICR_RD_OFFSET + GICR_RD_WAKER) h in
         (w AND GICR_WAKER_ChildrenAsleep \<noteq> 0 \<longleftrightarrow> children h k) \<and> asleep h' = asleep h \<and>
         (\<forall>j. gicr_awake asleep children h j \<longrightarrow> gicr_awake asleep children h' j) \<and>
         (\<not> asleep h k \<and> children h k \<longrightarrow> busy h' < busy h))) \<and>
     (\<forall>h k. k < N \<longrightarrow>
        (let (t, h') = mc_read64 mc (base + of_nat k * GICR_STRIDE + GICR_RD_OFFSET + GICR_RD_TYPER) h in
         asleep h' = asleep h \<and> (\<forall>j. gicr_awake asleep children h j \<longrightarrow> gicr_awake asleep children h' j) \<and>
         (t AND GICR_TYPER_Last \<noteq> 0 \<longleftrightarrow> k = N - 1)))"

lemma gicr_powerD:
  assumes "gicr_power mc base N asleep children busy" "k < N"
  shows "asleep (mc_write32 mc (base + of_nat k * GICR_STRIDE + GICR_RD_OFFSET + GICR_RD_WAKER) w h) =
      (asleep h)(k := w AND GICR_WAKER_ProcessorSleep \<noteq> 0)"
    "j \<noteq> k \<Longrightarrow> gicr_awake asleep children h j \<Longrightarrow>
      gicr_awake asleep children (mc_write32 mc (base + of_nat k * GICR_STRIDE + GICR_RD_OFFSET + GICR_RD_WAKER) w h) j"
    "fst (mc_read32 mc (base + of_nat k * GICR_STRIDE + GICR_RD_OFFSET + GICR_RD_WAKER) h) AND GICR_WAKER_ChildrenAsleep \<noteq> 0 \<longleftrightarrow> children h k"
    "asleep (snd (mc_read32 mc (base + of_nat k * GICR_STRIDE + GICR_RD_OFFSET + GICR_RD_WAKER) h)) = asleep h"
    "gicr_awake asleep children h j \<Longrightarrow>
      gicr_awake asleep children (snd (mc_read32 mc (base + of_nat k * GICR_STRIDE + GICR_RD_OFFSET + GICR_RD_WAKER) h)) j"
    "\<not> asleep h k \<Longrightarrow> children h k \<Longrightarrow>
      busy (snd (mc_read32 mc (base + of_nat k * GICR_STRIDE + GICR_RD_OFFSET + GICR_RD_WAKER) h)) < busy h"
    "gicr_awake asleep children h j \<Longrightarrow>
      gicr_awake asleep children (snd (mc_read64 mc (base + of_nat k * GICR_STRIDE + GICR_RD_OFFSET + GICR_RD_TYPER) h)) j"
    "fst (mc_read64 mc (base + of_nat k * GICR_STRIDE + GICR_RD_OFFSET + GICR_RD_TYPER) h) AND GICR_TYPER_Last \<noteq> 0 \<longleftrightarrow>
      k = N - 1"
  using assms unfolding gicr_power_def by (auto simp: split_beta Let_def)

lemma redistributor_nat:
  assumes "k < 2 ^ 31"
  shows "redistributor_rd g (of_nat k) off = v3_gicr_base g + of_nat k * GICR_STRIDE + GICR_RD_OFFSET + off"
    "redistributor_sgi g (of_nat k) off = v3_gicr_base g + of_nat k * GICR_STRIDE + GICR_SGI_OFFSET + off"
proof -
  have "(scast (of_nat k :: u32) :: u64) = of_nat k"
    using assms by (simp add: signed_of_nat signed_take_bit_int_eq_self)
  then show "redistributor_rd g (of_nat k) off = v3_gicr_base g + of_nat k * GICR_STRIDE + GICR_RD_OFFSET + off"
    "redistributor_sgi g (of_nat k) off = v3_gicr_base g + of_nat k * GICR_STRIDE + GICR_SGI_OFFSET + off"
    by (simp_all add: redistributor_rd_def redistributor_sgi_def)
qed

lemma wait_children:
  assumes dev: "gicr_power mc (v3_gicr_base g) N asleep children busy" and k: "k < N"
  shows "\<not> asleep h k \<Longrightarrow> \<exists>h'. v3_wait_children mc g (of_nat k) h = Some (Inr h') \<and> gicr_awake asleep children h' k \<and>
    (\<forall>j. gicr_awake asleep children h j \<longrightarrow> gicr_awake asleep children h' j)"
proof (induction "busy h" arbitrary: h rule: less_induct)
  case less
  note P = gicr_powerD [OF dev k]
  have k31: "k < 2 ^ 31" using k dev by (simp add: gicr_power_def)
  note unf = v3_wait_children.simps [of mc g "of_nat k" h, unfolded redistributor_nat [OF k31] Let_def P(3)]
  let ?vh = "mc_read32 mc (v3_gicr_base g + of_nat k * GICR_STRIDE + GICR_RD_OFFSET + GICR_RD_WAKER) h"
  show ?case
  proof (cases "children h k")
    case False
    then have "gicr_awake asleep children h k" using less.prems by (simp add: gicr_awake_def)
    then show ?thesis using unf P(5) [of h] False by simp
  next
    case True
    have "\<not> asleep (snd ?vh) k" using less.prems P(4) by simp
    from less.hyps [OF P(6) [OF less.prems True] this] obtain h' where
      h': "v3_wait_children mc g (of_nat k) (snd ?vh) = Some (Inr h')" "gicr_awake asleep children h' k"
        "\<forall>j. gicr_awake asleep children (snd ?vh) j \<longrightarrow> gicr_awake asleep children h' j" by blast
    with unf True P(5) [of h] show ?thesis by auto
  qed
qed

lemma wake_one:
  assumes dev: "gicr_power mc (v3_gicr_base g) N asleep children busy" and k: "k < N"
  shows "\<exists>h'. v3_wake mc g (of_nat k) h = Some (Inr h') \<and> gicr_awake asleep children h' k \<and>
    (\<forall>j. j \<noteq> k \<longrightarrow> gicr_awake asleep children h j \<longrightarrow> gicr_awake asleep children h' j)"
proof -
  note P = gicr_powerD [OF dev k]
  have k31: "k < 2 ^ 31" using k dev by (simp add: gicr_power_def)
  let ?a = "v3_gicr_base g + of_nat k * GICR_STRIDE + GICR_RD_OFFSET + GICR_RD_WAKER"
  define h2 where "h2 = mc_write32 mc ?a (fst (mc_read32 mc ?a h) AND NOT GICR_WAKER_ProcessorSleep) (snd (mc_read32 mc ?a h))"
  have "(fst (mc_read32 mc ?a h) AND NOT GICR_WAKER_ProcessorSleep) AND GICR_WAKER_ProcessorSleep = 0"
    by (simp add: and.assoc GICR_WAKER_ProcessorSleep_def)
  then have "\<not> asleep h2 k" unfolding h2_def P(1) by simp
  from wait_children [OF dev k this] obtain h3 where h3: "v3_wait_children mc g (of_nat k) h2 = Some (Inr h3)" "gicr_awake asleep children h3 k"
      "\<forall>j. gicr_awake asleep children h2 j \<longrightarrow> gicr_awake asleep children h3 j" by blast
  have "gicr_awake asleep children h2 j" if "j \<noteq> k" "gicr_awake asleep children h j" for j
    unfolding h2_def by (intro P(2) P(5) that)
  moreover have "v3_wake mc g (of_nat k) h = Some (Inr h3)"
    unfolding v3_wake_def redistributor_nat [OF k31] using h3(1) by (simp add: split_beta Let_def h2_def)
  ultimately show ?thesis using h3(2,3) by blast
qed

lemma wake_loop:
  assumes dev: "gicr_power mc (v3_gicr_base g) N asleep children busy"
  shows "k < N \<Longrightarrow> \<forall>j<k. gicr_awake asleep children h j \<Longrightarrow>
    \<exists>h'. v3_wake_loop mc g (of_nat k) h = Some (Inr (g\<lparr>v3_num_redistributors := of_nat N\<rparr>, h')) \<and> (\<forall>j<N. gicr_awake asleep children h' j)"
proof (induction "N - k" arbitrary: k h rule: less_induct)
  case less
  note P = gicr_powerD [OF dev less.prems(1)]
  have k31: "k < 2 ^ 31" using less.prems(1) dev by (simp add: gicr_power_def)
  obtain h3 where h3: "v3_wake mc g (of_nat k) h = Some (Inr h3)" "gicr_awake asleep children h3 k"
      "\<forall>j. j \<noteq> k \<longrightarrow> gicr_awake asleep children h j \<longrightarrow> gicr_awake asleep children h3 j"
    using wake_one [OF dev less.prems(1)] by blast
  let ?th = "mc_read64 mc (v3_gicr_base g + of_nat k * GICR_STRIDE + GICR_RD_OFFSET + GICR_RD_TYPER) h3"
  have loop: "v3_wake_loop mc g (of_nat k) h =
      (if k = N - 1 then Some (Inr (g\<lparr>v3_num_redistributors := of_nat k + 1\<rparr>, snd ?th)) else v3_wake_loop mc g (of_nat k + 1) (snd ?th))"
    unfolding v3_wake_loop.simps [of mc g "of_nat k" h] h3(1) bind_comp_simps redistributor_nat [OF k31] Let_def P(8) ..
  have "gicr_awake asleep children h3 j" if "j < k + 1" for j using that less.prems(2) h3(2,3) by (cases "j = k") auto
  then have aw: "\<forall>j<k + 1. gicr_awake asleep children (snd ?th) j" using P(7) by blast
  show ?case
  proof (cases "k = N - 1")
    case True
    then have N: "N = k + 1" using less.prems(1) by simp
    have "v3_wake_loop mc g (of_nat k) h = Some (Inr (g\<lparr>v3_num_redistributors := of_nat k + 1\<rparr>, snd ?th))"
      unfolding loop if_P [OF True] ..
    with aw show ?thesis unfolding N by (simp add: add.commute)
  next
    case False
    have "N - (k + 1) < N - k" "k + 1 < N" using False less.prems(1) by simp_all
    moreover have "(of_nat (k + 1) :: u32) = of_nat k + 1" by simp
    ultimately show ?thesis using less.hyps [of "k + 1" "snd ?th"] aw False unfolding loop by (metis (no_types))
  qed
qed

text \<open>C34: Waking the redistributors: on hardware with \<open>N\<close> of them that wake up some time after they are asked, the
  loop ends, every one of them is awake, that is, ProcessorSleep and ChildrenAsleep of its GICR_WAKER are both
  0, and the driver knows their number.\<close>

theorem gicv3_redistributors_awake:
  assumes "gicr_power mc (v3_gicr_base g) N asleep children busy"
  shows "\<exists>h'. v3_initialize_gic_redistributors mc g h = Some (Inr (g\<lparr>v3_num_redistributors := of_nat N\<rparr>, h')) \<and>
    (\<forall>k<N. \<not> asleep h' k \<and> \<not> children h' k)"
proof -
  have "0 < N" using assms by (simp add: gicr_power_def)
  from wake_loop [OF assms this, of h] show ?thesis by (simp add: v3_initialize_gic_redistributors_def gicr_awake_def)
qed

text \<open>Two redistributors that wake up after three reads.\<close>

definition sim_gicr :: "((nat \<Rightarrow> bool) \<times> (nat \<Rightarrow> nat)) Machine" where
  "sim_gicr =
     \<lparr>mc_read32 = (\<lambda>a (s, n). let k = if a = 0x80A0014 then 0 else 1 in (if n k = 0 then 0 else 4, s, n(k := n k - 1))),
      mc_write32 = (\<lambda>a v (s, n). let k = if a = 0x80A0014 then 0 else 1 in (s(k := v AND 2 \<noteq> 0), n(k := 3))),
      mc_read64 = (\<lambda>a h. (if a = 0x80A0008 then 0 else 0x10, h)), mc_write64 = (\<lambda>a v h. h), mc_write8 = (\<lambda>a v h. h),
      mc_mrs = (\<lambda>r h. (0, h)), mc_msr = (\<lambda>r v h. h), mc_firmware = (\<lambda>c x h. (0, h)),
      mc_sev = (\<lambda>h. h)\<rparr>"

lemma sim_gicr_ok: "gicr_power sim_gicr 0x80A0000 2 fst (\<lambda>h k. snd h k \<noteq> 0) (\<lambda>h. snd h 0 + snd h 1)"
proof -
  have k: "(k :: nat) < 2 \<Longrightarrow> k = 0 \<or> k = 1" for k by auto
  have a: "GICR_STRIDE = 0x20000" "GICR_RD_OFFSET = 0" "GICR_RD_WAKER = 0x14" "GICR_RD_TYPER = 0x8"
    "GICR_WAKER_ProcessorSleep = 2" "GICR_WAKER_ChildrenAsleep = 4" "GICR_TYPER_Last = 0x10"
    by (simp_all add: GICR_RD_OFFSET_def GICR_RD_WAKER_def GICR_RD_TYPER_def GICR_STRIDE_def
        GICR_WAKER_ProcessorSleep_def GICR_WAKER_ChildrenAsleep_def GICR_TYPER_Last_def)
  show ?thesis
    unfolding gicr_power_def a sim_gicr_def
  proof (intro conjI allI impI, goal_cases)
    case (3 h k w)
    then show ?case using k [OF 3] by (elim disjE) (simp_all add: split_beta Let_def gicr_awake_def)
  next
    case (4 h k)
    then show ?case using k [OF 4] by (elim disjE) (simp_all add: split_beta Let_def gicr_awake_def)
  next
    case (5 h k)
    then show ?case using k [OF 5] by (elim disjE) (simp_all add: Let_def)
  qed simp_all
qed

definition sim_v3 :: DriverV3 where
  "sim_v3 = \<lparr>v3_gicd_base = 0x8000000, v3_gicr_base = 0x80A0000, v3_num_redistributors = 0\<rparr>"

theorem gicv3_redistributors_awake_witness:
  "\<exists>h'. v3_initialize_gic_redistributors sim_gicr sim_v3 (\<lambda>_. True, \<lambda>_. 0) =
     Some (Inr (sim_v3\<lparr>v3_num_redistributors := 2\<rparr>, h')) \<and> \<not> fst h' 0 \<and> \<not> fst h' 1 \<and> snd h' 0 = 0 \<and> snd h' 1 = 0"
  using gicv3_redistributors_awake [of sim_gicr sim_v3 2 fst "\<lambda>h k. snd h k \<noteq> 0" "\<lambda>h. snd h 0 + snd h 1" "(\<lambda>_. True, \<lambda>_. 0)"] sim_gicr_ok
  by (auto simp: sim_v3_def)

section \<open>Setting up interrupts\<close>

text \<open>
  The frames of interrupt registers: number 0 is the distributor (interrupts from 32 on), number
  \<open>k + 1\<close> the SGI frame of redistributor \<open>k\<close> (interrupts below 32). The registers have the same
  offsets in all of them (GIC architecture specification, chapters 12.9 and 12.11), an access
  to one frame does not change another, and reading changes nothing.
\<close>

definition frame_base :: "u64 \<Rightarrow> u64 \<Rightarrow> nat \<Rightarrow> u64" where
  "frame_base gicd gicr f = (case f of 0 \<Rightarrow> gicd | Suc k \<Rightarrow> gicr + of_nat k * GICR_STRIDE + GICR_SGI_OFFSET)"

text \<open>The registers of 32 interrupts that a frame has; those of the private interrupts are reserved in the distributor.\<close>

definition frame_has :: "nat \<Rightarrow> nat \<Rightarrow> bool" where
  "frame_has f n \<longleftrightarrow> (if f = 0 then 0 < n \<and> n < 32 else n = 0)"

definition gicv3_frames :: "'h Machine \<Rightarrow> u64 \<Rightarrow> u64 \<Rightarrow> nat \<Rightarrow> ('h \<Rightarrow> nat \<Rightarrow> GicRegs) \<Rightarrow> bool" where
  "gicv3_frames mc gicd gicr N rg \<longleftrightarrow> N < 2 ^ 31 \<and>
     (\<forall>f h n w. f \<le> N \<and> frame_has f n \<longrightarrow>
        rg (mc_write32 mc (frame_base gicd gicr f + (GICD_ISENABLER + of_nat (4 * n))) w h) =
          (rg h)(f := (rg h f)\<lparr>gr_enabled := \<lambda>i. gr_enabled (rg h f) i \<or> in_word n w i\<rparr>)) \<and>
     (\<forall>f h n w. f \<le> N \<and> frame_has f n \<longrightarrow>
        rg (mc_write32 mc (frame_base gicd gicr f + (GICD_IGROUPR + of_nat (4 * n))) w h) =
          (rg h)(f := (rg h f)\<lparr>gr_group1 := \<lambda>i. if i div 32 = n then bit w (i mod 32) else gr_group1 (rg h f) i\<rparr>)) \<and>
     (\<forall>f h n. f \<le> N \<and> frame_has f n \<longrightarrow>
        rg (snd (mc_read32 mc (frame_base gicd gicr f + (GICD_IGROUPR + of_nat (4 * n))) h)) = rg h \<and>
        (\<forall>k<32. bit (fst (mc_read32 mc (frame_base gicd gicr f + (GICD_IGROUPR + of_nat (4 * n))) h)) k =
           gr_group1 (rg h f) (32 * n + k))) \<and>
     (\<forall>f h i b. f \<le> N \<and> i < 1020 \<and> frame_has f (i div 32) \<longrightarrow>
        rg (mc_write8 mc (frame_base gicd gicr f + GICD_IPRIORITY_BASE + of_nat i) b h) =
          (rg h)(f := (rg h f)\<lparr>gr_priority := (gr_priority (rg h f))(i := b)\<rparr>))"

lemma gicv3_framesD:
  assumes "gicv3_frames mc gicd gicr N rg" "f \<le> N"
  shows "frame_has f n \<Longrightarrow> rg (mc_write32 mc (frame_base gicd gicr f + (GICD_ISENABLER + of_nat (4 * n))) w h) =
        (rg h)(f := (rg h f)\<lparr>gr_enabled := \<lambda>i. gr_enabled (rg h f) i \<or> in_word n w i\<rparr>)"
    "frame_has f n \<Longrightarrow> rg (mc_write32 mc (frame_base gicd gicr f + (GICD_IGROUPR + of_nat (4 * n))) w h) =
        (rg h)(f := (rg h f)\<lparr>gr_group1 := \<lambda>i. if i div 32 = n then bit w (i mod 32) else gr_group1 (rg h f) i\<rparr>)"
    "frame_has f n \<Longrightarrow>
       rg (snd (mc_read32 mc (frame_base gicd gicr f + (GICD_IGROUPR + of_nat (4 * n))) h)) = rg h"
    "frame_has f n \<Longrightarrow> k < 32 \<Longrightarrow>
       bit (fst (mc_read32 mc (frame_base gicd gicr f + (GICD_IGROUPR + of_nat (4 * n))) h)) k = gr_group1 (rg h f) (32 * n + k)"
    "i < 1020 \<Longrightarrow> frame_has f (i div 32) \<Longrightarrow>
       rg (mc_write8 mc (frame_base gicd gicr f + GICD_IPRIORITY_BASE + of_nat i) b h) =
        (rg h)(f := (rg h f)\<lparr>gr_priority := (gr_priority (rg h f))(i := b)\<rparr>)"
  using assms unfolding gicv3_frames_def by (simp_all del: of_nat_mult)

text \<open>The three accesses to one frame for interrupt \<open>i\<close>.\<close>

lemma frame_group:
  assumes dev: "gicv3_frames mc gicd gicr N rg" "f \<le> N" and i: "i < 1024" "frame_has f (i div 32)"
    and a: "a = frame_base gicd gicr f + (GICD_IGROUPR + of_nat (4 * (i div 32)))"
  shows "rg (mc_write32 mc a (fst (mc_read32 mc a h) OR push_bit (i mod 32) 1) (snd (mc_read32 mc a h))) =
    (rg h)(f := (rg h f)\<lparr>gr_group1 := (gr_group1 (rg h f))(i := True)\<rparr>)"
proof -
  note D = gicv3_framesD [OF dev]
  have grp: "(\<lambda>j. if j div 32 = i div 32 then bit (fst (mc_read32 mc a h) OR push_bit (i mod 32) 1) (j mod 32)
      else gr_group1 (rg h f) j) = (gr_group1 (rg h f))(i := True)"
    unfolding a by (rule set_bit_group [OF i(1)]) (simp only: D(4) [OF i(2)])
  show ?thesis unfolding grp [symmetric] unfolding a D(2) [OF i(2)] D(3) [OF i(2)] ..
qed

lemma frame_enable:
  assumes dev: "gicv3_frames mc gicd gicr N rg" "f \<le> N" and i: "i < 1024" "frame_has f (i div 32)"
  shows "rg (mc_write32 mc (frame_base gicd gicr f + (GICD_ISENABLER + of_nat (4 * (i div 32)))) (push_bit (i mod 32) 1) h) =
    (rg h)(f := (rg h f)\<lparr>gr_enabled := (gr_enabled (rg h f))(i := True)\<rparr>)"
proof -
  have "(\<lambda>j. gr_enabled (rg h f) j \<or> in_word (i div 32) (push_bit (i mod 32) 1) j) = (gr_enabled (rg h f))(i := True)"
    unfolding in_word_one [OF i(1)] by (auto simp: fun_eq_iff)
  then show ?thesis unfolding gicv3_framesD(1) [OF dev i(2)] by simp
qed

text \<open>A loop over the redistributors whose body updates the frame of its redistributor.\<close>

lemma redistributors_spec:
  assumes "\<And>k h. k < N \<Longrightarrow> rg (F (of_nat k) h) = (rg h)(Suc k := upd (rg h (Suc k)))"
  shows "k + n \<le> N \<Longrightarrow> rg (v3_redistributors F (of_nat k) n h) =
    (\<lambda>f. if k < f \<and> f \<le> k + n then upd (rg h f) else rg h f)"
proof (induction n arbitrary: k h)
  case 0
  show ?case by (auto simp: fun_eq_iff)
next
  case (Suc n)
  have e: "v3_redistributors F (of_nat k) (Suc n) h = v3_redistributors F (of_nat (k + 1)) n (F (of_nat k) h)"
    by (simp add: add.commute)
  have le: "k + 1 + n \<le> N" and k: "k < N" using Suc.prems by simp_all
  show ?case
    unfolding e Suc.IH [OF le] assms [OF k] by (auto simp: fun_eq_iff)
qed

text \<open>What the three accesses change in a frame.\<close>

definition set_priority :: "nat \<Rightarrow> u8 \<Rightarrow> GicRegs \<Rightarrow> GicRegs" where
  "set_priority i b r = r\<lparr>gr_priority := (gr_priority r)(i := b)\<rparr>"

definition set_group1 :: "nat \<Rightarrow> GicRegs \<Rightarrow> GicRegs" where
  "set_group1 i r = r\<lparr>gr_group1 := (gr_group1 r)(i := True)\<rparr>"

definition enable :: "nat \<Rightarrow> GicRegs \<Rightarrow> GicRegs" where
  "enable i r = r\<lparr>gr_enabled := (gr_enabled r)(i := True)\<rparr>"

definition on_frames :: "nat \<Rightarrow> nat \<Rightarrow> (GicRegs \<Rightarrow> GicRegs) \<Rightarrow> (nat \<Rightarrow> GicRegs) \<Rightarrow> nat \<Rightarrow> GicRegs" where
  "on_frames i N u r f = (if (if 31 < i then f = 0 else 0 < f \<and> f \<le> N) then u (r f) else r f)"

lemma on_frames_spi: "31 < i \<Longrightarrow> on_frames i N u r = r(0 := u (r 0))"
  by (auto simp: on_frames_def fun_eq_iff)

lemma on_frames_ppi: "\<not> 31 < i \<Longrightarrow> on_frames i N u r = (\<lambda>f. if 0 < f \<and> f \<le> N then u (r f) else r f)"
  by (auto simp: on_frames_def fun_eq_iff)

lemma frame_base_simps:
  "v3_distributor g (r + off) = frame_base (v3_gicd_base g) (v3_gicr_base g) 0 + (r + off)"
  "k < 2 ^ 31 \<Longrightarrow> redistributor_sgi g (of_nat k) r = frame_base (v3_gicd_base g) (v3_gicr_base g) (Suc k) + (r + of_nat (4 * 0))"
  by (simp_all add: v3_distributor_def frame_base_def redistributor_nat)

lemma sgi_registers:
  "GICR_SGI_IGROUPR0 = GICD_IGROUPR" "GICR_SGI_ISENABLER0 = GICD_ISENABLER" "GICR_SGI_IPRIORITYR_BASE = GICD_IPRIORITY_BASE"
  by (simp_all add: GICR_SGI_IGROUPR0_def GICD_IGROUPR_def GICR_SGI_ISENABLER0_def GICD_ISENABLER_def
      GICR_SGI_IPRIORITYR_BASE_def GICD_IPRIORITY_BASE_def)

definition v3_hw :: "'h Machine \<Rightarrow> DriverV3 \<Rightarrow> ('h \<Rightarrow> nat \<Rightarrow> GicRegs) \<Rightarrow> bool" where
  "v3_hw mc g rg \<longleftrightarrow>
     gicv3_frames mc (v3_gicd_base g) (v3_gicr_base g) (unat (v3_num_redistributors g)) rg"

lemma v3_redistributors_frames:
  assumes "v3_hw mc g rg" "\<not> 31 < i"
    "\<And>k h. k < unat (v3_num_redistributors g) \<Longrightarrow> k < 2 ^ 31 \<Longrightarrow> rg (F (of_nat k) h) = (rg h)(Suc k := upd (rg h (Suc k)))"
  shows "rg (v3_redistributors F 0 (unat (v3_num_redistributors g)) h) =
    on_frames i (unat (v3_num_redistributors g)) upd (rg h)"
proof -
  let ?N = "unat (v3_num_redistributors g)"
  have "?N < 2 ^ 31" using assms(1) by (simp add: v3_hw_def gicv3_frames_def)
  then have "rg (F (of_nat k) h) = (rg h)(Suc k := upd (rg h (Suc k)))" if "k < ?N" for k h using that assms(3) by simp
  from redistributors_spec [of ?N rg F upd 0 ?N h, OF this] show ?thesis by (simp add: on_frames_ppi [OF assms(2)])
qed

lemma v3_priority_spec:
  assumes hw: "v3_hw mc g rg" and i: "i < 1020"
  shows "rg (v3_set_interrupt_priority mc g (int i) p h) =
    on_frames i (unat (v3_num_redistributors g)) (set_priority i (priority_value p)) (rg h)"
proof (cases "31 < i")
  case True
  have "frame_has 0 (i div 32)" using i True by (simp add: frame_has_def less_mult_imp_div_less div_greater_zero_iff)
  from gicv3_framesD(5) [OF hw [unfolded v3_hw_def] _ i this] True show ?thesis
    by (simp add: v3_set_interrupt_priority_def on_frames_spi frame_base_def set_priority_def)
next
  case False
  let ?F = "\<lambda>j :: u32. mc_write8 mc (v3_gicr_base g + ucast j * GICR_STRIDE + GICR_SGI_OFFSET +
      GICR_SGI_IPRIORITYR_BASE + word_of_int (int i)) (priority_value p)"
  have F: "rg (?F (of_nat k) h) =
      (rg h)(Suc k := set_priority i (priority_value p) (rg h (Suc k)))"
    if "k < unat (v3_num_redistributors g)" "k < 2 ^ 31" for k h
  proof -
    have "frame_has (Suc k) (i div 32)" "Suc k \<le> unat (v3_num_redistributors g)" using False that by (simp_all add: frame_has_def)
    moreover have "(ucast (of_nat k :: u32) :: u64) = of_nat k" by (rule ucast_of_nat_u32) (use that in simp)
    ultimately show ?thesis using gicv3_framesD(5) [OF hw [unfolded v3_hw_def], of "Suc k" i] i
      by (simp add: frame_base_def sgi_registers set_priority_def)
  qed
  have "v3_set_interrupt_priority mc g (int i) p h = v3_redistributors ?F 0 (unat (v3_num_redistributors g)) h"
    using False by (simp add: v3_set_interrupt_priority_def)
  then show ?thesis
    using v3_redistributors_frames [where F = ?F and upd = "set_priority i (priority_value p)", OF hw False F] by simp
qed

lemma v3_group_spec:
  assumes hw: "v3_hw mc g rg" and i: "i < 1020"
  shows "\<exists>h'. v3_set_interrupt_group mc g (int i) h = Inr h' \<and>
    rg h' = on_frames i (unat (v3_num_redistributors g)) (set_group1 i) (rg h)"
proof -
  have i': "i < 1024" using i by simp
  note b = irq_bit_nat [OF i'] and G = frame_group [OF hw [unfolded v3_hw_def]]
  show ?thesis
  proof (cases "31 < i")
    case True
    have "frame_has 0 (i div 32)" using i True by (simp add: frame_has_def less_mult_imp_div_less div_greater_zero_iff)
    from G [OF _ i' this refl] True show ?thesis
      unfolding v3_set_interrupt_group_def b bind_res_simps prod.case frame_base_simps
      by (simp add: split_beta Let_def on_frames_spi set_group1_def del: of_nat_mult)
  next
    case False
    then have d: "i div 32 = 0" by simp
    let ?F = "\<lambda>j h. let (igroupr0, h1) = mc_read32 mc (redistributor_sgi g j GICR_SGI_IGROUPR0) h in
            mc_write32 mc (redistributor_sgi g j GICR_SGI_IGROUPR0) (igroupr0 OR push_bit (i mod 32) 1) h1"
    have F: "rg (?F (of_nat k) h) = (rg h)(Suc k := set_group1 i (rg h (Suc k)))"
      if "k < unat (v3_num_redistributors g)" "k < 2 ^ 31" for k h
    proof -
      have w: "frame_has (Suc k) (i div 32)" "Suc k \<le> unat (v3_num_redistributors g)" using d that by (simp_all add: frame_has_def)
      from G [OF w(2) i' w(1) refl, of h] show ?thesis
        unfolding frame_base_simps(2) [OF that(2)] sgi_registers split_beta Let_def set_group1_def d .
    qed
    have "v3_set_interrupt_group mc g (int i) h = Inr (v3_redistributors ?F 0 (unat (v3_num_redistributors g)) h)"
      using False unfolding v3_set_interrupt_group_def b bind_res_simps prod.case by (simp add: sgi_bit_def)
    then show ?thesis using v3_redistributors_frames [where F = ?F and upd = "set_group1 i", OF hw False F] by blast
  qed
qed

lemma v3_enable_spec:
  assumes hw: "v3_hw mc g rg" and i: "i < 1020"
  shows "\<exists>h'. v3_enable_interrupt mc g (int i) h = Inr h' \<and>
    rg h' = on_frames i (unat (v3_num_redistributors g)) (enable i) (rg h)"
proof -
  have i': "i < 1024" using i by simp
  note b = irq_bit_nat [OF i'] and E = frame_enable [OF hw [unfolded v3_hw_def]]
  show ?thesis
  proof (cases "31 < i")
    case True
    have "frame_has 0 (i div 32)" using i True by (simp add: frame_has_def less_mult_imp_div_less div_greater_zero_iff)
    from E [OF _ i' this] True show ?thesis
      unfolding v3_enable_interrupt_def v3_write_enable_def b bind_res_simps prod.case frame_base_simps
      by (simp add: on_frames_spi enable_def del: of_nat_mult)
  next
    case False
    then have d: "i div 32 = 0" by simp
    let ?F = "\<lambda>j. mc_write32 mc (redistributor_sgi g j GICR_SGI_ISENABLER0) (push_bit (i mod 32) 1)"
    have F: "rg (?F (of_nat k) h) =
        (rg h)(Suc k := enable i (rg h (Suc k)))"
      if "k < unat (v3_num_redistributors g)" "k < 2 ^ 31" for k h
    proof -
      have w: "frame_has (Suc k) (i div 32)" "Suc k \<le> unat (v3_num_redistributors g)" using d that by (simp_all add: frame_has_def)
      from E [OF w(2) i' w(1), of h] show ?thesis
        unfolding frame_base_simps(2) [OF that(2)] sgi_registers enable_def d .
    qed
    have "v3_enable_interrupt mc g (int i) h = Inr (v3_redistributors ?F 0 (unat (v3_num_redistributors g)) h)"
      using False unfolding v3_enable_interrupt_def v3_write_enable_def b bind_res_simps prod.case by (simp add: sgi_bit_def)
    then show ?thesis using v3_redistributors_frames [where F = ?F and upd = "enable i", OF hw False F] by blast
  qed
qed

lemma v3_initialize_interrupt_spec:
  assumes hw: "v3_hw mc g rg" and i: "i < 1020"
  shows "\<exists>h'. v3_initialize_interrupt mc g (int i) p h = Inr h' \<and>
    rg h' = on_frames i (unat (v3_num_redistributors g)) (irq_regs i (priority_value p) False) (rg h)"
proof -
  define h1 where "h1 = v3_set_interrupt_priority mc g (int i) p h"
  note r1 = v3_priority_spec [OF hw i, of p h, folded h1_def]
  obtain h2 where h2: "v3_set_interrupt_group mc g (int i) h1 = Inr h2"
      "rg h2 = on_frames i (unat (v3_num_redistributors g)) (set_group1 i) (rg h1)"
    using v3_group_spec [OF hw i] by blast
  obtain h3 where h3: "v3_enable_interrupt mc g (int i) h2 = Inr h3"
      "rg h3 = on_frames i (unat (v3_num_redistributors g)) (enable i) (rg h2)"
    using v3_enable_spec [OF hw i] by blast
  have e: "enable i (set_group1 i (set_priority i b r)) = irq_regs i b False r" for b r
    by (simp add: enable_def set_group1_def set_priority_def irq_regs_def)
  have "rg h3 = on_frames i (unat (v3_num_redistributors g)) (irq_regs i (priority_value p) False) (rg h)"
    unfolding h3(2) h2(2) r1 e [symmetric] by (auto simp: on_frames_def fun_eq_iff)
  with h2(1) h3(1) show ?thesis unfolding v3_initialize_interrupt_def h1_def [symmetric] by simp
qed

text \<open>The registers of interrupt \<open>i\<close> as core number \<open>c\<close> has them.\<close>

definition core_regs :: "nat \<Rightarrow> (nat \<Rightarrow> GicRegs) \<Rightarrow> nat \<Rightarrow> GicRegs" where
  "core_regs c r i = (if 31 < i then r 0 else r (Suc c))"

lemma core_regs_on_frames:
  "c < N \<Longrightarrow> (\<lambda>j. gr_enabled (core_regs c (on_frames i N (irq_regs i b False) r) j) j) =
     (\<lambda>j. gr_enabled (core_regs c r j) j)(i := True)"
  "c < N \<Longrightarrow> (\<lambda>j. gr_priority (core_regs c (on_frames i N (irq_regs i b False) r) j) j) =
     (\<lambda>j. gr_priority (core_regs c r j) j)(i := b)"
  by (auto simp: fun_eq_iff core_regs_def on_frames_def irq_regs_def)

text \<open>A GICv3 as core \<open>c\<close> sees it meets the contract of the drivers.\<close>

type_synonym 'h v3_state = "'h Machine \<times> ('h \<Rightarrow> nat \<Rightarrow> GicRegs) \<times> nat \<times> DriverV3 \<times> 'h"

definition v3_init_irq :: "int \<Rightarrow> InterruptPriority \<Rightarrow> 'h v3_state \<Rightarrow> 'h v3_state res" where
  "v3_init_irq iid p s = (case s of (mc, rg, c, g, h) \<Rightarrow>
     bind_res (v3_initialize_interrupt mc g iid p h) (\<lambda>h1. Inr (mc, rg, c, g, h1)))"

definition v3_ready :: "'h v3_state \<Rightarrow> bool" where
  "v3_ready s = (case s of (mc, rg, c, g, h) \<Rightarrow> v3_hw mc g rg \<and> c < unat (v3_num_redistributors g))"

definition v3_enabled :: "'h v3_state \<Rightarrow> nat \<Rightarrow> bool" where
  "v3_enabled s = (case s of (mc, rg, c, g, h) \<Rightarrow> \<lambda>i. gr_enabled (core_regs c (rg h) i) i)"

definition v3_priority :: "'h v3_state \<Rightarrow> nat \<Rightarrow> u8" where
  "v3_priority s = (case s of (mc, rg, c, g, h) \<Rightarrow> \<lambda>i. gr_priority (core_regs c (rg h) i) i)"

interpretation v3irq: irq_setup v3_init_irq v3_enabled v3_priority v3_ready "\<lambda>_ i. i < 1020"
proof
  fix s :: "'h v3_state" and i :: nat and p
  assume r: "v3_ready s" and i: "i < 1020"
  obtain mc rg c g h where s: "s = (mc, rg, c, g, h)" by (cases s)
  have c: "c < unat (v3_num_redistributors g)" and hw: "v3_hw mc g rg" using r by (simp_all add: v3_ready_def s)
  obtain h' where h': "v3_initialize_interrupt mc g (int i) p h = Inr h'"
      "rg h' = on_frames i (unat (v3_num_redistributors g)) (irq_regs i (priority_value p) False) (rg h)"
    using v3_initialize_interrupt_spec [OF hw i] by blast
  have "v3_init_irq (int i) p s = Inr (mc, rg, c, g, h')" by (simp add: v3_init_irq_def s h'(1))
  moreover have "v3_ready (mc, rg, c, g, h')" using c hw by (simp add: v3_ready_def)
  moreover have "v3_enabled (mc, rg, c, g, h') = (v3_enabled s)(i := True)"
    "v3_priority (mc, rg, c, g, h') = (v3_priority s)(i := priority_value p)"
    by (simp_all only: v3_enabled_def v3_priority_def s prod.case h'(2) core_regs_on_frames [OF c])
  ultimately show "\<exists>s'. v3_init_irq (int i) p s = Inr s' \<and> v3_ready s' \<and> (\<lambda>i. i < 1020) = (\<lambda>i :: nat. i < (1020 :: nat)) \<and>
      v3_enabled s' = (v3_enabled s)(i := True) \<and> v3_priority s' = (v3_priority s)(i := priority_value p)" by blast
qed

text \<open>C14: Setting up one interrupt on a GICv3: the driver returns, and the interrupt is enabled,
  in group 1 and has the priority that was asked for in the distributor when it is a shared
  one, and in every redistributor when it is private to the cores; every other register of
  every frame keeps its value.\<close>

theorem gicv3_interrupt_setup:
  assumes "gicv3_frames mc (v3_gicd_base g) (v3_gicr_base g) (unat (v3_num_redistributors g)) rg" and "i < 1020"
  shows "\<exists>h'. v3_initialize_interrupt mc g (int i) p h = Inr h' \<and>
    (\<forall>f. rg h' f =
      (if (if 31 < i then f = 0 else 0 < f \<and> f \<le> unat (v3_num_redistributors g))
       then (rg h f)\<lparr>gr_enabled := (gr_enabled (rg h f))(i := True), gr_group1 := (gr_group1 (rg h f))(i := True),
         gr_priority := (gr_priority (rg h f))(i := priority_value p)\<rparr>
       else rg h f))"
proof -
  obtain h' where "v3_initialize_interrupt mc g (int i) p h = Inr h'"
      "rg h' = on_frames i (unat (v3_num_redistributors g)) (irq_regs i (priority_value p) False) (rg h)"
    using v3_initialize_interrupt_spec [of mc g rg i p h] assms by (auto simp: v3_hw_def)
  then show ?thesis by (intro exI [of _ h']) (simp add: on_frames_def irq_regs_def)
qed

text \<open>A GICv3 with one redistributor.\<close>

definition sim_frame :: "u64 \<Rightarrow> nat \<times> u64" where
  "sim_frame a = (if a < 0x80B0000 then (0, a) else (1, a - 0xB0000))"

definition sim_gic3 :: "(nat \<Rightarrow> GicRegs) Machine" where
  "sim_gic3 = \<lparr>mc_read32 = (\<lambda>a r. (fst (sim_gicd_read (snd (sim_frame a)) (r (fst (sim_frame a)))), r)),
      mc_write32 = (\<lambda>a w r. r(fst (sim_frame a) := sim_gicd_write (snd (sim_frame a)) w (r (fst (sim_frame a))))),
      mc_read64 = (\<lambda>a h. (0, h)), mc_write64 = (\<lambda>a v h. h),
      mc_write8 = (\<lambda>a w r. r(fst (sim_frame a) := sim_gicd_write8 (snd (sim_frame a)) w (r (fst (sim_frame a))))),
      mc_mrs = (\<lambda>r h. (0, h)), mc_msr = (\<lambda>r v h. h), mc_firmware = (\<lambda>c x h. (0, h)),
      mc_sev = (\<lambda>h. h)\<rparr>"

lemma sim_frame_base:
  assumes "f \<le> 1" "unat off < 0x1000"
  shows "sim_frame (frame_base 0x8000000 0x80A0000 f + off) = (f, 0x8000000 + off)"
proof -
  consider "f = 0" | "f = 1" using assms(1) by linarith
  then show ?thesis
  proof cases
    case 1
    have "unat (0x8000000 + off) = 0x8000000 + unat off" using assms(2) by (subst unat_u64_add) auto
    then show ?thesis using 1 assms(2) by (simp add: sim_frame_def frame_base_def word_less_nat_alt)
  next
    case 2
    have "unat (0x80B0000 + off) = 0x80B0000 + unat off" using assms(2) by (subst unat_u64_add) auto
    moreover have "0x80B0000 + off - 0xB0000 = 0x8000000 + off" by (simp add: algebra_simps)
    ultimately show ?thesis using 2 by (simp add: sim_frame_def frame_base_def word_less_nat_alt GICR_SGI_OFFSET_def)
  qed
qed

lemma sim_gic3_ok: "gicv3_frames sim_gic3 0x8000000 0x80A0000 1 (\<lambda>r. r)"
proof -
  have w: "frame_has f n \<Longrightarrow> n < 32" for n f by (auto simp: frame_has_def split: if_splits)
  note b = sim_frame_base
  have p: "frame_base 0x8000000 0x80A0000 f + GICD_IPRIORITY_BASE + of_nat i =
      frame_base 0x8000000 0x80A0000 f + (GICD_IPRIORITY_BASE + of_nat i)" for f i by (simp add: add.assoc)
  show ?thesis
    unfolding gicv3_frames_def p
    by (auto dest!: w simp: sim_gic3_def b sim_gicd_write_def sim_gicd_read_def sim_gicd_write8_def sim_offsets Let_def
        bit_horner_sum_bit_word_iff simp del: of_nat_mult)
qed

theorem gicv3_interrupt_setup_witness:
  "\<exists>h'. v3_initialize_interrupt sim_gic3 (sim_v3\<lparr>v3_num_redistributors := 1\<rparr>) (int 30) PriorityHigh (\<lambda>_. reset_gic) = Inr h' \<and>
     gr_enabled (h' 1) 30 \<and> gr_priority (h' 1) 30 = 40 \<and> gr_priority (h' 0) 30 = 0"
proof -
  have "gicv3_frames sim_gic3 (v3_gicd_base (sim_v3\<lparr>v3_num_redistributors := 1\<rparr>)) (v3_gicr_base (sim_v3\<lparr>v3_num_redistributors := 1\<rparr>))
      (unat (v3_num_redistributors (sim_v3\<lparr>v3_num_redistributors := 1\<rparr>))) (\<lambda>r. r)"
    using sim_gic3_ok by (simp add: sim_v3_def)
  from gicv3_interrupt_setup [OF this, of 30 PriorityHigh "\<lambda>_. reset_gic"] show ?thesis
    by (auto simp: priority_value_def reset_gic_def)
qed

end
