(* ===== verification/Gic.thy ===== *)
theory Gic
  imports Gicv3
begin

text \<open>
  The choice of a GIC driver (\<open>src/src/interrupts/gic.cpp\<close>): the device-tree handlers of the two
  versions, which record the register regions and set the bases of the driver, \<open>driver()\<close>, and the
  virtual calls through it. Uninitialised \<open>GICRegs\<close> are \<open>None\<close>.
\<close>

record Gic =
  gic_driver :: "DriverVersion option"
  gic_v2 :: DriverV2
  gic_v3 :: DriverV3

section \<open>Device tree\<close>

definition gic_reg :: "mem \<Rightarrow> NodeCells \<Rightarrow> PropFrame \<Rightarrow> (RegPair \<times> RegPair) res" where
  "gic_reg m cells prop =
     (let rp_size_bytes = cells_byte_size cells in
      if rp_size_bytes = 0 then Inl DivZero
      else
        let num_reg_pairs = pf_len prop div rp_size_bytes in
        bind_res (kassert (num_reg_pairs \<ge> 2) ''precond'') (\<lambda>_.
        bind_res (kassert (pf_len prop mod rp_size_bytes = 0) ''Invalid reg length'') (\<lambda>_.
        bind_res (read_reg_pair m cells (pf_value prop)) (\<lambda>rp0.
        bind_res (read_reg_pair m cells (pf_value prop + ucast rp_size_bytes)) (\<lambda>rp1.
        Inr (rp0, rp1))))))"

fun gic_props :: "mem \<Rightarrow> NodeCells \<Rightarrow> PropFrame list \<Rightarrow> (RegPair \<times> RegPair) option \<Rightarrow> (RegPair \<times> RegPair) option res" where
  "gic_props m cells [] regs = Inr regs"
| "gic_props m cells (p # ps) regs =
     bind_res (str_is m (pf_name p) ''reg'') (\<lambda>b.
     bind_res (if b then bind_res (gic_reg m cells p) (\<lambda>r. Inr (Some r)) else Inr regs) (\<lambda>regs1.
     gic_props m cells ps regs1))"

definition gic_parse_dt :: "mem \<Rightarrow> NodeFrame \<Rightarrow> (RegPair \<times> RegPair) option res" where
  "gic_parse_dt m f =
     bind_res (gic_props m (nf_parent_cells f) (node_props f) None) (\<lambda>regs.
     bind_res (nprops_overrun f) (\<lambda>_. Inr regs))"

text \<open>What the two handlers share: the translated bases of the two regions, both recorded.\<close>

definition gic_regions :: "mem \<Rightarrow> NodeFrame list \<Rightarrow> nat \<Rightarrow> MemoryMap \<Rightarrow> (u64 \<times> u64 \<times> MemoryMap) comp" where
  "gic_regions m frames node mm =
     bind_comp (Some (gic_parse_dt m (frames ! node))) (\<lambda>regs.
     case regs of
       None \<Rightarrow> Some (Inl (Uninit ''regs''))
     | Some (rp0, rp1) \<Rightarrow>
         bind_comp (translate_address m frames node (rp_address rp0)) (\<lambda>base0.
         bind_comp (translate_address m frames node (rp_address rp1)) (\<lambda>base1.
         bind_comp (Some (record_device_region mm base0 (rp_length rp0))) (\<lambda>mm1.
         bind_comp (Some (record_device_region mm1 base1 (rp_length rp1))) (\<lambda>mm2.
         Some (Inr (base0, base1, mm2)))))))"

definition gic_dt_parse_v2 :: "mem \<Rightarrow> NodeFrame list \<Rightarrow> nat \<Rightarrow> MemoryMap \<times> Gic \<Rightarrow> (MemoryMap \<times> Gic) comp" where
  "gic_dt_parse_v2 m frames node st =
     bind_comp (Some (kassert (gic_driver (snd st) = None) ''precond'')) (\<lambda>_.
     let g = (snd st)\<lparr>gic_driver := Some V2\<rparr> in
     bind_comp (gic_regions m frames node (fst st)) (\<lambda>(gicd, gicc, mm).
     Some (Inr (mm, g\<lparr>gic_v2 := v2_set_gicc_base gicc (v2_set_gicd_base gicd (gic_v2 g))\<rparr>))))"

definition gic_dt_parse_v3 :: "mem \<Rightarrow> NodeFrame list \<Rightarrow> nat \<Rightarrow> MemoryMap \<times> Gic \<Rightarrow> (MemoryMap \<times> Gic) comp" where
  "gic_dt_parse_v3 m frames node st =
     bind_comp (Some (kassert (gic_driver (snd st) = None) ''precond'')) (\<lambda>_.
     let g = (snd st)\<lparr>gic_driver := Some V3\<rparr> in
     bind_comp (gic_regions m frames node (fst st)) (\<lambda>(gicd, gicr, mm).
     Some (Inr (mm, g\<lparr>gic_v3 := v3_set_gicr_base gicr (v3_set_gicd_base gicd (gic_v3 g))\<rparr>))))"

section \<open>Calls through the driver\<close>

definition driver :: "Gic \<Rightarrow> DriverVersion res" where
  "driver g = (case gic_driver g of None \<Rightarrow> Inl (Kassert ''GIC Driver has not been initialized'') | Some v \<Rightarrow> Inr v)"

definition gic_initialize :: "'h Machine \<Rightarrow> mem \<Rightarrow> DriverVersion \<Rightarrow> Gic \<times> Uart \<times> 'h \<Rightarrow> (Gic \<times> Uart \<times> 'h) comp" where
  "gic_initialize mc m v s =
     (case v of
        V2 \<Rightarrow> bind_comp (v2_initialize mc m (gic_v2 (fst s), snd s)) (\<lambda>(d, uh). Some (Inr ((fst s)\<lparr>gic_v2 := d\<rparr>, uh)))
      | V3 \<Rightarrow> bind_comp (v3_initialize mc m (gic_v3 (fst s), snd s)) (\<lambda>(d, uh). Some (Inr ((fst s)\<lparr>gic_v3 := d\<rparr>, uh))))"

definition gic_initialize_core_specific :: "'h Machine \<Rightarrow> DriverVersion \<Rightarrow> Gic \<Rightarrow> 'h \<Rightarrow> 'h" where
  "gic_initialize_core_specific mc v g h =
     (case v of V2 \<Rightarrow> v2_initialize_core_specific mc (gic_v2 g) h | V3 \<Rightarrow> v3_initialize_core_specific mc h)"

definition gic_initialize_interrupt :: "'h Machine \<Rightarrow> DriverVersion \<Rightarrow> Gic \<Rightarrow> int \<Rightarrow> InterruptPriority \<Rightarrow> 'h \<Rightarrow> 'h res" where
  "gic_initialize_interrupt mc v g iid p h =
     (case v of V2 \<Rightarrow> v2_initialize_interrupt mc (gic_v2 g) iid p h | V3 \<Rightarrow> v3_initialize_interrupt mc (gic_v3 g) iid p h)"

text \<open>These two do not check that there is a driver.\<close>

definition acknowledge_interrupt :: "'h Machine \<Rightarrow> Gic \<Rightarrow> 'h \<Rightarrow> (u32 \<times> 'h) res" where
  "acknowledge_interrupt mc g h =
     (case gic_driver g of
        None \<Rightarrow> Inl (Fault 0)
      | Some V2 \<Rightarrow> Inr (v2_acknowledge_interrupt mc (gic_v2 g) h)
      | Some V3 \<Rightarrow> Inr (v3_acknowledge_interrupt mc h))"

definition end_of_interrupt :: "'h Machine \<Rightarrow> Gic \<Rightarrow> u32 \<Rightarrow> 'h \<Rightarrow> 'h res" where
  "end_of_interrupt mc g iid h =
     (case gic_driver g of
        None \<Rightarrow> Inl (Fault 0)
      | Some V2 \<Rightarrow> Inr (v2_end_of_interrupt mc (gic_v2 g) iid h)
      | Some V3 \<Rightarrow> Inr (v3_end_of_interrupt mc iid h))"

end
