(* ===== verification/Timer.thy ===== *)
theory Timer
  imports Gic
begin

text \<open>
  The generic timer (\<open>src/src/timer.cpp\<close>): its interrupts from the device tree and the two system
  registers that switch and arm it.
\<close>

fun timer_props :: "mem \<Rightarrow> NodeMapping list \<Rightarrow> NodeCells \<Rightarrow> PropFrame list \<Rightarrow> Interrupts \<Rightarrow> Interrupts res" where
  "timer_props m maps cells [] ints = Inr ints"
| "timer_props m maps cells (p # ps) ints =
     bind_res (str_is m (pf_name p) ''interrupts'') (\<lambda>b.
     bind_res (if b then read_intids m maps cells p ints else Inr ints) (\<lambda>ints1.
     timer_props m maps cells ps ints1))"

definition timer_dt_parse :: "mem \<Rightarrow> NodeMapping list \<Rightarrow> NodeFrame \<Rightarrow> Interrupts \<Rightarrow> Interrupts res" where
  "timer_dt_parse m maps f ints =
     bind_res (timer_props m maps (nf_own_cells f) (node_props f) ints) (\<lambda>ints1.
     bind_res (nprops_overrun f) (\<lambda>_. Inr ints1))"

definition timer_intid :: "Interrupts \<Rightarrow> InterruptType \<Rightarrow> u32 res" where
  "timer_intid ints interrupt_type =
     (case interrupt_type of
        Secure \<Rightarrow> interrupts_get ints 0
      | NonSecure \<Rightarrow> interrupts_get ints 1
      | Virtual \<Rightarrow> interrupts_get ints 2
      | Hypervisor \<Rightarrow> interrupts_get ints 3)"

definition toggle_timer :: "'h Machine \<Rightarrow> bool \<Rightarrow> 'h \<Rightarrow> 'h" where
  "toggle_timer mc on h = mc_msr mc CNTP_CTL_EL0 (if on then 1 else 0) h"

definition timer_enable :: "'h Machine \<Rightarrow> 'h \<Rightarrow> 'h" where
  "timer_enable mc h = toggle_timer mc True h"

definition timer_disable :: "'h Machine \<Rightarrow> 'h \<Rightarrow> 'h" where
  "timer_disable mc h = toggle_timer mc False h"

definition set_timer :: "'h Machine \<Rightarrow> 'h \<Rightarrow> 'h" where
  "set_timer mc h = (let (x0, h1) = mc_mrs mc CNTFRQ_EL0 h in mc_msr mc CNTP_TVAL_EL0 x0 h1)"

section \<open>Interrupt specifiers\<close>

text \<open>
  An interrupt specifier in an \<open>interrupts\<close> property: as many cells as the interrupt parent says, the
  first two being the kind (0 for a shared interrupt) and the number.
\<close>

definition enc_spec :: "u32 list \<Rightarrow> u8 list" where
  "enc_spec ws = concat (map enc32 ws)"

definition spec_id :: "u32 list \<Rightarrow> u32" where
  "spec_id ws = (if ws ! 0 = 0 then 32 + ws ! 1 else 16 + ws ! 1)"

lemma length_enc_spec: "length (enc_spec ws) = 4 * length ws"
  by (induction ws) (simp_all add: enc_spec_def)

lemma read_interrupt_id_enc:
  assumes "bytes_at m (pf_value prop + of_nat (j * (4 * c))) (enc_spec ws)" "length ws = c" "2 \<le> c" "c < 2 ^ 32" "j < 2 ^ 32"
  shows "read_interrupt_id m prop (of_nat j) (of_nat c) = Inr (spec_id ws)"
proof -
  obtain a b rest where ws: "ws = a # b # rest"
    using assms(2,3) by (metis Suc_le_length_iff numeral_2_eq_2)
  let ?p = "pf_value prop + of_nat (j * (4 * c))"
  have off: "(ucast (of_nat j :: u32) :: u64) * (ucast (of_nat c :: u32) * 4) = of_nat (j * (4 * c))"
    using assms(4,5) by (simp add: ucast_of_nat_u32 algebra_simps)
  have "bytes_at m ?p (enc32 a)" "bytes_at m (?p + 4) (enc32 b)"
    using assms(1) by (simp_all add: ws enc_spec_def bytes_at_append)
  then have "read_u32 m ?p = Inr a" "read_u32 m (?p + 4) = Inr b"
    by (simp_all add: read_u32_def be32_enc32)
  then show ?thesis unfolding read_interrupt_id_def off Let_def by (simp add: ws spec_id_def del: of_nat_mult)
qed

lemma register_intids_enc:
  assumes "2 \<le> c" "c < 2 ^ 32"
  shows "bytes_at m (pf_value prop + of_nat (j * (4 * c))) (concat (map enc_spec specs)) \<Longrightarrow> \<forall>ws\<in>set specs. length ws = c \<Longrightarrow>
    interrupts_ok ints \<Longrightarrow> length (intids_of ints) = j \<Longrightarrow> j + length specs \<le> 5 \<Longrightarrow>
    \<exists>ints'. register_intids m prop (of_nat c) (of_nat j) (length specs) ints = Inr ints' \<and> interrupts_ok ints' \<and>
      intids_of ints' = intids_of ints @ map spec_id specs"
proof (induction specs arbitrary: j ints)
  case Nil
  then show ?case by simp
next
  case (Cons ws specs)
  have j: "j < 5" using Cons.prems(5) by simp
  have b: "bytes_at m (pf_value prop + of_nat (j * (4 * c))) (enc_spec ws)"
      "bytes_at m (pf_value prop + of_nat (j * (4 * c)) + of_nat (4 * c)) (concat (map enc_spec specs))"
    using Cons.prems(1,2) by (simp_all add: bytes_at_append length_enc_spec del: of_nat_mult)
  have b2: "bytes_at m (pf_value prop + of_nat ((j + 1) * (4 * c))) (concat (map enc_spec specs))"
    using b(2) by (simp add: algebra_simps)
  have id: "read_interrupt_id m prop (of_nat j) (of_nat c) = Inr (spec_id ws)"
    by (rule read_interrupt_id_enc [OF b(1)]) (use Cons.prems(2) assms j in simp_all)
  define ints1 where "ints1 = ints\<lparr>int_intids := (int_intids ints)[length (intids_of ints) := spec_id ws],
      int_num_intids := int_num_intids ints + 1\<rparr>"
  have r: "register_intid ints (spec_id ws) = Inr ints1" "intids_of ints1 = intids_of ints @ [spec_id ws]" "interrupts_ok ints1"
    using register_intid_ok [OF Cons.prems(3), of "spec_id ws"] Cons.prems(4) j by (simp_all add: ints1_def)
  obtain ints' where i: "register_intids m prop (of_nat c) (of_nat (j + 1)) (length specs) ints1 = Inr ints'" "interrupts_ok ints'"
      "intids_of ints' = intids_of ints1 @ map spec_id specs"
    using Cons.IH [OF b2 _ r(3)] Cons.prems(2,4,5) r(2) by auto
  have "register_intids m prop (of_nat c) (of_nat j) (length (ws # specs)) ints = Inr ints'"
    using i(1) by (simp add: id r(1) add.commute)
  with i(2,3) r(2) show ?case by simp
qed

text \<open>C37: Reading an \<open>interrupts\<close> property gives the interrupts it lists: a property of at most five
  specifiers is read back as their ids, and the timer's interrupt of a type is the one at the
  position of that type, or the precondition stops the kernel when there are too few.\<close>

theorem interrupts_property_roundtrip:
  assumes "lookup_interrupt_cells maps cells = Inr c" and "2 \<le> unat c" and "interrupts_ok ints"
    and "bytes_at m (pf_value prop) (concat (map enc_spec specs))" and "\<And>ws. ws \<in> set specs \<Longrightarrow> length ws = unat c"
    and "length specs \<le> 5" and "unat (pf_len prop) = 4 * unat c * length specs"
  shows "\<exists>ints'. read_intids m maps cells prop ints = Inr ints' \<and> intids_of ints' = map spec_id specs \<and>
    timer_intid ints' NonSecure = (if 1 < length specs then Inr (spec_id (specs ! 1)) else Inl (Kassert ''precond''))"
proof -
  have c: "unat c < 2 ^ 32" using unat_u32_bound [of c] by simp
  have cu: "unat (ucast c * 4 :: u64) = 4 * unat c" using c by (simp add: unat_word_ariths)
  then have nz: "(ucast c * 4 :: u64) \<noteq> 0" using assms(2) by auto
  have q: "unat (ucast (pf_len prop) div (ucast c * 4) :: u64) = length specs"
    unfolding unat_div cu using assms(2,7) by simp
  have num: "(ucast (ucast (pf_len prop) div (ucast c * 4) :: u64) :: u32) = of_nat (length specs)"
    unfolding q [symmetric] by simp
  have "unat (of_nat (length specs) :: u32) = length specs" using assms(6) by (simp add: unat_of_nat)
  moreover have "(of_nat (length specs) :: u32) \<le> Interrupts_Capacity"
    using assms(6) by (simp add: Interrupts_Capacity_def word_le_nat_alt unat_of_nat)
  moreover obtain ints' where i: "register_intids m prop (of_nat (unat c)) (of_nat 0) (length specs) (interrupts_reset ints) = Inr ints'"
      "interrupts_ok ints'" "intids_of ints' = intids_of (interrupts_reset ints) @ map spec_id specs"
    using register_intids_enc [OF assms(2) c, of m "prop" 0 specs "interrupts_reset ints"] assms(3-6) interrupts_reset_ok
    by (auto simp: intids_of_def interrupts_reset_def)
  ultimately have "read_intids m maps cells prop ints = Inr ints'"
    using nz by (simp add: read_intids_def assms(1) num Let_def)
  moreover have ids: "intids_of ints' = map spec_id specs" using i(3) by (simp add: intids_of_def interrupts_reset_def)
  ultimately show ?thesis using interrupts_get_nth [OF i(2), of 1] by (auto simp: timer_intid_def)
qed

text \<open>The four interrupts of the timer on QEMU's virt board.\<close>

definition virt_timer :: "u32 list list" where
  "virt_timer = [[1, 13, 4], [1, 14, 4], [1, 11, 4], [1, 10, 4]]"

theorem interrupts_property_roundtrip_witness:
  "\<exists>ints'. read_intids (mem_of 0x1000 (concat (map enc_spec virt_timer)))
       [\<lparr>nm_phandle = 1, nm_interrupt_cells = 3, nm_clock_frequency = 0, nm_parent_clock = 0\<rparr>]
       \<lparr>nc_address = 2, nc_size = 2, nc_interrupt_parent = 1\<rparr> \<lparr>pf_name = 0, pf_value = 0x1000, pf_len = 48\<rparr>
       \<lparr>int_num_intids = 0, int_intids = [0, 0, 0, 0, 0]\<rparr> = Inr ints' \<and>
     intids_of ints' = [29, 30, 27, 26] \<and> timer_intid ints' NonSecure = Inr 30"
proof -
  let ?maps = "[\<lparr>nm_phandle = 1, nm_interrupt_cells = 3, nm_clock_frequency = 0, nm_parent_clock = 0\<rparr>]"
  let ?m = "mem_of 0x1000 (concat (map enc_spec virt_timer))"
  have l: "lookup_interrupt_cells ?maps \<lparr>nc_address = 2, nc_size = 2, nc_interrupt_parent = 1\<rparr> = Inr 3"
    by (simp add: lookup_interrupt_cells_def find_mapping_def)
  have b: "bytes_at ?m 0x1000 (concat (map enc_spec virt_timer))"
    by (rule bytes_at_mem_of) (simp add: virt_timer_def length_enc_spec)
  have "ws \<in> set virt_timer \<Longrightarrow> length ws = unat (3 :: u32)" for ws by (auto simp: virt_timer_def)
  with interrupts_property_roundtrip [OF l, of "\<lparr>int_num_intids = 0, int_intids = [0, 0, 0, 0, 0]\<rparr>" ?m
      "\<lparr>pf_name = 0, pf_value = 0x1000, pf_len = 48\<rparr>" virt_timer] b
  show ?thesis by (simp add: interrupts_ok_def virt_timer_def spec_id_def)
qed

end
