(* ===== verification/Cpu.thy ===== *)
theory Cpu
  imports Timer
begin

text \<open>
  The cores: PSCI (\<open>src/src/boot/psci.cpp\<close>), spin tables (\<open>src/src/boot/SpinTable.cpp\<close>), the list of
  cores from the device tree and the start of the secondary cores (\<open>src/src/cpu.cpp\<close>). A call of
  the firmware and a store to a spin table go through the machine.
\<close>

section \<open>PSCI\<close>

datatype PSCIMethod = MethodHypervisor | SecureMonitor | MethodUnknown

record Psci =
  PSCI_CPU_ON :: u64
  PSCI_METHOD :: PSCIMethod

definition psci_init :: Psci where
  "psci_init = \<lparr>PSCI_CPU_ON = 0xC4000003, PSCI_METHOD = SecureMonitor\<rparr>"

definition psci_method_from_str :: "mem \<Rightarrow> u64 \<Rightarrow> PSCIMethod res" where
  "psci_method_from_str m method_str =
     bind_res (str_is m method_str ''hvc'') (\<lambda>hvc.
     if hvc then Inr MethodHypervisor
     else
     bind_res (str_is m method_str ''smc'') (\<lambda>smc.
     if smc then Inr SecureMonitor else kpanic ''Unknown PSCI method''))"

fun psci_props :: "mem \<Rightarrow> PropFrame list \<Rightarrow> Psci \<Rightarrow> Psci res" where
  "psci_props m [] s = Inr s"
| "psci_props m (p # ps) s =
     bind_res (str_is m (pf_name p) ''cpu_on'') (\<lambda>on.
     bind_res
       (if on then bind_res (read_prop m p) (\<lambda>v. Inr (s\<lparr>PSCI_CPU_ON := v\<rparr>))
        else
        bind_res (str_is m (pf_name p) ''method'') (\<lambda>meth.
        if meth then bind_res (psci_method_from_str m (pf_value p)) (\<lambda>v. Inr (s\<lparr>PSCI_METHOD := v\<rparr>))
        else Inr s)) (\<lambda>s1.
     psci_props m ps s1))"

definition psci_dt_parse :: "mem \<Rightarrow> NodeFrame \<Rightarrow> Psci \<Rightarrow> Psci res" where
  "psci_dt_parse m f s =
     bind_res (psci_props m (node_props f) s) (\<lambda>s1.
     bind_res (nprops_overrun f) (\<lambda>_. Inr s1))"

text \<open>With an unknown method \<open>x0\<close> still holds the function identifier.\<close>

definition psci_boot_core :: "'h Machine \<Rightarrow> Psci \<Rightarrow> u64 \<Rightarrow> u64 \<Rightarrow> u64 \<Rightarrow> 'h \<Rightarrow> (int \<times> 'h) res" where
  "psci_boot_core mc s target_cpu entry_point_address context_id h =
     bind_res (kassert (PSCI_CPU_ON s \<noteq> 0) ''precond'') (\<lambda>_.
     let args = (PSCI_CPU_ON s, target_cpu, entry_point_address, context_id);
         (r0, h1) = (case PSCI_METHOD s of
            MethodHypervisor \<Rightarrow> mc_firmware mc HVC args h
          | SecureMonitor \<Rightarrow> mc_firmware mc SMC args h
          | MethodUnknown \<Rightarrow> (PSCI_CPU_ON s, h)) in
     Inr (sint (ucast r0 :: u32), h1))"

section \<open>Spin tables\<close>

text \<open>The store and the \<open>sev\<close> after it; the \<open>dsb\<close> between them has no counterpart, an access takes effect before the next one.\<close>

definition spin_boot_core :: "'h Machine \<Rightarrow> u64 \<Rightarrow> u64 \<Rightarrow> 'h \<Rightarrow> 'h" where
  "spin_boot_core mc spin_address entry_point_address h = mc_sev mc (mc_write64 mc spin_address entry_point_address h)"

section \<open>The list of cores\<close>

datatype EnableMethod = MethodPSCI | MethodSpinTable | NoMethod

record CpuInformation =
  ci_reg :: u64
  ci_enable_method :: EnableMethod
  ci_release_address :: u64

definition MaxSupportedCpus :: u32 where "MaxSupportedCpus = 16"

record Cpus =
  cpu_information :: "CpuInformation list"
  cpu_num_cpus :: u32

text \<open>The two static variables before the parse; static storage starts as zero.\<close>

definition cpus_init :: Cpus where
  "cpus_init =
     \<lparr>cpu_information = replicate 16 \<lparr>ci_reg = 0, ci_enable_method = NoMethod, ci_release_address = 0\<rparr>, cpu_num_cpus = 0\<rparr>"

definition enable_method_of :: "mem \<Rightarrow> u64 \<Rightarrow> EnableMethod res" where
  "enable_method_of m enable_method_str =
     bind_res (str_is m enable_method_str ''psci'') (\<lambda>psci.
     if psci then Inr MethodPSCI
     else
     bind_res (str_is m enable_method_str ''spin-table'') (\<lambda>spin.
     if spin then Inr MethodSpinTable else kpanic ''No enable method set''))"

definition cpu_reg :: "mem \<Rightarrow> NodeCells \<Rightarrow> PropFrame \<Rightarrow> u64 res" where
  "cpu_reg m cells prop =
     (let rp_size_bytes = cells_byte_size cells in
      if rp_size_bytes = 0 then Inl DivZero
      else
        bind_res (kassert (pf_len prop mod rp_size_bytes = 0) ''Invalid reg length'') (\<lambda>_.
        bind_res (kassert (pf_len prop div rp_size_bytes = 1)
          ''Zero or more than one reg value for CPUs is not supported'') (\<lambda>_.
        bind_res (read_reg_pair m cells (pf_value prop)) (\<lambda>rp. Inr (rp_address rp)))))"

definition cpu_prop :: "mem \<Rightarrow> NodeCells \<Rightarrow> PropFrame \<Rightarrow> CpuInformation \<Rightarrow> CpuInformation res" where
  "cpu_prop m cells prop info =
     bind_res (str_is m (pf_name prop) ''enable-method'') (\<lambda>en.
     if en then bind_res (enable_method_of m (pf_value prop)) (\<lambda>e. Inr (info\<lparr>ci_enable_method := e\<rparr>))
     else
     bind_res (str_is m (pf_name prop) ''cpu-release-addr'') (\<lambda>rel.
     if rel then bind_res (read_u64 m (pf_value prop)) (\<lambda>a. Inr (info\<lparr>ci_release_address := a\<rparr>))
     else
     bind_res (str_is m (pf_name prop) ''reg'') (\<lambda>reg.
     if reg then bind_res (cpu_reg m cells prop) (\<lambda>a. Inr (info\<lparr>ci_reg := a\<rparr>))
     else Inr info)))"

fun cpu_props :: "mem \<Rightarrow> NodeCells \<Rightarrow> PropFrame list \<Rightarrow> CpuInformation \<Rightarrow> CpuInformation res" where
  "cpu_props m cells [] info = Inr info"
| "cpu_props m cells (p # ps) info = bind_res (cpu_prop m cells p info) (\<lambda>info1. cpu_props m cells ps info1)"

definition cpu_dt_parse :: "mem \<Rightarrow> NodeFrame \<Rightarrow> Cpus \<Rightarrow> Cpus res" where
  "cpu_dt_parse m f c =
     bind_res (kassert (cpu_num_cpus c < MaxSupportedCpus) ''precond'') (\<lambda>_.
     let n = unat (cpu_num_cpus c) in
     bind_res (cpu_props m (nf_parent_cells f) (node_props f) (cpu_information c ! n)) (\<lambda>info.
     bind_res (nprops_overrun f) (\<lambda>_.
     Inr (c\<lparr>cpu_information := (cpu_information c)[n := info], cpu_num_cpus := cpu_num_cpus c + 1\<rparr>))))"

definition cpu_id :: "'h Machine \<Rightarrow> 'h \<Rightarrow> u64 \<times> 'h" where
  "cpu_id mc h = (let (mpidr, h1) = mc_mrs mc MPIDR_EL1 h in (mpidr AND 0xff, h1))"

definition num_cpus :: "Cpus \<Rightarrow> u32" where
  "num_cpus c = cpu_num_cpus c"

section \<open>Starting the secondary cores\<close>

text \<open>\<open>entry\<close> is the address of \<open>_secondary_start\<close>.\<close>

definition boot_core :: "'h Machine \<Rightarrow> mem \<Rightarrow> Psci \<Rightarrow> u64 \<Rightarrow> CpuInformation \<Rightarrow> u32 \<Rightarrow> Uart \<times> 'h \<Rightarrow> (Uart \<times> 'h) comp" where
  "boot_core mc m psci entry info i uh =
     (case ci_enable_method info of
        MethodPSCI \<Rightarrow>
          bind_comp (Some (psci_boot_core mc psci (ci_reg info) entry (ucast i) (snd uh))) (\<lambda>(result, h1).
          if result < 0
          then kprintf mc m (''Error in PSCI:boot_core(%z, %p): %d'' @ [CHR 0x0A])
                 [Slot (ci_reg info), Slot entry, Slot (word_of_int result)] (fst uh, h1)
          else Some (Inr (fst uh, h1)))
      | MethodSpinTable \<Rightarrow> Some (Inr (fst uh, spin_boot_core mc (ci_release_address info) entry (snd uh)))
      | NoMethod \<Rightarrow> Some (kpanic ''CPU with unknown enable method''))"

fun boot_loop :: "'h Machine \<Rightarrow> mem \<Rightarrow> Psci \<Rightarrow> u64 \<Rightarrow> Cpus \<Rightarrow> u32 \<Rightarrow> nat \<Rightarrow> Uart \<times> 'h \<Rightarrow> (Uart \<times> 'h) comp" where
  "boot_loop mc m psci entry c i 0 uh = Some (Inr uh)"
| "boot_loop mc m psci entry c i (Suc n) uh =
     (if unat i < length (cpu_information c)
      then bind_comp (boot_core mc m psci entry (cpu_information c ! unat i) i uh) (\<lambda>uh1.
           boot_loop mc m psci entry c (i + 1) n uh1)
      else Some (Inl (OutOfBounds (unat i))))"

definition boot_secondary_cores :: "'h Machine \<Rightarrow> mem \<Rightarrow> Psci \<Rightarrow> u64 \<Rightarrow> Cpus \<Rightarrow> Uart \<times> 'h \<Rightarrow> (Uart \<times> 'h) comp" where
  "boot_secondary_cores mc m psci entry c uh = boot_loop mc m psci entry c 1 (unat (num_cpus c) - 1) uh"

section \<open>Which cores are started\<close>

definition cpus_ok :: "Cpus \<Rightarrow> bool" where
  "cpus_ok c \<longleftrightarrow> length (cpu_information c) = 16 \<and> cpu_num_cpus c \<le> 16"

lemma cpus_init_ok: "cpus_ok cpus_init"
  by (simp add: cpus_ok_def cpus_init_def)

lemma cpu_dt_parse_ok:
  assumes "cpus_ok c"
  shows "ensures cpus_ok (Some (cpu_dt_parse m f c))"
proof (rule ensures_Some)
  fix c' assume "cpu_dt_parse m f c = Inr c'"
  then obtain info where c': "c' = c\<lparr>cpu_information := (cpu_information c)[unat (cpu_num_cpus c) := info], cpu_num_cpus := cpu_num_cpus c + 1\<rparr>"
      and lt: "cpu_num_cpus c < 16"
    by (auto simp: cpu_dt_parse_def Let_def bind_res_Inr_iff MaxSupportedCpus_def)
  have "cpu_num_cpus c + 1 \<le> 16" using lt by (rule inc_le)
  with assms show "cpus_ok c'" by (simp add: cpus_ok_def c')
qed

text \<open>What starting a core asks of the machine: a call of the firmware, or a store and then the event that wakes the cores.\<close>

datatype boot_event = Call Conduit "u64 \<times> u64 \<times> u64 \<times> u64" | Store u64 u64 | Sev

definition conduit :: "PSCIMethod \<Rightarrow> Conduit" where
  "conduit method = (if method = MethodHypervisor then HVC else SMC)"

definition events_of :: "Psci \<Rightarrow> u64 \<Rightarrow> Cpus \<Rightarrow> nat \<Rightarrow> boot_event list" where
  "events_of psci entry c i =
     (let info = cpu_information c ! i in
      if ci_enable_method info = MethodPSCI
      then [Call (conduit (PSCI_METHOD psci)) (PSCI_CPU_ON psci, ci_reg info, entry, of_nat i)]
      else [Store (ci_release_address info) entry, Sev])"

text \<open>The machine keeps a log of these; its firmware reports success (a non-negative \<open>int32_t\<close>).\<close>

definition boot_log :: "'h Machine \<Rightarrow> ('h \<Rightarrow> boot_event list) \<Rightarrow> bool" where
  "boot_log mc log \<longleftrightarrow>
     (\<forall>cd args h. log (snd (mc_firmware mc cd args h)) = log h @ [Call cd args] \<and>
        0 \<le> sint (ucast (fst (mc_firmware mc cd args h)) :: u32)) \<and>
     (\<forall>a v h. log (mc_write64 mc a v h) = log h @ [Store a v]) \<and> (\<forall>h. log (mc_sev mc h) = log h @ [Sev])"

lemma boot_core_event:
  assumes log: "boot_log mc log" and "ci_enable_method (cpu_information c ! i) \<noteq> NoMethod" "i < 16"
    and "PSCI_CPU_ON psci \<noteq> 0" "PSCI_METHOD psci \<noteq> MethodUnknown"
  shows "\<exists>h'. boot_core mc m psci entry (cpu_information c ! i) (of_nat i) (u, h) = Some (Inr (u, h')) \<and>
    log h' = log h @ events_of psci entry c i"
proof -
  let ?info = "cpu_information c ! i"
  have i: "(ucast (of_nat i :: u32) :: u64) = of_nat i" by (rule ucast_of_nat_u32) (use assms(3) in simp)
  have fw: "log (snd (mc_firmware mc cd args h)) = log h @ [Call cd args]"
      "0 \<le> sint (ucast (fst (mc_firmware mc cd args h)) :: u32)" for cd args h
    using log unfolding boot_log_def by blast+
  show ?thesis
  proof (cases "ci_enable_method ?info")
    case MethodPSCI
    let ?fw = "mc_firmware mc (conduit (PSCI_METHOD psci)) (PSCI_CPU_ON psci, ci_reg ?info, entry, of_nat i) h"
    have "psci_boot_core mc psci (ci_reg ?info) entry (of_nat i) h = Inr (sint (ucast (fst ?fw) :: u32), snd ?fw)"
      using assms(4,5) by (cases "PSCI_METHOD psci") (simp_all add: psci_boot_core_def conduit_def split_beta Let_def)
    then have "boot_core mc m psci entry ?info (of_nat i) (u, h) = Some (Inr (u, snd ?fw))"
      using fw(2) [of "conduit (PSCI_METHOD psci)" "(PSCI_CPU_ON psci, ci_reg ?info, entry, of_nat i)" h]
      by (simp add: boot_core_def MethodPSCI i)
    with fw(1) show ?thesis by (simp add: events_of_def MethodPSCI)
  next
    case MethodSpinTable
    with log show ?thesis by (simp add: boot_core_def events_of_def spin_boot_core_def boot_log_def)
  qed (use assms(2) in simp)
qed

lemma boot_loop_events:
  assumes "boot_log mc log" "cpus_ok c" "PSCI_CPU_ON psci \<noteq> 0" "PSCI_METHOD psci \<noteq> MethodUnknown"
  shows "i + n \<le> 16 \<Longrightarrow> \<forall>k. i \<le> k \<and> k < i + n \<longrightarrow> ci_enable_method (cpu_information c ! k) \<noteq> NoMethod \<Longrightarrow>
    \<exists>h'. boot_loop mc m psci entry c (of_nat i) n (u, h) = Some (Inr (u, h')) \<and>
      log h' = log h @ concat (map (events_of psci entry c) [i..<i + n])"
proof (induction n arbitrary: i h)
  case 0
  then show ?case by simp
next
  case (Suc n)
  have i: "i < 16" "ci_enable_method (cpu_information c ! i) \<noteq> NoMethod" using Suc.prems by simp_all
  have u: "unat (of_nat i :: u32) = i" using i(1) by (simp add: unat_of_nat)
  obtain h1 where h1: "boot_core mc m psci entry (cpu_information c ! i) (of_nat i) (u, h) = Some (Inr (u, h1))"
      "log h1 = log h @ events_of psci entry c i"
    using boot_core_event [OF assms(1) i(2,1) assms(3,4)] by blast
  obtain h2 where h2: "boot_loop mc m psci entry c (of_nat (i + 1)) n (u, h1) = Some (Inr (u, h2))"
      "log h2 = log h1 @ concat (map (events_of psci entry c) [i + 1..<i + 1 + n])"
    using Suc.IH [of "i + 1" h1] Suc.prems by auto
  have "boot_loop mc m psci entry c (of_nat i) (Suc n) (u, h) = Some (Inr (u, h2))"
    using assms(2) i(1) h1(1) h2(1) by (simp add: u cpus_ok_def add.commute)
  moreover have "[i..<i + Suc n] = i # [i + 1..<i + 1 + n]" by (simp add: upt_conv_Cons)
  ultimately show ?case using h1(2) h2(2) by simp
qed

lemma boot_secondary_cores_spec:
  assumes "boot_log mc log" and "cpus_ok c" and "PSCI_CPU_ON psci \<noteq> 0" and "PSCI_METHOD psci \<noteq> MethodUnknown"
    and "\<And>i. 1 \<le> i \<Longrightarrow> i < unat (cpu_num_cpus c) \<Longrightarrow> ci_enable_method (cpu_information c ! i) \<noteq> NoMethod"
  shows "\<exists>h'. boot_secondary_cores mc m psci entry c (u, h) = Some (Inr (u, h')) \<and>
    log h' = log h @ concat (map (events_of psci entry c) [1..<unat (cpu_num_cpus c)])"
proof (cases "unat (cpu_num_cpus c) = 0")
  case True
  then show ?thesis by (simp add: boot_secondary_cores_def num_cpus_def)
next
  case False
  have "unat (cpu_num_cpus c) \<le> 16" using assms(2) by (simp add: cpus_ok_def word_le_nat_alt)
  with False boot_loop_events [OF assms(1-4), of 1 "unat (cpu_num_cpus c) - 1" m entry u h] assms(5) show ?thesis
    by (simp add: boot_secondary_cores_def num_cpus_def)
qed

text \<open>C22: Starting the secondary cores: when every core has a way to be started and the firmware
  does what it is asked, the call returns and the machine has been asked, in the order of the
  device tree, exactly once for every core except the first: a CPU_ON call with the core's id,
  the entry point and its number, or the entry point stored at its release address and then the event
  that wakes waiting cores.\<close>

theorem boot_secondary_cores_all:
  assumes "boot_log mc log" and "cpus_ok c" and "PSCI_CPU_ON psci \<noteq> 0" and "PSCI_METHOD psci \<noteq> MethodUnknown"
    and "\<And>i. 1 \<le> i \<Longrightarrow> i < unat (cpu_num_cpus c) \<Longrightarrow> ci_enable_method (cpu_information c ! i) \<noteq> NoMethod"
  shows "\<exists>h'. boot_secondary_cores mc m psci entry c (u, h) = Some (Inr (u, h')) \<and>
    log h' = log h @ concat (map (events_of psci entry c) [1..<unat (cpu_num_cpus c)])"
  by (rule boot_secondary_cores_spec [OF assms])

text \<open>A core that cannot be started stops the kernel.\<close>

lemma boot_core_unknown:
  "ci_enable_method info = NoMethod \<Longrightarrow>
   boot_core mc m psci entry info i uh = Some (Inl (Kpanic ''CPU with unknown enable method''))"
  by (simp add: boot_core_def kpanic_def)

text \<open>Three cores: the second is started by the hypervisor, the third waits at \<open>0xd8\<close>.\<close>

definition sim_cpus :: Cpus where
  "sim_cpus =
     \<lparr>cpu_information =
        \<lparr>ci_reg = 0, ci_enable_method = MethodPSCI, ci_release_address = 0\<rparr> #
        \<lparr>ci_reg = 1, ci_enable_method = MethodPSCI, ci_release_address = 0\<rparr> #
        \<lparr>ci_reg = 2, ci_enable_method = MethodSpinTable, ci_release_address = 0xd8\<rparr> #
        replicate 13 \<lparr>ci_reg = 0, ci_enable_method = NoMethod, ci_release_address = 0\<rparr>,
      cpu_num_cpus = 3\<rparr>"

definition sim_firmware :: "boot_event list Machine" where
  "sim_firmware =
     \<lparr>mc_read32 = (\<lambda>a h. (0, h)), mc_write32 = (\<lambda>a v h. h), mc_read64 = (\<lambda>a h. (0, h)),
      mc_write64 = (\<lambda>a v h. h @ [Store a v]), mc_write8 = (\<lambda>a v h. h),
      mc_mrs = (\<lambda>r h. (0, h)), mc_msr = (\<lambda>r v h. h), mc_firmware = (\<lambda>c x h. (0, h @ [Call c x])),
      mc_sev = (\<lambda>h. h @ [Sev])\<rparr>"

theorem boot_secondary_cores_all_witness:
  "\<exists>h'. boot_secondary_cores sim_firmware (\<lambda>_. None) (psci_init\<lparr>PSCI_METHOD := MethodHypervisor\<rparr>) 0x40080000 sim_cpus (sim_uart, []) =
     Some (Inr (sim_uart, h')) \<and>
     h' = [Call HVC (0xC4000003, 1, 0x40080000, 1), Store 0xd8 0x40080000, Sev]"
proof -
  have "boot_log sim_firmware (\<lambda>h. h)" by (simp add: boot_log_def sim_firmware_def)
  moreover have "cpus_ok sim_cpus" by (simp add: cpus_ok_def sim_cpus_def)
  moreover have "ci_enable_method (cpu_information sim_cpus ! i) \<noteq> NoMethod" if "1 \<le> i" "i < unat (cpu_num_cpus sim_cpus)" for i
  proof -
    from that have "i = 1 \<or> i = 2" by (auto simp: sim_cpus_def)
    then show ?thesis by (auto simp: sim_cpus_def)
  qed
  moreover have "[1..<unat (cpu_num_cpus sim_cpus)] = [1, 2]" by (simp add: sim_cpus_def upt_rec)
  ultimately show ?thesis
    using boot_secondary_cores_all [where mc = sim_firmware and log = "\<lambda>h. h" and c = sim_cpus and m = "\<lambda>_. None" and
        psci = "psci_init\<lparr>PSCI_METHOD := MethodHypervisor\<rparr>" and entry = "0x40080000" and u = sim_uart and h = "[]"]
    by (simp add: psci_init_def events_of_def conduit_def sim_cpus_def)
qed

section \<open>Core nodes\<close>

text \<open>
  What a property of a core node says: a start method by name, a release address, a \<open>reg\<close> pair, or anything
  else; and how it is laid out in memory.
\<close>

datatype cpu_prop_desc = DescMethod "u8 list" | DescRelease u64 | DescReg u64 u64 | DescOther "u8 list"

fun shows_prop :: "mem \<Rightarrow> NodeCells \<Rightarrow> PropFrame \<Rightarrow> cpu_prop_desc \<Rightarrow> bool" where
  "shows_prop m cells p (DescMethod name) \<longleftrightarrow> cstring m (pf_name p) (bytes_of ''enable-method'') \<and> cstring m (pf_value p) name"
| "shows_prop m cells p (DescRelease a) \<longleftrightarrow> cstring m (pf_name p) (bytes_of ''cpu-release-addr'') \<and> bytes_at m (pf_value p) (enc64 a)"
| "shows_prop m cells p (DescReg a l) \<longleftrightarrow> cstring m (pf_name p) (bytes_of ''reg'') \<and>
     cells_fit (nc_address cells) a \<and> cells_fit (nc_size cells) l \<and> nc_address cells \<noteq> 0 \<and>
     unat (pf_len p) = length (enc_cells (nc_address cells) a @ enc_cells (nc_size cells) l) \<and>
     bytes_at m (pf_value p) (enc_cells (nc_address cells) a @ enc_cells (nc_size cells) l)"
| "shows_prop m cells p (DescOther name) \<longleftrightarrow> cstring m (pf_name p) name \<and>
     name \<notin> {bytes_of ''enable-method'', bytes_of ''cpu-release-addr'', bytes_of ''reg''}"

definition methods_of :: "cpu_prop_desc list \<Rightarrow> u8 list list" where
  "methods_of ds = List.map_filter (\<lambda>d. case d of DescMethod name \<Rightarrow> Some name | _ \<Rightarrow> None) ds"

definition releases_of :: "cpu_prop_desc list \<Rightarrow> u64 list" where
  "releases_of ds = List.map_filter (\<lambda>d. case d of DescRelease a \<Rightarrow> Some a | _ \<Rightarrow> None) ds"

definition regs_of :: "cpu_prop_desc list \<Rightarrow> u64 list" where
  "regs_of ds = List.map_filter (\<lambda>d. case d of DescReg a l \<Rightarrow> Some a | _ \<Rightarrow> None) ds"

definition method_named :: "u8 list \<Rightarrow> EnableMethod" where
  "method_named name = (if name = bytes_of ''psci'' then MethodPSCI else if name = bytes_of ''spin-table'' then MethodSpinTable else NoMethod)"

text \<open>The last property of each kind counts; what the node does not mention stays.\<close>

definition described :: "cpu_prop_desc list \<Rightarrow> CpuInformation \<Rightarrow> CpuInformation" where
  "described ds info =
     \<lparr>ci_reg = last (ci_reg info # regs_of ds), ci_enable_method = last (ci_enable_method info # map method_named (methods_of ds)),
      ci_release_address = last (ci_release_address info # releases_of ds)\<rparr>"

lemma described_Nil: "described [] info = info"
  by (simp add: described_def methods_of_def releases_of_def regs_of_def List.map_filter_def)

lemma described_Cons:
  "described (DescMethod name # ds) info = described ds (info\<lparr>ci_enable_method := method_named name\<rparr>)"
  "described (DescRelease a # ds) info = described ds (info\<lparr>ci_release_address := a\<rparr>)"
  "described (DescReg b l # ds) info = described ds (info\<lparr>ci_reg := b\<rparr>)"
  "described (DescOther name # ds) info = described ds info"
  by (simp_all add: described_def methods_of_def releases_of_def regs_of_def List.map_filter_def)

lemma methods_of_Cons:
  "methods_of (DescMethod name # ds) = name # methods_of ds" "methods_of (DescRelease a # ds) = methods_of ds"
  "methods_of (DescReg b l # ds) = methods_of ds" "methods_of (DescOther name # ds) = methods_of ds" "methods_of [] = []"
  by (simp_all add: methods_of_def List.map_filter_def)

lemma cpu_reg_enc:
  assumes "shows_prop m cells p (DescReg a l)"
  shows "cpu_reg m cells p = Inr a"
proof -
  have fit: "cells_fit (nc_address cells) a" "cells_fit (nc_size cells) l" and nz: "nc_address cells \<noteq> 0"
    and len: "unat (pf_len p) = 4 * unat (nc_address cells) + 4 * unat (nc_size cells)"
    using assms by (simp_all add: length_enc_cells)
  have "nc_address cells = 1 \<or> nc_address cells = 2" "nc_size cells = 0 \<or> nc_size cells = 1 \<or> nc_size cells = 2"
    using fit nz by (auto simp: cells_fit_def)
  then have sz: "unat (cells_byte_size cells) = 4 * unat (nc_address cells) + 4 * unat (nc_size cells) \<and> cells_byte_size cells \<noteq> 0"
    by (elim disjE) (simp_all add: cells_byte_size_def cells_total_def BytesPerUnit_def)
  then have "cells_byte_size cells \<noteq> 0" by simp
  moreover have "pf_len p = cells_byte_size cells" using len sz by (simp add: word_unat_eq_iff)
  moreover have "read_reg_pair m cells (pf_value p) = Inr \<lparr>rp_address = a, rp_length = l\<rparr>"
    using assms by (intro read_reg_pair_enc) simp_all
  moreover have "x mod x = 0" "x \<noteq> 0 \<Longrightarrow> x div x = 1" for x :: u32
    using div_self [of "unat x"] by (simp_all add: word_unat_eq_iff unat_div unat_mod)
  ultimately show ?thesis by (simp add: cpu_reg_def Let_def)
qed

lemma cpu_prop_shows:
  assumes "shows_prop m cells p d"
  shows "cpu_prop m cells p info =
    (case d of
       DescMethod name \<Rightarrow>
         if name \<in> {bytes_of ''psci'', bytes_of ''spin-table''} then Inr (info\<lparr>ci_enable_method := method_named name\<rparr>)
         else Inl (Kpanic ''No enable method set'')
     | DescRelease a \<Rightarrow> Inr (info\<lparr>ci_release_address := a\<rparr>) | DescReg a l \<Rightarrow> Inr (info\<lparr>ci_reg := a\<rparr>) | DescOther name \<Rightarrow> Inr info)"
proof -
  have nm: "str_is m q l = Inr (s = bytes_of l)" if "cstring m q s" "CHR 0x00 \<notin> set l" "length l < 1000" for q s l
    by (rule str_is_cstring) (use that in simp_all)
  have ne: "bytes_of ''enable-method'' \<noteq> bytes_of ''cpu-release-addr''" "bytes_of ''enable-method'' \<noteq> bytes_of ''reg''"
    "bytes_of ''cpu-release-addr'' \<noteq> bytes_of ''reg''" "bytes_of ''psci'' \<noteq> bytes_of ''spin-table''" by (simp_all add: bytes_of_def)
  have names: "str_is m (pf_name p) ''enable-method'' = Inr (s = bytes_of ''enable-method'')"
      "str_is m (pf_name p) ''cpu-release-addr'' = Inr (s = bytes_of ''cpu-release-addr'')"
      "str_is m (pf_name p) ''reg'' = Inr (s = bytes_of ''reg'')" if "cstring m (pf_name p) s" for s
    using that by (intro nm; simp)+
  show ?thesis
  proof (cases d)
    case (DescMethod name)
    then have name: "cstring m (pf_name p) (bytes_of ''enable-method'')" using assms by simp
    from DescMethod have "enable_method_of m (pf_value p) =
        (if name \<in> {bytes_of ''psci'', bytes_of ''spin-table''} then Inr (method_named name) else Inl (Kpanic ''No enable method set''))"
      using assms nm [of "pf_value p" name] ne(4) by (simp add: enable_method_of_def method_named_def kpanic_def)
    with DescMethod show ?thesis unfolding cpu_prop_def names [OF name] by simp
  next
    case (DescRelease a)
    then have name: "cstring m (pf_name p) (bytes_of ''cpu-release-addr'')" using assms by simp
    with DescRelease assms ne(1) be64_enc64 [of m "pf_value p" a] show ?thesis
      unfolding cpu_prop_def names [OF name] by (simp add: read_u64_def)
  next
    case (DescReg a l)
    then have name: "cstring m (pf_name p) (bytes_of ''reg'')" using assms by simp
    with DescReg assms ne(2,3) cpu_reg_enc [of m cells p a l] show ?thesis
      unfolding cpu_prop_def names [OF name] by simp
  next
    case (DescOther name)
    then have name: "cstring m (pf_name p) name" using assms by simp
    with DescOther assms show ?thesis unfolding cpu_prop_def names [OF name] by simp
  qed
qed

lemma cpu_props_shows:
  "list_all2 (shows_prop m cells) ps ds \<Longrightarrow>
   cpu_props m cells ps info =
     (if set (methods_of ds) \<subseteq> {bytes_of ''psci'', bytes_of ''spin-table''} then Inr (described ds info)
      else Inl (Kpanic ''No enable method set''))"
proof (induction ps ds arbitrary: info rule: list_all2_induct)
  case Nil
  then show ?case by (simp add: described_Nil methods_of_Cons)
next
  case (Cons p ps d ds)
  then show ?case
    unfolding cpu_props.simps cpu_prop_shows [OF Cons.hyps(1)] by (cases d) (simp_all add: described_Cons methods_of_Cons)
qed

text \<open>C11: What a core node of the device tree is recorded as, for a node whose properties are laid out as
  the device tree specification says: the node becomes the next entry of the list, with the id of its \<open>reg\<close>, the
  method its \<open>enable-method\<close> names and its release address, and no other entry changes; the kernel stops exactly when the list is full
  or the method is neither \<open>psci\<close> nor \<open>spin-table\<close>.\<close>

theorem cpu_node_recorded:
  assumes "cpus_ok c" and "list_all2 (shows_prop m (nf_parent_cells f)) (node_props f) ds" and "unat (nf_nprops f) \<le> length (nf_props f)"
  shows "cpu_dt_parse m f c =
    (if unat (cpu_num_cpus c) = 16 then Inl (Kassert ''precond'')
     else if set (methods_of ds) \<subseteq> {bytes_of ''psci'', bytes_of ''spin-table''}
     then let info = cpu_information c ! unat (cpu_num_cpus c) in
       Inr \<lparr>cpu_information = (cpu_information c)[unat (cpu_num_cpus c) :=
              \<lparr>ci_reg = last (ci_reg info # regs_of ds), ci_enable_method = last (ci_enable_method info # map method_named (methods_of ds)),
               ci_release_address = last (ci_release_address info # releases_of ds)\<rparr>],
            cpu_num_cpus = cpu_num_cpus c + 1\<rparr>
     else Inl (Kpanic ''No enable method set''))"
proof -
  have "cpu_num_cpus c < MaxSupportedCpus \<longleftrightarrow> unat (cpu_num_cpus c) \<noteq> 16"
    using assms(1) by (auto simp: cpus_ok_def MaxSupportedCpus_def word_less_nat_alt word_le_nat_alt)
  moreover have "nprops_overrun f = Inr ()" using assms(3) by (simp add: nprops_overrun_def)
  ultimately show ?thesis
    unfolding Let_def described_def [symmetric]
    by (cases c) (auto simp: cpu_dt_parse_def cpu_props_shows [OF assms(2)] Let_def kassert_def)
qed

text \<open>The second core of a board, started with PSCI: \<open>reg = <1>\<close> with one address cell and no size cell.\<close>

definition core_names :: "u8 list" where
  "core_names = bytes_of ''enable-method'' @ [0] @ bytes_of ''reg'' @ [0] @ bytes_of ''psci'' @ [0] @ enc32 1"

definition core_node :: NodeFrame where
  "core_node = \<lparr>nf_name = 0, nf_parent_cells = \<lparr>nc_address = 1, nc_size = 0, nc_interrupt_parent = 0\<rparr>, nf_own_cells = cells_default,
     nf_nprops = 2, nf_compatible_prop_idx = 0, nf_device_type_prop_idx = 0,
     nf_props = [\<lparr>pf_name = 0x1000, pf_value = 0x1012, pf_len = 5\<rparr>, \<lparr>pf_name = 0x100e, pf_value = 0x1017, pf_len = 4\<rparr>],
     nf_parent = None\<rparr>"

theorem cpu_node_recorded_witness:
  "\<exists>c'. cpu_dt_parse (mem_of 0x1000 core_names) core_node (cpus_init\<lparr>cpu_num_cpus := 1\<rparr>) = Inr c' \<and> cpu_num_cpus c' = 2 \<and>
     cpu_information c' ! 1 = \<lparr>ci_reg = 1, ci_enable_method = MethodPSCI, ci_release_address = 0\<rparr>"
proof -
  let ?m = "mem_of 0x1000 core_names" and ?ds = "[DescMethod (bytes_of ''psci''), DescReg 1 0]"
  have len: "length (bytes_of ''enable-method'' @ [0]) = 14" "length (bytes_of ''reg'' @ [0]) = 4" "length (bytes_of ''psci'' @ [0]) = 5"
    by (simp_all add: bytes_of_def)
  have "bytes_at ?m 0x1000 ((bytes_of ''enable-method'' @ [0]) @ (bytes_of ''reg'' @ [0]) @ (bytes_of ''psci'' @ [0]) @ enc32 1)"
    using bytes_at_mem_of [of "0x1000" core_names] by (simp add: core_names_def bytes_of_def enc32_def)
  then have at: "bytes_at ?m 0x1000 (bytes_of ''enable-method'' @ [0])" "bytes_at ?m 0x100e (bytes_of ''reg'' @ [0])"
      "bytes_at ?m 0x1012 (bytes_of ''psci'' @ [0])" "bytes_at ?m 0x1017 (enc32 1)"
    unfolding bytes_at_append len by simp_all
  then have "cstring ?m 0x1000 (bytes_of ''enable-method'')" "cstring ?m 0x100e (bytes_of ''reg'')" "cstring ?m 0x1012 (bytes_of ''psci'')"
    by (simp_all add: cstring_def bytes_of_def)
  then have sh: "list_all2 (shows_prop ?m (nf_parent_cells core_node)) (node_props core_node) ?ds"
    using at(4) by (simp add: core_node_def node_props_def cells_fit_def enc_cells_def)
  have "cpus_ok (cpus_init\<lparr>cpu_num_cpus := 1\<rparr>)" "unat (nf_nprops core_node) \<le> length (nf_props core_node)"
    by (simp_all add: cpus_ok_def cpus_init_def core_node_def)
  from cpu_node_recorded [OF this(1) sh this(2)] show ?thesis
    by (simp add: cpus_init_def methods_of_def releases_of_def regs_of_def List.map_filter_def method_named_def)
qed

end
