(* ===== verification/Exception.thy ===== *)
theory Exception
  imports Cpu
begin

text \<open>
  Exceptions and interrupts (\<open>src/src/exception.cpp\<close>): the exception level, the interrupt mask, the
  report of an exception with its register dump, and the dispatch of interrupts.
\<close>

section \<open>The routines\<close>

definition exception_level :: "'h Machine \<Rightarrow> 'h \<Rightarrow> u64 \<times> 'h" where
  "exception_level mc h = (let (el, h1) = mc_mrs mc CurrentEL h in (drop_bit 2 el AND 3, h1))"

definition mask_irqs :: "'h Machine \<Rightarrow> 'h \<Rightarrow> 'h" where
  "mask_irqs mc h = mc_msr mc DAIFSet 2 h"

definition unmask_irqs :: "'h Machine \<Rightarrow> 'h \<Rightarrow> 'h" where
  "unmask_irqs mc h = mc_msr mc DAIFClr 2 h"

record ExceptionFrame =
  ef_x0 :: u64
  ef_x1 :: u64
  ef_x2 :: u64
  ef_x3 :: u64
  ef_x4 :: u64
  ef_x5 :: u64
  ef_x6 :: u64
  ef_x7 :: u64
  ef_x8 :: u64
  ef_x9 :: u64
  ef_x10 :: u64
  ef_x11 :: u64
  ef_x12 :: u64
  ef_x13 :: u64
  ef_x14 :: u64
  ef_x15 :: u64
  ef_x16 :: u64
  ef_x17 :: u64
  ef_x18 :: u64
  ef_x29 :: u64
  ef_x30 :: u64
  ef_xzr :: u64

text \<open>The calls of \<open>print_frame\<close>: what stands before \<open>%p\<close> in the format, and the argument.\<close>

definition frame_lines :: "ExceptionFrame \<Rightarrow> (string \<times> u64) list" where
  "frame_lines f =
     [(''  x0:  '', ef_x0 f), (''  x1:  '', ef_x1 f), (''  x2:  '', ef_x2 f), (''  x3:  '', ef_x3 f),
      (''  x4:  '', ef_x4 f), (''  x5:  '', ef_x5 f), (''  x6:  '', ef_x6 f), (''  x7:  '', ef_x7 f),
      (''  x8:  '', ef_x8 f), (''  x9:  '', ef_x9 f), (''  x10: '', ef_x10 f), (''  x11: '', ef_x11 f),
      (''  x12: '', ef_x12 f), (''  x13: '', ef_x13 f), (''  x14: '', ef_x14 f), (''  x15: '', ef_x15 f),
      (''  x16: '', ef_x16 f), (''  x17: '', ef_x17 f), (''  x18: '', ef_x18 f), (''  x29: '', ef_x29 f),
      (''  x30: '', ef_x30 f), (''  xzr: '', ef_xzr f)]"

fun print_lines :: "'h Machine \<Rightarrow> mem \<Rightarrow> (string \<times> u64) list \<Rightarrow> Uart \<times> 'h \<Rightarrow> (Uart \<times> 'h) comp" where
  "print_lines mc m [] uh = Some (Inr uh)"
| "print_lines mc m ((name, v) # ls) uh =
     bind_comp (kprintf mc m (name @ ''%p'' @ [CHR 0x0A]) [Slot v] uh) (\<lambda>uh1. print_lines mc m ls uh1)"

definition print_frame :: "'h Machine \<Rightarrow> mem \<Rightarrow> ExceptionFrame \<Rightarrow> Uart \<times> 'h \<Rightarrow> (Uart \<times> 'h) comp" where
  "print_frame mc m f uh =
     bind_comp (kprintf mc m (''Register dump:'' @ [CHR 0x0A]) [] uh) (\<lambda>uh1. print_lines mc m (frame_lines f) uh1)"

definition ESR_EL1_EC_SHIFT :: nat where "ESR_EL1_EC_SHIFT = 26"
definition ESR_EL1_EC_BITS :: u64 where "ESR_EL1_EC_BITS = 63"
definition EC_UDF_INS :: u64 where "EC_UDF_INS = 0"
definition EC_DATA_ABRT :: u64 where "EC_DATA_ABRT = 37"

definition ec_to_string :: "u64 \<Rightarrow> string" where
  "ec_to_string exception_class = (if exception_class = EC_DATA_ABRT then ''Data Abort'' else ''Unknown'')"

definition exception_handler :: "'h Machine \<Rightarrow> mem \<Rightarrow> ExceptionFrame \<Rightarrow> Uart \<times> 'h \<Rightarrow> (bool \<times> Uart \<times> 'h) comp" where
  "exception_handler mc m frame uh =
     (let (exception_syndrome, h1) = mc_mrs mc ESR_EL1 (snd uh);
          (exception_link, h2) = mc_mrs mc ELR_EL1 h1;
          exception_class = drop_bit ESR_EL1_EC_SHIFT exception_syndrome AND ESR_EL1_EC_BITS;
          bad_ec = (exception_class = EC_UDF_INS \<or> exception_class = EC_DATA_ABRT) in
      bind_comp (kprintf mc m (CHR 0x0A # ''Got an exception (from %p)'' @ [CHR 0x0A]) [Slot exception_link] (fst uh, h2)) (\<lambda>uh1.
      bind_comp (kprintf mc m (''- EC is %d (%s)'' @ [CHR 0x0A]) [Slot exception_class, Lit (ec_to_string exception_class)] uh1) (\<lambda>uh2.
      bind_comp (kprintf mc m (''- Syndrome is %p'' @ [CHR 0x0A]) [Slot exception_syndrome] uh2) (\<lambda>uh3.
      bind_comp (print_frame mc m frame uh3) (\<lambda>uh4.
      Some (Inr (bad_ec, uh4)))))))"

definition irq_timer :: "'h Machine \<Rightarrow> mem \<Rightarrow> u32 \<Rightarrow> Uart \<times> 'h \<Rightarrow> (Uart \<times> 'h) comp" where
  "irq_timer mc m intid uh =
     (let (c, h) = cpu_id mc (snd uh) in
      bind_comp (kprintf mc m (''[%z] Generic Timer Interrupt (INTID %d)'' @ [CHR 0x0A]) [Slot c, Slot (ucast intid)] (fst uh, h)) (\<lambda>uh1.
      Some (Inr (fst uh1, set_timer mc (snd uh1)))))"

definition irq_unhandled :: "'h Machine \<Rightarrow> mem \<Rightarrow> u32 \<Rightarrow> Uart \<times> 'h \<Rightarrow> (Uart \<times> 'h) comp" where
  "irq_unhandled mc m intid uh =
     (let (c, h) = cpu_id mc (snd uh) in
      kprintf mc m (''[%z] Unhandled interrupt with INTID: %d'' @ [CHR 0x0A]) [Slot c, Slot (ucast intid)] (fst uh, h))"

definition irq_handler :: "'h Machine \<Rightarrow> mem \<Rightarrow> u32 \<Rightarrow> Uart \<times> 'h \<Rightarrow> (u32 \<times> Uart \<times> 'h) comp" where
  "irq_handler mc m intid uh =
     (let (c, h) = cpu_id mc (snd uh) in
      bind_comp (kprintf mc m (''IRQ INTID %d handled by %d'' @ [CHR 0x0A]) [Slot (ucast intid), Slot c] (fst uh, h)) (\<lambda>uh1.
      if intid = 1022 \<or> intid = 1023 then Some (Inr (intid, uh1))
      else
        bind_comp
          (if intid = 30 then irq_timer mc m intid uh1
           else
           bind_comp (Some (uart_intid (fst uh1))) (\<lambda>uart.
           if intid = uart then pl011_handle_irq mc uh1 else irq_unhandled mc m intid uh1)) (\<lambda>uh2.
        Some (Inr (intid, uh2)))))"

section \<open>System registers and the console\<close>

text \<open>Accesses to system registers leave the UART alone.\<close>

definition sysregs_apart :: "'h Machine \<Rightarrow> 'h PL011 \<Rightarrow> bool" where
  "sysregs_apart mc d \<longleftrightarrow> (\<forall>r h. quiet d h (snd (mc_mrs mc r h))) \<and> (\<forall>r v h. quiet d h (mc_msr mc r v h))"

lemma put_out_quiet:
  "quiet d h h1 \<Longrightarrow> put_out d (u, h1) xs uh' \<Longrightarrow> put_out d (u, h) xs uh'"
  "put_out d uh xs (u', h') \<Longrightarrow> quiet d h' h1 \<Longrightarrow> put_out d uh xs (u', h1)"
  by (simp_all add: put_out_def quiet_def)

lemma console_any: "console mc d (u, h) \<Longrightarrow> console mc d (u, h')"
  by (simp add: console_def)

text \<open>A part of a format without conversions stands for itself.\<close>

lemma render_text_plain:
  "ch CHR ''%'' \<notin> set p \<Longrightarrow>
   render_text (p @ f) args = map_option (append (concat (map crlf p))) (render_text f args)"
proof (induction p)
  case Nil
  show ?case by (cases "render_text f args") simp_all
next
  case (Cons c p)
  then have "render_text (c # p @ f) args = map_option (append (crlf c)) (render_text (p @ f) args)"
    by (cases "p @ f") auto
  with Cons show ?case by (cases "render_text f args") auto
qed

lemma cpu_id_small: "unat (fst (cpu_id mc h)) < 256"
proof -
  have "x AND 0xff = take_bit 8 x" for x :: u64 by (simp add: take_bit_eq_mask mask_eq_exp_minus_1)
  then have "unat (x AND 0xff) = unat x mod 256" for x :: u64
    by (simp only: unsigned_take_bit_eq) (simp add: take_bit_eq_mod)
  then show ?thesis by (simp add: cpu_id_def split_beta Let_def)
qed

lemma small_slot: "unat (v :: u64) < 2 ^ 31 \<Longrightarrow> sint (ucast v :: u32) = int (unat v)"
proof -
  assume v: "unat v < 2 ^ 31"
  have s: "sint (ucast v :: u32) = signed_take_bit 31 (uint v)" by (simp add: signed_ucast_eq)
  define n where "n = unat v"
  have e: "uint v = int n" by (simp add: n_def)
  have "int n < 2 ^ 31" using v unfolding n_def [symmetric] by simp
  then have "signed_take_bit 31 (int n) = int n" by (intro signed_take_bit_int_eq_self) simp_all
  then show ?thesis unfolding s e n_def [symmetric] .
qed

section \<open>Interrupts\<close>

lemma intid_slot: "unat (i :: u32) < 2 ^ 31 \<Longrightarrow> sint (ucast (ucast i :: u64) :: u32) = int (unat i)"
  using small_slot [of "ucast i"] by simp

lemma not_int_min: "int n \<noteq> - (2 ^ 31)"
  by simp

definition irq_text :: "u32 \<Rightarrow> u64 \<Rightarrow> u8 list" where
  "irq_text intid c = bytes_of ''IRQ INTID '' @ number_text 10 (int (unat intid)) @ bytes_of '' handled by '' @
     number_text 10 (int (unat c)) @ [CRET, NL]"

lemma render_irq:
  assumes "unat intid < 2 ^ 31" "unat c < 256"
  shows "render_text (bytes_of (''IRQ INTID %d handled by %d'' @ [CHR 0x0A])) [Slot (ucast intid), Slot c] = Some (irq_text intid c)"
proof -
  have c: "sint (ucast c :: u32) = int (unat c)" by (rule small_slot) (use assms(2) in simp)
  show ?thesis
    by (simp add: bytes_of_def ch_def crlf_def NL_def CRET_def intid_slot [OF assms(1)] c not_int_min irq_text_def del: of_nat_unat)
qed

text \<open>The two lines that start with the core.\<close>

definition core_text :: "u64 \<Rightarrow> string \<Rightarrow> u32 \<Rightarrow> string \<Rightarrow> u8 list" where
  "core_text c before intid after = bytes_of ''['' @ digits 10 (uint c) @ bytes_of before @ number_text 10 (int (unat intid)) @
     bytes_of after @ [CRET, NL]"

lemma render_core:
  assumes "unat (intid :: u32) < 2 ^ 31"
  shows "render_text (bytes_of (''[%z] Generic Timer Interrupt (INTID %d)'' @ [CHR 0x0A])) [Slot c, Slot (ucast intid)] =
      Some (core_text c ''] Generic Timer Interrupt (INTID '' intid '')'')"
    "render_text (bytes_of (''[%z] Unhandled interrupt with INTID: %d'' @ [CHR 0x0A])) [Slot c, Slot (ucast intid)] =
      Some (core_text c ''] Unhandled interrupt with INTID: '' intid [])"
  by (simp_all add: bytes_of_def ch_def crlf_def NL_def CRET_def intid_slot [OF assms] not_int_min core_text_def del: of_nat_unat)

lemma put_out_uart:
  assumes "put_out d uh xs uh'"
  shows "ua_rx_buffer (fst uh') = ua_rx_buffer (fst uh)" "ua_uart (fst uh') = ua_uart (fst uh)"
    "ua_interrupts (fst uh') = ua_interrupts (fst uh)" "uart_ok mc d (fst uh) \<Longrightarrow> uart_ok mc d (fst uh')"
  using assms by (auto simp: put_out_def uart_ok_def)

lemma cpu_id_quiet: "sysregs_apart mc d \<Longrightarrow> quiet d h (snd (cpu_id mc h))"
  by (simp add: cpu_id_def split_beta Let_def sysregs_apart_def)

text \<open>A line that is printed after the core was asked for its number.\<close>

lemma kprintf_core:
  assumes "uart_ok mc d (fst uh)" "sysregs_apart mc d" "cpu_id mc (snd uh) = (c, h)"
    "render_text (bytes_of f) args = Some xs" "CHR 0x00 \<notin> set f" "length f < 1000"
  shows "\<exists>uh'. kprintf mc m f args (fst uh, h) = Some (Inr uh') \<and> put_out d uh xs uh'"
proof -
  have "console mc d (fst uh, h)" using assms(1) by (simp add: console_def uart_ok_def)
  from kprintf_text [OF assms(4) this assms(5,6), of m] obtain uh' where
    "kprintf mc m f args (fst uh, h) = Some (Inr uh')" "put_out d (fst uh, h) xs uh'" by blast
  moreover have "quiet d (snd uh) h" using cpu_id_quiet [OF assms(2), of "snd uh"] assms(3) by simp
  ultimately show ?thesis using put_out_quiet(1) [of d "snd uh" h "fst uh" xs uh'] by auto
qed

lemma irq_timer_spec:
  assumes "uart_ok mc d (fst uh)" "sysregs_apart mc d" "unat intid < 2 ^ 31"
  shows "\<exists>u' h'. irq_timer mc m intid uh = Some (Inr (u', set_timer mc h')) \<and>
    put_out d uh (core_text (fst (cpu_id mc (snd uh))) ''] Generic Timer Interrupt (INTID '' intid '')'') (u', set_timer mc h')"
proof -
  obtain c h where c: "cpu_id mc (snd uh) = (c, h)" by fastforce
  from kprintf_core [OF assms(1,2) c render_core(1) [OF assms(3), of c], of m] obtain uh1 where
    uh1: "kprintf mc m (''[%z] Generic Timer Interrupt (INTID %d)'' @ [CHR 0x0A]) [Slot c, Slot (ucast intid)] (fst uh, h) = Some (Inr uh1)"
      "put_out d uh (core_text c ''] Generic Timer Interrupt (INTID '' intid '')'') uh1" by auto
  have "irq_timer mc m intid uh = Some (Inr (fst uh1, set_timer mc (snd uh1)))"
    unfolding irq_timer_def c Let_def prod.case uh1(1) by simp
  moreover have "quiet d (snd uh1) (set_timer mc (snd uh1))"
    using assms(2) quiet_trans by (fastforce simp: set_timer_def split_beta Let_def sysregs_apart_def)
  ultimately show ?thesis using put_out_quiet(2) [of d uh _ "fst uh1" "snd uh1"] uh1(2) c by auto
qed

lemma irq_unhandled_spec:
  assumes "uart_ok mc d (fst uh)" "sysregs_apart mc d" "unat intid < 2 ^ 31"
  shows "\<exists>uh'. irq_unhandled mc m intid uh = Some (Inr uh') \<and>
    put_out d uh (core_text (fst (cpu_id mc (snd uh))) ''] Unhandled interrupt with INTID: '' intid []) uh'"
proof -
  obtain c h where c: "cpu_id mc (snd uh) = (c, h)" by fastforce
  from kprintf_core [OF assms(1,2) c render_core(2) [OF assms(3), of c], of m] show ?thesis
    by (auto simp: irq_unhandled_def c)
qed

text \<open>The branch an interrupt takes after its first line.\<close>

definition irq_branch :: "'h Machine \<Rightarrow> 'h PL011 \<Rightarrow> u32 \<Rightarrow> u32 \<Rightarrow> Uart \<times> 'h \<Rightarrow> Uart \<times> 'h \<Rightarrow> bool" where
  "irq_branch mc d uart intid uh uh' \<longleftrightarrow>
     (if intid = 1022 \<or> intid = 1023 then uh' = uh
      else if intid = 30
      then (\<exists>h. snd uh' = set_timer mc h) \<and> put_out d uh (core_text (fst (cpu_id mc (snd uh))) ''] Generic Timer Interrupt (INTID '' intid '')'') uh'
      else if intid = uart then irq_served mc d uh uh'
      else put_out d uh (core_text (fst (cpu_id mc (snd uh))) ''] Unhandled interrupt with INTID: '' intid []) uh')"

lemma irq_handler_spec:
  assumes "uart_ok mc d u" and "sysregs_apart mc d" and "unat intid < 2 ^ 31" and "uart_intid u = Inr uart"
  shows "\<exists>uh1 u' h'. irq_handler mc m intid (u, h) = Some (Inr (intid, u', h')) \<and> uart_ok mc d u' \<and>
    put_out d (u, h) (irq_text intid (fst (cpu_id mc h))) uh1 \<and> irq_branch mc d uart intid uh1 (u', h')"
proof -
  obtain c h0 where id: "cpu_id mc h = (c, h0)" by fastforce
  have "unat c < 256" using cpu_id_small [of mc h] id by simp
  from kprintf_core [where uh = "(u, h)" and m = m, unfolded fst_conv snd_conv, OF assms(1,2) id render_irq [OF assms(3) this]] obtain uh1 where
    uh1: "kprintf mc m (''IRQ INTID %d handled by %d'' @ [CHR 0x0A]) [Slot (ucast intid), Slot c] (u, h0) = Some (Inr uh1)"
      "put_out d (u, h) (irq_text intid c) uh1" by auto
  have ok1: "uart_ok mc d (fst uh1)" and id1: "uart_intid (fst uh1) = Inr uart"
    using put_out_uart [OF uh1(2)] assms(1,4) by (simp_all add: uart_intid_def)
  note unf = irq_handler_def [of mc m intid "(u, h)", unfolded fst_conv snd_conv id Let_def prod.case uh1(1) bind_comp_simps]
  have "\<exists>uh'. irq_handler mc m intid (u, h) = Some (Inr (intid, uh')) \<and> uart_ok mc d (fst uh') \<and> irq_branch mc d uart intid uh1 uh'"
  proof -
    consider "intid = 1022 \<or> intid = 1023" | "intid \<noteq> 1022" "intid \<noteq> 1023" "intid = 30" | "intid \<noteq> 1022" "intid \<noteq> 1023" "intid \<noteq> 30" "intid = uart"
      | "intid \<noteq> 1022" "intid \<noteq> 1023" "intid \<noteq> 30" "intid \<noteq> uart" by blast
    then show ?thesis
    proof cases
      case 1
      then show ?thesis using unf ok1 by (auto simp: irq_branch_def)
    next
      case 2
      obtain u' h' where "irq_timer mc m intid uh1 = Some (Inr (u', set_timer mc h'))"
          "put_out d uh1 (core_text (fst (cpu_id mc (snd uh1))) ''] Generic Timer Interrupt (INTID '' intid '')'') (u', set_timer mc h')"
        using irq_timer_spec [OF ok1 assms(2,3)] by blast
      with 2 unf put_out_uart(4) [OF this(2) ok1] show ?thesis
        by (intro exI [of _ "(u', set_timer mc h')"]) (auto simp: irq_branch_def)
    next
      case 3
      obtain uh' where "pl011_handle_irq mc uh1 = Some (Inr uh')" "uart_ok mc d (fst uh')" "irq_served mc d uh1 uh'"
        using uart_irq_spec [OF ok1] by blast
      with 3 unf id1 show ?thesis by (intro exI [of _ uh']) (simp add: irq_branch_def)
    next
      case 4
      obtain uh' where "irq_unhandled mc m intid uh1 = Some (Inr uh')"
          "put_out d uh1 (core_text (fst (cpu_id mc (snd uh1))) ''] Unhandled interrupt with INTID: '' intid []) uh'"
        using irq_unhandled_spec [OF ok1 assms(2,3)] by blast
      with 4 unf id1 put_out_uart(4) [OF this(2) ok1] show ?thesis by (intro exI [of _ uh']) (simp add: irq_branch_def)
    qed
  qed
  then obtain u' h' where "irq_handler mc m intid (u, h) = Some (Inr (intid, u', h'))" "uart_ok mc d u'" "irq_branch mc d uart intid uh1 (u', h')"
    by auto
  with uh1(2) id show ?thesis by (intro exI [of _ uh1] exI [of _ u'] exI [of _ h']) simp
qed

text \<open>C16: Dispatch of interrupts: the handler returns the id it was given, after the line that names the id and the core, and
  then does what that id asks for. The two spurious ids end it there. The timer prints its line and the timer is
  set one period ahead. The UART's id is served by the UART's interrupt handler: transmit and receive halves as the masked status
  says, and the status written back (\<open>irq_served\<close>). Any other id is reported as unhandled. After all of them
  the UART driver is well formed.\<close>

theorem irq_handler_dispatch:
  assumes "uart_ok mc d u" and "sysregs_apart mc d" and "unat intid < 2 ^ 31" and "uart_intid u = Inr uart"
    and "\<And>h. fst (mc_mrs mc CNTFRQ_EL0 h) = freq" and "\<And>v h. tval (mc_msr mc CNTP_TVAL_EL0 v h) = v"
  shows "\<exists>uh1 u' h'. irq_handler mc m intid (u, h) = Some (Inr (intid, u', h')) \<and> uart_ok mc d u' \<and>
    put_out d (u, h) (irq_text intid (fst (cpu_id mc h))) uh1 \<and>
    (if intid = 1022 \<or> intid = 1023 then (u', h') = uh1
     else if intid = 30
     then tval h' = freq \<and> put_out d uh1 (core_text (fst (cpu_id mc (snd uh1))) ''] Generic Timer Interrupt (INTID '' intid '')'') (u', h')
     else if intid = uart then irq_served mc d uh1 (u', h')
     else put_out d uh1 (core_text (fst (cpu_id mc (snd uh1))) ''] Unhandled interrupt with INTID: '' intid []) (u', h'))"
proof -
  obtain uh1 u' h' where r: "irq_handler mc m intid (u, h) = Some (Inr (intid, u', h'))" "uart_ok mc d u'"
      "put_out d (u, h) (irq_text intid (fst (cpu_id mc h))) uh1" "irq_branch mc d uart intid uh1 (u', h')"
    using irq_handler_spec [OF assms(1-4), of m h] by blast
  have "tval (set_timer mc h0) = freq" for h0 using assms(5,6) by (simp add: set_timer_def split_beta Let_def)
  with r(4) have "if intid = 1022 \<or> intid = 1023 then (u', h') = uh1
     else if intid = 30
     then tval h' = freq \<and> put_out d uh1 (core_text (fst (cpu_id mc (snd uh1))) ''] Generic Timer Interrupt (INTID '' intid '')'') (u', h')
     else if intid = uart then irq_served mc d uh1 (u', h')
     else put_out d uh1 (core_text (fst (cpu_id mc (snd uh1))) ''] Unhandled interrupt with INTID: '' intid []) (u', h')"
    unfolding irq_branch_def by (auto split: if_splits)
  with r(1-3) show ?thesis by (intro exI [of _ uh1] exI [of _ u'] exI [of _ h'] conjI)
qed

text \<open>The simulated UART beside a timer of 62.5 MHz.\<close>

definition board :: "'h Machine \<Rightarrow> ('h \<times> u64) Machine" where
  "board mc =
     \<lparr>mc_read32 = (\<lambda>a (h, t). let (v, h1) = mc_read32 mc a h in (v, h1, t)),
      mc_write32 = (\<lambda>a v (h, t). (mc_write32 mc a v h, t)),
      mc_read64 = (\<lambda>a (h, t). let (v, h1) = mc_read64 mc a h in (v, h1, t)),
      mc_write64 = (\<lambda>a v (h, t). (mc_write64 mc a v h, t)), mc_write8 = (\<lambda>a v (h, t). (mc_write8 mc a v h, t)),
      mc_mrs = (\<lambda>r h. (if r = CNTFRQ_EL0 then 62500000 else 0, h)),
      mc_msr = (\<lambda>r v (h, t). if r = CNTP_TVAL_EL0 then (h, v) else (h, t)),
      mc_firmware = (\<lambda>c x h. (0, h)), mc_sev = (\<lambda>h. h)\<rparr>"

definition on_board :: "'h PL011 \<Rightarrow> ('h \<times> 'a) PL011" where
  "on_board d = \<lparr>pl_line = pl_line d \<circ> fst, pl_imsc = pl_imsc d \<circ> fst, pl_room = pl_room d \<circ> fst, pl_busy = pl_busy d \<circ> fst\<rparr>"

lemma board_pl011:
  assumes "pl011 mc base d"
  shows "pl011 (board mc) base (on_board d)"
  unfolding pl011_def
  using pl011D [OF assms] by (auto simp: board_def on_board_def quiet_def split_beta Let_def)

lemma board_sysregs: "sysregs_apart (board mc) (on_board d)"
  by (auto simp: sysregs_apart_def board_def on_board_def quiet_def)

text \<open>Taking the received character of the simulated UART.\<close>

lemma sim_irq_served:
  assumes "irq_served (board sim_machine) (on_board sim_pl011) uh uh'" "ua_uart (fst uh) = ua_uart sim_uart"
    "contents (ua_rx_buffer (fst uh)) = []"
  shows "contents (ua_rx_buffer (fst uh')) = [0x41]"
proof -
  have mis: "fst (mc_read32 (board sim_machine) (ua_uart sim_uart + MIS) h) = 0x30" "fst (mc_read32 (board sim_machine) (ua_uart sim_uart + DR) h) = 0x41" for h
    by (cases h; simp add: board_def sim_machine_def sim_uart_def MIS_def DR_def split_beta)+
  have bits: "(0x30 :: u32) AND MIS_TX \<noteq> 0" "(0x30 :: u32) AND MIS_RX \<noteq> 0" by (simp_all add: MIS_TX_def MIS_RX_def)
  obtain m h1 uh2 uh3 where s: "mc_read32 (board sim_machine) (ua_uart sim_uart + MIS) (snd uh) = (m, h1)"
      "if m AND MIS_TX \<noteq> 0 then tx_drained (board sim_machine) (on_board sim_pl011) (fst uh, h1) uh2 else uh2 = (fst uh, h1)"
      "if m AND MIS_RX \<noteq> 0 then rx_taken (board sim_machine) (on_board sim_pl011) uh2 uh3 else uh3 = uh2" "fst uh' = fst uh3"
    using assms(1) unfolding irq_served_def assms(2) by auto
  have m: "m = 0x30" using mis(1) [of "snd uh"] s(1) by simp
  have t: "tx_drained (board sim_machine) (on_board sim_pl011) (fst uh, h1) uh2" and
    x: "rx_taken (board sim_machine) (on_board sim_pl011) uh2 uh3"
    using s(2,3) unfolding m if_P [OF bits(1)] if_P [OF bits(2)] by blast+
  have u2: "ua_uart (fst uh2) = ua_uart sim_uart" "contents (ua_rx_buffer (fst uh2)) = []"
    using t assms(2,3) by (auto simp: tx_drained_def)
  obtain c h' b where "mc_read32 (board sim_machine) (ua_uart sim_uart + DR) (snd uh2) = (c, h')" "contents b = keep_last 63 ([] @ [ucast c])"
      "ua_rx_buffer (fst uh3) = b"
  proof -
    from x obtain c h' b where r: "mc_read32 (board sim_machine) (ua_uart sim_uart + DR) (snd uh2) = (c, h')"
        "contents b = keep_last 63 ([] @ [ucast c])"
        "put_out (on_board sim_pl011) ((fst uh2)\<lparr>ua_rx_buffer := b\<rparr>, h') (ring_text (contents b)) uh3"
      unfolding rx_taken_def u2 by blast
    show thesis by (rule that [OF r(1,2)]) (simp add: put_out_uart(1) [OF r(3)])
  qed
  with mis(2) [of "snd uh2"] s(4) show ?thesis by (simp add: keep_last_def)
qed

theorem irq_handler_dispatch_witness:
  "(\<exists>u' h'. irq_handler (board sim_machine) (\<lambda>_. None) 30 (sim_uart, ([], 0, 0), 0) = Some (Inr (30, u', h')) \<and> snd h' = 62500000) \<and>
   (\<exists>u' h'. irq_handler (board sim_machine) (\<lambda>_. None) 33 (sim_uart, ([], 0, 0), 0) = Some (Inr (33, u', h')) \<and>
      contents (ua_rx_buffer u') = [0x41])"
proof -
  have ok: "uart_ok (board sim_machine) (on_board sim_pl011) sim_uart"
    using sim_uart_ok board_pl011 by (auto simp: uart_ok_def)
  have id: "uart_intid sim_uart = Inr 33" by (simp add: uart_intid_def interrupts_get_def sim_uart_def)
  have t: "fst (mc_mrs (board sim_machine) CNTFRQ_EL0 h) = 62500000"
      "snd (mc_msr (board sim_machine) CNTP_TVAL_EL0 v h) = v" for h v
    by (cases h; simp add: board_def)+
  note handled = irq_handler_dispatch [where freq = 62500000 and tval = snd and m = "\<lambda>_. None" and h = "(([], 0, 0), 0)", OF ok board_sysregs _ id t]
  have "\<exists>u' h'. irq_handler (board sim_machine) (\<lambda>_. None) 30 (sim_uart, ([], 0, 0), 0) = Some (Inr (30, u', h')) \<and> snd h' = 62500000"
    using handled [of 30] by auto
  moreover obtain uh1 u' h' where i: "irq_handler (board sim_machine) (\<lambda>_. None) 33 (sim_uart, ([], 0, 0), 0) = Some (Inr (33, u', h'))"
      "put_out (on_board sim_pl011) (sim_uart, ([], 0, 0), 0) (irq_text 33 (fst (cpu_id (board sim_machine) (([], 0, 0), 0)))) uh1"
      "irq_served (board sim_machine) (on_board sim_pl011) uh1 (u', h')"
    using handled [of 33] by auto
  have "contents (ua_rx_buffer (fst (u', h'))) = [0x41]"
    by (rule sim_irq_served [OF i(3)]) (use put_out_uart [OF i(2)] CharBuffer_init_ok in \<open>simp_all add: sim_uart_def\<close>)
  ultimately show ?thesis using i(1) by auto
qed

section \<open>Exceptions\<close>

definition crnl :: "u8 list" where "crnl = [CRET, NL]"

definition hex_text :: "u64 \<Rightarrow> u8 list" where
  "hex_text v = bytes_of ''0x'' @ digits 16 (uint v)"

text \<open>The line of a register: its name with a colon in a field of five, and its value.\<close>

definition register_line :: "string \<Rightarrow> u64 \<Rightarrow> u8 list" where
  "register_line name v = bytes_of (''  '' @ name @ '':'' @ replicate (4 - length name) (CHR '' '')) @ hex_text v @ crnl"

definition frame_text :: "ExceptionFrame \<Rightarrow> u8 list" where
  "frame_text f = bytes_of ''Register dump:'' @ crnl @
     register_line ''x0'' (ef_x0 f) @ register_line ''x1'' (ef_x1 f) @ register_line ''x2'' (ef_x2 f) @ register_line ''x3'' (ef_x3 f) @
     register_line ''x4'' (ef_x4 f) @ register_line ''x5'' (ef_x5 f) @ register_line ''x6'' (ef_x6 f) @ register_line ''x7'' (ef_x7 f) @
     register_line ''x8'' (ef_x8 f) @ register_line ''x9'' (ef_x9 f) @ register_line ''x10'' (ef_x10 f) @ register_line ''x11'' (ef_x11 f) @
     register_line ''x12'' (ef_x12 f) @ register_line ''x13'' (ef_x13 f) @ register_line ''x14'' (ef_x14 f) @ register_line ''x15'' (ef_x15 f) @
     register_line ''x16'' (ef_x16 f) @ register_line ''x17'' (ef_x17 f) @ register_line ''x18'' (ef_x18 f) @ register_line ''x29'' (ef_x29 f) @
     register_line ''x30'' (ef_x30 f) @ register_line ''xzr'' (ef_xzr f)"

lemma frame_text_lines:
  "frame_text f = bytes_of ''Register dump:'' @ crnl @ concat (map (\<lambda>(p, v). bytes_of p @ hex_text v @ crnl) (frame_lines f))"
  by (simp add: frame_text_def frame_lines_def register_line_def bytes_of_def numeral_eq_Suc)

text \<open>Class 37 is the data abort taken without a change of exception level (Arm architecture, ESR_EL1.EC).\<close>

definition exception_text :: "u64 \<Rightarrow> u64 \<Rightarrow> ExceptionFrame \<Rightarrow> u8 list" where
  "exception_text esr elr f =
     (let ec = drop_bit 26 esr AND 63 in
      crnl @ bytes_of ''Got an exception (from '' @ hex_text elr @ bytes_of '')'' @ crnl @
      bytes_of ''- EC is '' @ number_text 10 (int (unat ec)) @ bytes_of '' ('' @
      bytes_of (if ec = 37 then ''Data Abort'' else ''Unknown'') @ bytes_of '')'' @ crnl @
      bytes_of ''- Syndrome is '' @ hex_text esr @ crnl @ frame_text f)"

lemma put_out_then:
  assumes "console mc d uh" "\<exists>uh1. r = Some (Inr uh1) \<and> put_out d uh xs uh1"
    "\<And>uh1. console mc d uh1 \<Longrightarrow> \<exists>uh2. g uh1 = Some (Inr uh2) \<and> put_out d uh1 ys (h uh2)"
  shows "\<exists>uh2. bind_comp r g = Some (Inr uh2) \<and> put_out d uh (xs @ ys) (h uh2)"
proof -
  obtain uh1 where 1: "r = Some (Inr uh1)" "put_out d uh xs uh1" using assms(2) by blast
  obtain uh2 where 2: "g uh1 = Some (Inr uh2)" "put_out d uh1 ys (h uh2)"
    using assms(3) [OF put_out_console [OF assms(1) 1(2)]] by blast
  from 1(1) 2(1) put_out_trans [OF 1(2) 2(2)] show ?thesis by auto
qed

lemma u8_of_char_eq: "(of_char a :: u8) = of_char b \<longleftrightarrow> a = b"
proof
  assume "(of_char a :: u8) = of_char b"
  then have "unat (of_nat (of_char a) :: u8) = unat (of_nat (of_char b) :: u8)" by (simp only: of_nat_of_char)
  then have "(of_char a :: nat) = of_char b"
    using nat_of_char_less_256 [of a] nat_of_char_less_256 [of b] by (simp only: unat_of_nat) simp
  then show "a = b" by (simp only: of_char_eq_iff)
qed simp

definition plain_text :: "string \<Rightarrow> bool" where
  "plain_text p \<longleftrightarrow> list_all (\<lambda>c. c \<noteq> CHR ''%'' \<and> c \<noteq> CHR 0x0A \<and> c \<noteq> CHR 0x00) p \<and> length p < 900"

lemma plain_text_bytes:
  assumes "plain_text p"
  shows "ch CHR ''%'' \<notin> set (bytes_of p)" "concat (map crlf (bytes_of p)) = bytes_of p" "CHR 0x00 \<notin> set p"
proof -
  have c: "of_char c \<noteq> (of_char CHR ''%'' :: u8) \<and> of_char c \<noteq> NL" if "c \<noteq> CHR ''%''" "c \<noteq> CHR 0x0A" for c
  proof -
    have "NL = of_char CHR 0x0A" by (simp add: NL_def)
    then show ?thesis using that u8_of_char_eq by metis
  qed
  show "ch CHR ''%'' \<notin> set (bytes_of p)"
    using assms c by (force simp: plain_text_def bytes_of_def ch_def list_all_iff)
  show "concat (map crlf (bytes_of p)) = bytes_of p"
  proof -
    have "concat (map crlf xs) = xs" if "NL \<notin> set xs" for xs using that by (induction xs) (auto simp: crlf_def)
    moreover have "NL \<notin> set (bytes_of p)" using assms c by (force simp: plain_text_def bytes_of_def list_all_iff)
    ultimately show ?thesis by blast
  qed
  show "CHR 0x00 \<notin> set p" using assms by (auto simp: plain_text_def list_all_iff)
qed

lemma print_lines_out:
  "\<forall>(p, v)\<in>set ls. plain_text p \<Longrightarrow> console mc d uh \<Longrightarrow>
   \<exists>uh'. print_lines mc m ls uh = Some (Inr uh') \<and>
     put_out d uh (concat (map (\<lambda>(p, v). bytes_of p @ hex_text v @ crnl) ls)) uh'"
proof (induction ls arbitrary: uh)
  case Nil
  then show ?case using put_out_refl [OF Nil.prems(2)] by simp
next
  case (Cons x ls)
  obtain p v where x: "x = (p, v)" by (cases x)
  have p: "plain_text p" using Cons.prems x by simp
  have "render_text (bytes_of (''%p'' @ [CHR 0x0A])) [Slot v] = Some (hex_text v @ crnl)"
    by (simp add: bytes_of_def ch_def crlf_def crnl_def hex_text_def NL_def CRET_def)
  then have r: "render_text (bytes_of (p @ ''%p'' @ [CHR 0x0A])) [Slot v] = Some (bytes_of p @ hex_text v @ crnl)"
    using render_text_plain [OF plain_text_bytes(1) [OF p], of "bytes_of (''%p'' @ [CHR 0x0A])" "[Slot v]"] plain_text_bytes(2) [OF p]
    by (simp add: bytes_of_def)
  have "\<exists>uh1. kprintf mc m (p @ ''%p'' @ [CHR 0x0A]) [Slot v] uh = Some (Inr uh1) \<and> put_out d uh (bytes_of p @ hex_text v @ crnl) uh1"
    using kprintf_text [OF r Cons.prems(2)] plain_text_bytes(3) [OF p] p by (auto simp: plain_text_def)
  from put_out_then [OF Cons.prems(2) this, where h = "\<lambda>x. x"] Cons.IH Cons.prems(1) show ?case
    by (simp add: x)
qed

lemma print_frame_out:
  assumes "console mc d uh"
  shows "\<exists>uh'. print_frame mc m f uh = Some (Inr uh') \<and> put_out d uh (frame_text f) uh'"
proof -
  have "render_text (bytes_of (''Register dump:'' @ [CHR 0x0A])) [] = Some (bytes_of ''Register dump:'' @ crnl)"
    by (simp add: bytes_of_def ch_def crlf_def crnl_def NL_def CRET_def)
  from kprintf_text [OF this assms]
  have "\<exists>uh1. kprintf mc m (''Register dump:'' @ [CHR 0x0A]) [] uh = Some (Inr uh1) \<and> put_out d uh (bytes_of ''Register dump:'' @ crnl) uh1"
    by simp
  moreover have "\<forall>(p, v)\<in>set (frame_lines f). plain_text p" by (simp add: frame_lines_def plain_text_def)
  ultimately show ?thesis
    using put_out_then [OF assms, where h = "\<lambda>x. x" and g = "print_lines mc m (frame_lines f)"] print_lines_out
    unfolding print_frame_def frame_text_lines append_assoc [symmetric] by blast
qed

lemma ec_small: "unat (drop_bit 26 esr AND 63 :: u64) < 64"
proof -
  have "x AND 63 = take_bit 6 x" for x :: u64 by (simp add: take_bit_eq_mask mask_eq_exp_minus_1)
  then have "unat (x AND 63) = unat x mod 64" for x :: u64
    by (simp only: unsigned_take_bit_eq) (simp add: take_bit_eq_mod)
  then show ?thesis by simp
qed

lemma render_exception:
  "render_text (bytes_of (CHR 0x0A # ''Got an exception (from %p)'' @ [CHR 0x0A])) [Slot elr] =
     Some (crnl @ bytes_of ''Got an exception (from '' @ hex_text elr @ bytes_of '')'' @ crnl)"
  "render_text (bytes_of (''- Syndrome is %p'' @ [CHR 0x0A])) [Slot esr] =
     Some (bytes_of ''- Syndrome is '' @ hex_text esr @ crnl)"
  "unat ec < 64 \<Longrightarrow> render_text (bytes_of (''- EC is %d (%s)'' @ [CHR 0x0A])) [Slot ec, Lit (ec_to_string ec)] =
     Some (bytes_of ''- EC is '' @ number_text 10 (int (unat ec)) @ bytes_of '' ('' @ bytes_of (ec_to_string ec) @ bytes_of '')'' @ crnl)"
proof -
  show "render_text (bytes_of (''- EC is %d (%s)'' @ [CHR 0x0A])) [Slot ec, Lit (ec_to_string ec)] =
     Some (bytes_of ''- EC is '' @ number_text 10 (int (unat ec)) @ bytes_of '' ('' @ bytes_of (ec_to_string ec) @ bytes_of '')'' @ crnl)"
    if "unat ec < 64"
  proof -
    have "sint (ucast ec :: u32) = int (unat ec)" by (rule small_slot) (use that in simp)
    then show ?thesis
      by (simp add: bytes_of_def ch_def crlf_def crcrlf_def crnl_def NL_def CRET_def not_int_min ec_to_string_def del: of_nat_unat)
  qed
qed (simp_all add: bytes_of_def ch_def crlf_def crnl_def hex_text_def NL_def CRET_def)

lemma exception_handler_spec:
  assumes "console mc d (u, h)" and "sysregs_apart mc d"
    and "mc_mrs mc ESR_EL1 h = (esr, h1)" and "mc_mrs mc ELR_EL1 h1 = (elr, h2)"
  shows "\<exists>uh'. exception_handler mc m f (u, h) = Some (Inr (drop_bit 26 esr AND 63 \<in> {0, 37}, uh')) \<and>
    put_out d (u, h) (exception_text esr elr f) uh'"
proof -
  define ec where "ec = drop_bit 26 esr AND 63"
  have q: "quiet d h h2" using assms(2-4) quiet_trans unfolding sysregs_apart_def by (metis snd_conv)
  have con: "console mc d (u, h2)" by (rule console_any [OF assms(1)])
  obtain a1 where a1: "kprintf mc m (CHR 0x0A # ''Got an exception (from %p)'' @ [CHR 0x0A]) [Slot elr] (u, h2) = Some (Inr a1)"
      "put_out d (u, h2) (crnl @ bytes_of ''Got an exception (from '' @ hex_text elr @ bytes_of '')'' @ crnl) a1"
    using kprintf_text [OF render_exception(1) con, of m elr] by auto
  have con1: "console mc d a1" by (rule put_out_console [OF con a1(2)])
  have small: "unat ec < 64" unfolding ec_def by (rule ec_small)
  obtain a2 where a2: "kprintf mc m (''- EC is %d (%s)'' @ [CHR 0x0A]) [Slot ec, Lit (ec_to_string ec)] a1 = Some (Inr a2)"
      "put_out d a1 (bytes_of ''- EC is '' @ number_text 10 (int (unat ec)) @ bytes_of '' ('' @ bytes_of (ec_to_string ec) @ bytes_of '')'' @ crnl) a2"
    using kprintf_text [OF render_exception(3) [OF small] con1, of m] by auto
  have con2: "console mc d a2" by (rule put_out_console [OF con1 a2(2)])
  obtain a3 where a3: "kprintf mc m (''- Syndrome is %p'' @ [CHR 0x0A]) [Slot esr] a2 = Some (Inr a3)"
      "put_out d a2 (bytes_of ''- Syndrome is '' @ hex_text esr @ crnl) a3"
    using kprintf_text [OF render_exception(2) con2, of m esr] by auto
  have con3: "console mc d a3" by (rule put_out_console [OF con2 a3(2)])
  obtain a4 where a4: "print_frame mc m f a3 = Some (Inr a4)" "put_out d a3 (frame_text f) a4"
    using print_frame_out [OF con3] by blast
  note out = put_out_trans [OF put_out_trans [OF put_out_trans [OF a1(2) a2(2)] a3(2)] a4(2)]
  have "put_out d (u, h) (exception_text esr elr f) a4"
    by (rule put_out_quiet(1) [OF q]) (use out in \<open>simp add: exception_text_def Let_def ec_def ec_to_string_def EC_DATA_ABRT_def\<close>)
  moreover have "exception_handler mc m f (u, h) = Some (Inr (ec \<in> {0, 37}, a4))"
    unfolding exception_handler_def fst_conv snd_conv assms(3,4) Let_def prod.case ESR_EL1_EC_SHIFT_def ESR_EL1_EC_BITS_def
      ec_def [symmetric] a1(1) a2(1) a3(1) a4(1) bind_comp_simps
    by (simp add: EC_UDF_INS_def EC_DATA_ABRT_def)
  ultimately show ?thesis unfolding ec_def by blast
qed

text \<open>C36: The exception handler on a working console: it returns, reports the return address, the class with its
  name, the syndrome and the 22 saved registers, each under its own name, and asks for the core to be stopped
  exactly for undefined instructions and data aborts.\<close>

theorem exception_handler_report:
  assumes "console mc d (u, h)" and "sysregs_apart mc d"
    and "mc_mrs mc ESR_EL1 h = (esr, h1)" and "mc_mrs mc ELR_EL1 h1 = (elr, h2)"
  shows "\<exists>uh'. exception_handler mc m f (u, h) = Some (Inr (drop_bit 26 esr AND 63 \<in> {0, 37}, uh')) \<and>
    put_out d (u, h) (exception_text esr elr f) uh'"
  by (rule exception_handler_spec [OF assms])

definition sim_regs :: ExceptionFrame where
  "sim_regs = \<lparr>ef_x0 = 0x1000, ef_x1 = 0x1001, ef_x2 = 0x1002, ef_x3 = 0x1003, ef_x4 = 0x1004, ef_x5 = 0x1005,
     ef_x6 = 0x1006, ef_x7 = 0x1007, ef_x8 = 0x1008, ef_x9 = 0x1009, ef_x10 = 0x100a, ef_x11 = 0x100b,
     ef_x12 = 0x100c, ef_x13 = 0x100d, ef_x14 = 0x100e, ef_x15 = 0x100f, ef_x16 = 0x1010, ef_x17 = 0x1011,
     ef_x18 = 0x1012, ef_x29 = 0x1013, ef_x30 = 0x1014, ef_xzr = 0\<rparr>"

theorem exception_handler_report_witness:
  "\<exists>uh'. exception_handler (board sim_machine) (\<lambda>_. None) sim_regs (sim_uart, ([], 0, 0), 0) = Some (Inr (True, uh')) \<and>
     pl_line (on_board sim_pl011) (snd uh') = exception_text 0 0 sim_regs"
proof -
  have con: "console (board sim_machine) (on_board sim_pl011) (sim_uart, ([], 0, 0), 0)"
    using sim_uart_ok board_pl011 by (auto simp: uart_ok_def console_def)
  have "mc_mrs (board sim_machine) ESR_EL1 h = (0, h)" "mc_mrs (board sim_machine) ELR_EL1 h = (0, h)" for h
    by (simp_all add: board_def)
  from exception_handler_report [OF con board_sysregs this, of "\<lambda>_. None" sim_regs] obtain uh' where
    "exception_handler (board sim_machine) (\<lambda>_. None) sim_regs (sim_uart, ([], 0, 0), 0) = Some (Inr (True, uh'))"
    "put_out (on_board sim_pl011) (sim_uart, ([], 0, 0), 0) (exception_text 0 0 sim_regs) uh'" by auto
  then show ?thesis using CharBuffer_init_ok by (intro exI [of _ uh']) (auto simp: put_out_def sim_uart_def on_board_def sim_line)
qed

end
