(* ===== verification/SpinLock.thy ===== *)
theory SpinLock
  imports Prelude
begin

text \<open>
  The spin lock (\<open>src/src/locking/SpinLock.cpp\<close>) as its instructions are: a core loads the lock
  exclusively, spins while it is taken, and tries to store to it; the store fails when another
  core has stored in between. Cores run interleaved, one instruction at a time, and may lose
  their exclusive monitor at any moment. A \<open>SpinLockGuard\<close> calls \<open>lock\<close> when it is made and
  \<open>unlock\<close> when its scope ends.
\<close>

section \<open>The code\<close>

datatype Reg = W0 | W1

datatype Insn = LDAXR Reg | CBNZ Reg nat | MOV Reg u32 | STXR Reg Reg | STLR_WZR

definition lock_code :: "Insn list" where
  "lock_code = [LDAXR W0, CBNZ W0 0, MOV W0 1, STXR W1 W0, CBNZ W1 0]"

definition unlock_code :: "Insn list" where
  "unlock_code = [STLR_WZR]"

section \<open>The machine\<close>

text \<open>Where a core is: before the guard, in \<open>lock\<close>, in the guarded scope, or in \<open>unlock\<close>.\<close>

datatype Pos = Outside | InLock nat | Guarded | InUnlock nat

record Core =
  co_pos :: Pos
  co_reg :: "Reg \<Rightarrow> u32"
  co_excl :: bool

record LockState =
  ls_lock :: u32
  ls_core :: "nat \<Rightarrow> Core"

definition set_core :: "nat \<Rightarrow> Core \<Rightarrow> LockState \<Rightarrow> LockState" where
  "set_core i c s = s\<lparr>ls_core := (ls_core s)(i := c)\<rparr>"

text \<open>A store to the lock clears the monitors of the other cores.\<close>

definition store_lock :: "nat \<Rightarrow> u32 \<Rightarrow> LockState \<Rightarrow> LockState" where
  "store_lock i v s =
     s\<lparr>ls_lock := v, ls_core := \<lambda>j. if j = i then ls_core s j else (ls_core s j)\<lparr>co_excl := False\<rparr>\<rparr>"

fun exec_insn :: "Insn \<Rightarrow> nat \<Rightarrow> nat \<Rightarrow> LockState \<Rightarrow> nat \<times> LockState" where
  "exec_insn (LDAXR r) i pc s =
     (let c = ls_core s i in
      (pc + 1, set_core i (c\<lparr>co_reg := (co_reg c)(r := ls_lock s), co_excl := True\<rparr>) s))"
| "exec_insn (CBNZ r target) i pc s = (if co_reg (ls_core s i) r \<noteq> 0 then target else pc + 1, s)"
| "exec_insn (MOV r v) i pc s =
     (let c = ls_core s i in (pc + 1, set_core i (c\<lparr>co_reg := (co_reg c)(r := v)\<rparr>) s))"
| "exec_insn (STXR rs rt) i pc s =
     (let c = ls_core s i in
      if co_excl c
      then (pc + 1, set_core i (c\<lparr>co_reg := (co_reg c)(rs := 0), co_excl := False\<rparr>) (store_lock i (co_reg c rt) s))
      else (pc + 1, set_core i (c\<lparr>co_reg := (co_reg c)(rs := 1)\<rparr>) s))"
| "exec_insn STLR_WZR i pc s = (pc + 1, store_lock i 0 s)"

definition set_pos :: "nat \<Rightarrow> Pos \<Rightarrow> LockState \<Rightarrow> LockState" where
  "set_pos i p s = set_core i ((ls_core s i)\<lparr>co_pos := p\<rparr>) s"

text \<open>The next step of core \<open>i\<close>.\<close>

definition core_step :: "nat \<Rightarrow> LockState \<Rightarrow> LockState" where
  "core_step i s =
     (case co_pos (ls_core s i) of
        Outside \<Rightarrow> set_pos i (InLock 0) s
      | InLock pc \<Rightarrow>
          let (pc', s1) = exec_insn (lock_code ! pc) i pc s in
          set_pos i (if pc' = length lock_code then Guarded else InLock pc') s1
      | Guarded \<Rightarrow> set_pos i (InUnlock 0) s
      | InUnlock pc \<Rightarrow>
          let (pc', s1) = exec_insn (unlock_code ! pc) i pc s in
          set_pos i (if pc' = length unlock_code then Outside else InUnlock pc') s1)"

definition lose_monitor :: "nat \<Rightarrow> LockState \<Rightarrow> LockState" where
  "lose_monitor i s = set_core i ((ls_core s i)\<lparr>co_excl := False\<rparr>) s"

inductive step :: "LockState \<Rightarrow> LockState \<Rightarrow> bool" where
  run: "step s (core_step i s)"
| lose: "step s (lose_monitor i s)"

inductive_cases stepE: "step s s'"

text \<open>Before the first use: the lock is 0 and every core is outside.\<close>

definition lock_init :: "LockState \<Rightarrow> bool" where
  "lock_init s \<longleftrightarrow> ls_lock s = 0 \<and> (\<forall>i. co_pos (ls_core s i) = Outside)"

inductive reachable :: "LockState \<Rightarrow> bool" where
  init: "lock_init s \<Longrightarrow> reachable s"
| steps: "reachable s \<Longrightarrow> step s s' \<Longrightarrow> reachable s'"

section \<open>Mutual exclusion\<close>

definition holds :: "Core \<Rightarrow> bool" where
  "holds c \<longleftrightarrow> co_pos c = Guarded \<or> co_pos c = InUnlock 0 \<or> co_pos c = InLock 4 \<and> co_reg c W1 = 0"

text \<open>A monitor that is still set means that the lock has not been stored to since the load.\<close>

definition core_inv :: "u32 \<Rightarrow> Core \<Rightarrow> bool" where
  "core_inv l c \<longleftrightarrow>
     (case co_pos c of
        Outside \<Rightarrow> True
      | InLock pc \<Rightarrow> pc \<le> 4 \<and> (pc = 1 \<and> co_excl c \<longrightarrow> co_reg c W0 = l) \<and>
          (2 \<le> pc \<and> pc \<le> 3 \<and> co_excl c \<longrightarrow> l = 0) \<and> (pc = 3 \<longrightarrow> co_reg c W0 = 1)
      | Guarded \<Rightarrow> True
      | InUnlock pc \<Rightarrow> pc = 0)"

definition lock_inv :: "LockState \<Rightarrow> bool" where
  "lock_inv s \<longleftrightarrow> (\<forall>i. core_inv (ls_lock s) (ls_core s i)) \<and>
     (\<forall>i j. holds (ls_core s i) \<and> holds (ls_core s j) \<longrightarrow> i = j) \<and>
     (ls_lock s \<noteq> 0 \<longleftrightarrow> (\<exists>i. holds (ls_core s i)))"

lemma lock_inv_init: "lock_init s \<Longrightarrow> lock_inv s"
  by (simp add: lock_init_def lock_inv_def core_inv_def holds_def)

text \<open>A step that changes only core \<open>i\<close> and not the lock.\<close>

lemma lock_inv_local:
  assumes "lock_inv s" "core_inv (ls_lock s) c" "holds c \<longleftrightarrow> holds (ls_core s i)"
  shows "lock_inv (set_core i c s)"
  using assms unfolding lock_inv_def set_core_def by (auto split: if_splits)

lemma core_inv_excl: "core_inv l c \<Longrightarrow> core_inv l' (c\<lparr>co_excl := False\<rparr>)"
  by (auto simp: core_inv_def split: Pos.splits)

lemma holds_excl [simp]: "holds (c\<lparr>co_excl := b\<rparr>) = holds c"
  by (simp add: holds_def)

text \<open>A store of core \<open>i\<close>, after which it holds the lock exactly when it stored something else than 0.\<close>

lemma lock_inv_store:
  assumes "lock_inv s" "core_inv v c" "holds c \<longleftrightarrow> v \<noteq> 0" "\<And>j. j \<noteq> i \<Longrightarrow> \<not> holds (ls_core s j)"
  shows "lock_inv (set_core i c (store_lock i v s))"
proof -
  have "core_inv v ((ls_core s j)\<lparr>co_excl := False\<rparr>)" for j using assms(1) core_inv_excl by (auto simp: lock_inv_def)
  with assms(2-4) show ?thesis unfolding lock_inv_def set_core_def store_lock_def by (auto split: if_splits)
qed

lemma lock_inv_lose: "lock_inv s \<Longrightarrow> lock_inv (lose_monitor i s)"
  unfolding lose_monitor_def
  by (rule lock_inv_local) (auto simp: lock_inv_def intro: core_inv_excl)

lemma set_core_twice [simp]: "set_core i c' (set_core i c s) = set_core i c' s"
  by (simp add: set_core_def)

lemma core_set_core [simp]: "ls_core (set_core i c s) i = c" "ls_core (store_lock i v s) i = ls_core s i"
  by (simp_all add: set_core_def store_lock_def)

text \<open>What each instruction does to the core that runs it.\<close>

lemma core_step_simps:
  "co_pos (ls_core s i) = Outside \<Longrightarrow> core_step i s = set_core i ((ls_core s i)\<lparr>co_pos := InLock 0\<rparr>) s"
  "co_pos (ls_core s i) = Guarded \<Longrightarrow> core_step i s = set_core i ((ls_core s i)\<lparr>co_pos := InUnlock 0\<rparr>) s"
  "co_pos (ls_core s i) = InUnlock 0 \<Longrightarrow>
     core_step i s = set_core i ((ls_core s i)\<lparr>co_pos := Outside\<rparr>) (store_lock i 0 s)"
  "co_pos (ls_core s i) = InLock 0 \<Longrightarrow> core_step i s =
     set_core i ((ls_core s i)\<lparr>co_reg := (co_reg (ls_core s i))(W0 := ls_lock s), co_excl := True, co_pos := InLock 1\<rparr>) s"
  "co_pos (ls_core s i) = InLock 1 \<Longrightarrow> core_step i s =
     set_core i ((ls_core s i)\<lparr>co_pos := if co_reg (ls_core s i) W0 \<noteq> 0 then InLock 0 else InLock 2\<rparr>) s"
  "co_pos (ls_core s i) = InLock 2 \<Longrightarrow> core_step i s =
     set_core i ((ls_core s i)\<lparr>co_reg := (co_reg (ls_core s i))(W0 := 1), co_pos := InLock 3\<rparr>) s"
  "co_pos (ls_core s i) = InLock 3 \<Longrightarrow> core_step i s =
     (if co_excl (ls_core s i)
      then set_core i ((ls_core s i)\<lparr>co_reg := (co_reg (ls_core s i))(W1 := 0), co_excl := False, co_pos := InLock 4\<rparr>)
             (store_lock i (co_reg (ls_core s i) W0) s)
      else set_core i ((ls_core s i)\<lparr>co_reg := (co_reg (ls_core s i))(W1 := 1), co_pos := InLock 4\<rparr>) s)"
  "co_pos (ls_core s i) = InLock 4 \<Longrightarrow> core_step i s =
     set_core i ((ls_core s i)\<lparr>co_pos := if co_reg (ls_core s i) W1 \<noteq> 0 then InLock 0 else Guarded\<rparr>) s"
  by (auto simp: core_step_def set_pos_def lock_code_def unlock_code_def Let_def numeral_eq_Suc)

lemma core_pos_cases:
  assumes "core_inv l c"
  obtains "co_pos c = Outside" | "co_pos c = Guarded" | "co_pos c = InUnlock 0" | "co_pos c = InLock 0" | "co_pos c = InLock 1"
    | "co_pos c = InLock 2" | "co_pos c = InLock 3" | "co_pos c = InLock 4"
proof (cases "co_pos c")
  case (InLock pc)
  then have "pc \<le> 4" using assms by (simp add: core_inv_def)
  then consider "pc = 0" | "pc = 1" | "pc = 2" | "pc = 3" | "pc = 4" by linarith
  then show ?thesis using InLock that by cases auto
next
  case (InUnlock pc)
  with assms that show ?thesis by (simp add: core_inv_def)
qed (use that in simp_all)

lemma lock_inv_step:
  assumes inv: "lock_inv s"
  shows "lock_inv (core_step i s)"
proof -
  let ?c = "ls_core s i"
  have ci: "core_inv (ls_lock s) ?c" using inv by (simp add: lock_inv_def)
  note lo = lock_inv_local [OF inv]
  show ?thesis
  proof (cases rule: core_pos_cases [OF ci])
    case 1
    then show ?thesis unfolding core_step_simps(1) [OF 1] by (intro lo) (auto simp: core_inv_def holds_def)
  next
    case 2
    then show ?thesis unfolding core_step_simps(2) [OF 2] by (intro lo) (auto simp: core_inv_def holds_def)
  next
    case 3
    then have "holds ?c" by (simp add: holds_def)
    with inv have "j \<noteq> i \<Longrightarrow> \<not> holds (ls_core s j)" for j by (auto simp: lock_inv_def)
    then show ?thesis unfolding core_step_simps(3) [OF 3] by (intro lock_inv_store [OF inv]) (auto simp: core_inv_def holds_def)
  next
    case 4
    then show ?thesis unfolding core_step_simps(4) [OF 4] by (intro lo) (auto simp: core_inv_def holds_def)
  next
    case 5
    then show ?thesis using ci unfolding core_step_simps(5) [OF 5] by (intro lo) (auto simp: core_inv_def holds_def)
  next
    case 6
    then show ?thesis using ci unfolding core_step_simps(6) [OF 6] by (intro lo) (auto simp: core_inv_def holds_def)
  next
    case 7
    show ?thesis
    proof (cases "co_excl ?c")
      case True
      then have w: "co_reg ?c W0 = 1" "ls_lock s = 0" using ci 7 by (simp_all add: core_inv_def)
      then have "\<not> holds (ls_core s j)" for j using inv by (auto simp: lock_inv_def)
      then show ?thesis unfolding core_step_simps(7) [OF 7] if_P [OF True] w
        by (intro lock_inv_store [OF inv]) (auto simp: core_inv_def holds_def)
    next
      case False
      then show ?thesis unfolding core_step_simps(7) [OF 7] if_not_P [OF False]
        using 7 by (intro lo) (auto simp: core_inv_def holds_def)
    qed
  next
    case 8
    then show ?thesis unfolding core_step_simps(8) [OF 8] by (intro lo) (auto simp: core_inv_def holds_def)
  qed
qed

lemma reachable_inv: "reachable s \<Longrightarrow> lock_inv s"
proof (induction rule: reachable.induct)
  case (init s)
  then show ?case by (rule lock_inv_init)
next
  case (steps s s')
  from steps.hyps(2) show ?case
    by (rule stepE) (use steps.IH in \<open>auto simp: lock_inv_step lock_inv_lose\<close>)
qed

text \<open>C8: Mutual exclusion: in every state the cores can reach, at most one of them is in the
  scope of a guard, and while one is there the lock reads as taken.\<close>

theorem spinlock_mutual_exclusion:
  assumes "reachable s" and "co_pos (ls_core s i) = Guarded"
  shows "ls_lock s \<noteq> 0 \<and> (\<forall>j. co_pos (ls_core s j) = Guarded \<longrightarrow> j = i)"
proof -
  have "holds (ls_core s i)" using assms(2) by (simp add: holds_def)
  with reachable_inv [OF assms(1)] show ?thesis by (auto simp: lock_inv_def holds_def)
qed

section \<open>Progress\<close>

lemma lock_set_core [simp]: "ls_lock (set_core i c s) = ls_lock s" "ls_lock (store_lock i v s) = v"
  by (simp_all add: set_core_def store_lock_def)

lemma funpow_step: "(core_step i ^^ Suc n) s = (core_step i ^^ n) (core_step i s)"
  by (simp add: funpow_swap1)

lemma acquire_free:
  assumes "co_pos (ls_core s i) = InLock 0" "ls_lock s = 0"
  shows "co_pos (ls_core ((core_step i ^^ 5) s) i) = Guarded"
  using assms by (simp add: numeral_eq_Suc funpow_step core_step_simps [unfolded numeral_eq_Suc One_nat_def] del: funpow.simps(2))

lemmas run_simps = funpow_step core_step_simps [unfolded numeral_eq_Suc One_nat_def]

lemma retry_free:
  assumes inv: "lock_inv s" and free: "ls_lock s = 0" and pos: "co_pos (ls_core s i) = InLock pc"
  shows "\<exists>n\<le>4. let s' = (core_step i ^^ n) s in
    co_pos (ls_core s' i) = Guarded \<or> co_pos (ls_core s' i) = InLock 0 \<and> ls_lock s' = 0"
proof -
  have ci: "core_inv (ls_lock s) (ls_core s i)" using inv by (simp add: lock_inv_def)
  have nh: "\<not> holds (ls_core s i)" using inv free by (auto simp: lock_inv_def)
  show ?thesis
  proof (cases rule: core_pos_cases [OF ci])
    case 4
    then show ?thesis using free by (intro exI [of _ 0]) simp
  next
    case 5
    show ?thesis
    proof (cases "co_reg (ls_core s i) W0 = 0")
      case True
      with 5 free show ?thesis
        by (intro exI [of _ 4]) (simp add: numeral_eq_Suc run_simps Let_def del: funpow.simps(2))
    next
      case False
      with 5 free show ?thesis by (intro exI [of _ 1]) (simp add: core_step_simps)
    qed
  next
    case 6
    with free show ?thesis
      by (intro exI [of _ 3]) (simp add: numeral_eq_Suc run_simps Let_def del: funpow.simps(2))
  next
    case 7
    with free show ?thesis
      by (intro exI [of _ 2]) (simp add: numeral_eq_Suc run_simps Let_def del: funpow.simps(2))
  next
    case 8
    with nh have "co_reg (ls_core s i) W1 \<noteq> 0" by (simp add: holds_def)
    with 8 free show ?thesis by (intro exI [of _ 1]) (simp add: core_step_simps)
  qed (use pos in simp_all)
qed

lemma release_holder:
  assumes "holds (ls_core s i)"
  shows "\<exists>n\<le>3. ls_lock ((core_step i ^^ n) s) = 0"
proof -
  consider "co_pos (ls_core s i) = InUnlock 0" | "co_pos (ls_core s i) = Guarded"
    | "co_pos (ls_core s i) = InLock 4" "co_reg (ls_core s i) W1 = 0" using assms by (auto simp: holds_def)
  then show ?thesis
  proof cases
    case 1
    then show ?thesis by (intro exI [of _ 1]) (simp add: core_step_simps)
  next
    case 2
    then show ?thesis by (intro exI [of _ 2]) (simp add: numeral_eq_Suc run_simps del: funpow.simps(2))
  next
    case 3
    then show ?thesis by (intro exI [of _ 3]) (simp add: numeral_eq_Suc run_simps del: funpow.simps(2))
  qed
qed

text \<open>C35: The lock is never stuck: in every reachable state, when it is free a core that is inside
  \<open>lock\<close> gets into its scope within nine of its own instructions, and when it is taken there is
  a core whose next three steps free it.\<close>

theorem spinlock_progress:
  assumes "reachable s"
  shows "(ls_lock s = 0 \<and> co_pos (ls_core s i) = InLock pc \<longrightarrow>
      (\<exists>n\<le>9. co_pos (ls_core ((core_step i ^^ n) s) i) = Guarded)) \<and>
    (ls_lock s \<noteq> 0 \<longrightarrow> (\<exists>j. \<exists>n\<le>3. ls_lock ((core_step j ^^ n) s) = 0))"
proof (intro conjI impI)
  have inv: "lock_inv s" by (rule reachable_inv [OF assms])
  show "\<exists>n\<le>9. co_pos (ls_core ((core_step i ^^ n) s) i) = Guarded" if f: "ls_lock s = 0 \<and> co_pos (ls_core s i) = InLock pc"
  proof -
    obtain n where n: "n \<le> 4" "co_pos (ls_core ((core_step i ^^ n) s) i) = Guarded \<or>
        co_pos (ls_core ((core_step i ^^ n) s) i) = InLock 0 \<and> ls_lock ((core_step i ^^ n) s) = 0"
      using retry_free [OF inv conjunct1 [OF f] conjunct2 [OF f]] unfolding Let_def by blast
    from n(2) show ?thesis
    proof
      assume "co_pos (ls_core ((core_step i ^^ n) s) i) = Guarded"
      with n(1) show ?thesis by (intro exI [of _ n]) simp
    next
      assume "co_pos (ls_core ((core_step i ^^ n) s) i) = InLock 0 \<and> ls_lock ((core_step i ^^ n) s) = 0"
      then have "co_pos (ls_core ((core_step i ^^ (5 + n)) s) i) = Guarded"
        using acquire_free [of "(core_step i ^^ n) s" i] by (simp only: funpow_add o_apply)
      with n(1) show ?thesis by (intro exI [of _ "5 + n"]) simp
    qed
  qed
  show "\<exists>j. \<exists>n\<le>3. ls_lock ((core_step j ^^ n) s) = 0" if t: "ls_lock s \<noteq> 0"
  proof -
    obtain j where "holds (ls_core s j)" using inv t by (auto simp: lock_inv_def)
    from release_holder [OF this] show ?thesis by blast
  qed
qed

text \<open>Two cores: one has taken the lock, the other spins.\<close>

definition fresh_lock :: LockState where
  "fresh_lock = \<lparr>ls_lock = 0, ls_core = \<lambda>_. \<lparr>co_pos = Outside, co_reg = \<lambda>_. 0, co_excl = False\<rparr>\<rparr>"

lemma reachable_run: "reachable s \<Longrightarrow> reachable ((core_step i ^^ n) s)"
proof (induction n)
  case (Suc n)
  then show ?case using reachable.steps step.run by fastforce
qed simp

lemma fresh_reachable: "reachable fresh_lock"
  by (rule reachable.init) (simp add: lock_init_def fresh_lock_def)

definition taken_lock :: LockState where
  "taken_lock = (core_step 0 ^^ 6) fresh_lock"

lemma taken_lock_guarded: "co_pos (ls_core taken_lock 0) = Guarded"
  unfolding taken_lock_def fresh_lock_def
  by (simp add: numeral_eq_Suc run_simps del: funpow.simps(2))

theorem spinlock_mutual_exclusion_witness:
  "ls_lock taken_lock \<noteq> 0 \<and> co_pos (ls_core taken_lock 1) \<noteq> Guarded"
proof -
  have "reachable taken_lock" unfolding taken_lock_def by (rule reachable_run [OF fresh_reachable])
  from spinlock_mutual_exclusion [OF this taken_lock_guarded] show ?thesis by auto
qed

theorem spinlock_progress_witness:
  "\<exists>j. \<exists>n\<le>3. ls_lock ((core_step j ^^ n) taken_lock) = 0"
proof -
  have r: "reachable taken_lock" unfolding taken_lock_def by (rule reachable_run [OF fresh_reachable])
  have "ls_lock taken_lock \<noteq> 0"
    unfolding taken_lock_def fresh_lock_def by (simp add: numeral_eq_Suc run_simps del: funpow.simps(2))
  with spinlock_progress [OF r] show ?thesis by blast
qed

end
