(* ===== verification/Node_Handlers.thy ===== *)
theory Node_Handlers
  imports Cpu
begin

text \<open>
  The state that the device tree fills in, and the table of node handlers
  (\<open>_node_handlers\<close> in \<open>src/src/DeviceTree.cpp\<close>). The handlers meet what the second pass asks of them
  (the locale \<open>node_client\<close>), so that a parse with them returns and keeps the kernel's invariant.
\<close>

section \<open>The kernel's state and the table\<close>

record Kernel =
  k_psci :: Psci
  k_uart :: Uart
  k_memory :: MemoryMap
  k_cpus :: Cpus
  k_timer :: Interrupts
  k_gic :: Gic

definition on_psci :: "mem \<Rightarrow> NodeMapping list \<Rightarrow> NodeFrame list \<Rightarrow> nat \<Rightarrow> Kernel \<Rightarrow> Kernel comp" where
  "on_psci m maps frames node k =
     bind_comp (Some (psci_dt_parse m (frames ! node) (k_psci k))) (\<lambda>s. Some (Inr (k\<lparr>k_psci := s\<rparr>)))"

definition on_uart :: "mem \<Rightarrow> NodeMapping list \<Rightarrow> NodeFrame list \<Rightarrow> nat \<Rightarrow> Kernel \<Rightarrow> Kernel comp" where
  "on_uart m maps frames node k =
     bind_comp (uart_dt_parse m maps frames node (k_memory k, k_uart k)) (\<lambda>(mm, u).
     Some (Inr (k\<lparr>k_memory := mm, k_uart := u\<rparr>)))"

definition on_memory :: "mem \<Rightarrow> NodeMapping list \<Rightarrow> NodeFrame list \<Rightarrow> nat \<Rightarrow> Kernel \<Rightarrow> Kernel comp" where
  "on_memory m maps frames node k =
     bind_comp (Some (memory_dt_parse m (frames ! node) (k_memory k))) (\<lambda>mm. Some (Inr (k\<lparr>k_memory := mm\<rparr>)))"

definition on_cpu :: "mem \<Rightarrow> NodeMapping list \<Rightarrow> NodeFrame list \<Rightarrow> nat \<Rightarrow> Kernel \<Rightarrow> Kernel comp" where
  "on_cpu m maps frames node k =
     bind_comp (Some (cpu_dt_parse m (frames ! node) (k_cpus k))) (\<lambda>c. Some (Inr (k\<lparr>k_cpus := c\<rparr>)))"

definition on_timer :: "mem \<Rightarrow> NodeMapping list \<Rightarrow> NodeFrame list \<Rightarrow> nat \<Rightarrow> Kernel \<Rightarrow> Kernel comp" where
  "on_timer m maps frames node k =
     bind_comp (Some (timer_dt_parse m maps (frames ! node) (k_timer k))) (\<lambda>i. Some (Inr (k\<lparr>k_timer := i\<rparr>)))"

definition on_gic_v2 :: "mem \<Rightarrow> NodeMapping list \<Rightarrow> NodeFrame list \<Rightarrow> nat \<Rightarrow> Kernel \<Rightarrow> Kernel comp" where
  "on_gic_v2 m maps frames node k =
     bind_comp (gic_dt_parse_v2 m frames node (k_memory k, k_gic k)) (\<lambda>(mm, g).
     Some (Inr (k\<lparr>k_memory := mm, k_gic := g\<rparr>)))"

definition on_gic_v3 :: "mem \<Rightarrow> NodeMapping list \<Rightarrow> NodeFrame list \<Rightarrow> nat \<Rightarrow> Kernel \<Rightarrow> Kernel comp" where
  "on_gic_v3 m maps frames node k =
     bind_comp (gic_dt_parse_v3 m frames node (k_memory k, k_gic k)) (\<lambda>(mm, g).
     Some (Inr (k\<lparr>k_memory := mm, k_gic := g\<rparr>)))"

definition node_handlers :: "mem \<Rightarrow> Kernel NodeHandler list" where
  "node_handlers m =
     [\<lparr>nh_match_string = ''arm,psci-1.0'', nh_match_kind = Compatible, nh_on_node = on_psci m\<rparr>,
      \<lparr>nh_match_string = ''arm,pl011'', nh_match_kind = Compatible, nh_on_node = on_uart m\<rparr>,
      \<lparr>nh_match_string = ''memory'', nh_match_kind = DeviceType, nh_on_node = on_memory m\<rparr>,
      \<lparr>nh_match_string = ''cpu'', nh_match_kind = DeviceType, nh_on_node = on_cpu m\<rparr>,
      \<lparr>nh_match_string = ''arm,armv8-timer'', nh_match_kind = Compatible, nh_on_node = on_timer m\<rparr>,
      \<lparr>nh_match_string = ''arm,gic-400'', nh_match_kind = Compatible, nh_on_node = on_gic_v2 m\<rparr>,
      \<lparr>nh_match_string = ''arm,cortex-a15-gic'', nh_match_kind = Compatible, nh_on_node = on_gic_v2 m\<rparr>,
      \<lparr>nh_match_string = ''arm,gic-v3'', nh_match_kind = Compatible, nh_on_node = on_gic_v3 m\<rparr>]"

section \<open>The invariant\<close>

text \<open>Regions come from the device tree and may wrap; what always holds is that the lists stay in bounds (\<open>map_shape\<close>).\<close>

definition kernel_ok :: "Kernel \<Rightarrow> bool" where
  "kernel_ok k \<longleftrightarrow> interrupts_ok (ua_interrupts (k_uart k)) \<and> interrupts_ok (k_timer k) \<and>
     buffer_ok (ua_rx_buffer (k_uart k)) \<and> buffer_ok (ua_tx_buffer (k_uart k)) \<and>
     cpus_ok (k_cpus k) \<and> map_shape (k_memory k)"

text \<open>No clock is its own ancestor.\<close>

definition clocks_end :: "NodeMapping list \<Rightarrow> bool" where
  "clocks_end maps \<longleftrightarrow> (\<forall>p. lookup_clock_frequency maps p \<noteq> None)"

section \<open>Every handler returns and keeps it\<close>

lemma translate_chain_returns:
  assumes "frames_ok frames"
  shows "b < n \<Longrightarrow> b < 8 \<Longrightarrow> \<exists>r. translate_chain m frames n (Some b) a = Some r"
proof (induction n arbitrary: b a)
  case (Suc n)
  have len: "b < length frames" using assms Suc.prems by (simp add: frames_ok_def)
  have par: "nf_parent (frames ! b) = None \<or> 0 < b \<and> nf_parent (frames ! b) = Some (b - 1)"
    using assms Suc.prems by (simp add: frames_ok_def frame_ok_def)
  show ?case
  proof (cases "translate_bus m (frames ! b) a")
    case (Inr a')
    then show ?thesis using par len Suc.IH [of "b - 1" a'] Suc.prems by (auto simp: translate_chain.simps(1))
  qed (use len in simp)
qed simp

lemma translate_address_returns:
  assumes "frames_ok frames" "node < 8"
  shows "ensures (\<lambda>_. True) (translate_address m frames node a)"
proof -
  have par: "nf_parent (frames ! node) = None \<or> 0 < node \<and> nf_parent (frames ! node) = Some (node - 1)" and len: "length frames = 8"
    using assms by (simp_all add: frames_ok_def frame_ok_def)
  from par show ?thesis
  proof
    assume "0 < node \<and> nf_parent (frames ! node) = Some (node - 1)"
    then show ?thesis
      using translate_chain_returns [OF assms(1), of "node - 1" 8 m a] assms(2)
      by (auto simp: translate_address_def len ensures_def)
  qed (simp add: translate_address_def)
qed

lemma register_intids_ok:
  "interrupts_ok ints \<Longrightarrow> register_intids m p c j n ints = Inr ints' \<Longrightarrow> interrupts_ok ints'"
proof (induction n arbitrary: j ints)
  case (Suc n)
  then obtain i ints1 where r: "register_intid ints i = Inr ints1" "register_intids m p c (j + 1) n ints1 = Inr ints'"
    by (auto simp: bind_res_Inr_iff)
  have "interrupts_ok ints1"
    using register_intid_ok [OF Suc.prems(1), of i] r(1) by (auto split: if_splits)
  then show ?case using Suc.IH r(2) by blast
qed simp

lemma read_intids_ok:
  "interrupts_ok ints \<Longrightarrow> read_intids m maps cells p ints = Inr ints' \<Longrightarrow> interrupts_ok ints'"
  using register_intids_ok [OF interrupts_reset_ok]
  by (fastforce simp: read_intids_def Let_def bind_res_Inr_iff split: if_splits)

lemma timer_props_ok:
  "interrupts_ok ints \<Longrightarrow> timer_props m maps cells ps ints = Inr ints' \<Longrightarrow> interrupts_ok ints'"
proof (induction ps arbitrary: ints)
  case (Cons p ps)
  from Cons.prems(2) obtain i where "timer_props m maps cells ps i = Inr ints'" "i = ints \<or> read_intids m maps cells p ints = Inr i"
    by (auto simp: bind_res_Inr_iff split: if_splits)
  then show ?case using Cons.IH Cons.prems(1) read_intids_ok by blast
qed simp

text \<open>The part of the invariant that the UART's handler touches.\<close>

definition uart_state_ok :: "MemoryMap \<times> Uart \<Rightarrow> bool" where
  "uart_state_ok st \<longleftrightarrow> map_shape (fst st) \<and> interrupts_ok (ua_interrupts (snd st)) \<and>
     buffer_ok (ua_rx_buffer (snd st)) \<and> buffer_ok (ua_tx_buffer (snd st))"

lemma uart_reg_pairs_ensures:
  assumes "frames_ok frames" "node < 8"
  shows "uart_state_ok st \<Longrightarrow> ensures uart_state_ok (uart_reg_pairs m frames node cells rp j n v st)"
proof (induction n arbitrary: j v st)
  case (Suc n)
  have first: "ensures uart_state_ok
      (if j = 0
       then bind_comp (translate_address m frames node a) (\<lambda>phys.
            bind_comp (Some (record_device_region (fst st) phys len)) (\<lambda>mm.
            Some (Inr (mm, (snd st)\<lparr>ua_uart := phys\<rparr>))))
       else Some (Inr st))" for a len
  proof (cases "j = 0")
    case True
    have rec: "ensures uart_state_ok (bind_comp (Some (record_device_region (fst st) phys len)) (\<lambda>mm.
            Some (Inr (mm, (snd st)\<lparr>ua_uart := phys\<rparr>))))" for phys
      by (cases "record_device_region (fst st) phys len")
        (use Suc.prems record_device_region_shape in \<open>auto simp: uart_state_ok_def\<close>)
    show ?thesis unfolding if_P [OF True] by (rule ensures_bind_comp [OF translate_address_returns [OF assms]]) (rule rec)
  qed (use Suc.prems in simp)
  show ?case
  proof (cases "read_reg_pair m cells v")
    case (Inr r)
    show ?thesis unfolding uart_reg_pairs.simps Inr bind_comp_simps
      by (rule ensures_bind_comp [OF first]) (rule Suc.IH)
  qed simp
qed simp

lemma uart_prop_ensures:
  assumes "frames_ok frames" "node < 8" "clocks_end maps" "uart_state_ok st"
  shows "ensures uart_state_ok (uart_prop m maps frames node p st)"
proof -
  have reg: "ensures uart_state_ok (uart_reg m frames node cells p st)" for cells
    using uart_reg_pairs_ensures [OF assms(1,2,4)] by (auto simp: uart_reg_def Let_def kassert_def)
  have ints: "ensures uart_state_ok (bind_comp (Some (read_intids m maps cells p (ua_interrupts (snd st)))) (\<lambda>i.
          Some (Inr (fst st, (snd st)\<lparr>ua_interrupts := i\<rparr>))))" for cells
    using assms(4) read_intids_ok [of "ua_interrupts (snd st)" m maps cells p]
    by (cases "read_intids m maps cells p (ua_interrupts (snd st))") (auto simp: uart_state_ok_def)
  have clocks: "ensures uart_state_ok (bind_comp (Some (read_u32 m (pf_value p))) (\<lambda>clock_phandle.
          bind_comp (lookup_clock_frequency maps clock_phandle) (\<lambda>f.
          Some (Inr (fst st, (snd st)\<lparr>ua_clock_frequency := f\<rparr>)))))"
  proof (cases "read_u32 m (pf_value p)")
    case (Inr c)
    obtain r where "lookup_clock_frequency maps c = Some r" using assms(3) by (auto simp: clocks_end_def)
    then show ?thesis using Inr assms(4) by (cases r) (auto simp: uart_state_ok_def)
  qed simp
  have any: "ensures uart_state_ok (bind_comp (Some r) f)" if "\<And>x. ensures uart_state_ok (f x)" for r and f :: "bool \<Rightarrow> _"
    by (cases r) (use that in auto)
  have ite: "ensures uart_state_ok (if b then x else y)" if "ensures uart_state_ok x" "ensures uart_state_ok y" for b x y
    using that by simp
  have last: "ensures uart_state_ok (Some (Inr st))" using assms(4) by simp
  show ?thesis unfolding uart_prop_def by (intro any ite reg ints clocks last)
qed

lemma uart_dt_parse_ensures:
  assumes "frames_ok frames" "node < 8" "clocks_end maps" "uart_state_ok st"
  shows "ensures uart_state_ok (uart_dt_parse m maps frames node st)"
proof -
  have props: "uart_state_ok st \<Longrightarrow> ensures uart_state_ok (uart_props m maps frames node ps st)" for ps st
  proof (induction ps arbitrary: st)
    case (Cons p ps)
    show ?case unfolding uart_props.simps
      by (rule ensures_bind_comp [OF uart_prop_ensures [OF assms(1-3) Cons.prems]]) (rule Cons.IH)
  qed simp
  show ?thesis
    unfolding uart_dt_parse_def Let_def
    by (cases "uart_disabled m (node_props (frames ! node))"; cases "nprops_overrun (frames ! node)")
      (use assms(4) props in auto)
qed

lemma gic_regions_ensures:
  assumes "frames_ok frames" "node < 8" "map_shape mm"
  shows "ensures (\<lambda>(a, b, mm'). map_shape mm') (gic_regions m frames node mm)"
proof -
  have rec: "ensures (\<lambda>(a, b, mm'). map_shape mm') (bind_comp (Some (record_device_region mm a la)) (\<lambda>mm1.
         bind_comp (Some (record_device_region mm1 b lb)) (\<lambda>mm2. Some (Inr (a, b, mm2)))))" for a la b lb
  proof (cases "record_device_region mm a la")
    case (Inr mm1)
    have "map_shape mm1" by (rule record_device_region_shape [OF assms(3) Inr])
    then show ?thesis using Inr record_device_region_shape by (cases "record_device_region mm1 b lb") auto
  qed simp
  have tr: "ensures Q (bind_comp (translate_address m frames node a) f)" if "\<And>x. ensures Q (f x)" for a Q and f :: "u64 \<Rightarrow> (u64 \<times> u64 \<times> MemoryMap) comp"
    by (rule ensures_bind_comp [OF translate_address_returns [OF assms(1,2)]]) (rule that)
  show ?thesis
  proof (cases "gic_parse_dt m (frames ! node)")
    case (Inr regs)
    then show ?thesis unfolding gic_regions_def by (auto split: option.splits intro!: tr rec)
  qed (simp add: gic_regions_def)
qed

lemma handlers_ensure:
  assumes "frames_ok frames" "node < 8" "clocks_end maps" "kernel_ok k"
  shows "ensures kernel_ok (on_psci m maps frames node k)" "ensures kernel_ok (on_uart m maps frames node k)"
    "ensures kernel_ok (on_memory m maps frames node k)" "ensures kernel_ok (on_cpu m maps frames node k)"
    "ensures kernel_ok (on_timer m maps frames node k)" "ensures kernel_ok (on_gic_v2 m maps frames node k)"
    "ensures kernel_ok (on_gic_v3 m maps frames node k)"
proof -
  have mm: "map_shape (k_memory k)" using assms(4) by (simp add: kernel_ok_def)
  show "ensures kernel_ok (on_psci m maps frames node k)"
    using assms(4) by (cases "psci_dt_parse m (frames ! node) (k_psci k)") (auto simp: on_psci_def kernel_ok_def)
  have "uart_state_ok (k_memory k, k_uart k)" using assms(4) by (simp add: kernel_ok_def uart_state_ok_def)
  then show "ensures kernel_ok (on_uart m maps frames node k)"
    unfolding on_uart_def
    by (rule ensures_bind_comp [OF uart_dt_parse_ensures [OF assms(1-3)]])
      (use assms(4) in \<open>auto simp: kernel_ok_def uart_state_ok_def\<close>)
  show "ensures kernel_ok (on_memory m maps frames node k)"
  proof (cases "memory_dt_parse m (frames ! node) (k_memory k)")
    case (Inr mm')
    then have "map_shape mm'" using memory_dt_parse_shape [OF mm, of m "frames ! node"] by (simp add: ensures_def)
    then show ?thesis using assms(4) by (simp add: on_memory_def Inr kernel_ok_def)
  qed (simp add: on_memory_def)
  show "ensures kernel_ok (on_cpu m maps frames node k)"
    using assms(4) cpu_dt_parse_ok [of "k_cpus k" m "frames ! node"]
    by (cases "cpu_dt_parse m (frames ! node) (k_cpus k)") (auto simp: on_cpu_def kernel_ok_def)
  show "ensures kernel_ok (on_timer m maps frames node k)"
  proof (cases "timer_dt_parse m maps (frames ! node) (k_timer k)")
    case (Inr i)
    then have "interrupts_ok i"
      using timer_props_ok [of "k_timer k"] assms(4) by (auto simp: timer_dt_parse_def bind_res_Inr_iff kernel_ok_def)
    then show ?thesis using assms(4) by (simp add: on_timer_def Inr kernel_ok_def)
  qed (simp add: on_timer_def)
  have gic: "ensures (\<lambda>(mm', g). map_shape mm') (gic_dt_parse_v2 m frames node (k_memory k, k_gic k))"
      "ensures (\<lambda>(mm', g). map_shape mm') (gic_dt_parse_v3 m frames node (k_memory k, k_gic k))"
    unfolding gic_dt_parse_v2_def gic_dt_parse_v3_def kassert_def Let_def fst_conv
    by (auto intro!: ensures_bind_comp [OF gic_regions_ensures [OF assms(1,2) mm]])
  show "ensures kernel_ok (on_gic_v2 m maps frames node k)"
    unfolding on_gic_v2_def
    by (rule ensures_bind_comp [OF gic(1)]) (use assms(4) in \<open>auto simp: kernel_ok_def\<close>)
  show "ensures kernel_ok (on_gic_v3 m maps frames node k)"
    unfolding on_gic_v3_def
    by (rule ensures_bind_comp [OF gic(2)]) (use assms(4) in \<open>auto simp: kernel_ok_def\<close>)
qed

interpretation kernel_nodes: node_client "node_handlers m" kernel_ok clocks_end for m
  by unfold_locales (auto simp: node_handlers_def intro: handlers_ensure)

text \<open>Parsing the device tree with the kernel's own handlers, on any blob in memory: the two passes never spin, except on
  a blob whose clocks name each other in a circle. They may still stop, as a handler does on a node that it does not
  understand; when they return, every table of the kernel is within its bounds (interrupt lists, cores, region
  lists and buffers).\<close>

theorem parse_frames_kernel:
  assumes "blob_in_memory m fdt" and "length junk1 = 8" and "\<forall>f\<in>set junk1. length (nf_props f) = 30"
    and "length junk2 = 8" and "\<forall>f\<in>set junk2. length (nf_props f) = 30" and "kernel_ok k"
  shows "(\<exists>r. parse_frames m (node_handlers m) fdt junk1 junk2 maps k = Some r \<and>
      (\<forall>status table k'. r = Inr (status, table, k') \<longrightarrow> kernel_ok k')) \<or>
    (\<exists>table p. parse_frames_phandle m fdt junk1 maps = Some (Inr (StatusOk, table)) \<and> lookup_clock_frequency table p = None)"
proof (rule disjCI)
  assume nc: "\<not> (\<exists>table p. parse_frames_phandle m fdt junk1 maps = Some (Inr (StatusOk, table)) \<and> lookup_clock_frequency table p = None)"
  obtain r where r: "parse_frames_phandle m fdt junk1 maps = Some r" using phandle_pass [OF assms(1-3)] by blast
  have "ensures (\<lambda>(status, table, k'). kernel_ok k') (parse_frames m (node_handlers m) fdt junk1 junk2 maps k)"
  proof (cases r)
    case (Inr x)
    obtain status table where x: "x = (status, table)" by (cases x)
    show ?thesis
    proof (cases "status = StatusOk")
      case True
      then have "clocks_end table" using nc r Inr x by (auto simp: clocks_end_def)
      from kernel_nodes.parse_full_ensures [OF assms(1,4,5) this assms(6)]
      have "ensures (\<lambda>(status, table, k'). kernel_ok k') (bind_comp (parse_frames_full m (node_handlers m) fdt junk2 table k)
          (\<lambda>(status1, k1). Some (Inr (status1, table, k1))))" by (rule ensures_bind_comp) auto
      then show ?thesis using r Inr x True by (simp add: parse_frames_def)
    qed (use r Inr x assms(6) in \<open>simp add: parse_frames_def\<close>)
  qed (use r in \<open>simp add: parse_frames_def\<close>)
  then show "\<exists>r. parse_frames m (node_handlers m) fdt junk1 junk2 maps k = Some r \<and>
      (\<forall>status table k'. r = Inr (status, table, k') \<longrightarrow> kernel_ok k')" by (auto simp: ensures_def)
qed

text \<open>The kernel before the parse; static objects are zero where they have no initialiser.\<close>

definition empty_interrupts :: Interrupts where
  "empty_interrupts = \<lparr>int_num_intids = 0, int_intids = replicate 5 0\<rparr>"

definition kernel_init :: Kernel where
  "kernel_init =
     \<lparr>k_psci = psci_init,
      k_uart = \<lparr>ua_uart = 0, ua_interrupts = empty_interrupts, ua_clock_frequency = 0,
        ua_rx_buffer = CharBuffer_init, ua_tx_buffer = CharBuffer_init, ua_irqs_ready = False\<rparr>,
      k_memory = \<lparr>mm_reserved_regions = empty_list, mm_ram_regions = empty_list, mm_device_regions = empty_list\<rparr>,
      k_cpus = cpus_init, k_timer = empty_interrupts,
      k_gic = \<lparr>gic_driver = None, gic_v2 = \<lparr>v2_gicd_base = 0, v2_gicc_base = 0, v2_num_interrupts = 0\<rparr>,
        gic_v3 = \<lparr>v3_gicd_base = 0, v3_gicr_base = 0, v3_num_redistributors = 0\<rparr>\<rparr>\<rparr>"

lemma kernel_init_ok: "kernel_ok kernel_init"
  using CharBuffer_init_ok cpus_init_ok
  by (simp add: kernel_ok_def kernel_init_def empty_list_def empty_interrupts_def interrupts_ok_def map_shape_def list_shape_def)

end
