(* ===== verification/Frame.thy ===== *)
theory Frame
  imports Kstdio
begin

text \<open>
  What console output leaves alone: a part \<open>F\<close> of the hardware that no UART register touches is
  the same after every routine of the UART driver and after \<open>kprintf\<close>. With it the effects
  of the other drivers survive the lines that are printed after them.
\<close>

definition uart_registers :: "u64 list" where
  "uart_registers = [DR, FR, IBRD, FBRD, LCR_H, CR, IMSC, MIS, ICR, DMACR]"

definition kept :: "('h \<Rightarrow> 'f) \<Rightarrow> Uart \<times> 'h \<Rightarrow> Uart \<times> 'h \<Rightarrow> bool" where
  "kept F uh uh' \<longleftrightarrow> ua_uart (fst uh') = ua_uart (fst uh) \<and> F (snd uh') = F (snd uh)"

lemma kept_refl: "kept F uh uh"
  by (simp add: kept_def)

lemma kept_trans: "kept F uh1 uh2 \<Longrightarrow> kept F uh2 uh3 \<Longrightarrow> kept F uh1 uh3"
  by (simp add: kept_def)

text \<open>Whatever the routine \<open>c\<close> returns, the part \<open>g\<close> of it that is the UART and the hardware has kept \<open>F\<close>.\<close>

definition keeps :: "('h \<Rightarrow> 'f) \<Rightarrow> ('a \<Rightarrow> Uart \<times> 'h) \<Rightarrow> Uart \<times> 'h \<Rightarrow> 'a comp \<Rightarrow> bool" where
  "keeps F g uh c \<longleftrightarrow> (\<forall>x. c = Some (Inr x) \<longrightarrow> kept F uh (g x))"

lemma keepsD: "keeps F g uh c \<Longrightarrow> c = Some (Inr x) \<Longrightarrow> kept F uh (g x)"
  by (simp add: keeps_def)

lemma keeps_bind:
  assumes "keeps F g uh c" "\<And>x. kept F uh (g x) \<Longrightarrow> keeps F g' (g x) (f x)"
  shows "keeps F g' uh (bind_comp c f)"
  using assms kept_trans unfolding keeps_def bind_comp_Inr_iff by metis

lemma keeps_pure:
  "(\<And>x. r = Inr x \<Longrightarrow> keeps F g uh (f x)) \<Longrightarrow> keeps F g uh (bind_comp (Some r) f)"
  unfolding keeps_def bind_comp_Inr_iff by blast

lemma keeps_simps:
  "keeps F g uh (Some (Inr x)) = kept F uh (g x)" "keeps F g uh (Some (Inl e))" "keeps F g uh None"
  by (simp_all add: keeps_def)

lemma keeps_change: "keeps F g (u, h) c \<Longrightarrow> kept F uh (u, h) \<Longrightarrow> keeps F g uh c"
  using kept_trans unfolding keeps_def by blast

lemma kept_uart: "kept F uh uh' \<Longrightarrow> ua_uart (fst uh) = base \<Longrightarrow> ua_uart (fst uh') = base"
  by (simp add: kept_def)

locale uart_frame =
  fixes mc :: "'h Machine" and base :: u64 and F :: "'h \<Rightarrow> 'f"
  assumes read_keeps: "off \<in> set uart_registers \<Longrightarrow> F (snd (mc_read32 mc (base + off) h)) = F h"
    and write_keeps: "off \<in> set uart_registers \<Longrightarrow> F (mc_write32 mc (base + off) v h) = F h"
begin

lemma registers:
  "DR \<in> set uart_registers" "FR \<in> set uart_registers" "IBRD \<in> set uart_registers" "FBRD \<in> set uart_registers"
  "LCR_H \<in> set uart_registers" "CR \<in> set uart_registers" "IMSC \<in> set uart_registers" "MIS \<in> set uart_registers"
  "ICR \<in> set uart_registers" "DMACR \<in> set uart_registers"
  by (simp_all add: uart_registers_def)

lemma uart_read_frame:
  "ua_uart u = base \<Longrightarrow> off \<in> set uart_registers \<Longrightarrow> uart_read mc u off h = Inr vh \<Longrightarrow> F (snd vh) = F h"
  using read_keeps by (auto simp: uart_read_def split: if_splits)

lemma uart_write_frame:
  "ua_uart u = base \<Longrightarrow> off \<in> set uart_registers \<Longrightarrow> uart_write mc u off v h = Inr h' \<Longrightarrow> F h' = F h"
  using write_keeps by (auto simp: uart_write_def split: if_splits)

lemma uart_modify_frame:
  assumes "ua_uart u = base" "off \<in> set uart_registers" "uart_modify mc u off f h = Inr h'"
  shows "F h' = F h"
proof -
  obtain vh where "uart_read mc u off h = Inr vh" "uart_write mc u off (f (fst vh)) (snd vh) = Inr h'"
    using assms(3) by (auto simp: uart_modify_def bind_res_Inr_iff)
  with uart_read_frame [OF assms(1,2)] uart_write_frame [OF assms(1,2)] show ?thesis by metis
qed

lemma toggle_frame:
  "ua_uart u = base \<Longrightarrow> pl011_toggle_tx_interrupts mc u on h = Inr h' \<Longrightarrow> F h' = F h"
  "ua_uart u = base \<Longrightarrow> pl011_toggle_rx_interrupts mc u on h = Inr h' \<Longrightarrow> F h' = F h"
  by (auto simp: pl011_toggle_tx_interrupts_def pl011_toggle_rx_interrupts_def toggle_imsc_mask_def bind_res_Inr_iff
      intro: uart_modify_frame registers)

lemma wait_tx_frame:
  assumes "ua_uart u = base" "pl011_wait_poll_tx_complete mc u h = Some (Inr h')"
  shows "F h' = F h"
proof -
  let ?P = "\<lambda>mc' u' h (r :: 'h res). mc' = mc \<and> ua_uart u' = base \<longrightarrow> (\<forall>h'. r = Inr h' \<longrightarrow> F h' = F h)"
  have "?P mc u h (Inr h')"
  proof (rule pl011_wait_poll_tx_complete.raw_induct [where P = ?P, OF _ assms(2)], intro impI allI, elim conjE)
    fix f mc' u' h r h'
    assume IH: "\<And>mc' u' h r. f mc' u' h = Some r \<Longrightarrow> ?P mc' u' h r" and mc: "mc' = mc" and u: "ua_uart u' = base" and r: "r = Inr h'"
      and body: "bind_comp (Some (uart_read mc' u' FR h)) (\<lambda>vh. if fst vh AND FR_TXFF \<noteq> 0 then f mc' u' (snd vh) else Some (Inr (snd vh))) = Some r"
    obtain vh where vh: "uart_read mc u' FR h = Inr vh" "if fst vh AND FR_TXFF \<noteq> 0 then f mc u' (snd vh) = Some (Inr h') else snd vh = h'"
      using body unfolding mc r by (auto simp: bind_comp_Inr_iff split: if_splits)
    have "F (snd vh) = F h" by (rule uart_read_frame [OF u registers(2) vh(1)])
    then show "F h' = F h" using vh(2) IH u by (auto split: if_splits)
  qed
  with assms(1) show ?thesis by simp
qed

lemma drain_tx_frame:
  assumes "ua_uart u = base" "pl011_drain_tx mc u h = Some (Inr uh')"
  shows "kept F (u, h) uh'"
proof -
  let ?P = "\<lambda>mc' u' h (r :: (Uart \<times> 'h) res). mc' = mc \<and> ua_uart u' = base \<longrightarrow> (\<forall>uh'. r = Inr uh' \<longrightarrow> kept F (u', h) uh')"
  have "?P mc u h (Inr uh')"
  proof (rule pl011_drain_tx.raw_induct [where P = ?P, OF _ assms(2)], intro impI allI, elim conjE, goal_cases)
    case (1 f mc' u' h r uh')
    note IH = 1(1) and mc = \<open>mc' = mc\<close> and u = \<open>ua_uart u' = base\<close>
    obtain vh where vh: "uart_read mc u' FR h = Inr vh"
      using 1 unfolding mc by (auto simp: bind_comp_Inr_iff)
    have h1: "F (snd vh) = F h" by (rule uart_read_frame [OF u registers(2) vh])
    show ?case
    proof (cases "fst vh AND FR_TXFF = 0")
      case True
      obtain oc b where rd: "read_char (ua_tx_buffer u') = Inr (oc, b)"
        using 1 True unfolding mc vh by (auto simp: bind_comp_Inr_iff)
      show ?thesis
      proof (cases oc)
        case None
        then show ?thesis using 1 True rd h1 unfolding mc vh by (auto simp: kept_def)
      next
        case (Some c)
        obtain h2 where h2: "uart_write mc u' DR (ucast c) (snd vh) = Inr h2" "f mc (u'\<lparr>ua_tx_buffer := b\<rparr>) h2 = Some (Inr uh')"
          using 1 True rd Some unfolding mc vh by (auto simp: bind_comp_Inr_iff)
        have "F h2 = F (snd vh)" by (rule uart_write_frame [OF u registers(1) h2(1)])
        moreover have "kept F (u'\<lparr>ua_tx_buffer := b\<rparr>, h2) uh'" using IH [OF h2(2)] u by simp
        ultimately show ?thesis using h1 by (simp add: kept_def)
      qed
    next
      case False
      then show ?thesis using 1 h1 unfolding mc vh by (auto simp: kept_def)
    qed
  qed
  with assms(1) show ?thesis by simp
qed

lemma drain_sync_frame:
  assumes "ua_uart u = base"
  shows "keeps F (\<lambda>x. x) (u, h) (drain_sync_loop mc u h)"
proof -
  let ?P = "\<lambda>mc' u' h (r :: (Uart \<times> 'h) res). mc' = mc \<and> ua_uart u' = base \<longrightarrow> (\<forall>uh'. r = Inr uh' \<longrightarrow> kept F (u', h) uh')"
  have "?P mc u h (Inr uh')" if r: "drain_sync_loop mc u h = Some (Inr uh')" for uh'
  proof (rule drain_sync_loop.raw_induct [where P = ?P, OF _ r], intro impI allI, elim conjE, goal_cases)
    case (1 f mc' u' h r uh')
    note IH = 1(1) and mc = \<open>mc' = mc\<close> and u = \<open>ua_uart u' = base\<close>
    show ?case
    proof (cases "elements_in_buffer (ua_tx_buffer u') \<noteq> 0")
      case True
      obtain h1 uh1 where s: "pl011_wait_poll_tx_complete mc u' h = Some (Inr h1)" "pl011_drain_tx mc u' h1 = Some (Inr uh1)"
          "f mc (fst uh1) (snd uh1) = Some (Inr uh')"
        using 1 True unfolding mc by (auto simp: bind_comp_Inr_iff)
      have d: "kept F (u', h1) uh1" by (rule drain_tx_frame [OF u s(2)])
      then have "kept F uh1 uh'" using IH [OF s(3)] kept_uart [OF d] u by simp
      with d wait_tx_frame [OF u s(1)] show ?thesis by (simp add: kept_def)
    next
      case False
      then show ?thesis using 1 by (auto simp: kept_def)
    qed
  qed
  with assms show ?thesis by (simp add: keeps_def)
qed

lemma uart_put_uart: "uart_put c u = Inr u' \<Longrightarrow> ua_uart u' = ua_uart u"
  by (auto simp: uart_put_def bind_res_Inr_iff)

lemma send_char_frame:
  assumes "ua_uart (fst uh) = base"
  shows "keeps F (\<lambda>x. x) uh (pl011_send_char_async mc c uh)"
  unfolding pl011_send_char_async_def
proof (rule keeps_pure, rule keeps_pure)
  fix u1 u2 assume "(if c = NL then uart_put CRET (fst uh) else Inr (fst uh)) = Inr u1" "uart_put c u1 = Inr u2"
  then have u2: "ua_uart u2 = base" using assms by (auto dest!: uart_put_uart split: if_splits)
  have d: "keeps F (\<lambda>x. x) (u2, snd uh) (pl011_drain_tx mc u2 (snd uh))" using drain_tx_frame [OF u2] by (simp add: keeps_def)
  have t: "keeps F (\<lambda>x. x) (u3, h3) (bind_comp (Some (pl011_toggle_tx_interrupts mc u3 on h3)) (\<lambda>h4. Some (Inr (u3, h4))))"
    if "ua_uart u3 = base" for u3 h3 on
    by (rule keeps_pure) (simp add: keeps_simps kept_def toggle_frame(1) [OF that])
  show "keeps F (\<lambda>x. x) uh (bind_comp (pl011_drain_tx mc u2 (snd uh)) (\<lambda>(u3, h3).
      if elements_in_buffer (ua_tx_buffer u3) = 0
      then bind_comp (Some (pl011_toggle_tx_interrupts mc u3 False h3)) (\<lambda>h4. Some (Inr (u3, h4)))
      else if ua_irqs_ready u3
      then bind_comp (Some (pl011_toggle_tx_interrupts mc u3 True h3)) (\<lambda>h4. Some (Inr (u3, h4)))
      else drain_sync_loop mc u3 h3))"
  proof (rule keeps_change)
    show "kept F uh (u2, snd uh)" using u2 assms by (simp add: kept_def)
    show "keeps F (\<lambda>x. x) (u2, snd uh) (bind_comp (pl011_drain_tx mc u2 (snd uh)) (\<lambda>(u3, h3).
      if elements_in_buffer (ua_tx_buffer u3) = 0
      then bind_comp (Some (pl011_toggle_tx_interrupts mc u3 False h3)) (\<lambda>h4. Some (Inr (u3, h4)))
      else if ua_irqs_ready u3
      then bind_comp (Some (pl011_toggle_tx_interrupts mc u3 True h3)) (\<lambda>h4. Some (Inr (u3, h4)))
      else drain_sync_loop mc u3 h3))"
      by (rule keeps_bind [OF d]) (use u2 t drain_sync_frame in \<open>auto simp: kept_def split: prod.splits\<close>)
  qed
qed

lemma send_str_frame:
  assumes "ua_uart (fst uh) = base"
  shows "keeps F (\<lambda>x. x) uh (pl011_send_str_async mc m p uh)"
proof -
  let ?P = "\<lambda>mc' m p uh (r :: (Uart \<times> 'h) res). mc' = mc \<and> ua_uart (fst uh) = base \<longrightarrow> (\<forall>uh'. r = Inr uh' \<longrightarrow> kept F uh uh')"
  have "?P mc m p uh (Inr uh')" if r: "pl011_send_str_async mc m p uh = Some (Inr uh')" for uh'
  proof (rule pl011_send_str_async.raw_induct [where P = ?P, OF _ r], intro impI allI, elim conjE, goal_cases)
    case (1 f mc' m p uh r uh')
    note IH = 1(1) and mc = \<open>mc' = mc\<close> and u = \<open>ua_uart (fst uh) = base\<close>
    obtain c where c: "load8 m p = Inr c" using 1 by (auto simp: bind_comp_Inr_iff)
    show ?case
    proof (cases "c = 0")
      case False
      obtain uh1 uh2 where s: "(if c = NL then pl011_send_char_async mc CRET uh else Some (Inr uh)) = Some (Inr uh1)"
          "pl011_send_char_async mc c uh1 = Some (Inr uh2)" "f mc m (p + 1) uh2 = Some (Inr uh')"
        using 1 False c unfolding mc by (auto simp: bind_comp_Inr_iff)
      have 1: "kept F uh uh1" using s(1) keepsD [OF send_char_frame [OF u]] by (cases "c = NL") (auto intro: kept_refl)
      have 2: "kept F uh1 uh2" using keepsD [OF send_char_frame [OF kept_uart [OF 1 u]] s(2)] .
      have "kept F uh2 uh'" using IH [OF s(3)] kept_uart [OF 2 kept_uart [OF 1 u]] by simp
      with 1 2 show ?thesis using kept_trans by blast
    next
      case True
      then show ?thesis using 1 c by (auto intro: kept_refl)
    qed
  qed
  with assms show ?thesis by (simp add: keeps_def)
qed

lemma print_buffer_loop_frame:
  assumes "ua_uart (fst uh) = base"
  shows "keeps F (\<lambda>x. x) uh (print_buffer_loop mc b i uh)"
proof -
  let ?P = "\<lambda>mc' b i uh (r :: (Uart \<times> 'h) res). mc' = mc \<and> ua_uart (fst uh) = base \<longrightarrow> (\<forall>uh'. r = Inr uh' \<longrightarrow> kept F uh uh')"
  have "?P mc b i uh (Inr uh')" if r: "print_buffer_loop mc b i uh = Some (Inr uh')" for uh'
  proof (rule print_buffer_loop.raw_induct [where P = ?P, OF _ r], intro impI allI, elim conjE, goal_cases)
    case (1 f mc' b i uh r uh')
    note IH = 1(1) and mc = \<open>mc' = mc\<close> and u = \<open>ua_uart (fst uh) = base\<close>
    obtain uh1 where s: "pl011_send_char_async mc (cb_ring_buffer b ! unat i) uh = Some (Inr uh1)"
        "uh1 = uh' \<or> f mc b ((i + 1) mod BufferSize) uh1 = Some (Inr uh')"
      using 1 unfolding mc by (auto simp: bind_comp_Inr_iff Let_def split: if_splits)
    have k: "kept F uh uh1" using keepsD [OF send_char_frame [OF u] s(1)] .
    with s(2) IH kept_uart [OF k u] kept_trans [OF k] show ?case by blast
  qed
  with assms show ?thesis by (simp add: keeps_def)
qed

lemma print_buffer_frame:
  assumes "ua_uart (fst uh) = base"
  shows "keeps F (\<lambda>x. x) uh (print_buffer mc b uh)"
  unfolding print_buffer_def
proof (cases "cb_start b = cb_end b")
  case False
  have "keeps F (\<lambda>x. x) uh (bind_comp (pl011_send_str_async mc (lit ''Ring buffer content: '') 0 uh) (\<lambda>uh1.
      bind_comp (print_buffer_loop mc b (cb_start b) uh1) (\<lambda>uh2. pl011_send_char_async mc NL uh2)))"
    by (rule keeps_bind [OF send_str_frame [OF assms]], rule keeps_bind [OF print_buffer_loop_frame], erule kept_uart [OF _ assms],
        rule send_char_frame) (use assms in \<open>auto simp: kept_def\<close>)
  with False show "keeps F (\<lambda>x. x) uh (if cb_start b = cb_end b then Some (Inr uh)
      else bind_comp (pl011_send_str_async mc (lit ''Ring buffer content: '') 0 uh) (\<lambda>uh1.
        bind_comp (print_buffer_loop mc b (cb_start b) uh1) (\<lambda>uh2. pl011_send_char_async mc NL uh2)))" by simp
qed (simp add: keeps_simps kept_refl)

lemma handle_tx_frame:
  assumes "ua_uart u = base"
  shows "keeps F (\<lambda>x. x) (u, h) (handle_tx mc u h)"
  unfolding handle_tx_def
proof (rule keeps_bind [where g = "\<lambda>x. x"])
  show "keeps F (\<lambda>x. x) (u, h) (pl011_drain_tx mc u h)" using drain_tx_frame [OF assms] by (simp add: keeps_def)
  fix x :: "Uart \<times> 'h" assume k: "kept F (u, h) x"
  obtain u1 h1 where x: "x = (u1, h1)" by (cases x)
  have u1: "ua_uart u1 = base" using k assms by (simp add: kept_def x)
  show "keeps F (\<lambda>x. x) x (case x of (u1, h1) \<Rightarrow> if elements_in_buffer (ua_tx_buffer u1) = 0
      then bind_comp (Some (pl011_toggle_tx_interrupts mc u1 False h1)) (\<lambda>h2. Some (Inr (u1, h2))) else Some (Inr (u1, h1)))"
    using toggle_frame(1) [OF u1] by (auto simp: x keeps_simps kept_refl intro!: keeps_pure) (auto simp: kept_def)
qed

lemma handle_rx_frame:
  assumes "ua_uart u = base"
  shows "keeps F (\<lambda>x. x) (u, h) (handle_rx mc u h)"
  unfolding handle_rx_def
proof (rule keeps_pure)
  fix x assume x: "uart_read mc u DR h = Inr x"
  obtain c h1 where ch: "x = (c, h1)" by (cases x)
  have h1: "F h1 = F h" using uart_read_frame [OF assms registers(1) x] ch by simp
  have "keeps F (\<lambda>x. x) (u, h) (print_buffer mc b (u\<lparr>ua_rx_buffer := b\<rparr>, h1))" for b
    by (rule keeps_change [OF print_buffer_frame]) (use assms h1 in \<open>simp_all add: kept_def\<close>)
  then show "keeps F (\<lambda>x. x) (u, h) (case x of (c, h1) \<Rightarrow> bind_comp (Some (buffer_char (ucast c) (ua_rx_buffer u))) (\<lambda>b.
      print_buffer mc b (u\<lparr>ua_rx_buffer := b\<rparr>, h1)))" unfolding ch prod.case by (rule keeps_pure)
qed

lemma handle_irq_frame:
  assumes "ua_uart (fst uh) = base"
  shows "keeps F (\<lambda>x. x) uh (pl011_handle_irq mc uh)"
  unfolding pl011_handle_irq_def
proof (rule keeps_pure)
  fix x assume x: "uart_read mc (fst uh) MIS (snd uh) = Inr x"
  obtain mis h1 where mh: "x = (mis, h1)" by (cases x)
  have h1: "F h1 = F (snd uh)" using uart_read_frame [OF assms registers(8) x] mh by simp
  have tx: "keeps F (\<lambda>x. x) (fst uh, h1) (if mis AND MIS_TX \<noteq> 0 then handle_tx mc (fst uh) h1 else Some (Inr (fst uh, h1)))"
    using handle_tx_frame [OF assms] by (simp add: keeps_simps kept_refl)
  have rest: "keeps F (\<lambda>x. x) x (case x of (u2, h2) \<Rightarrow>
      bind_comp (if mis AND MIS_RX \<noteq> 0 then handle_rx mc u2 h2 else Some (Inr (u2, h2))) (\<lambda>(u3, h3).
      bind_comp (Some (uart_write mc u3 ICR mis h3)) (\<lambda>h4. Some (Inr (u3, h4)))))"
    if k: "kept F (fst uh, h1) x" for x
  proof -
    obtain u2 h2 where x2: "x = (u2, h2)" by (cases x)
    have u2: "ua_uart u2 = base" using k assms by (simp add: kept_def x2)
    have rx: "keeps F (\<lambda>x. x) (u2, h2) (if mis AND MIS_RX \<noteq> 0 then handle_rx mc u2 h2 else Some (Inr (u2, h2)))"
      using handle_rx_frame [OF u2] by (simp add: keeps_simps kept_refl)
    show ?thesis
      unfolding x2 prod.case
    proof (rule keeps_bind [OF rx])
      fix y assume "kept F (u2, h2) y"
      then have "ua_uart (fst y) = base" using u2 by (simp add: kept_def)
      from uart_write_frame [OF this registers(9)]
      show "keeps F (\<lambda>x. x) y (case y of (u3, h3) \<Rightarrow> bind_comp (Some (uart_write mc u3 ICR mis h3)) (\<lambda>h4. Some (Inr (u3, h4))))"
        by (cases y) (auto simp: keeps_simps kept_def intro!: keeps_pure)
    qed
  qed
  show "keeps F (\<lambda>x. x) uh (case x of (mis, h1) \<Rightarrow>
      bind_comp (if mis AND MIS_TX \<noteq> 0 then handle_tx mc (fst uh) h1 else Some (Inr (fst uh, h1))) (\<lambda>(u2, h2).
      bind_comp (if mis AND MIS_RX \<noteq> 0 then handle_rx mc u2 h2 else Some (Inr (u2, h2))) (\<lambda>(u3, h3).
      bind_comp (Some (uart_write mc u3 ICR mis h3)) (\<lambda>h4. Some (Inr (u3, h4))))))"
    unfolding mh prod.case
    by (rule keeps_change [OF keeps_bind [OF tx rest]]) (use h1 in \<open>simp_all add: kept_def\<close>)
qed

lemma send_digits_frame:
  "ua_uart (fst uh) = base \<Longrightarrow> keeps F (\<lambda>x. x) uh (send_digits mc buf n uh)"
proof (induction n arbitrary: uh)
  case (Suc n)
  show ?case unfolding send_digits.simps
    by (rule keeps_bind [OF send_char_frame [OF Suc.prems]]) (rule Suc.IH [OF kept_uart [OF _ Suc.prems]])
qed (simp add: keeps_simps kept_refl)

lemma print_number_frame:
  assumes "ua_uart (fst uh) = base"
  shows "keeps F (\<lambda>x. x) uh (kprintf_print_number mc n b uh)"
proof (cases "n = 0")
  case False
  have neg: "keeps F snd uh (bind_comp (pl011_send_char_async mc (ch CHR ''-'') uh) (\<lambda>uh1.
      if n = - (2 ^ 31) then Some (Inl SignedOverflow) else Some (Inr (- n, uh1))))"
    by (rule keeps_bind [OF send_char_frame [OF assms]]) (simp add: keeps_simps kept_refl)
  have sign: "keeps F snd uh (if n < 0 then bind_comp (pl011_send_char_async mc (ch CHR ''-'') uh) (\<lambda>uh1.
      if n = - (2 ^ 31) then Some (Inl SignedOverflow) else Some (Inr (- n, uh1))) else Some (Inr (n, uh)))"
    using neg by (cases "n < 0") (simp_all add: keeps_simps kept_refl del: power_numeral)
  have dig: "keeps F (\<lambda>x. x) (snd x) (case x of (n, uh1) \<Rightarrow> bind_comp (number_loop n b 0 (replicate 20 0)) (\<lambda>(k, buf). send_digits mc buf k uh1))"
    if "kept F uh (snd x)" for x
  proof -
    obtain k uh1 where x: "x = (k, uh1)" by (cases x)
    have d: "keeps F (\<lambda>x. x) uh1 (send_digits mc buf i uh1)" for buf i
      using send_digits_frame [OF kept_uart [OF that assms]] by (simp add: x)
    show ?thesis unfolding x prod.case snd_conv keeps_def
      by (auto simp: bind_comp_Inr_iff intro: keepsD [OF d])
  qed
  show ?thesis unfolding kprintf_print_number_def if_not_P [OF False] by (rule keeps_bind [OF sign dig])
qed (simp add: kprintf_print_number_def send_char_frame [OF assms])

lemma print_spec_frame:
  assumes "ua_uart (fst uh) = base"
  shows "keeps F snd uh (print_spec mc m c args uh)"
proof -
  note num = print_number_frame and str = send_str_frame and chr = send_char_frame
  have k1: "keeps F snd uh (bind_comp c (\<lambda>uh1. Some (Inr (rest, uh1))))" if "keeps F (\<lambda>x. x) uh c" for rest :: "va list" and c
    by (rule keeps_bind [OF that]) (simp add: keeps_simps kept_refl)
  have hex: "keeps F snd uh (bind_comp (pl011_send_str_async mc (lit ''0x'') 0 uh) (\<lambda>uh1.
      bind_comp (kprintf_print_number mc v 16 uh1) (\<lambda>uh2. Some (Inr (rest, uh2)))))" for v and rest :: "va list"
    by (rule keeps_bind [OF str [OF assms]], rule keeps_bind [OF num], erule kept_uart [OF _ assms]) (simp add: keeps_simps kept_refl)
  have "keeps F snd uh (send_str_arg mc m args uh)"
    unfolding send_str_arg_def by (auto simp: keeps_simps str [OF assms] intro!: k1 split: list.splits va.splits)
  then show ?thesis
    unfolding print_spec_def
    by (auto simp: keeps_simps kept_refl split_beta intro!: keeps_pure k1 hex num [OF assms] chr [OF assms])
qed

lemma vkprintf_frame:
  assumes "ua_uart (fst uh) = base"
  shows "keeps F (\<lambda>x. x) uh (vkprintf mc m fm p args uh)"
proof -
  let ?P = "\<lambda>mc' m fm p args uh (r :: (Uart \<times> 'h) res). mc' = mc \<and> ua_uart (fst uh) = base \<longrightarrow> (\<forall>uh'. r = Inr uh' \<longrightarrow> kept F uh uh')"
  have "?P mc m fm p args uh (Inr uh')" if r: "vkprintf mc m fm p args uh = Some (Inr uh')" for uh'
  proof (rule vkprintf.raw_induct [where P = ?P, OF _ r], intro impI allI, elim conjE, goal_cases)
    case (1 f mc' m fm p args uh r uh')
    note IH = 1(1) and mc = \<open>mc' = mc\<close> and u = \<open>ua_uart (fst uh) = base\<close>
    obtain c where c: "load8 fm p = Inr c" using 1 by (auto simp: bind_comp_Inr_iff)
    have go: "kept F uh uh'" if "kept F uh uh1" "f mc m fm p' args' uh1 = Some (Inr uh')" for uh1 p' args'
      using IH [OF that(2)] kept_uart [OF that(1) u] kept_trans [OF that(1)] by simp
    show ?case
    proof (cases "c = ch CHR ''%''")
      case True
      then have c0: "c \<noteq> 0" by (simp add: ch_def)
      obtain s where s: "load8 fm (p + 1) = Inr s" using 1 c c0 True by (auto simp: bind_comp_Inr_iff)
      show ?thesis
      proof (cases "s = 0")
        case False
        obtain x where x: "print_spec mc m s args uh = Some (Inr x)" "f mc m fm (p + 2) (fst x) (snd x) = Some (Inr uh')"
          using 1 False s c c0 True unfolding mc by (auto simp: bind_comp_Inr_iff)
        show ?thesis by (rule go [OF keepsD [OF print_spec_frame [OF u] x(1)] x(2)])
      next
        case z: True
        show ?thesis by (rule go [OF kept_refl, of "p + 1" args]) (use 1 z s c c0 True mc in simp)
      qed
    next
      case no: False
      show ?thesis
      proof (cases "c = 0")
        case False
        obtain uh1 where x: "pl011_send_char_async mc c uh = Some (Inr uh1)" "f mc m fm (p + 1) args uh1 = Some (Inr uh')"
          using 1 False no c unfolding mc by (auto simp: bind_comp_Inr_iff)
        show ?thesis using go [OF _ x(2)] keepsD [OF send_char_frame [OF u] x(1)] by simp
      next
        case True
        then show ?thesis using 1 c by (auto intro: kept_refl)
      qed
    qed
  qed
  with assms show ?thesis by (simp add: keeps_def)
qed

lemma kprintf_frame: "ua_uart (fst uh) = base \<Longrightarrow> keeps F (\<lambda>x. x) uh (kprintf mc m f args uh)"
  unfolding kprintf_def by (rule vkprintf_frame)

end

text \<open>
  A UART and another device on one bus: the page of the UART belongs to it, every other address, the
  system registers and the firmware to the other one. The other device is what printing leaves alone.
\<close>

definition on_bus :: "u64 \<Rightarrow> 'a Machine \<Rightarrow> 'b Machine \<Rightarrow> ('a \<times> 'b) Machine" where
  "on_bus base ma mb =
     (let mine = (\<lambda>a. a - base < 0x1000) in
      \<lparr>mc_read32 = (\<lambda>a (x, y). if mine a then let (v, x1) = mc_read32 ma a x in (v, x1, y) else let (v, y1) = mc_read32 mb a y in (v, x, y1)),
       mc_write32 = (\<lambda>a v (x, y). if mine a then (mc_write32 ma a v x, y) else (x, mc_write32 mb a v y)),
       mc_read64 = (\<lambda>a (x, y). if mine a then let (v, x1) = mc_read64 ma a x in (v, x1, y) else let (v, y1) = mc_read64 mb a y in (v, x, y1)),
       mc_write64 = (\<lambda>a v (x, y). if mine a then (mc_write64 ma a v x, y) else (x, mc_write64 mb a v y)),
       mc_write8 = (\<lambda>a v (x, y). if mine a then (mc_write8 ma a v x, y) else (x, mc_write8 mb a v y)),
       mc_mrs = (\<lambda>r (x, y). let (v, y1) = mc_mrs mb r y in (v, x, y1)),
       mc_msr = (\<lambda>r v (x, y). (x, mc_msr mb r v y)),
       mc_firmware = (\<lambda>c args (x, y). let (v, y1) = mc_firmware mb c args y in (v, x, y1)),
       mc_sev = (\<lambda>(x, y). (x, mc_sev mb y))\<rparr>)"

lemma uart_page: "off \<in> set uart_registers \<Longrightarrow> base + off - base < (0x1000 :: u64)"
  by (auto simp: uart_registers_def DR_def FR_def IBRD_def FBRD_def LCR_H_def CR_def IMSC_def MIS_def ICR_def DMACR_def)

lemma on_bus_uart:
  assumes "off \<in> set uart_registers"
  shows "mc_read32 (on_bus base ma mb) (base + off) h =
      (fst (mc_read32 ma (base + off) (fst h)), snd (mc_read32 ma (base + off) (fst h)), snd h)"
    "mc_write32 (on_bus base ma mb) (base + off) v h = (mc_write32 ma (base + off) v (fst h), snd h)"
  using uart_page [OF assms, of base] by (simp_all add: on_bus_def Let_def split_beta)

interpretation bus: uart_frame "on_bus base ma mb" base snd for base ma mb
  by unfold_locales (simp_all add: on_bus_uart)

end
