(* ===== verification/Kernel.thy ===== *)
theory Kernel
  imports Idmap_Setup Exception SpinLock Node_Handlers Frame
begin

text \<open>
  The kernel (\<open>src/src/kernel.cpp\<close>): \<open>kern_main\<close> on the boot core and \<open>secondary_kern_main\<close> on every core,
  composed of the components as the code composes them. \<open>MMU::setup_idmap_page_tables\<close> appears here with
  the lines it prints. Interrupts that arrive while these routines run are not interleaved.
\<close>

section \<open>State\<close>

record 'h KState =
  ks_kernel :: Kernel
  ks_tables :: PageTables
  ks_regs :: SysRegs
  ks_print_lock :: u32
  ks_hw :: 'h

text \<open>What the linker decides: the page tables, the image, and the entry of the secondary cores.\<close>

record Image =
  im_layout :: Layout
  im_start :: u64
  im_end :: u64
  im_secondary_start :: u64

section \<open>The identity map with its console lines\<close>

fun map_ram_printed ::
    "'h Machine \<Rightarrow> mem \<Rightarrow> Layout \<Rightarrow> Region list \<Rightarrow> ptmem \<Rightarrow> Uart \<times> 'h \<Rightarrow> (ptmem \<times> Uart \<times> 'h) comp" where
  "map_ram_printed mc m lay [] pt uh = Some (Inr (pt, uh))"
| "map_ram_printed mc m lay (r # rs) pt uh =
     bind_comp (kprintf mc m (''RAM region: [%p, %p), %p'' @ [CHR 0x0A])
       [Slot (reg_start r), Slot (reg_start r + reg_size r), Slot (reg_size r)] uh) (\<lambda>uh1.
     bind_comp (Some (map_ram_region lay r pt)) (\<lambda>pt1.
     map_ram_printed mc m lay rs pt1 uh1))"

fun map_device_printed ::
    "'h Machine \<Rightarrow> mem \<Rightarrow> Layout \<Rightarrow> Region list \<Rightarrow> PageTables \<Rightarrow> Uart \<times> 'h \<Rightarrow> (PageTables \<times> Uart \<times> 'h) comp" where
  "map_device_printed mc m lay [] s uh = Some (Inr (s, uh))"
| "map_device_printed mc m lay (r # rs) s uh =
     bind_comp (kprintf mc m (''Device region: [%p, %p), %p'' @ [CHR 0x0A])
       [Slot (reg_start r), Slot (reg_start r + reg_size r), Slot (reg_size r)] uh) (\<lambda>uh1.
     bind_comp (map_device_region lay r s) (\<lambda>s1.
     map_device_printed mc m lay rs s1 uh1))"

definition mmu_setup_idmap ::
    "'h Machine \<Rightarrow> mem \<Rightarrow> Layout \<Rightarrow> MemoryMap \<Rightarrow> PageTables \<Rightarrow> SysRegs \<Rightarrow> Uart \<times> 'h \<Rightarrow> ((PageTables \<times> SysRegs) \<times> Uart \<times> 'h) comp" where
  "mmu_setup_idmap mc m lay mm s r uh =
     bind_comp (Some (validate_device_regions mm)) (\<lambda>_.
     bind_comp (Some (pte_mark_as_table_descriptor lay (lay_l0 lay) 0 (pts_mem s))) (\<lambda>pt1.
     bind_comp (Some (pte_point_to_next_level lay (lay_l0 lay) 0 (lay_l1 lay) pt1)) (\<lambda>pt2.
     bind_comp (map_ram_printed mc m lay (regions (mm_ram_regions mm)) pt2 uh) (\<lambda>(pt3, uh1).
     bind_comp (map_device_printed mc m lay (regions (mm_device_regions mm)) (s\<lparr>pts_mem := pt3\<rparr>) uh1) (\<lambda>(s1, uh2).
     bind_comp (Some (setup_core_specific lay r)) (\<lambda>r1.
     Some (Inr ((s1, r1), uh2))))))))"

section \<open>The routines of the kernel\<close>

text \<open>
  A \<open>SpinLockGuard\<close> as the core that makes it sees it, with no other core running: the lock is taken when it is
  free, otherwise the core spins (lemma \<open>guard_lock_solo\<close> relates this to the instructions).
\<close>

definition guard_lock :: "u32 \<Rightarrow> u32 comp" where
  "guard_lock l = (if l = 0 then Some (Inr 1) else None)"

definition guard_unlock :: "u32 \<Rightarrow> u32" where
  "guard_unlock l = 0"

definition secondary_kern_main :: "'h Machine \<Rightarrow> mem \<Rightarrow> Image \<Rightarrow> 'h KState \<Rightarrow> 'h KState comp" where
  "secondary_kern_main mc m img ks =
     (let (cid, h0) = cpu_id mc (ks_hw ks); k = ks_kernel ks in
      bind_comp (Some (driver (k_gic k))) (\<lambda>v.
      let h1 = gic_initialize_core_specific mc v (k_gic k) h0 in
      bind_comp (Some (setup_core_specific (im_layout img) (ks_regs ks))) (\<lambda>regs.
      let h2 = unmask_irqs mc h1;
          u = signal_irqs_ready (k_uart k) in
      bind_comp (guard_lock (ks_print_lock ks)) (\<lambda>l.
      bind_comp (kprintf mc m (''Running core %d'' @ [CHR 0x0A]) [Slot cid] (u, h2)) (\<lambda>(u1, h3).
      Some (Inr (ks\<lparr>ks_kernel := k\<lparr>k_uart := u1\<rparr>, ks_regs := regs, ks_print_lock := guard_unlock l, ks_hw := h3\<rparr>)))))))"

text \<open>The two interrupts that \<open>kern_main\<close> sets up; their ids are converted to \<open>int\<close>.\<close>

definition init_device_irqs :: "'h Machine \<Rightarrow> DriverVersion \<Rightarrow> Gic \<Rightarrow> u32 \<Rightarrow> u32 res \<Rightarrow> 'h \<Rightarrow> 'h res" where
  "init_device_irqs mc v g uart timer h =
     bind_res (gic_initialize_interrupt mc v g (sint uart) PriorityDefault h) (\<lambda>h1.
     bind_res timer (\<lambda>t. gic_initialize_interrupt mc v g (sint t) PriorityDefault h1))"

definition kern_boot :: "'h Machine \<Rightarrow> mem \<Rightarrow> Image \<Rightarrow> u64 \<times> u64 \<Rightarrow> u64 \<Rightarrow> 'h KState \<Rightarrow> 'h KState comp" where
  "kern_boot mc m img out fdt ks =
     (let k = ks_kernel ks in
      bind_comp (uart_initialize mc (k_uart k) (ks_hw ks)) (\<lambda>h1.
      bind_comp (kprintf mc m (''Booting the floss kernel'' @ [CHR 0x0A]) [] (k_uart k, h1)) (\<lambda>uh2.
      bind_comp (mmu_setup_idmap mc m (im_layout img) (k_memory k) (ks_tables ks) (ks_regs ks) uh2) (\<lambda>((tables, regs), u3, h3).
      bind_comp (memory_init m (im_start img) (im_end img) out fdt (k_memory k)) (\<lambda>mm.
      let (el, h4) = exception_level mc h3 in
      bind_comp (kprintf mc m (''Kernel running at exception level: %d'' @ [CHR 0x0A]) [Slot el] (u3, h4)) (\<lambda>uh5.
      bind_comp (Some (driver (k_gic k))) (\<lambda>v.
      bind_comp (gic_initialize mc m v (k_gic k, uh5)) (\<lambda>(g, u6, h6).
      bind_comp (Some (uart_intid u6)) (\<lambda>uart.
      bind_comp (Some (init_device_irqs mc v g uart (timer_intid (k_timer k) NonSecure) h6)) (\<lambda>h7.
      bind_comp (secondary_kern_main mc m img
        (ks\<lparr>ks_kernel := k\<lparr>k_uart := u6, k_memory := mm, k_gic := g\<rparr>, ks_tables := tables, ks_regs := regs, ks_hw := h7\<rparr>)) (\<lambda>ks8.
      bind_comp (boot_secondary_cores mc m (k_psci (ks_kernel ks8)) (im_secondary_start img) (k_cpus (ks_kernel ks8))
        (k_uart (ks_kernel ks8), ks_hw ks8)) (\<lambda>(u9, h9).
      Some (Inr (ks8\<lparr>ks_kernel := (ks_kernel ks8)\<lparr>k_uart := u9\<rparr>, ks_hw := h9\<rparr>))))))))))))))"

text \<open>\<open>junk1\<close>, \<open>junk2\<close> and \<open>out\<close> are what uninitialised locals hold, \<open>table0\<close> the static phandle table.\<close>

definition kern_main ::
    "'h Machine \<Rightarrow> mem \<Rightarrow> Image \<Rightarrow> NodeFrame list \<Rightarrow> NodeFrame list \<Rightarrow> u64 \<times> u64 \<Rightarrow> NodeMapping list \<Rightarrow> u64 \<Rightarrow> 'h KState \<Rightarrow> 'h KState comp" where
  "kern_main mc m img junk1 junk2 out table0 fdt ks =
     bind_comp (parse_frames m (node_handlers m) fdt junk1 junk2 table0 (ks_kernel ks)) (\<lambda>(status, table, k).
     let ks1 = ks\<lparr>ks_kernel := k\<rparr> in
     if status \<noteq> StatusOk then Some (Inr ks1) else kern_boot mc m img out fdt ks1)"

section \<open>The identity map is the same with its console lines\<close>

definition region_text :: "string \<Rightarrow> Region \<Rightarrow> u8 list" where
  "region_text kind r = bytes_of kind @ bytes_of '' region: ['' @ hex_text (reg_start r) @ bytes_of '', '' @
     hex_text (reg_start r + reg_size r) @ bytes_of ''), '' @ hex_text (reg_size r) @ crnl"

lemma render_region:
  "render_text (bytes_of (''RAM region: [%p, %p), %p'' @ [CHR 0x0A])) [Slot a, Slot (a + n), Slot n] =
     Some (region_text ''RAM'' \<lparr>reg_start = a, reg_size = n\<rparr>)"
  "render_text (bytes_of (''Device region: [%p, %p), %p'' @ [CHR 0x0A])) [Slot a, Slot (a + n), Slot n] =
     Some (region_text ''Device'' \<lparr>reg_start = a, reg_size = n\<rparr>)"
  by (simp_all add: region_text_def bytes_of_def ch_def crlf_def crnl_def hex_text_def NL_def CRET_def)

lemma region_printed:
  assumes "console mc d uh"
  shows "\<exists>uh'. kprintf mc m (''RAM region: [%p, %p), %p'' @ [CHR 0x0A])
      [Slot (reg_start r), Slot (reg_start r + reg_size r), Slot (reg_size r)] uh = Some (Inr uh') \<and>
    put_out d uh (region_text ''RAM'' r) uh'"
    "\<exists>uh'. kprintf mc m (''Device region: [%p, %p), %p'' @ [CHR 0x0A])
      [Slot (reg_start r), Slot (reg_start r + reg_size r), Slot (reg_size r)] uh = Some (Inr uh') \<and>
    put_out d uh (region_text ''Device'' r) uh'"
  using kprintf_text [OF render_region(1) assms, of m "reg_start r" "reg_size r"]
    kprintf_text [OF render_region(2) assms, of m "reg_start r" "reg_size r"]
  by (simp_all add: region_text_def)

lemma map_ram_printed_out:
  "console mc d uh \<Longrightarrow>
   (case map_ram_regions lay rs pt of
      Inl e \<Rightarrow> map_ram_printed mc m lay rs pt uh = Some (Inl e)
    | Inr pt' \<Rightarrow> \<exists>uh'. map_ram_printed mc m lay rs pt uh = Some (Inr (pt', uh')) \<and>
        put_out d uh (concat (map (region_text ''RAM'') rs)) uh')"
proof (induction rs arbitrary: pt uh)
  case Nil
  then show ?case using put_out_refl by simp
next
  case (Cons r rs)
  obtain uh1 where uh1: "kprintf mc m (''RAM region: [%p, %p), %p'' @ [CHR 0x0A])
      [Slot (reg_start r), Slot (reg_start r + reg_size r), Slot (reg_size r)] uh = Some (Inr uh1)"
      "put_out d uh (region_text ''RAM'' r) uh1"
    using region_printed(1) [OF Cons.prems] by blast
  have step: "map_ram_printed mc m lay (r # rs) pt uh =
      bind_comp (Some (map_ram_region lay r pt)) (\<lambda>pt1. map_ram_printed mc m lay rs pt1 uh1)"
    unfolding map_ram_printed.simps uh1(1) bind_comp_simps ..
  show ?case
  proof (cases "map_ram_region lay r pt")
    case (Inr pt1)
    show ?thesis
      using Cons.IH [OF put_out_console [OF Cons.prems uh1(2)], of pt1] put_out_trans [OF uh1(2)]
      unfolding step Inr map_ram_regions.simps bind_res_simps bind_comp_simps
      by (cases "map_ram_regions lay rs pt1") auto
  next
    case (Inl e)
    show ?thesis unfolding step Inl map_ram_regions.simps by simp
  qed
qed

lemma map_device_printed_out:
  "console mc d uh \<Longrightarrow>
   (case map_device_regions lay rs s of
      None \<Rightarrow> map_device_printed mc m lay rs s uh = None
    | Some (Inl e) \<Rightarrow> map_device_printed mc m lay rs s uh = Some (Inl e)
    | Some (Inr s') \<Rightarrow> \<exists>uh'. map_device_printed mc m lay rs s uh = Some (Inr (s', uh')) \<and>
        put_out d uh (concat (map (region_text ''Device'') rs)) uh')"
proof (induction rs arbitrary: s uh)
  case Nil
  then show ?case using put_out_refl by simp
next
  case (Cons r rs)
  obtain uh1 where uh1: "kprintf mc m (''Device region: [%p, %p), %p'' @ [CHR 0x0A])
      [Slot (reg_start r), Slot (reg_start r + reg_size r), Slot (reg_size r)] uh = Some (Inr uh1)"
      "put_out d uh (region_text ''Device'' r) uh1"
    using region_printed(2) [OF Cons.prems] by blast
  have step: "map_device_printed mc m lay (r # rs) s uh =
      bind_comp (map_device_region lay r s) (\<lambda>s1. map_device_printed mc m lay rs s1 uh1)"
    unfolding map_device_printed.simps uh1(1) bind_comp_simps ..
  show ?case
  proof (cases "map_device_region lay r s")
    case None
    show ?thesis unfolding step None map_device_regions.simps by simp
  next
    case (Some x)
    show ?thesis
    proof (cases x)
      case (Inl e)
      show ?thesis unfolding step Some Inl map_device_regions.simps by simp
    next
      case (Inr s1)
      show ?thesis
        using Cons.IH [OF put_out_console [OF Cons.prems uh1(2)], of s1] put_out_trans [OF uh1(2)]
        unfolding step Some Inr map_device_regions.simps bind_comp_simps
        by (auto split: option.splits sum.splits)
    qed
  qed
qed

lemma mmu_setup_out:
  assumes "console mc d uh"
  shows "case setup_idmap_page_tables lay mm s r of
      None \<Rightarrow> mmu_setup_idmap mc m lay mm s r uh = None
    | Some (Inl e) \<Rightarrow> mmu_setup_idmap mc m lay mm s r uh = Some (Inl e)
    | Some (Inr x) \<Rightarrow> \<exists>uh'. mmu_setup_idmap mc m lay mm s r uh = Some (Inr (x, uh')) \<and>
        put_out d uh (concat (map (region_text ''RAM'') (regions (mm_ram_regions mm))) @
          concat (map (region_text ''Device'') (regions (mm_device_regions mm)))) uh'"
proof -
  let ?ok = "\<exists>pt1 pt2. validate_device_regions mm = Inr () \<and> pte_mark_as_table_descriptor lay (lay_l0 lay) 0 (pts_mem s) = Inr pt1 \<and>
    pte_point_to_next_level lay (lay_l0 lay) 0 (lay_l1 lay) pt1 = Inr pt2"
  show ?thesis
  proof (cases ?ok)
    case True
    then obtain pt1 pt2 where 4: "validate_device_regions mm = Inr ()" "pte_mark_as_table_descriptor lay (lay_l0 lay) 0 (pts_mem s) = Inr pt1"
      "pte_point_to_next_level lay (lay_l0 lay) 0 (lay_l1 lay) pt1 = Inr pt2" by blast
    note unf = setup_idmap_page_tables_def [of lay mm s r, unfolded 4 bind_comp_simps]
      mmu_setup_idmap_def [of mc m lay mm s r uh, unfolded 4 bind_comp_simps]
    show ?thesis
    proof (cases "map_ram_regions lay (regions (mm_ram_regions mm)) pt2")
      case (Inl e)
      then show ?thesis
        using map_ram_printed_out [OF assms, where lay = lay and rs = "regions (mm_ram_regions mm)" and pt = pt2 and m = m] unfolding unf by simp
    next
      case (Inr pt3)
      obtain uh1 where uh1: "map_ram_printed mc m lay (regions (mm_ram_regions mm)) pt2 uh = Some (Inr (pt3, uh1))"
          "put_out d uh (concat (map (region_text ''RAM'') (regions (mm_ram_regions mm)))) uh1"
        using map_ram_printed_out [OF assms, where lay = lay and rs = "regions (mm_ram_regions mm)" and pt = pt2 and m = m] Inr by auto
      note dev = map_device_printed_out [OF put_out_console [OF assms uh1(2)], where lay = lay and rs = "regions (mm_device_regions mm)" and s = "s\<lparr>pts_mem := pt3\<rparr>" and m = m]
      show ?thesis
        unfolding unf Inr uh1(1) bind_comp_simps prod.case
        using dev put_out_trans [OF uh1(2)]
        by (cases "setup_core_specific lay r") (auto split: option.splits sum.splits)
    qed
  next
    case False
    then show ?thesis unfolding setup_idmap_page_tables_def mmu_setup_idmap_def
      by (cases "validate_device_regions mm"; cases "pte_mark_as_table_descriptor lay (lay_l0 lay) 0 (pts_mem s)";
          cases "pte_point_to_next_level lay (lay_l0 lay) 0 (lay_l1 lay) (projr (pte_mark_as_table_descriptor lay (lay_l0 lay) 0 (pts_mem s)))") auto
  qed
qed

lemma virt_console: "console sim_machine sim_pl011 (sim_uart, [], 0, 0)"
  using sim_uart_ok by (simp add: console_def uart_ok_def)

section \<open>The print lock\<close>

text \<open>
  A core that runs the instructions of \<open>lock\<close> alone: a free lock is taken, at a taken one it spins for ever.
\<close>

lemma guard_lock_solo:
  assumes "co_pos (ls_core s i) = InLock 0"
  shows "guard_lock (ls_lock s) = Some (Inr l) \<Longrightarrow>
      co_pos (ls_core ((core_step i ^^ 5) s) i) = Guarded \<and> ls_lock ((core_step i ^^ 5) s) = l"
    and "guard_lock (ls_lock s) = None \<Longrightarrow> co_pos (ls_core ((core_step i ^^ n) s) i) \<noteq> Guarded"
proof -
  show "co_pos (ls_core ((core_step i ^^ 5) s) i) = Guarded \<and> ls_lock ((core_step i ^^ 5) s) = l"
    if "guard_lock (ls_lock s) = Some (Inr l)"
  proof -
    have "ls_lock s = 0" "l = 1" using that by (auto simp: guard_lock_def split: if_splits)
    then show ?thesis
      using assms by (simp add: numeral_eq_Suc run_simps del: funpow.simps(2))
  qed
  show "co_pos (ls_core ((core_step i ^^ n) s) i) \<noteq> Guarded" if t: "guard_lock (ls_lock s) = None"
  proof -
    have l: "ls_lock s \<noteq> 0" using t by (auto simp: guard_lock_def split: if_splits)
    have "let s' = (core_step i ^^ n) s in ls_lock s' = ls_lock s \<and>
        (co_pos (ls_core s' i) = InLock 0 \<or> co_pos (ls_core s' i) = InLock 1 \<and> co_reg (ls_core s' i) W0 = ls_lock s)"
    proof (induction n)
      case (Suc n)
      then show ?case using l by (auto simp: Let_def core_step_simps)
    qed (use assms in simp)
    then show ?thesis by (auto simp: Let_def)
  qed
qed

section \<open>Booting\<close>

text \<open>C38: A blob that the parser does not accept leaves everything as it is: \<open>kern_main\<close> returns without
  touching the hardware, the page tables or its own state.\<close>

theorem kern_main_rejects:
  assumes "parser_init m parser_default fdt = Inr (status, s)" and "status \<noteq> StatusOk"
  shows "kern_main mc m img junk1 junk2 out table0 fdt ks = Some (Inr ks)"
  using assms by (simp add: kern_main_def parse_frames_def parse_frames_phandle_def)

definition virt_image :: Image where
  "virt_image = \<lparr>im_layout = virt_layout, im_start = 0x40080000, im_end = 0x40800000, im_secondary_start = 0x40080100\<rparr>"

definition virt_state :: "'h \<Rightarrow> 'h KState" where
  "virt_state h = \<lparr>ks_kernel = kernel_init, ks_tables = bss_tables, ks_regs = reset_regs, ks_print_lock = 0, ks_hw = h\<rparr>"

theorem kern_main_rejects_witness:
  "kern_main sim_machine (mem_of 4096 (replicate 40 7)) virt_image [] [] (0, 0) [] 4096 (virt_state ([], 0, 0)) =
     Some (Inr (virt_state ([], 0, 0)))"
proof -
  let ?m = "mem_of 4096 (replicate 40 7)"
  have b: "bytes_at ?m 4096 (replicate 40 7)" by (rule bytes_at_mem_of) simp
  have four: "replicate 4 x = [x, x, x, x]" for x :: u8 by (simp add: numeral_eq_Suc)
  have "replicate 40 (7 :: u8) = enc32 0x07070707 @ replicate 36 7"
    using replicate_add [of 4 36 "7 :: u8"] by (simp add: four enc32_def)
  then have "bytes_at ?m 4096 (enc32 0x07070707)" using b bytes_at_prefix by metis
  then have magic: "be32 ?m 4096 = Inr 0x07070707" by (rule be32_enc32)
  have nz: "(4096 :: u64) \<noteq> 0" by simp
  have "mapped ?m 4096 40" using bytes_at_mapped [OF b] by simp
  then obtain magic version totalsize off_struct off_strings off_rsvmap size_struct size_strings s where
      p: "be32 ?m 4096 = Inr magic" "parser_init ?m parser_default 4096 = Inr (init_status magic version totalsize
        off_struct off_strings off_rsvmap size_struct size_strings, s)"
    by (rule parser_init_fields [OF _ nz, of _ parser_default]) (rule that)
  have "init_status magic version totalsize off_struct off_strings off_rsvmap size_struct size_strings \<noteq> StatusOk"
    using p(1) [unfolded magic] by (auto simp: init_status_def FDT_MAGIC_def)
  with p(2) show ?thesis by (rule kern_main_rejects)
qed

section \<open>A core that is ready for interrupts\<close>

definition running_text :: "u64 \<Rightarrow> u8 list" where
  "running_text c = bytes_of ''Running core '' @ number_text 10 (int (unat c)) @ crnl"

lemma secondary_kern_main_spec:
  fixes mc :: "'h Machine" and ks :: "'h KState"
  defines "k \<equiv> ks_kernel ks"
  assumes "console mc d (k_uart k, ks_hw ks)" and "ks_print_lock ks = 0"
    and "gic_driver (k_gic k) = Some v" and "setup_core_specific (im_layout img) (ks_regs ks) = Inr regs" and "cpu_id mc (ks_hw ks) = (c, h0)"
  shows "\<exists>uh'. secondary_kern_main mc m img ks =
      Some (Inr (ks\<lparr>ks_kernel := k\<lparr>k_uart := fst uh'\<rparr>, ks_regs := regs, ks_print_lock := 0, ks_hw := snd uh'\<rparr>)) \<and>
    kprintf mc m (''Running core %d'' @ [CHR 0x0A]) [Slot c]
      ((k_uart k)\<lparr>ua_irqs_ready := True\<rparr>, unmask_irqs mc (gic_initialize_core_specific mc v (k_gic k) h0)) = Some (Inr uh') \<and>
    put_out d ((k_uart k)\<lparr>ua_irqs_ready := True\<rparr>, unmask_irqs mc (gic_initialize_core_specific mc v (k_gic k) h0)) (running_text c) uh'"
proof -
  define u h2 where "u = signal_irqs_ready (k_uart k)" and "h2 = unmask_irqs mc (gic_initialize_core_specific mc v (k_gic k) h0)"
  have u: "(k_uart k)\<lparr>ua_irqs_ready := True\<rparr> = u" by (simp add: u_def signal_irqs_ready_def)
  have con: "console mc d (u, h2)" using assms(2) by (simp add: console_def u_def signal_irqs_ready_def)
  have "sint (ucast c :: u32) = int (unat c)" by (rule small_slot) (use cpu_id_small [of mc "ks_hw ks"] assms(6) in simp)
  then have "render_text (bytes_of (''Running core %d'' @ [CHR 0x0A])) [Slot c] = Some (running_text c)"
    by (simp add: running_text_def bytes_of_def ch_def crlf_def crnl_def NL_def CRET_def not_int_min del: of_nat_unat)
  from kprintf_text [OF this con, of m] obtain uh3 where uh3: "kprintf mc m (''Running core %d'' @ [CHR 0x0A]) [Slot c] (u, h2) = Some (Inr uh3)"
      "put_out d (u, h2) (running_text c) uh3" by auto
  have "secondary_kern_main mc m img ks = Some (Inr (ks\<lparr>ks_kernel := k\<lparr>k_uart := fst uh3\<rparr>, ks_regs := regs,
      ks_print_lock := 0, ks_hw := snd uh3\<rparr>))"
    unfolding secondary_kern_main_def assms(6) Let_def prod.case k_def [symmetric] driver_def assms(4) option.case bind_comp_simps assms(5)
      u_def [symmetric] h2_def [symmetric] guard_lock_def assms(3)
    using uh3(1) by (simp add: split_beta guard_unlock_def)
  with uh3 show ?thesis unfolding u h2_def by blast
qed

lemma secondary_kern_main_returns:
  assumes "console mc d (k_uart (ks_kernel ks), ks_hw ks)" and "ks_print_lock ks = 0"
    and "gic_driver (k_gic (ks_kernel ks)) = Some v" and "setup_core_specific (im_layout img) (ks_regs ks) = Inr regs"
  shows "\<exists>b h'. secondary_kern_main mc m img ks = Some (Inr (ks\<lparr>ks_kernel := (ks_kernel ks)\<lparr>k_uart :=
      (k_uart (ks_kernel ks))\<lparr>ua_irqs_ready := True, ua_tx_buffer := b\<rparr>\<rparr>, ks_regs := regs, ks_print_lock := 0, ks_hw := h'\<rparr>)) \<and> buffer_ok b"
proof -
  obtain c h0 where "cpu_id mc (ks_hw ks) = (c, h0)" by fastforce
  from secondary_kern_main_spec [OF assms this, of m] obtain uh' where
    s: "secondary_kern_main mc m img ks =
        Some (Inr (ks\<lparr>ks_kernel := (ks_kernel ks)\<lparr>k_uart := fst uh'\<rparr>, ks_regs := regs, ks_print_lock := 0, ks_hw := snd uh'\<rparr>))"
      "put_out d ((k_uart (ks_kernel ks))\<lparr>ua_irqs_ready := True\<rparr>,
        unmask_irqs mc (gic_initialize_core_specific mc v (k_gic (ks_kernel ks)) h0)) (running_text c) uh'"
    by blast
  obtain b where "fst uh' = (k_uart (ks_kernel ks))\<lparr>ua_irqs_ready := True, ua_tx_buffer := b\<rparr>" "buffer_ok b"
    using s(2) unfolding put_out_def fst_conv by blast
  with s(1) show ?thesis by (intro exI [of _ b] exI [of _ "snd uh'"]) simp
qed

text \<open>
  What decides whether a core takes interrupts: the control and priority mask registers of its CPU interface and
  the mask bits D, A, I and F of its own (8, 4, 2 and 1). Only the bits that the drivers rely on are in this view:
  the enables and \<open>AckCtl\<close> of \<open>GICC_CTLR\<close>, \<open>SRE\<close> of \<open>ICC_SRE_EL1\<close>, the enable of \<open>ICC_IGRPEN1_EL1\<close>,
  and the priority bits \<open>pri\<close> that the controller implements.
\<close>

record CpuInterface =
  cif_ctlr :: u32
  cif_pmr :: u64
  cif_sre :: bool
  cif_igrpen1 :: bool
  cif_daif :: u64

definition gicc_registers :: "'h Machine \<Rightarrow> DriverV2 \<Rightarrow> 'h PL011 \<Rightarrow> u64 \<Rightarrow> ('h \<Rightarrow> CpuInterface) \<Rightarrow> bool" where
  "gicc_registers mc g d pri cif \<longleftrightarrow>
     (\<forall>x h. cif (mc_write32 mc (cpu_interface g GICC_CTLR) x h) = (cif h)\<lparr>cif_ctlr := x AND 7\<rparr> \<and>
        quiet d h (mc_write32 mc (cpu_interface g GICC_CTLR) x h)) \<and>
     (\<forall>h. fst (mc_read32 mc (cpu_interface g GICC_CTLR) h) AND 7 = cif_ctlr (cif h) \<and>
        cif (snd (mc_read32 mc (cpu_interface g GICC_CTLR) h)) = cif h \<and> quiet d h (snd (mc_read32 mc (cpu_interface g GICC_CTLR) h))) \<and>
     (\<forall>x h. cif (mc_write32 mc (cpu_interface g GICC_PMR) x h) = (cif h)\<lparr>cif_pmr := ucast x AND pri\<rparr> \<and>
        quiet d h (mc_write32 mc (cpu_interface g GICC_PMR) x h))"

definition icc_registers :: "'h Machine \<Rightarrow> u64 \<Rightarrow> ('h \<Rightarrow> CpuInterface) \<Rightarrow> bool" where
  "icc_registers mc pri cif \<longleftrightarrow>
     (\<forall>x h. cif (mc_msr mc ICC_SRE_EL1 x h) = (cif h)\<lparr>cif_sre := bit x 0\<rparr>) \<and>
     (\<forall>h. bit (fst (mc_mrs mc ICC_SRE_EL1 h)) 0 = cif_sre (cif h) \<and> cif (snd (mc_mrs mc ICC_SRE_EL1 h)) = cif h) \<and>
     (\<forall>x h. cif (mc_msr mc ICC_PMR_EL1 x h) = (cif h)\<lparr>cif_pmr := x AND pri\<rparr>) \<and>
     (\<forall>x h. cif (mc_msr mc ICC_IGRPEN1_EL1 x h) = (cif h)\<lparr>cif_igrpen1 := bit x 0\<rparr>)"

definition core_interface :: "'h Machine \<Rightarrow> DriverVersion \<Rightarrow> Gic \<Rightarrow> 'h PL011 \<Rightarrow> u64 \<Rightarrow> ('h \<Rightarrow> CpuInterface) \<Rightarrow> bool" where
  "core_interface mc v g d pri cif \<longleftrightarrow>
     (case v of V2 \<Rightarrow> gicc_registers mc (gic_v2 g) d pri cif | V3 \<Rightarrow> icc_registers mc pri cif) \<and>
     (\<forall>x h. cif (mc_msr mc DAIFClr x h) = (cif h)\<lparr>cif_daif := cif_daif (cif h) AND NOT x\<rparr>) \<and>
     (\<forall>h. cif (snd (mc_mrs mc MPIDR_EL1 h)) = cif h)"

definition takes_interrupts :: "DriverVersion \<Rightarrow> u64 \<Rightarrow> CpuInterface \<Rightarrow> CpuInterface \<Rightarrow> bool" where
  "takes_interrupts v pri c c' \<longleftrightarrow> cif_daif c' = cif_daif c AND NOT 2 \<and> cif_pmr c' = 0xFF AND pri \<and>
     (case v of V2 \<Rightarrow> cif_ctlr c' = 7 | V3 \<Rightarrow> cif_sre c' \<and> cif_igrpen1 c')"

lemma core_specific_interface:
  assumes "core_interface mc v g d pri cif" "sysregs_apart mc d" "cpu_id mc h = (c, h0)"
  shows "takes_interrupts v pri (cif h) (cif (unmask_irqs mc (gic_initialize_core_specific mc v g h0)))"
    and "quiet d h (unmask_irqs mc (gic_initialize_core_specific mc v g h0))"
proof -
  have h0: "h0 = snd (mc_mrs mc MPIDR_EL1 h)" using assms(3) by (auto simp: cpu_id_def split_beta Let_def)
  have c0: "cif h0 = cif h" using assms(1) by (simp add: core_interface_def h0)
  have daif: "cif (unmask_irqs mc h') = (cif h')\<lparr>cif_daif := cif_daif (cif h') AND NOT 2\<rparr>" for h'
    using assms(1) by (simp add: core_interface_def unmask_irqs_def)
  have q: "quiet d h' h'' \<Longrightarrow> quiet d h' (mc_msr mc r x h'')" "quiet d h' h'' \<Longrightarrow> quiet d h' (snd (mc_mrs mc r h''))" for h' h'' r x
    by (erule quiet_trans, use assms(2) in \<open>simp add: sysregs_apart_def\<close>)+
  have "takes_interrupts v pri (cif h) (cif (unmask_irqs mc (gic_initialize_core_specific mc v g h0))) \<and>
      quiet d h (unmask_irqs mc (gic_initialize_core_specific mc v g h0))"
  proof (cases v)
    case V2
    then have D: "gicc_registers mc (gic_v2 g) d pri cif" using assms(1) by (simp add: core_interface_def)
    have or7: "(x OR 6) AND 7 = (x AND 7 OR 6 :: u32)" for x by (simp add: bit.conj_disj_distrib2)
    have g: "quiet d h' h'' \<Longrightarrow> quiet d h' (mc_write32 mc (cpu_interface (gic_v2 g) GICC_CTLR) x h'')"
      "quiet d h' h'' \<Longrightarrow> quiet d h' (mc_write32 mc (cpu_interface (gic_v2 g) GICC_PMR) x h'')"
      "quiet d h' h'' \<Longrightarrow> quiet d h' (snd (mc_read32 mc (cpu_interface (gic_v2 g) GICC_CTLR) h''))" for h' h'' x
      by (erule quiet_trans, use D in \<open>simp add: gicc_registers_def\<close>)+
    note unf = V2 gic_initialize_core_specific_def DriverVersion.case v2_initialize_core_specific_def v2_enable_cpu_interrupts_def
      v2_set_cpu_priority_mask_def v2_enable_cpu_interface_def Let_def split_beta
    have "quiet d h (unmask_irqs mc (gic_initialize_core_specific mc v g h0))"
      unfolding unf unmask_irqs_def h0 by (intro q g quiet_refl)
    moreover have "takes_interrupts v pri (cif h) (cif (unmask_irqs mc (gic_initialize_core_specific mc v g h0)))"
      unfolding daif unf using D
      by (simp add: takes_interrupts_def gicc_registers_def c0 GICC_CTLR_EnableGrp1_def GICC_CTLR_AckCtl_def GICC_CTLR_Enable_def or7)
    ultimately show ?thesis by simp
  next
    case V3
    then have D: "icc_registers mc pri cif" using assms(1) by (simp add: core_interface_def)
    note unf = V3 gic_initialize_core_specific_def DriverVersion.case v3_initialize_core_specific_def v3_enable_cpu_interrupts_def
      v3_set_cpu_priority_mask_def v3_enable_cpu_interface_def Let_def split_beta
    have "quiet d h (unmask_irqs mc (gic_initialize_core_specific mc v g h0))"
      unfolding unf unmask_irqs_def h0 by (intro q quiet_refl)
    moreover have "takes_interrupts v pri (cif h) (cif (unmask_irqs mc (gic_initialize_core_specific mc v g h0)))"
      unfolding daif unf using D
      by (simp add: takes_interrupts_def icc_registers_def c0 bit_or_iff)
    ultimately show ?thesis by simp
  qed
  then show "takes_interrupts v pri (cif h) (cif (unmask_irqs mc (gic_initialize_core_specific mc v g h0)))"
    "quiet d h (unmask_irqs mc (gic_initialize_core_specific mc v g h0))" by simp_all
qed

text \<open>C39: What a core has done when \<open>secondary_kern_main\<close> is over: with a GIC driver, the print lock free and a
  working UART it returns with translation on through the identity map; the CPU interface of the controller is enabled
  for interrupts of group 1 with every priority let through, and interrupts are unmasked in the core itself; the UART has been
  told that interrupts work and then been given the line with the core's number; the lock is free again, and
  everything else of the kernel's state is as before. Without a driver it stops.\<close>

theorem secondary_core_ready:
  fixes mc :: "'h Machine" and ks :: "'h KState"
  defines "k \<equiv> ks_kernel ks"
  assumes "console mc d (k_uart k, ks_hw ks)" and "sysregs_apart mc d" and "ks_print_lock ks = 0"
    and "\<forall>v. gic_driver (k_gic k) = Some v \<longrightarrow> core_interface mc v (k_gic k) d pri cif" and "uart_frame mc (ua_uart (k_uart k)) cif"
  shows "case gic_driver (k_gic k) of
      None \<Rightarrow> secondary_kern_main mc m img ks = Some (Inl (Kassert ''GIC Driver has not been initialized''))
    | Some v \<Rightarrow> \<exists>ks'. secondary_kern_main mc m img ks = Some (Inr ks') \<and>
        sr_ttbr0 (ks_regs ks') = lay_l0 (im_layout img) \<and> sr_tcr (ks_regs ks') = tcr_value \<and> sr_sctlr (ks_regs ks') AND 1 = 1 \<and>
        cif_daif (cif (ks_hw ks')) = cif_daif (cif (ks_hw ks)) AND NOT 2 \<and> cif_pmr (cif (ks_hw ks')) = 0xFF AND pri \<and>
        (case v of V2 \<Rightarrow> cif_ctlr (cif (ks_hw ks')) = 7 | V3 \<Rightarrow> cif_sre (cif (ks_hw ks')) \<and> cif_igrpen1 (cif (ks_hw ks'))) \<and>
        put_out d ((k_uart k)\<lparr>ua_irqs_ready := True\<rparr>, ks_hw ks) (running_text (fst (cpu_id mc (ks_hw ks)))) (k_uart (ks_kernel ks'), ks_hw ks') \<and>
        ks_kernel ks' = k\<lparr>k_uart := k_uart (ks_kernel ks')\<rparr> \<and> ks_tables ks' = ks_tables ks \<and> ks_print_lock ks' = 0"
proof (cases "gic_driver (k_gic k)")
  case None
  then show ?thesis by (simp add: secondary_kern_main_def driver_def split_beta Let_def k_def)
next
  case (Some v)
  obtain c h0 where id: "cpu_id mc (ks_hw ks) = (c, h0)" by fastforce
  let ?h2 = "unmask_irqs mc (gic_initialize_core_specific mc v (k_gic k) h0)"
  have ci: "core_interface mc v (k_gic k) d pri cif" using assms(5) Some by blast
  obtain uh' regs where s: "secondary_kern_main mc m img ks =
        Some (Inr (ks\<lparr>ks_kernel := k\<lparr>k_uart := fst uh'\<rparr>, ks_regs := regs, ks_print_lock := 0, ks_hw := snd uh'\<rparr>))"
      and p: "kprintf mc m (''Running core %d'' @ [CHR 0x0A]) [Slot c] ((k_uart k)\<lparr>ua_irqs_ready := True\<rparr>, ?h2) = Some (Inr uh')"
        "put_out d ((k_uart k)\<lparr>ua_irqs_ready := True\<rparr>, ?h2) (running_text c) uh'"
      and r: "setup_core_specific (im_layout img) (ks_regs ks) = Inr regs"
    using secondary_kern_main_spec [where m = m and img = img and ks = ks, folded k_def, OF assms(2,4) Some setup_core_specific_regs id]
      setup_core_specific_regs by blast
  have "keeps cif (\<lambda>x. x) ((k_uart k)\<lparr>ua_irqs_ready := True\<rparr>, ?h2)
      (kprintf mc m (''Running core %d'' @ [CHR 0x0A]) [Slot c] ((k_uart k)\<lparr>ua_irqs_ready := True\<rparr>, ?h2))"
    by (rule uart_frame.kprintf_frame [OF assms(6)]) simp
  from keepsD [OF this p(1)] have "cif (snd uh') = cif ?h2" by (simp add: kept_def)
  then have "takes_interrupts v pri (cif (ks_hw ks)) (cif (snd uh'))" using core_specific_interface(1) [OF ci assms(3) id] by simp
  moreover have "put_out d ((k_uart k)\<lparr>ua_irqs_ready := True\<rparr>, ks_hw ks) (running_text c) (fst uh', snd uh')"
    using put_out_quiet(1) [OF core_specific_interface(2) [OF ci assms(3) id] p(2)] by simp
  moreover have "sr_ttbr0 regs = lay_l0 (im_layout img)" "sr_tcr regs = tcr_value" "sr_sctlr regs AND 1 = 1"
  proof -
    have one: "(x OR 1) AND 1 = (1 :: u64)" for x by (simp add: bit.conj_disj_distrib2)
    show "sr_ttbr0 regs = lay_l0 (im_layout img)" "sr_tcr regs = tcr_value" "sr_sctlr regs AND 1 = 1"
      using r by (auto simp: setup_core_specific_regs one tcr_value_def)
  qed
  ultimately show ?thesis
    unfolding Some option.case takes_interrupts_def
    by (cases v; intro exI [of _ "ks\<lparr>ks_kernel := k\<lparr>k_uart := fst uh'\<rparr>, ks_regs := regs, ks_print_lock := 0, ks_hw := snd uh'\<rparr>"])
      (simp_all add: s id)
qed

text \<open>The simulated UART on a core whose CPU interface has the system registers of a GICv3 with five priority bits.\<close>

definition core_machine :: "((u8 list \<times> u32 \<times> nat) \<times> CpuInterface) Machine" where
  "core_machine =
     \<lparr>mc_read32 = (\<lambda>a (h, c). let (v, h1) = mc_read32 sim_machine a h in (v, h1, c)),
      mc_write32 = (\<lambda>a v (h, c). (mc_write32 sim_machine a v h, c)),
      mc_read64 = (\<lambda>a h. (0, h)), mc_write64 = (\<lambda>a v h. h), mc_write8 = (\<lambda>a v h. h),
      mc_mrs = (\<lambda>r (h, c). (if r = ICC_SRE_EL1 then of_bool (cif_sre c) else 0, h, c)),
      mc_msr = (\<lambda>r x (h, c). (h,
        case r of ICC_SRE_EL1 \<Rightarrow> c\<lparr>cif_sre := bit x 0\<rparr> | ICC_PMR_EL1 \<Rightarrow> c\<lparr>cif_pmr := x AND 0xF8\<rparr>
          | ICC_IGRPEN1_EL1 \<Rightarrow> c\<lparr>cif_igrpen1 := bit x 0\<rparr> | DAIFClr \<Rightarrow> c\<lparr>cif_daif := cif_daif c AND NOT x\<rparr> | _ \<Rightarrow> c)),
      mc_firmware = (\<lambda>c x h. (0, h)), mc_sev = (\<lambda>h. h)\<rparr>"

definition masked_core :: CpuInterface where
  "masked_core = \<lparr>cif_ctlr = 0, cif_pmr = 0, cif_sre = False, cif_igrpen1 = False, cif_daif = 15\<rparr>"

theorem secondary_core_ready_witness:
  "\<exists>ks'. secondary_kern_main core_machine (\<lambda>_. None) virt_image
       ((virt_state (([], 0, 0), masked_core))\<lparr>ks_kernel := kernel_init\<lparr>k_uart := sim_uart, k_gic := (k_gic kernel_init)\<lparr>gic_driver := Some V3\<rparr>\<rparr>\<rparr>) =
     Some (Inr ks') \<and> sr_ttbr0 (ks_regs ks') = lay_l0 virt_layout \<and> ua_irqs_ready (k_uart (ks_kernel ks')) \<and>
     snd (ks_hw ks') = \<lparr>cif_ctlr = cif_ctlr (snd (ks_hw ks')), cif_pmr = 0xF8, cif_sre = True, cif_igrpen1 = True, cif_daif = 13\<rparr>"
proof -
  let ?ks = "(virt_state (([], 0, 0), masked_core))\<lparr>ks_kernel := kernel_init\<lparr>k_uart := sim_uart, k_gic := (k_gic kernel_init)\<lparr>gic_driver := Some V3\<rparr>\<rparr>\<rparr>"
  have k: "k_uart (ks_kernel ?ks) = sim_uart" "gic_driver (k_gic (ks_kernel ?ks)) = Some V3" "ks_print_lock ?ks = 0" "snd (ks_hw ?ks) = masked_core"
    by (simp_all add: virt_state_def)
  have "pl011 core_machine (ua_uart sim_uart) (on_board sim_pl011)"
    unfolding pl011_def using pl011D [OF sim_pl011_ok] by (auto simp: core_machine_def on_board_def quiet_def split_beta Let_def)
  then have con: "console core_machine (on_board sim_pl011) (k_uart (ks_kernel ?ks), ks_hw ?ks)"
    using CharBuffer_init_ok by (simp add: console_def sim_uart_def)
  have apart: "sysregs_apart core_machine (on_board sim_pl011)"
    by (simp add: sysregs_apart_def core_machine_def on_board_def quiet_def split_beta)
  have ci: "\<forall>v. gic_driver (k_gic (ks_kernel ?ks)) = Some v \<longrightarrow> core_interface core_machine v (k_gic (ks_kernel ?ks)) (on_board sim_pl011) 0xF8 snd"
  proof -
    have "x AND 0xF8 AND 0xF8 = x AND (0xF8 :: u64)" for x by (simp add: and.assoc)
    then show ?thesis unfolding k(2) by (auto simp: core_interface_def icc_registers_def core_machine_def)
  qed
  have fr: "uart_frame core_machine (ua_uart (k_uart (ks_kernel ?ks))) snd"
    by unfold_locales (simp_all add: core_machine_def split_beta)
  from secondary_core_ready [OF con apart k(3) ci fr, of "\<lambda>_. None" virt_image] show ?thesis
    unfolding k(2,4) option.case DriverVersion.case
    by (auto simp: virt_image_def put_out_def masked_core_def k(1))
qed

section \<open>The interrupts of the devices\<close>

text \<open>
  What the interrupt controller has for interrupt \<open>i\<close>, as core \<open>c\<close> sees it. The interrupts below \<open>ids\<close> are there:
  with a GICv2 those that \<open>GICD_TYPER\<close> counts.
\<close>

definition gic_ids :: "nat \<Rightarrow> nat" where
  "gic_ids lines = min 1020 (32 * (lines + 1))"

lemma gic_ids_line: "i < gic_ids lines \<longleftrightarrow> has_line lines i"
  by (auto simp: gic_ids_def has_line_def)

definition gic_hw :: "'h Machine \<Rightarrow> DriverVersion \<Rightarrow> Gic \<Rightarrow> nat \<Rightarrow> nat \<Rightarrow> ('h \<Rightarrow> nat \<Rightarrow> GicRegs) \<Rightarrow> bool" where
  "gic_hw mc v g c ids rg =
     (case v of
        V2 \<Rightarrow> \<exists>lines. gicv2_dist mc (v2_gicd_base (gic_v2 g)) lines (\<lambda>h. rg h 0) \<and> ids = gic_ids lines
      | V3 \<Rightarrow> v3_hw mc (gic_v3 g) rg \<and> c < unat (v3_num_redistributors (gic_v3 g)) \<and> ids = 1020)"

definition irq_view :: "DriverVersion \<Rightarrow> nat \<Rightarrow> (nat \<Rightarrow> GicRegs) \<Rightarrow> nat \<Rightarrow> GicRegs" where
  "irq_view v c r i = (case v of V2 \<Rightarrow> r 0 | V3 \<Rightarrow> core_regs c r i)"

lemma small_intid: "unat (i :: u32) < 1020 \<Longrightarrow> sint i = int (unat i)"
proof -
  assume i: "unat i < 1020"
  have "ucast (ucast i :: u64) = i" by (rule bit_word_eqI) (simp add: bit_simps)
  with i show ?thesis using small_slot [of "ucast i"] by (simp add: unat_ucast_32_64)
qed

lemma two_irqs_v2:
  assumes "gicv2_dist mc (v2_gicd_base g) lines rg" "has_line lines i" "has_line lines j"
  shows "\<exists>h'. bind_res (v2_initialize_interrupt mc g (int i) p h) (v2_initialize_interrupt mc g (int j) q) = Inr h' \<and>
    gr_enabled (rg h') = (gr_enabled (rg h))(i := True, j := True) \<and>
    gr_priority (rg h') = (gr_priority (rg h))(i := priority_value p, j := priority_value q)"
  using v2irq.two_irqs [of "(mc, rg, lines, g, h)" i j p q] assms
  by (cases "v2_initialize_interrupt mc g (int i) p h"; cases "v2_initialize_interrupt mc g (int j) q (projr (v2_initialize_interrupt mc g (int i) p h))")
    (auto simp: v2_ready_def v2_init_irq_def v2_regs_def v2_has_irq_def)

lemma two_irqs_v3:
  assumes "v3_hw mc g rg" "c < unat (v3_num_redistributors g)" "i < 1020" "j < 1020"
  shows "\<exists>h'. bind_res (v3_initialize_interrupt mc g (int i) p h) (v3_initialize_interrupt mc g (int j) q) = Inr h' \<and>
    (\<lambda>k. gr_enabled (core_regs c (rg h') k) k) = (\<lambda>k. gr_enabled (core_regs c (rg h) k) k)(i := True, j := True) \<and>
    (\<lambda>k. gr_priority (core_regs c (rg h') k) k) =
      (\<lambda>k. gr_priority (core_regs c (rg h) k) k)(i := priority_value p, j := priority_value q)"
  using v3irq.two_irqs [of "(mc, rg, c, g, h)" i j p q] assms
  by (cases "v3_initialize_interrupt mc g (int i) p h"; cases "v3_initialize_interrupt mc g (int j) q (projr (v3_initialize_interrupt mc g (int i) p h))")
    (auto simp: v3_ready_def v3_init_irq_def v3_enabled_def v3_priority_def)

lemma device_irqs_spec:
  assumes "gic_hw mc v g c ids rg" and "unat uart < ids" and "unat t < ids"
  shows "\<exists>h'. init_device_irqs mc v g uart (Inr t) h = Inr h' \<and>
    (\<forall>i. gr_enabled (irq_view v c (rg h') i) i \<longleftrightarrow>
        i = unat uart \<or> i = unat t \<or> gr_enabled (irq_view v c (rg h) i) i) \<and>
    (\<forall>i. gr_priority (irq_view v c (rg h') i) i =
        (if i = unat uart \<or> i = unat t then 120 else gr_priority (irq_view v c (rg h) i) i))"
proof (cases v)
  case V2
  then obtain lines where hw: "gicv2_dist mc (v2_gicd_base (gic_v2 g)) lines (\<lambda>h. rg h 0)" and ids: "ids = gic_ids lines"
    using assms(1) by (auto simp: gic_hw_def)
  have small: "unat uart < 1020" "unat t < 1020" using assms(2,3) by (simp_all add: ids gic_ids_def)
  from two_irqs_v2 [OF hw, of "unat uart" "unat t" PriorityDefault h PriorityDefault] assms(2,3) V2 show ?thesis
    by (auto simp: ids gic_ids_line irq_view_def init_device_irqs_def gic_initialize_interrupt_def small small_intid priority_value_def
        simp del: of_nat_unat)
next
  case V3
  then show ?thesis
    using two_irqs_v3 [of mc "gic_v3 g" rg c "unat uart" "unat t" PriorityDefault h PriorityDefault] assms
    by (auto simp: gic_hw_def irq_view_def init_device_irqs_def gic_initialize_interrupt_def small_intid priority_value_def fun_eq_iff
        simp del: of_nat_unat)
qed

text \<open>Setting up the interrupts of the devices, with either driver: for the interrupt ids of the UART and the timer,
  the routine returns and, as every core sees it, the controller has exactly these two
  interrupts enabled in addition to those it had, both with the default priority, and every
  other interrupt with the priority it had.\<close>

theorem device_irqs_enabled:
  assumes "gic_hw mc v g c ids rg" and "unat uart < ids" and "unat t < ids"
  shows "\<exists>h'. init_device_irqs mc v g uart (Inr t) h = Inr h' \<and>
    (\<forall>i. gr_enabled (irq_view v c (rg h') i) i \<longleftrightarrow>
        i = unat uart \<or> i = unat t \<or> gr_enabled (irq_view v c (rg h) i) i) \<and>
    (\<forall>i. gr_priority (irq_view v c (rg h') i) i =
        (if i = unat uart \<or> i = unat t then 120 else gr_priority (irq_view v c (rg h) i) i))"
  by (rule device_irqs_spec [OF assms])

theorem device_irqs_enabled_witness:
  "\<exists>h'. init_device_irqs sim_gic3 V3 ((k_gic kernel_init)\<lparr>gic_v3 := sim_v3\<lparr>v3_num_redistributors := 1\<rparr>\<rparr>) 33 (Inr 30) (\<lambda>_. reset_gic) = Inr h' \<and>
     gr_enabled (core_regs 0 h' 33) 33 \<and> gr_enabled (core_regs 0 h' 30) 30"
proof -
  let ?g = "(k_gic kernel_init)\<lparr>gic_v3 := sim_v3\<lparr>v3_num_redistributors := 1\<rparr>\<rparr>"
  have "gic_hw sim_gic3 V3 ?g 0 1020 (\<lambda>r. r)" using sim_gic3_ok by (simp add: gic_hw_def v3_hw_def sim_v3_def)
  from device_irqs_enabled [OF this, of 33 30 "\<lambda>_. reset_gic"] show ?thesis by (auto simp: irq_view_def)
qed

end
