(* ===== verification/Boot.thy ===== *)
theory Boot
  imports Kernel
begin

text \<open>
  The boot core from the end of the device tree to its last instruction (\<open>kern_main\<close> in
  \<open>src/src/kernel.cpp\<close>): every stage returns, and what the stages set up is there when
  \<open>kern_main\<close> is over.
\<close>

section \<open>The stages that print\<close>

lemma say:
  assumes "pl011 mc (ua_uart u) d" "buffer_ok (ua_tx_buffer u)" "render_text (bytes_of f) args = Some xs"
    "CHR 0x00 \<notin> set f" "length f < 1000"
  shows "\<exists>b h'. kprintf mc m f args (u, h) = Some (Inr (u\<lparr>ua_tx_buffer := b\<rparr>, h')) \<and> buffer_ok b"
proof -
  have "console mc d (u, h)" using assms(1,2) by (simp add: console_def)
  from kprintf_text [OF assms(3) this assms(4,5), of m] show ?thesis by (fastforce simp: put_out_def)
qed

lemma exception_level_small: "unat (fst (exception_level mc h)) < 4"
proof -
  have "x AND 3 = take_bit 2 x" for x :: u64 by (simp add: take_bit_eq_mask mask_eq_exp_minus_1)
  then have "unat (x AND 3) = unat x mod 4" for x :: u64
    by (simp only: unsigned_take_bit_eq) (simp add: take_bit_eq_mod)
  then show ?thesis by (simp add: exception_level_def split_beta Let_def)
qed

lemma uart_initialize_returns:
  assumes "pl011 mc (ua_uart u) d" "ua_clock_frequency u \<noteq> 0"
  shows "\<exists>h'. uart_initialize mc u h = Some (Inr h')"
proof -
  have nz: "ua_uart u \<noteq> 0" using assms(1) by (simp add: pl011_def)
  have m: "\<exists>h'. uart_modify mc u off f h = Inr h'" for off f h
    using nz by (simp add: uart_modify_def uart_read_def uart_write_def split_beta)
  have w: "\<exists>h'. uart_write mc u off v h = Inr h'" for off v h using nz by (simp add: uart_write_def)
  have t: "\<exists>h'. pl011_toggle_rx_interrupts mc u on h = Inr h'" for on h
    using nz m by (simp add: pl011_toggle_rx_interrupts_def toggle_imsc_mask_def)
  obtain ib fb where dv: "calculate_divisors u = Inr (ib, fb)"
    using assms(2) by (simp add: calculate_divisors_def Let_def)
  obtain h1 where h1: "uart_modify mc u CR (\<lambda>v. v AND NOT (CR_RXE OR CR_TXE OR CR_UARTEN)) h = Inr h1" using m by blast
  obtain h2 where h2: "pl011_wait_poll_tx_complete mc u h1 = Some (Inr h2)" using wait_tx [OF assms(1)] by blast
  obtain h3 where h3: "uart_modify mc u LCR_H (\<lambda>v. v AND NOT LCR_H_FEN) h2 = Inr h3" using m by blast
  obtain h4 where h4: "uart_write mc u IBRD ib h3 = Inr h4" using w by blast
  obtain h5 where h5: "uart_write mc u FBRD fb h4 = Inr h5" using w by blast
  obtain h6 where h6: "pl011_toggle_rx_interrupts mc u True h5 = Inr h6" using t by blast
  obtain h7 where h7: "uart_modify mc u DMACR (\<lambda>v. v AND NOT DMACR_RXDMAE) h6 = Inr h7" using m by blast
  obtain h8 where h8: "uart_modify mc u DMACR (\<lambda>v. v AND NOT DMACR_TXDMAE) h7 = Inr h8" using m by blast
  show ?thesis
    unfolding uart_initialize_def h1 h2 h3 dv h4 h5 h6 h7 h8 bind_comp_simps prod.case
    using m [of CR _ h8] by auto
qed

section \<open>The interrupt controller\<close>

text \<open>
  What \<open>initialize\<close> of a driver needs to return: nothing with a GICv2; with a GICv3, a
  distributor whose register writes complete and redistributors that wake up.
\<close>

definition gic_starts :: "'h Machine \<Rightarrow> DriverVersion \<Rightarrow> Gic \<Rightarrow> bool" where
  "gic_starts mc v g \<longleftrightarrow> v = V2 \<or>
     (\<exists>N asleep children busy. gicr_power mc (v3_gicr_base (gic_v3 g)) N asleep children busy) \<and>
     (\<exists>busy. gicd_settles mc (v3_gicd_base (gic_v3 g)) busy)"

lemma gic_initialize_returns:
  assumes "pl011 mc (ua_uart u) d" "buffer_ok (ua_tx_buffer u)" "gic_starts mc v g"
  shows "\<exists>g' b h'. gic_initialize mc m v (g, u, h) = Some (Inr (g', u\<lparr>ua_tx_buffer := b\<rparr>, h')) \<and> buffer_ok b \<and>
    gic_driver g' = gic_driver g"
proof (cases v)
  case V2
  have "render_text (bytes_of (''Using GICv2 driver'' @ [CHR 0x0A])) [] = Some (bytes_of ''Using GICv2 driver'' @ crnl)"
    by (simp add: bytes_of_def ch_def crlf_def crnl_def NL_def CRET_def)
  from say [OF assms(1,2) this, of m h] obtain b h1 where
    p: "kprintf mc m (''Using GICv2 driver'' @ [CHR 0x0A]) [] (u, h) = Some (Inr (u\<lparr>ua_tx_buffer := b\<rparr>, h1))" "buffer_ok b" by auto
  obtain d2 h2 where "v2_initialize_gic_distributor mc (gic_v2 g, h1) = (d2, h2)" by fastforce
  then show ?thesis
    unfolding V2 gic_initialize_def DriverVersion.case v2_initialize_def fst_conv snd_conv p(1) bind_comp_simps prod.case
    using p(2) by auto
next
  case V3
  have "render_text (bytes_of (''Using GICv3 driver'' @ [CHR 0x0A])) [] = Some (bytes_of ''Using GICv3 driver'' @ crnl)"
    by (simp add: bytes_of_def ch_def crlf_def crnl_def NL_def CRET_def)
  from say [OF assms(1,2) this, of m h] obtain b h1 where
    p: "kprintf mc m (''Using GICv3 driver'' @ [CHR 0x0A]) [] (u, h) = Some (Inr (u\<lparr>ua_tx_buffer := b\<rparr>, h1))" "buffer_ok b" by auto
  obtain N asleep children busy settle where pw: "gicr_power mc (v3_gicr_base (gic_v3 g)) N asleep children busy"
      and rwp: "gicd_settles mc (v3_gicd_base (gic_v3 g)) settle"
    using assms(3) V3 by (auto simp: gic_starts_def)
  obtain h2 where h2: "v3_initialize_gic_distributor mc (gic_v3 g) h1 = Some (Inr h2)" using v3_distributor_returns [OF rwp] by blast
  have "0 < N" using pw by (simp add: gicr_power_def)
  from wake_loop [OF pw this, of h2] obtain d3 h3 where
    h3: "v3_initialize_gic_redistributors mc (gic_v3 g) h2 = Some (Inr (d3, h3))" by (auto simp: v3_initialize_gic_redistributors_def)
  show ?thesis
    unfolding V3 gic_initialize_def DriverVersion.case v3_initialize_def fst_conv snd_conv p(1) h2 h3 bind_comp_simps prod.case
    using p(2) by auto
qed

lemma init_device_irqs_returns:
  assumes "unat uart < 1020" "unat t < 1020"
  shows "\<exists>h'. init_device_irqs mc v g uart (Inr t) h = Inr h'"
proof -
  have one: "\<exists>h'. gic_initialize_interrupt mc v g (int i) p h = Inr h'" for i p h
  proof -
    obtain off bits where ib: "irq_bit (int i) = Inr (off, bits)" by (simp add: irq_bit_def Let_def)
    show ?thesis
      by (cases v) (simp_all add: gic_initialize_interrupt_def v2_initialize_interrupt_def v2_set_interrupt_group_def
        v2_enable_interrupt_def v3_initialize_interrupt_def v3_set_interrupt_group_def v3_enable_interrupt_def
        v3_write_enable_def sgi_bit_def ib split_beta)
  qed
  obtain h1 where h1: "gic_initialize_interrupt mc v g (int (unat uart)) PriorityDefault h = Inr h1" using one by blast
  show ?thesis
    unfolding init_device_irqs_def small_intid [OF assms(1)] small_intid [OF assms(2)] h1 bind_res_simps by (rule one)
qed

section \<open>The whole boot\<close>

text \<open>What the regions of a memory map, the page tables and the registers must be for the identity map.\<close>

definition mappable :: "Layout \<Rightarrow> MemoryMap \<Rightarrow> PageTables \<Rightarrow> SysRegs \<Rightarrow> bool" where
  "mappable lay mm s r \<longleftrightarrow> layout_ok lay \<and> tables_zero lay s \<and> sr_mair r AND 0xFF = 0 \<and> list_shape (mm_device_regions mm) \<and>
     (\<forall>q\<in>set (regions (mm_ram_regions mm)). ram_region_ok q) \<and> disjoint_regions (regions (mm_ram_regions mm)) \<and>
     (\<forall>d\<in>set (regions (mm_device_regions mm)). device_region_ok d) \<and> pages_disjoint (regions (mm_device_regions mm)) \<and>
     coverage (mm_ram_regions mm) \<inter> coverage (mm_device_regions mm) = {}"

text \<open>The hardware translates RAM and device pages to themselves and nothing else.\<close>

definition identity_mapped :: "MemoryMap \<Rightarrow> PageTables \<Rightarrow> SysRegs \<Rightarrow> bool" where
  "identity_mapped mm s r \<longleftrightarrow> sr_sctlr r AND 1 = 1 \<and>
     (\<forall>va. unat va < 2 ^ 39 \<longrightarrow>
       (case hw_walk (pts_mem s) (sr_ttbr0 r) va of
          None \<Rightarrow> unat va \<notin> coverage (mm_ram_regions mm) \<and> unat va \<notin> device_pages (mm_device_regions mm)
        | Some (pa, e) \<Rightarrow> pa = va \<and>
            (if unat va \<in> coverage (mm_ram_regions mm) then hw_attr r e = MAIR_NORMAL_WB
             else unat va \<in> device_pages (mm_device_regions mm) \<and> hw_attr r e = MAIR_DEVICE_NGNRNE \<and> hw_execute_never e)))"

text \<open>Every core but the first can be started.\<close>

definition startable :: "Psci \<Rightarrow> Cpus \<Rightarrow> bool" where
  "startable psci c \<longleftrightarrow> cpus_ok c \<and> PSCI_CPU_ON psci \<noteq> 0 \<and> PSCI_METHOD psci \<noteq> MethodUnknown \<and>
     (\<forall>i\<in>{1..<unat (cpu_num_cpus c)}. ci_enable_method (cpu_information c ! i) \<noteq> NoMethod)"

text \<open>The second call of \<open>setup_core_specific\<close>, in \<open>secondary_kern_main\<close>, changes nothing.\<close>

lemma setup_core_specific_twice: "setup_core_specific lay r = Inr r' \<Longrightarrow> setup_core_specific lay r' = Inr r'"
  by (auto simp: setup_core_specific_regs or.assoc)

text \<open>C23: \<open>setup_idmap_page_tables\<close> on a working console. When no device region shares an address with
  RAM it returns with translation on; through the tables it has built, the hardware maps RAM and device pages to
  themselves and nothing else; and the console has been given a line for every RAM region and then one for every
  device region, each with its start, its end and its size. When some device does overlap RAM it stops with an assertion.\<close>

theorem mmu_setup_maps_and_reports:
  assumes "console mc d uh"
    and "layout_ok lay" and "tables_zero lay s" and "sr_mair r AND 0xFF = 0" and "list_shape (mm_device_regions mm)"
    and "\<forall>q\<in>set (regions (mm_ram_regions mm)). ram_region_ok q" and "disjoint_regions (regions (mm_ram_regions mm))"
    and "\<forall>d\<in>set (regions (mm_device_regions mm)). device_region_ok d" and "pages_disjoint (regions (mm_device_regions mm))"
  shows "if coverage (mm_ram_regions mm) \<inter> coverage (mm_device_regions mm) = {}
    then \<exists>s' r' uh'. mmu_setup_idmap mc m lay mm s r uh = Some (Inr ((s', r'), uh')) \<and>
      sr_ttbr0 r' = lay_l0 lay \<and> identity_mapped mm s' r' \<and>
      put_out d uh (concat (map (region_text ''RAM'') (regions (mm_ram_regions mm))) @
        concat (map (region_text ''Device'') (regions (mm_device_regions mm)))) uh'
    else mmu_setup_idmap mc m lay mm s r uh = Some (Inl (Kassert ''Device region overlaps RAM''))"
proof (cases "coverage (mm_ram_regions mm) \<inter> coverage (mm_device_regions mm) = {}")
  case True
  from setup_idmap_spec [OF assms(2-9), unfolded if_P [OF True]] obtain s' r' where
    s': "setup_idmap_page_tables lay mm s r = Some (Inr (s', r'))" "sr_ttbr0 r' = lay_l0 lay" "identity_mapped mm s' r'"
    unfolding identity_mapped_def by blast
  with mmu_setup_out [OF assms(1), where lay = lay and mm = mm and s = s and r = r and m = m] True show ?thesis by auto
next
  case False
  with setup_idmap_spec [OF assms(2-9)] mmu_setup_out [OF assms(1), where lay = lay and mm = mm and s = s and r = r and m = m]
  show ?thesis by simp
qed

theorem mmu_setup_maps_and_reports_witness:
  "\<exists>s' r' uh'. mmu_setup_idmap sim_machine (\<lambda>_. None) virt_layout virt_map bss_tables reset_regs (sim_uart, [], 0, 0) = Some (Inr ((s', r'), uh')) \<and>
     identity_mapped virt_map s' r' \<and>
     pl_line sim_pl011 (snd uh') = bytes_of ''RAM region: [0x40000000, 0x80000000), 0x40000000'' @ crnl @
       bytes_of ''Device region: [0x9000000, 0x9001000), 0x1000'' @ crnl"
proof -
  have regs: "regions (mm_ram_regions virt_map) = [\<lparr>reg_start = 0x40000000, reg_size = 0x40000000\<rparr>]"
    "regions (mm_device_regions virt_map) = [\<lparr>reg_start = 0x9000000, reg_size = 0x1000\<rparr>]"
    by (simp_all add: virt_map_def one_region_def regions_def)
  have ap: "coverage (mm_ram_regions virt_map) \<inter> coverage (mm_device_regions virt_map) = {}" by (simp add: virt_setup(9,10))
  have hex: "hex_text 0x40000000 = bytes_of ''0x40000000''" "hex_text 0x80000000 = bytes_of ''0x80000000''" "hex_text 0x9000000 = bytes_of ''0x9000000''"
    "hex_text 0x9001000 = bytes_of ''0x9001000''" "hex_text 0x1000 = bytes_of ''0x1000''"
    by code_simp+
  from mmu_setup_maps_and_reports [OF virt_console virt_setup(1-8), where m = "\<lambda>_. None", unfolded if_P [OF ap]] obtain s' r' uh' where
    s': "mmu_setup_idmap sim_machine (\<lambda>_. None) virt_layout virt_map bss_tables reset_regs (sim_uart, [], 0, 0) = Some (Inr ((s', r'), uh'))"
      "identity_mapped virt_map s' r'" and
    out: "put_out sim_pl011 (sim_uart, [], 0, 0) (region_text ''RAM'' \<lparr>reg_start = 0x40000000, reg_size = 0x40000000\<rparr> @
      region_text ''Device'' \<lparr>reg_start = 0x9000000, reg_size = 0x1000\<rparr>) uh'" by (auto simp: regs)
  have "pl_line sim_pl011 (snd uh') = region_text ''RAM'' \<lparr>reg_start = 0x40000000, reg_size = 0x40000000\<rparr> @
      region_text ''Device'' \<lparr>reg_start = 0x9000000, reg_size = 0x1000\<rparr>"
    using out CharBuffer_init_ok by (auto simp: put_out_def sim_uart_def sim_line)
  also have "\<dots> = bytes_of ''RAM region: [0x40000000, 0x80000000), 0x40000000'' @ crnl @
       bytes_of ''Device region: [0x9000000, 0x9001000), 0x1000'' @ crnl"
    by (simp add: region_text_def hex) (simp add: bytes_of_def)
  finally show ?thesis using s' by blast
qed

lemma idmap_boots:
  assumes "mappable lay mm s r"
  shows "\<exists>s' r'. setup_idmap_page_tables lay mm s r = Some (Inr (s', r')) \<and> identity_mapped mm s' r' \<and>
    setup_core_specific lay r' = Inr r'"
proof -
  from assms have "layout_ok lay" "tables_zero lay s" "sr_mair r AND 0xFF = 0" "list_shape (mm_device_regions mm)"
    "\<forall>q\<in>set (regions (mm_ram_regions mm)). ram_region_ok q" "disjoint_regions (regions (mm_ram_regions mm))"
    "\<forall>d\<in>set (regions (mm_device_regions mm)). device_region_ok d" "pages_disjoint (regions (mm_device_regions mm))"
    and ap: "coverage (mm_ram_regions mm) \<inter> coverage (mm_device_regions mm) = {}"
    unfolding mappable_def by blast+
  from setup_idmap_spec [OF this(1-8), unfolded if_P [OF ap]] obtain s' r' where
    s': "setup_idmap_page_tables lay mm s r = Some (Inr (s', r'))" and "identity_mapped mm s' r'"
    unfolding identity_mapped_def by blast
  moreover have "setup_core_specific lay r = Inr r'"
    using s' by (auto simp: setup_idmap_page_tables_def bind_comp_Inr_iff)
  ultimately show ?thesis using setup_core_specific_twice by blast
qed

lemma boot_rendered:
  "render_text (bytes_of (''Booting the floss kernel'' @ [CHR 0x0A])) [] = Some (bytes_of ''Booting the floss kernel'' @ crnl)"
  "\<exists>xs. render_text (bytes_of (''Kernel running at exception level: %d'' @ [CHR 0x0A])) [Slot (fst (exception_level mc h))] = Some xs"
proof -
  show "render_text (bytes_of (''Booting the floss kernel'' @ [CHR 0x0A])) [] = Some (bytes_of ''Booting the floss kernel'' @ crnl)"
    by (simp add: bytes_of_def ch_def crlf_def crnl_def NL_def CRET_def)
  define c where "c = fst (exception_level mc h)"
  have "sint (ucast c :: u32) = int (unat c)" by (rule small_slot) (use exception_level_small [of mc h] in \<open>simp add: c_def\<close>)
  then show "\<exists>xs. render_text (bytes_of (''Kernel running at exception level: %d'' @ [CHR 0x0A])) [Slot (fst (exception_level mc h))] = Some xs"
    unfolding c_def [symmetric]
    by (simp add: bytes_of_def ch_def crlf_def NL_def CRET_def not_int_min del: of_nat_unat)
qed

text \<open>From the UART to the exception level: the console works, and the tables, registers and memory map are set up.\<close>

lemma mmu_setup_boots:
  assumes "pl011 mc (ua_uart u) d" "buffer_ok (ua_tx_buffer u)" "mappable lay mm s r"
  shows "\<exists>s' r' b h'. mmu_setup_idmap mc m lay mm s r (u, h) = Some (Inr ((s', r'), u\<lparr>ua_tx_buffer := b\<rparr>, h')) \<and> buffer_ok b \<and>
    identity_mapped mm s' r' \<and> setup_core_specific lay r' = Inr r'"
proof -
  have con: "console mc d (u, h)" using assms(1,2) by (simp add: console_def)
  obtain s' r' where id: "setup_idmap_page_tables lay mm s r = Some (Inr (s', r'))" "identity_mapped mm s' r'"
      "setup_core_specific lay r' = Inr r'"
    using idmap_boots [OF assms(3)] by blast
  from mmu_setup_out [OF con, where lay = lay and mm = mm and s = s and r = r and m = m] id(1) obtain uh' xs where
    uh: "mmu_setup_idmap mc m lay mm s r (u, h) = Some (Inr ((s', r'), uh'))" "put_out d (u, h) xs uh'" by auto
  obtain b where b: "fst uh' = u\<lparr>ua_tx_buffer := b\<rparr>" "buffer_ok b" using uh(2) by (auto simp: put_out_def)
  have "uh' = (u\<lparr>ua_tx_buffer := b\<rparr>, snd uh')" using b(1) by (metis prod.collapse)
  with uh(1) b(2) id show ?thesis by metis
qed

lemma kern_boot_spec:
  fixes ks :: "'h KState"
  defines "k \<equiv> ks_kernel ks"
  assumes uart: "pl011 mc (ua_uart (k_uart k)) d" "buffer_ok (ua_tx_buffer (k_uart k))" "ua_clock_frequency (k_uart k) \<noteq> 0"
    and map: "mappable (im_layout img) (k_memory k) (ks_tables ks) (ks_regs ks)"
    and mem: "memory_init m (im_start img) (im_end img) out fdt (k_memory k) = Some (Inr mm)"
    and gic: "gic_driver (k_gic k) = Some v" "gic_starts mc v (k_gic k)"
    and irqs: "uart_intid (k_uart k) = Inr i" "unat i < 1020" "timer_intid (k_timer k) NonSecure = Inr t" "unat t < 1020"
    and lock: "ks_print_lock ks = 0"
    and cores: "boot_log mc log" "startable (k_psci k) (k_cpus k)"
  shows "\<exists>ks' b g before. kern_boot mc m img out fdt ks = Some (Inr ks') \<and>
    identity_mapped (k_memory k) (ks_tables ks') (ks_regs ks') \<and> ks_print_lock ks' = 0 \<and> buffer_ok b \<and>
    ks_kernel ks' = k\<lparr>k_uart := (k_uart k)\<lparr>ua_irqs_ready := True, ua_tx_buffer := b\<rparr>, k_memory := mm, k_gic := g\<rparr> \<and>
    log (ks_hw ks') = before @ concat (map (events_of (k_psci k) (im_secondary_start img) (k_cpus k)) [1..<unat (cpu_num_cpus (k_cpus k))]) \<and>
    (\<exists>u5 h5 u6 h6 ks7 ks8 u9. gic_initialize mc m v (k_gic k, u5, h5) = Some (Inr (g, u6, h6)) \<and>
      init_device_irqs mc v g i (Inr t) h6 = Inr (ks_hw ks7) \<and> secondary_kern_main mc m img ks7 = Some (Inr ks8) \<and>
      k_gic (ks_kernel ks7) = g \<and> gic_driver g = Some v \<and> ua_uart (k_uart (ks_kernel ks7)) = ua_uart (k_uart k) \<and>
      boot_secondary_cores mc m (k_psci k) (im_secondary_start img) (k_cpus k) (k_uart (ks_kernel ks8), ks_hw ks8) = Some (Inr (u9, ks_hw ks')))"
proof -
  let ?u = "\<lambda>b. (k_uart k)\<lparr>ua_tx_buffer := b\<rparr>"
  have dev: "pl011 mc (ua_uart (?u b)) d" for b using uart(1) by simp
  obtain h1 where h1: "uart_initialize mc (k_uart k) (ks_hw ks) = Some (Inr h1)" using uart_initialize_returns [OF uart(1,3)] by blast
  obtain b2 h2 where p2: "kprintf mc m (''Booting the floss kernel'' @ [CHR 0x0A]) [] (k_uart k, h1) = Some (Inr (?u b2, h2))" "buffer_ok b2"
    using say [OF uart(1,2) boot_rendered(1), of m h1] by auto
  obtain s' r' b3 h3 where p3: "mmu_setup_idmap mc m (im_layout img) (k_memory k) (ks_tables ks) (ks_regs ks) (?u b2, h2) =
        Some (Inr ((s', r'), ?u b3, h3))" "buffer_ok b3" "identity_mapped (k_memory k) s' r'" "setup_core_specific (im_layout img) r' = Inr r'"
    using mmu_setup_boots [OF dev _ map, of b2 m h2] p2(2) by auto
  obtain el h4 where p4: "exception_level mc h3 = (el, h4)" by fastforce
  obtain b5 h5 where p5: "kprintf mc m (''Kernel running at exception level: %d'' @ [CHR 0x0A]) [Slot el] (?u b3, h4) = Some (Inr (?u b5, h5))" "buffer_ok b5"
    using say [OF dev, of b3 "''Kernel running at exception level: %d'' @ [CHR 0x0A]" "[Slot el]" _ m h4] boot_rendered(2) [of mc h3] p3(2) p4
    by auto
  obtain g b6 h6 where p6: "gic_initialize mc m v (k_gic k, ?u b5, h5) = Some (Inr (g, ?u b6, h6))" "buffer_ok b6" "gic_driver g = Some v"
    using gic_initialize_returns [OF dev _ gic(2), of b5 m h5] p5(2) gic(1) by auto
  have id: "uart_intid (?u b6) = Inr i" using irqs(1) by (simp add: uart_intid_def)
  obtain h7 where p7: "init_device_irqs mc v g i (Inr t) h6 = Inr h7" using init_device_irqs_returns [OF irqs(2,4), of mc v g h6] by blast
  let ?ks = "ks\<lparr>ks_kernel := k\<lparr>k_uart := ?u b6, k_memory := mm, k_gic := g\<rparr>, ks_tables := s', ks_regs := r', ks_hw := h7\<rparr>"
  have con: "console mc d (k_uart (ks_kernel ?ks), ks_hw ?ks)" "ks_print_lock ?ks = 0" "gic_driver (k_gic (ks_kernel ?ks)) = Some v"
    "setup_core_specific (im_layout img) (ks_regs ?ks) = Inr r'"
    using uart(1) p6(2,3) p3(4) lock by (simp_all add: console_def)
  obtain b8 h8 where p8: "secondary_kern_main mc m img ?ks = Some (Inr (?ks\<lparr>ks_kernel := (ks_kernel ?ks)\<lparr>k_uart :=
      (k_uart (ks_kernel ?ks))\<lparr>ua_irqs_ready := True, ua_tx_buffer := b8\<rparr>\<rparr>, ks_regs := r', ks_print_lock := 0, ks_hw := h8\<rparr>))" "buffer_ok b8"
    using secondary_kern_main_returns [OF con, of m] by blast
  let ?u8 = "(k_uart k)\<lparr>ua_irqs_ready := True, ua_tx_buffer := b8\<rparr>"
  obtain h9 where p9: "boot_secondary_cores mc m (k_psci k) (im_secondary_start img) (k_cpus k) (?u8, h8) = Some (Inr (?u8, h9))"
      "log h9 = log h8 @ concat (map (events_of (k_psci k) (im_secondary_start img) (k_cpus k)) [1..<unat (cpu_num_cpus (k_cpus k))])"
    using boot_secondary_cores_spec [OF cores(1), where c = "k_cpus k" and psci = "k_psci k" and m = m and
        entry = "im_secondary_start img" and u = ?u8 and h = h8] cores(2) by (auto simp: startable_def)
  let ?ks9 = "ks\<lparr>ks_kernel := k\<lparr>k_uart := ?u8, k_memory := mm, k_gic := g\<rparr>, ks_tables := s', ks_regs := r', ks_print_lock := 0, ks_hw := h9\<rparr>"
  let ?ks8 = "?ks\<lparr>ks_kernel := (ks_kernel ?ks)\<lparr>k_uart := (k_uart (ks_kernel ?ks))\<lparr>ua_irqs_ready := True, ua_tx_buffer := b8\<rparr>\<rparr>,
    ks_regs := r', ks_print_lock := 0, ks_hw := h8\<rparr>"
  have q: "ks_hw ?ks = h7" "k_gic (ks_kernel ?ks) = g" "ua_uart (k_uart (ks_kernel ?ks)) = ua_uart (k_uart k)"
    "k_uart (ks_kernel ?ks8) = ?u8" "ks_hw ?ks8 = h8" "ks_hw ?ks9 = h9" by simp_all
  have "kern_boot mc m img out fdt ks = Some (Inr ?ks9)"
    unfolding kern_boot_def Let_def k_def [symmetric] h1 p2(1) p3(1) mem p4 p5(1) driver_def gic(1) p6(1) id irqs(3) p7 p8(1)
      bind_comp_simps prod.case option.case
    using p9(1) by simp
  moreover have "\<exists>u5 h5 u6 h6 ks7 ks8 u9. gic_initialize mc m v (k_gic k, u5, h5) = Some (Inr (g, u6, h6)) \<and>
      init_device_irqs mc v g i (Inr t) h6 = Inr (ks_hw ks7) \<and> secondary_kern_main mc m img ks7 = Some (Inr ks8) \<and>
      k_gic (ks_kernel ks7) = g \<and> gic_driver g = Some v \<and> ua_uart (k_uart (ks_kernel ks7)) = ua_uart (k_uart k) \<and>
      boot_secondary_cores mc m (k_psci k) (im_secondary_start img) (k_cpus k) (k_uart (ks_kernel ks8), ks_hw ks8) = Some (Inr (u9, ks_hw ?ks9))"
    by (rule exI [of _ "?u b5"], rule exI [of _ h5], rule exI [of _ "?u b6"], rule exI [of _ h6], rule exI [of _ ?ks], rule exI [of _ ?ks8],
      rule exI [of _ ?u8], unfold q, intro conjI p6(1,3) p7 p8(1) p9(1) refl)
  ultimately show ?thesis using p3(3) p8(2) p9(2)
    by (intro exI [of _ ?ks9] exI [of _ b8] exI [of _ g] exI [of _ "log h8"] conjI) simp_all
qed

text \<open>C4: The boot core comes up: on a machine with a working UART and interrupt controller and
  firmware that starts cores, with a device tree that describes RAM and devices apart from
  each other, \<open>kern_main\<close> after the parse returns. Translation is then on and maps exactly RAM
  and device pages to themselves; the reserved regions cover the bootloader hole, the entries
  of the blob, the image and the blob; RAM and device lists are as the device tree left them; the
  print lock is free; and the last that the firmware and the release addresses have seen is the start of every other core, in order.\<close>

theorem kern_boot_completes:
  fixes ks :: "'h KState"
  defines "k \<equiv> ks_kernel ks"
  assumes "pl011 mc (ua_uart (k_uart k)) d" and "buffer_ok (ua_tx_buffer (k_uart k))" and "ua_clock_frequency (k_uart k) \<noteq> 0"
    and "mappable (im_layout img) (k_memory k) (ks_tables ks) (ks_regs ks)"
    and "bytes_at m fdt (enc_fdt rsv es strs)" and "fdt_size rsv es strs < 2 ^ 32"
    and "fdt \<noteq> 0" and "unat fdt + 2 ^ 33 + 16 < 2 ^ 64"
    and "list_ok (mm_reserved_regions (k_memory k))" and "list_ok (mm_ram_regions (k_memory k))"
    and "\<forall>r\<in>set rsv. no_wrap (fst r) (snd r)" and "im_start img \<le> im_end img"
    and "length rsv + 3 \<le> list_room (mm_reserved_regions (k_memory k))"
    and "gic_driver (k_gic k) = Some v" and "gic_starts mc v (k_gic k)"
    and "uart_intid (k_uart k) = Inr i" and "unat i < 1020"
    and "timer_intid (k_timer k) NonSecure = Inr t" and "unat t < 1020"
    and "ks_print_lock ks = 0"
    and "boot_log mc log" and "startable (k_psci k) (k_cpus k)"
  shows "\<exists>ks' reserved before. kern_boot mc m img out fdt ks = Some (Inr ks') \<and>
    identity_mapped (k_memory k) (ks_tables ks') (ks_regs ks') \<and>
    k_memory (ks_kernel ks') = (k_memory k)\<lparr>mm_reserved_regions := reserved\<rparr> \<and>
    coverage reserved = coverage (mm_reserved_regions (k_memory k))
      \<union> hole_span (im_start img) (regions (mm_ram_regions (k_memory k)))
      \<union> (\<Union>r\<in>set (takeWhile (\<lambda>r. r \<noteq> (0, 0)) rsv). span (fst r) (snd r))
      \<union> {unat (im_start img) ..< unat (im_end img)} \<union> {unat fdt ..< unat fdt + fdt_size rsv es strs} \<and>
    ua_irqs_ready (k_uart (ks_kernel ks')) \<and> ks_print_lock ks' = 0 \<and>
    log (ks_hw ks') = before @ concat (map (events_of (k_psci k) (im_secondary_start img) (k_cpus k)) [1..<unat (cpu_num_cpus (k_cpus k))])"
proof -
  obtain l where l: "memory_init m (im_start img) (im_end img) out fdt (k_memory k) = Some (Inr ((k_memory k)\<lparr>mm_reserved_regions := l\<rparr>))"
    "coverage l = coverage (mm_reserved_regions (k_memory k))
      \<union> hole_span (im_start img) (regions (mm_ram_regions (k_memory k)))
      \<union> (\<Union>r\<in>set (takeWhile (\<lambda>r. r \<noteq> (0, 0)) rsv). span (fst r) (snd r))
      \<union> {unat (im_start img) ..< unat (im_end img)} \<union> {unat fdt ..< unat fdt + fdt_size rsv es strs}"
    using memory_init_spec [OF assms(6-14), where out = out] by blast
  obtain ks' b g before where ks': "kern_boot mc m img out fdt ks = Some (Inr ks')"
    "identity_mapped (k_memory k) (ks_tables ks') (ks_regs ks')" "ks_print_lock ks' = 0"
    "ks_kernel ks' = k\<lparr>k_uart := (k_uart k)\<lparr>ua_irqs_ready := True, ua_tx_buffer := b\<rparr>,
       k_memory := (k_memory k)\<lparr>mm_reserved_regions := l\<rparr>, k_gic := g\<rparr>"
    "log (ks_hw ks') = before @ concat (map (events_of (k_psci k) (im_secondary_start img) (k_cpus k)) [1..<unat (cpu_num_cpus (k_cpus k))])"
    using kern_boot_spec [where ks = ks, folded k_def, OF assms(2-5) l(1) assms(15-23)] by blast
  then show ?thesis using l(2)
    by (intro exI [of _ ks'] exI [of _ l] exI [of _ before]) simp
qed

text \<open>QEMU's virt board: the simulated UART beside firmware that keeps a log, a GICv2 and three cores.\<close>

definition virt_board :: "((u8 list \<times> u32 \<times> nat) \<times> boot_event list) Machine" where
  "virt_board =
     \<lparr>mc_read32 = (\<lambda>a (h, l). let (v, h1) = mc_read32 sim_machine a h in (v, h1, l)),
      mc_write32 = (\<lambda>a v (h, l). (mc_write32 sim_machine a v h, l)),
      mc_read64 = (\<lambda>a h. (0, h)), mc_write64 = (\<lambda>a v (h, l). (h, l @ [Store a v])), mc_write8 = (\<lambda>a v h. h),
      mc_mrs = (\<lambda>r h. (if r = CurrentEL then 4 else 0, h)), mc_msr = (\<lambda>r v h. h),
      mc_firmware = (\<lambda>c x (h, l). (0, h, l @ [Call c x])), mc_sev = (\<lambda>(h, l). (h, l @ [Sev]))\<rparr>"

definition virt_kernel :: Kernel where
  "virt_kernel = kernel_init\<lparr>k_uart := sim_uart, k_memory := virt_map, k_cpus := sim_cpus,
     k_timer := \<lparr>int_num_intids = 4, int_intids = [29, 30, 27, 26, 0]\<rparr>,
     k_gic := \<lparr>gic_driver = Some V2, gic_v2 = sim_driver, gic_v3 = sim_v3\<rparr>\<rparr>"

lemma virt_board_devices: "pl011 virt_board (ua_uart sim_uart) (on_board sim_pl011)" "boot_log virt_board snd"
proof -
  show "pl011 virt_board (ua_uart sim_uart) (on_board sim_pl011)"
    unfolding pl011_def
    using pl011D [OF sim_pl011_ok] by (auto simp: virt_board_def on_board_def quiet_def split_beta Let_def)
  show "boot_log virt_board snd" by (simp add: boot_log_def virt_board_def split_beta)
qed

lemma virt_mappable: "mappable virt_layout virt_map bss_tables reset_regs"
  unfolding mappable_def using virt_setup by auto

lemma virt_startable: "startable psci_init sim_cpus"
proof -
  have "ci_enable_method (cpu_information sim_cpus ! i) \<noteq> NoMethod" if "i \<in> {1..<unat (cpu_num_cpus sim_cpus)}" for i
  proof -
    from that have "i = 1 \<or> i = 2" by (auto simp: sim_cpus_def)
    then show ?thesis by (elim disjE) (simp_all add: sim_cpus_def)
  qed
  moreover have "cpus_ok sim_cpus" by (simp add: cpus_ok_def sim_cpus_def)
  ultimately show ?thesis by (simp add: startable_def psci_init_def)
qed

theorem kern_boot_completes_witness:
  "\<exists>ks' before. kern_boot virt_board demo_fdt virt_image (0, 0) 4096 ((virt_state (([], 0, 0), []))\<lparr>ks_kernel := virt_kernel\<rparr>) = Some (Inr ks') \<and>
     identity_mapped virt_map (ks_tables ks') (ks_regs ks') \<and>
     snd (ks_hw ks') = before @ [Call SMC (0xC4000003, 1, 0x40080100, 1), Store 0xd8 0x40080100, Sev]"
proof -
  let ?ks = "(virt_state (([], 0, 0), []))\<lparr>ks_kernel := virt_kernel\<rparr>"
  have k: "ks_kernel ?ks = virt_kernel" "k_uart virt_kernel = sim_uart" "k_memory virt_kernel = virt_map" "k_cpus virt_kernel = sim_cpus"
    "k_psci virt_kernel = psci_init" "ks_tables ?ks = bss_tables" "ks_regs ?ks = reset_regs" "im_layout virt_image = virt_layout"
    "im_secondary_start virt_image = 0x40080100"
    by (simp_all add: virt_kernel_def kernel_init_def virt_state_def virt_image_def)
  have lists: "list_ok (mm_reserved_regions virt_map)" "list_ok (mm_ram_regions virt_map)" "list_room (mm_reserved_regions virt_map) = 15"
    using empty_list_ok by (simp_all add: virt_map_def list_ok_def one_region_def regions_def no_wrap_def list_room_def empty_list_def)
  have irqs: "uart_intid sim_uart = Inr 33" "timer_intid (k_timer virt_kernel) NonSecure = Inr 30"
    by (simp_all add: uart_intid_def timer_intid_def interrupts_get_def sim_uart_def virt_kernel_def)
  have "[1..<unat (cpu_num_cpus sim_cpus)] = [1, 2]" by (simp add: sim_cpus_def upt_rec)
  then have ev: "concat (map (events_of psci_init 0x40080100 sim_cpus) [1..<unat (cpu_num_cpus sim_cpus)]) =
      [Call SMC (0xC4000003, 1, 0x40080100, 1), Store 0xd8 0x40080100, Sev]"
    by (simp add: events_of_def conduit_def psci_init_def sim_cpus_def)
  have uart: "buffer_ok (ua_tx_buffer sim_uart)" "ua_clock_frequency sim_uart \<noteq> 0"
    using CharBuffer_init_ok by (simp_all add: sim_uart_def)
  have rest: "fdt_size [(0x80000000, 0x1000)] demo_events [97, 0] < 2 ^ 32" "(4096 :: u64) \<noteq> 0" "unat (4096 :: u64) + 2 ^ 33 + 16 < 2 ^ 64"
    "\<forall>r\<in>set [(0x80000000, 0x1000)]. no_wrap (fst r) (snd r)" "im_start virt_image \<le> im_end virt_image"
    "length [(0x80000000 :: u64, 0x1000 :: u64)] + 3 \<le> list_room (mm_reserved_regions virt_map)"
    "gic_driver (k_gic virt_kernel) = Some V2" "gic_starts virt_board V2 (k_gic virt_kernel)" "unat (33 :: u32) < 1020" "unat (30 :: u32) < 1020"
    "ks_print_lock ?ks = 0"
    using lists(3) by (simp_all add: demo_fdt_size no_wrap_def virt_image_def word_le_nat_alt virt_kernel_def gic_starts_def virt_state_def)
  show ?thesis
    using kern_boot_completes [where ks = ?ks and img = virt_image and out = "(0, 0)", unfolded k, OF virt_board_devices(1) uart virt_mappable
        demo_fdt_at rest(1-3) lists(1,2) rest(4-8) irqs(1) rest(9) irqs(2) rest(10,11) virt_board_devices(2) virt_startable]
    unfolding ev by blast
qed

end
