(* ===== verification/Vectors.thy ===== *)
theory Vectors
  imports Kernel Frame
begin

text \<open>
  The entries of the vector table (\<open>src/src/exceptions.S\<close>): the registers are saved on the stack, the
  C++ handlers run, and the registers are restored. What the handlers do to the registers is
  up to the compiler, so it is an argument \<open>code\<close>; it follows the procedure call standard.
\<close>

section \<open>Saving and restoring registers\<close>

record CoreRegs =
  cr_x :: "nat \<Rightarrow> u64"
  cr_sp :: u64

definition save_registers :: "CoreRegs \<Rightarrow> ExceptionFrame \<times> CoreRegs" where
  "save_registers r =
     (\<lparr>ef_x0 = cr_x r 0, ef_x1 = cr_x r 1, ef_x2 = cr_x r 2, ef_x3 = cr_x r 3, ef_x4 = cr_x r 4, ef_x5 = cr_x r 5,
       ef_x6 = cr_x r 6, ef_x7 = cr_x r 7, ef_x8 = cr_x r 8, ef_x9 = cr_x r 9, ef_x10 = cr_x r 10, ef_x11 = cr_x r 11,
       ef_x12 = cr_x r 12, ef_x13 = cr_x r 13, ef_x14 = cr_x r 14, ef_x15 = cr_x r 15, ef_x16 = cr_x r 16,
       ef_x17 = cr_x r 17, ef_x18 = cr_x r 18, ef_x29 = cr_x r 29, ef_x30 = cr_x r 30, ef_xzr = 0\<rparr>,
      r\<lparr>cr_sp := cr_sp r - 192\<rparr>)"

definition frame_slots :: "ExceptionFrame \<Rightarrow> (nat \<times> u64) list" where
  "frame_slots f =
     [(0, ef_x0 f), (1, ef_x1 f), (2, ef_x2 f), (3, ef_x3 f), (4, ef_x4 f), (5, ef_x5 f), (6, ef_x6 f), (7, ef_x7 f),
      (8, ef_x8 f), (9, ef_x9 f), (10, ef_x10 f), (11, ef_x11 f), (12, ef_x12 f), (13, ef_x13 f), (14, ef_x14 f),
      (15, ef_x15 f), (16, ef_x16 f), (17, ef_x17 f), (18, ef_x18 f), (29, ef_x29 f), (30, ef_x30 f)]"

definition restore_registers :: "ExceptionFrame \<Rightarrow> CoreRegs \<Rightarrow> CoreRegs" where
  "restore_registers f r =
     r\<lparr>cr_x := (\<lambda>n. case map_of (frame_slots f) n of Some v \<Rightarrow> v | None \<Rightarrow> cr_x r n), cr_sp := cr_sp r + 192\<rparr>"

section \<open>The entries\<close>

text \<open>At \<open>.Lpanic\<close> the core spins.\<close>

definition exception_entry ::
    "'h Machine \<Rightarrow> mem \<Rightarrow> (CoreRegs \<Rightarrow> CoreRegs) \<Rightarrow> CoreRegs \<times> Uart \<times> 'h \<Rightarrow> (CoreRegs \<times> Uart \<times> 'h) comp" where
  "exception_entry mc m code s =
     (let (frame, r) = save_registers (fst s) in
      bind_comp (exception_handler mc m frame (snd s)) (\<lambda>(bad, uh).
      if bad then None else Some (Inr (restore_registers frame (code r), uh))))"

text \<open>\<open>x0\<close> carries the interrupt id from each call to the next.\<close>

definition irq_entry ::
    "'h Machine \<Rightarrow> mem \<Rightarrow> Gic \<Rightarrow> (CoreRegs \<Rightarrow> CoreRegs) \<Rightarrow> CoreRegs \<times> Uart \<times> 'h \<Rightarrow> (CoreRegs \<times> Uart \<times> 'h) comp" where
  "irq_entry mc m g code s =
     (let (frame, r) = save_registers (fst s) in
      bind_comp (Some (acknowledge_interrupt mc g (snd (snd s)))) (\<lambda>(intid, h1).
      bind_comp (irq_handler mc m intid (fst (snd s), h1)) (\<lambda>(intid2, u2, h2).
      bind_comp (Some (end_of_interrupt mc g intid2 h2)) (\<lambda>h3.
      Some (Inr (restore_registers frame (code r), u2, h3))))))"

definition fiq_entry ::
    "'h Machine \<Rightarrow> mem \<Rightarrow> Gic \<Rightarrow> (CoreRegs \<Rightarrow> CoreRegs) \<Rightarrow> CoreRegs \<times> Uart \<times> 'h \<Rightarrow> (CoreRegs \<times> Uart \<times> 'h) comp" where
  "fiq_entry mc m g code s =
     (let (frame, r) = save_registers (fst s) in
      bind_comp (Some (acknowledge_interrupt mc g (snd (snd s)))) (\<lambda>(intid, h1).
      bind_comp (irq_handler mc m intid (fst (snd s), h1)) (\<lambda>(intid2, u2, h2).
      bind_comp (Some (end_of_interrupt mc g intid2 h2)) (\<lambda>h3.
      Some (Inr (restore_registers frame (code r), u2, h3))))))"

text \<open>The sixteen slots of the vector table; a slot that branches to itself spins.\<close>

datatype VectorSlot = Self | Exception_Entry | Irq_Entry | Fiq_Entry

definition vector_table :: "VectorSlot list" where
  "vector_table =
     [Self, Self, Self, Self,
      Exception_Entry, Irq_Entry, Fiq_Entry, Exception_Entry,
      Self, Self, Self, Self,
      Self, Self, Self, Self]"

definition take_vector ::
    "'h Machine \<Rightarrow> mem \<Rightarrow> Gic \<Rightarrow> (CoreRegs \<Rightarrow> CoreRegs) \<Rightarrow> nat \<Rightarrow> CoreRegs \<times> Uart \<times> 'h \<Rightarrow> (CoreRegs \<times> Uart \<times> 'h) comp" where
  "take_vector mc m g code slot s =
     (case vector_table ! slot of
        Self \<Rightarrow> None
      | Exception_Entry \<Rightarrow> exception_entry mc m code s
      | Irq_Entry \<Rightarrow> irq_entry mc m g code s
      | Fiq_Entry \<Rightarrow> fiq_entry mc m g code s)"

section \<open>Registers survive\<close>

text \<open>The procedure call standard (AAPCS64): a function keeps \<open>x19\<close> to \<open>x28\<close> and the stack pointer.\<close>

definition aapcs :: "(CoreRegs \<Rightarrow> CoreRegs) \<Rightarrow> bool" where
  "aapcs code \<longleftrightarrow> (\<forall>r. cr_sp (code r) = cr_sp r \<and> (\<forall>n\<in>{19..28}. cr_x (code r) n = cr_x r n))"

lemma restore_saved:
  assumes "aapcs code" "save_registers r = (frame, r1)" "n \<le> 30"
  shows "cr_x (restore_registers frame (code r1)) n = cr_x r n" "cr_sp (restore_registers frame (code r1)) = cr_sp r"
proof -
  have r1: "r1 = r\<lparr>cr_sp := cr_sp r - 192\<rparr>" using assms(2) by (auto simp: save_registers_def)
  show "cr_sp (restore_registers frame (code r1)) = cr_sp r"
    using assms(1) by (simp add: restore_registers_def aapcs_def r1)
  show "cr_x (restore_registers frame (code r1)) n = cr_x r n"
  proof (cases "n \<in> {19..28}")
    case True
    then have "map_of (frame_slots frame) n = None" by (auto simp: frame_slots_def)
    then show ?thesis using True assms(1) by (simp add: restore_registers_def aapcs_def r1)
  next
    case False
    then have "n < 19 \<or> n = 29 \<or> n = 30" using assms(3) by auto
    then have "map_of (frame_slots frame) n = Some (cr_x r n)"
      using assms(2) by (auto simp: frame_slots_def save_registers_def less_Suc_eq numeral_eq_Suc)
    then show ?thesis by (simp add: restore_registers_def)
  qed
qed

text \<open>
  A synchronous exception on a working console: for an undefined instruction or a data abort the core
  spins after the report, otherwise it continues with its registers as they were.
\<close>

lemma exception_entry_outcome:
  assumes "console mc d (u, h)" "sysregs_apart mc d" "mc_mrs mc ESR_EL1 h = (esr, h1)" "mc_mrs mc ELR_EL1 h1 = (elr, h2)" "aapcs code"
  shows "if drop_bit 26 esr AND 63 \<in> {0, 37} then exception_entry mc m code (r, u, h) = None
    else \<exists>r' uh'. exception_entry mc m code (r, u, h) = Some (Inr (r', uh')) \<and>
      (\<forall>n\<le>30. cr_x r' n = cr_x r n) \<and> cr_sp r' = cr_sp r"
proof -
  obtain frame r1 where fr: "save_registers r = (frame, r1)" by fastforce
  from exception_handler_spec [OF assms(1-4), of m frame] obtain uh' where
    e: "exception_handler mc m frame (u, h) = Some (Inr (drop_bit 26 esr AND 63 \<in> {0, 37}, uh'))" by blast
  show ?thesis
    unfolding exception_entry_def fst_conv snd_conv fr Let_def prod.case e bind_comp_simps
    using restore_saved [OF assms(5) fr] by auto
qed

section \<open>The interrupt handler and the rest of the hardware\<close>

text \<open>A part of the hardware that neither the UART nor the system registers of the handler touch.\<close>

definition handler_sysregs_keep :: "'h Machine \<Rightarrow> ('h \<Rightarrow> 'f) \<Rightarrow> bool" where
  "handler_sysregs_keep mc F \<longleftrightarrow> (\<forall>h. F (snd (mc_mrs mc MPIDR_EL1 h)) = F h \<and> F (snd (mc_mrs mc CNTFRQ_EL0 h)) = F h) \<and>
     (\<forall>v h. F (mc_msr mc CNTP_TVAL_EL0 v h) = F h)"

lemma cpu_id_keeps: "handler_sysregs_keep mc F \<Longrightarrow> F (snd (cpu_id mc h)) = F h"
  by (simp add: cpu_id_def split_beta Let_def handler_sysregs_keep_def)

lemma core_line_keeps:
  assumes "uart_frame mc (ua_uart (fst uh)) F" "handler_sysregs_keep mc F" "cpu_id mc (snd uh) = (c, h)"
  shows "keeps F (\<lambda>x. x) uh (kprintf mc m f (args c) (fst uh, h))"
proof (rule keeps_change)
  show "keeps F (\<lambda>x. x) (fst uh, h) (kprintf mc m f (args c) (fst uh, h))"
    by (rule uart_frame.kprintf_frame [OF assms(1)]) simp
  show "kept F uh (fst uh, h)" using cpu_id_keeps [OF assms(2), of "snd uh"] assms(3) by (simp add: kept_def)
qed

lemma irq_handler_keeps:
  assumes fr: "uart_frame mc (ua_uart (fst uh)) F" and sys: "handler_sysregs_keep mc F"
  shows "keeps F snd uh (irq_handler mc m intid uh)"
proof -
  obtain c h where c: "cpu_id mc (snd uh) = (c, h)" by fastforce
  have timer: "keeps F (\<lambda>x. x) uh1 (irq_timer mc m intid uh1)" if "uart_frame mc (ua_uart (fst uh1)) F" for uh1
  proof -
    obtain c1 h1 where c1: "cpu_id mc (snd uh1) = (c1, h1)" by fastforce
    have "kept F x (fst x, set_timer mc (snd x))" for x
      using sys by (simp add: kept_def set_timer_def split_beta Let_def handler_sysregs_keep_def)
    then show ?thesis unfolding irq_timer_def c1 Let_def prod.case
      by (intro keeps_bind [OF core_line_keeps [OF that sys c1]]) (simp add: keeps_simps)
  qed
  have unhandled: "keeps F (\<lambda>x. x) uh1 (irq_unhandled mc m intid uh1)" if "uart_frame mc (ua_uart (fst uh1)) F" for uh1
  proof -
    obtain c1 h1 where c1: "cpu_id mc (snd uh1) = (c1, h1)" by fastforce
    show ?thesis unfolding irq_unhandled_def c1 Let_def prod.case by (rule core_line_keeps [OF that sys c1])
  qed
  have branch: "keeps F (\<lambda>x. x) uh1 (if intid = 30 then irq_timer mc m intid uh1
      else bind_comp (Some (uart_intid (fst uh1))) (\<lambda>uart. if intid = uart then pl011_handle_irq mc uh1 else irq_unhandled mc m intid uh1))"
    if fr1: "uart_frame mc (ua_uart (fst uh1)) F" for uh1
    using timer [OF fr1] unhandled [OF fr1] uart_frame.handle_irq_frame [OF fr1 refl]
    by (auto intro!: keeps_pure)
  show ?thesis
    unfolding irq_handler_def c Let_def prod.case
  proof (rule keeps_bind [OF core_line_keeps [OF fr sys c]])
    fix uh1 assume "kept F uh uh1"
    then have fr1: "uart_frame mc (ua_uart (fst uh1)) F" using fr by (simp add: kept_def)
    show "keeps F snd uh1 (if intid = 1022 \<or> intid = 1023 then Some (Inr (intid, uh1))
      else bind_comp (if intid = 30 then irq_timer mc m intid uh1
        else bind_comp (Some (uart_intid (fst uh1))) (\<lambda>uart. if intid = uart then pl011_handle_irq mc uh1 else irq_unhandled mc m intid uh1))
        (\<lambda>uh2. Some (Inr (intid, uh2))))"
      using keeps_bind [OF branch [OF fr1], of snd "\<lambda>uh2. Some (Inr (intid, uh2))"]
      by (simp add: keeps_simps kept_refl)
  qed
qed

section \<open>One interrupt\<close>

text \<open>
  The CPU interface of a GIC (GIC architecture specification, chapter 4): reading the acknowledge register returns a
  pending interrupt that is not active, and makes it active, or a special id from 1020 on; writing
  an id to the end-of-interrupt register makes it inactive.
\<close>

definition gic_cpu :: "'h Machine \<Rightarrow> DriverVersion \<Rightarrow> Gic \<Rightarrow> ('h \<Rightarrow> u32 set) \<Rightarrow> bool" where
  "gic_cpu mc v g active \<longleftrightarrow>
     (\<forall>h. let (i, h') = (case v of V2 \<Rightarrow> mc_read32 mc (cpu_interface (gic_v2 g) GICC_IAR) h
            | V3 \<Rightarrow> let (x, h1) = mc_mrs mc ICC_IAR1_EL1 h in (ucast x, h1)) in
        unat i < 2 ^ 24 \<and> i \<notin> active h \<and> active h' = (if unat i < 1020 then insert i (active h) else active h)) \<and>
     (\<forall>i h. active (case v of V2 \<Rightarrow> mc_write32 mc (cpu_interface (gic_v2 g) GICC_EOIR) i h
            | V3 \<Rightarrow> mc_msr mc ICC_EOIR1_EL1 (ucast i) h) = active h - {i})"

lemma gic_cpu_ack:
  assumes "gic_cpu mc v g active" "gic_driver g = Some v"
  shows "\<exists>i h'. acknowledge_interrupt mc g h = Inr (i, h') \<and> unat i < 2 ^ 24 \<and> i \<notin> active h \<and>
    active h' = (if unat i < 1020 then insert i (active h) else active h)"
proof -
  obtain i h' where a: "acknowledge_interrupt mc g h = Inr (i, h')"
    using assms(2) by (cases v; cases "v2_acknowledge_interrupt mc (gic_v2 g) h"; cases "v3_acknowledge_interrupt mc h")
      (simp_all add: acknowledge_interrupt_def)
  have "unat i < 2 ^ 24 \<and> i \<notin> active h \<and> active h' = (if unat i < 1020 then insert i (active h) else active h)"
  proof (cases v)
    case V2
    then have "mc_read32 mc (cpu_interface (gic_v2 g) GICC_IAR) h = (i, h')"
      using a assms(2) by (simp add: acknowledge_interrupt_def v2_acknowledge_interrupt_def)
    with assms(1) V2 show ?thesis unfolding gic_cpu_def by (auto dest!: spec [of _ h])
  next
    case V3
    then have "(let (x, h1) = mc_mrs mc ICC_IAR1_EL1 h in (ucast x, h1)) = (i, h')"
      using a assms(2) by (simp add: acknowledge_interrupt_def v3_acknowledge_interrupt_def)
    with assms(1) V3 show ?thesis unfolding gic_cpu_def by (auto dest!: spec [of _ h])
  qed
  with a show ?thesis by blast
qed

lemma gic_cpu_eoi:
  assumes "gic_cpu mc v g active" "gic_driver g = Some v"
  shows "\<exists>h'. end_of_interrupt mc g i h = Inr h' \<and> active h' = active h - {i}"
  using assms unfolding gic_cpu_def
  by (cases v) (auto simp: end_of_interrupt_def v2_end_of_interrupt_def v3_end_of_interrupt_def)

text \<open>C9: An interrupt leaves no trace in the code it interrupts: with either GIC driver and a working
  UART, the IRQ and the FIQ slot of the kernel's own stack return with every general register and the stack pointer as they were, the
  interrupt that it acknowledged is ended under the same id, so that exactly the interrupts that
  were active before are active after it, and the UART driver is well formed.\<close>

theorem irq_entry_transparent:
  assumes "gic_driver g = Some v" and "gic_cpu mc v g active"
    and "uart_ok mc d u" and "sysregs_apart mc d" and "uart_intid u = Inr uart"
    and "uart_frame mc (ua_uart u) active" and "handler_sysregs_keep mc active" and "aapcs code" and "slot \<in> {5, 6}"
  shows "\<exists>r' u' h'. take_vector mc m g code slot (r, u, h) = Some (Inr (r', u', h')) \<and>
    (\<forall>n\<le>30. cr_x r' n = cr_x r n) \<and> cr_sp r' = cr_sp r \<and> active h' = active h \<and> uart_ok mc d u'"
proof -
  obtain frame r1 where fr: "save_registers r = (frame, r1)" by fastforce
  obtain i h1 where ack: "acknowledge_interrupt mc g h = Inr (i, h1)" "unat i < 2 ^ 24" "i \<notin> active h"
      "active h1 = (if unat i < 1020 then insert i (active h) else active h)"
    using gic_cpu_ack [OF assms(2,1)] by blast
  have "unat i < 2 ^ 31" using ack(2) by simp
  from irq_handler_spec [OF assms(3,4) this assms(5), of m h1] obtain u' h2 where
    ih: "irq_handler mc m i (u, h1) = Some (Inr (i, u', h2))" "uart_ok mc d u'" by blast
  have "keeps active snd (u, h1) (irq_handler mc m i (u, h1))"
    by (rule irq_handler_keeps [OF _ assms(7)]) (use assms(6) in simp)
  from keepsD [OF this ih(1)] have a2: "active h2 = active h1" by (simp add: kept_def)
  obtain h3 where eoi: "end_of_interrupt mc g i h2 = Inr h3" "active h3 = active h2 - {i}"
    using gic_cpu_eoi [OF assms(2,1)] by blast
  have "irq_entry mc m g code (r, u, h) = Some (Inr (restore_registers frame (code r1), u', h3))"
      "fiq_entry mc m g code (r, u, h) = Some (Inr (restore_registers frame (code r1), u', h3))"
    unfolding irq_entry_def fiq_entry_def fst_conv snd_conv fr Let_def prod.case ack(1) ih(1) eoi(1) bind_comp_simps by (rule refl)+
  then have "take_vector mc m g code slot (r, u, h) = Some (Inr (restore_registers frame (code r1), u', h3))"
    using assms(9) by (auto simp: take_vector_def vector_table_def)
  moreover have "active h3 = active h" using ack(3,4) a2 eoi(2) by auto
  ultimately show ?thesis using restore_saved [OF assms(8) fr] ih(2)
    by (intro exI [of _ "restore_registers frame (code r1)"] exI [of _ u'] exI [of _ h3]) auto
qed

text \<open>The simulated UART on a bus with the CPU interface of a GICv2 on which interrupt 33 is pending.\<close>

definition sim_gicc :: "u32 set Machine" where
  "sim_gicc =
     \<lparr>mc_read32 = (\<lambda>a s. if a = 0x801000C then if 33 \<in> s then (1023, s) else (33, insert 33 s) else (0, s)),
      mc_write32 = (\<lambda>a v s. if a = 0x8010010 then s - {v} else s), mc_read64 = (\<lambda>a s. (0, s)), mc_write64 = (\<lambda>a v s. s),
      mc_write8 = (\<lambda>a v s. s), mc_mrs = (\<lambda>r s. (0, s)), mc_msr = (\<lambda>r v s. s), mc_firmware = (\<lambda>c x s. (0, s)),
      mc_sev = (\<lambda>s. s)\<rparr>"

lemma on_bus_pl011:
  assumes "pl011 ma base d"
  shows "pl011 (on_bus base ma mb) base (on_board d)"
  unfolding pl011_def
  using pl011D [OF assms] by (simp add: on_bus_uart bus.registers on_board_def quiet_def Let_def split_beta)

lemma on_bus_sysregs: "sysregs_apart (on_bus base ma mb) (on_board d)"
  by (simp add: sysregs_apart_def on_bus_def on_board_def quiet_def Let_def split_beta)

definition virt_gic :: Gic where
  "virt_gic = \<lparr>gic_driver = Some V2, gic_v2 = \<lparr>v2_gicd_base = 0x8000000, v2_gicc_base = 0x8010000, v2_num_interrupts = 64\<rparr>, gic_v3 = sim_v3\<rparr>"

lemma sim_gicc_ok: "gic_cpu (on_bus 0x9000000 ma sim_gicc) V2 virt_gic (\<lambda>h. snd h - {1023})"
  by (auto simp: gic_cpu_def on_bus_def sim_gicc_def virt_gic_def cpu_interface_def GICC_IAR_def GICC_EOIR_def Let_def split_beta)

theorem irq_entry_transparent_witness:
  "\<exists>r' u' h'. take_vector (on_bus 0x9000000 sim_machine sim_gicc) (\<lambda>_. None) virt_gic (\<lambda>r. r\<lparr>cr_x := (cr_x r)(0 := 33)\<rparr>) 5
       (\<lparr>cr_x = of_nat, cr_sp = 0x40110000\<rparr>, sim_uart, ([], 0, 0), {}) = Some (Inr (r', u', h')) \<and>
     (\<forall>n\<le>30. cr_x r' n = of_nat n) \<and> snd h' - {1023} = {}"
proof -
  have "uart_ok (on_bus 0x9000000 sim_machine sim_gicc) (on_board sim_pl011) sim_uart"
    using sim_uart_ok on_bus_pl011 [of sim_machine "0x9000000"] by (auto simp: uart_ok_def sim_uart_def)
  moreover have "uart_intid sim_uart = Inr 33" by (simp add: uart_intid_def interrupts_get_def sim_uart_def)
  moreover have "uart_frame (on_bus 0x9000000 sim_machine sim_gicc) (ua_uart sim_uart) (\<lambda>h. snd h - {1023})"
    by unfold_locales (simp_all add: sim_uart_def on_bus_uart)
  moreover have "handler_sysregs_keep (on_bus 0x9000000 sim_machine sim_gicc) (\<lambda>h. snd h - {1023})"
    by (simp add: handler_sysregs_keep_def on_bus_def sim_gicc_def Let_def split_beta)
  moreover have "aapcs (\<lambda>r. r\<lparr>cr_x := (cr_x r)(0 := 33)\<rparr>)" by (simp add: aapcs_def)
  moreover have "gic_driver virt_gic = Some V2" by (simp add: virt_gic_def)
  ultimately show ?thesis
    using irq_entry_transparent [OF _ sim_gicc_ok _ on_bus_sysregs, of sim_machine sim_pl011 sim_uart 33 "\<lambda>r. r\<lparr>cr_x := (cr_x r)(0 := 33)\<rparr>" 5
        "\<lambda>_. None" "\<lparr>cr_x = of_nat, cr_sp = 0x40110000\<rparr>" "(([], 0, 0), {})"]
    by fastforce
qed

end
