(* ===== verification/Boot_Irqs.thy ===== *)
theory Boot_Irqs
  imports Boot Vectors
begin

text \<open>
  The interrupts of the devices at the end of the boot: what \<open>kern_main\<close> sets up in the interrupt
  controller survives what it does afterwards, the core-specific set-up, the console line and the
  start of the other cores.
\<close>

section \<open>What the rest of the boot leaves alone\<close>

text \<open>
  A part \<open>F\<close> of the hardware that the system registers, the firmware, the event sent to the other cores, the CPU interface of a GICv2 and the
  release addresses of the cores do not touch.
\<close>

definition late_keeps :: "'h Machine \<Rightarrow> DriverVersion \<Rightarrow> Gic \<Rightarrow> Cpus \<Rightarrow> ('h \<Rightarrow> 'f) \<Rightarrow> bool" where
  "late_keeps mc v g c F \<longleftrightarrow>
     (\<forall>r h. F (snd (mc_mrs mc r h)) = F h) \<and> (\<forall>r x h. F (mc_msr mc r x h) = F h) \<and>
     (\<forall>cd args h. F (snd (mc_firmware mc cd args h)) = F h) \<and> (\<forall>h. F (mc_sev mc h) = F h) \<and>
     (\<forall>i x h. i < 16 \<longrightarrow> F (mc_write64 mc (ci_release_address (cpu_information c ! i)) x h) = F h) \<and>
     (v = V2 \<longrightarrow> (\<forall>off\<in>{GICC_CTLR, GICC_PMR}. \<forall>x h. F (mc_write32 mc (cpu_interface (gic_v2 g) off) x h) = F h \<and>
        F (snd (mc_read32 mc (cpu_interface (gic_v2 g) off) h)) = F h))"

lemma core_specific_keeps:
  assumes "late_keeps mc v g c F"
  shows "F (gic_initialize_core_specific mc v g h) = F h"
  using assms
  by (cases v) (simp_all add: late_keeps_def gic_initialize_core_specific_def v2_initialize_core_specific_def v2_enable_cpu_interrupts_def
      v2_set_cpu_priority_mask_def v2_enable_cpu_interface_def v3_initialize_core_specific_def v3_enable_cpu_interrupts_def
      v3_set_cpu_priority_mask_def v3_enable_cpu_interface_def split_beta Let_def)

lemma secondary_kern_main_keeps:
  assumes "late_keeps mc v (k_gic (ks_kernel ks)) c F" "uart_frame mc (ua_uart (k_uart (ks_kernel ks))) F"
    "gic_driver (k_gic (ks_kernel ks)) = Some v" "secondary_kern_main mc m img ks = Some (Inr ks')"
  shows "kept F (k_uart (ks_kernel ks), ks_hw ks) (k_uart (ks_kernel ks'), ks_hw ks')"
proof -
  obtain cid h0 where c: "cpu_id mc (ks_hw ks) = (cid, h0)" by fastforce
  let ?h2 = "unmask_irqs mc (gic_initialize_core_specific mc v (k_gic (ks_kernel ks)) h0)"
  let ?u = "signal_irqs_ready (k_uart (ks_kernel ks))"
  have "F h0 = F (ks_hw ks)" using c assms(1) by (auto simp: cpu_id_def late_keeps_def split_beta Let_def)
  then have h2: "F ?h2 = F (ks_hw ks)" using assms(1) core_specific_keeps [OF assms(1)] by (simp add: unmask_irqs_def late_keeps_def)
  obtain uh where k: "kprintf mc m (''Running core %d'' @ [CHR 0x0A]) [Slot cid] (?u, ?h2) = Some (Inr uh)"
      "k_uart (ks_kernel ks') = fst uh" "ks_hw ks' = snd uh"
    using assms(4) unfolding secondary_kern_main_def c Let_def prod.case driver_def assms(3) option.case bind_comp_simps
    by (auto simp: bind_comp_Inr_iff split_beta)
  have "keeps F (\<lambda>x. x) (?u, ?h2) (kprintf mc m (''Running core %d'' @ [CHR 0x0A]) [Slot cid] (?u, ?h2))"
    by (rule uart_frame.kprintf_frame [OF assms(2)]) (simp add: signal_irqs_ready_def)
  from keepsD [OF this k(1)] show ?thesis using h2 k(2,3) by (simp add: kept_def signal_irqs_ready_def)
qed

lemma boot_core_keeps:
  assumes "late_keeps mc v g c F" "uart_frame mc (ua_uart (fst uh)) F" "i < 16"
  shows "keeps F (\<lambda>x. x) uh (boot_core mc m psci entry (cpu_information c ! i) n uh)"
proof (cases "ci_enable_method (cpu_information c ! i)")
  case MethodPSCI
  show ?thesis
    unfolding boot_core_def MethodPSCI EnableMethod.case
  proof (rule keeps_pure)
    fix x assume x: "psci_boot_core mc psci (ci_reg (cpu_information c ! i)) entry (ucast n) (snd uh) = Inr x"
    obtain result h1 where r: "x = (result, h1)" by (cases x)
    have k: "kept F uh (fst uh, h1)"
      using x assms(1) unfolding r
      by (cases "PSCI_METHOD psci") (auto simp: psci_boot_core_def bind_res_Inr_iff Let_def split_beta kept_def late_keeps_def)
    have "keeps F (\<lambda>x. x) uh (kprintf mc m f args (fst uh, h1))" for f args
      by (rule keeps_change [OF _ k]) (rule uart_frame.kprintf_frame [OF assms(2)], simp)
    then show "keeps F (\<lambda>x. x) uh (case x of (result, h1) \<Rightarrow>
        if result < 0
        then kprintf mc m (''Error in PSCI:boot_core(%z, %p): %d'' @ [CHR 0x0A])
               [Slot (ci_reg (cpu_information c ! i)), Slot entry, Slot (word_of_int result)] (fst uh, h1)
        else Some (Inr (fst uh, h1)))"
      using k by (simp add: r keeps_simps)
  qed
next
  case MethodSpinTable
  then show ?thesis using assms(1,3) by (simp add: boot_core_def keeps_simps kept_def spin_boot_core_def late_keeps_def)
qed (simp add: boot_core_def keeps_simps kpanic_def)

lemma boot_loop_keeps:
  assumes "late_keeps mc v g c F" "length (cpu_information c) \<le> 16" "uart_frame mc (ua_uart (fst uh)) F"
  shows "keeps F (\<lambda>x. x) uh (boot_loop mc m psci entry c i n uh)"
  using assms(3)
proof (induction n arbitrary: i uh)
  case (Suc n)
  show ?case
  proof (cases "unat i < length (cpu_information c)")
    case True
    have "keeps F (\<lambda>x. x) uh (boot_core mc m psci entry (cpu_information c ! unat i) i uh)"
      using True assms(2) by (intro boot_core_keeps [OF assms(1) Suc.prems]) simp
    moreover have "keeps F (\<lambda>x. x) uh1 (boot_loop mc m psci entry c (i + 1) n uh1)" if "kept F uh uh1" for uh1
      using Suc.IH [of uh1 "i + 1"] Suc.prems that by (simp add: kept_def)
    ultimately show ?thesis using True by (simp add: keeps_bind)
  qed (simp add: keeps_simps)
qed (simp add: keeps_simps kept_refl)

section \<open>The controller\<close>

text \<open>A controller that starts, and whose registers \<open>rg\<close> behave as the architecture says and which has the interrupts below \<open>ids\<close>; core \<open>c\<close> has a redistributor.\<close>

definition gic_ready :: "'h Machine \<Rightarrow> DriverVersion \<Rightarrow> Gic \<Rightarrow> nat \<Rightarrow> nat \<Rightarrow> ('h \<Rightarrow> nat \<Rightarrow> GicRegs) \<Rightarrow> bool" where
  "gic_ready mc v g c ids rg =
     (case v of
        V2 \<Rightarrow> \<exists>lines. gicv2_dist mc (v2_gicd_base (gic_v2 g)) lines (\<lambda>h. rg h 0) \<and> ids = gic_ids lines
      | V3 \<Rightarrow> (\<exists>N asleep children busy. gicr_power mc (v3_gicr_base (gic_v3 g)) N asleep children busy \<and> c < N \<and>
            gicv3_frames mc (v3_gicd_base (gic_v3 g)) (v3_gicr_base (gic_v3 g)) N rg) \<and>
          (\<exists>busy. gicd_settles mc (v3_gicd_base (gic_v3 g)) busy) \<and> ids = 1020)"

lemma gic_ready_starts: "gic_ready mc v g c ids rg \<Longrightarrow> gic_starts mc v g"
  by (cases v) (auto simp: gic_ready_def gic_starts_def)

lemma gic_ready_ids: "gic_ready mc v g c ids rg \<Longrightarrow> ids \<le> 1020"
  by (cases v) (auto simp: gic_ready_def gic_ids_def)

lemma gic_initialize_hw:
  assumes "gic_ready mc v g c ids rg" "gic_initialize mc m v (g, uh) = Some (Inr (g', uh'))"
  shows "gic_hw mc v g' c ids rg" "gic_v2 g' = (gic_v2 g)\<lparr>v2_num_interrupts := v2_num_interrupts (gic_v2 g')\<rparr>"
proof -
  have "gic_hw mc v g' c ids rg \<and> gic_v2 g' = (gic_v2 g)\<lparr>v2_num_interrupts := v2_num_interrupts (gic_v2 g')\<rparr>"
  proof (cases v)
    case V2
    then obtain n where "g' = g\<lparr>gic_v2 := (gic_v2 g)\<lparr>v2_num_interrupts := n\<rparr>\<rparr>"
      using assms(2) by (auto simp: gic_initialize_def v2_initialize_def v2_initialize_gic_distributor_def bind_comp_Inr_iff split_beta Let_def)
    then show ?thesis using assms(1) V2 by (simp add: gic_ready_def gic_hw_def)
  next
    case V3
    then obtain N asleep children busy where N: "gicr_power mc (v3_gicr_base (gic_v3 g)) N asleep children busy" "c < N"
        "gicv3_frames mc (v3_gicd_base (gic_v3 g)) (v3_gicr_base (gic_v3 g)) N rg" "ids = 1020"
      using assms(1) by (auto simp: gic_ready_def)
    obtain d h h' where "v3_wake_loop mc (gic_v3 g) 0 h = Some (Inr (d, h'))" and g': "g' = g\<lparr>gic_v3 := d\<rparr>"
      using assms(2) V3 by (auto simp: gic_initialize_def v3_initialize_def v3_initialize_gic_redistributors_def bind_comp_Inr_iff split_beta)
    moreover have "0 < N" "N < 2 ^ 31" using N(1) by (simp_all add: gicr_power_def)
    ultimately have "d = (gic_v3 g)\<lparr>v3_num_redistributors := of_nat N\<rparr>" using wake_loop [OF N(1), of 0 h] by auto
    then show ?thesis using N V3 g' \<open>N < 2 ^ 31\<close> by (simp add: gic_hw_def v3_hw_def unat_of_nat)
  qed
  then show "gic_hw mc v g' c ids rg" "gic_v2 g' = (gic_v2 g)\<lparr>v2_num_interrupts := v2_num_interrupts (gic_v2 g')\<rparr>" by simp_all
qed

lemma late_keeps_num: "gic_v2 g' = (gic_v2 g)\<lparr>v2_num_interrupts := n\<rparr> \<Longrightarrow> late_keeps mc v g' c F = late_keeps mc v g c F"
  by (simp add: late_keeps_def cpu_interface_def)

section \<open>The end of the boot\<close>

lemma kern_boot_irqs:
  fixes ks :: "'h KState"
  defines "k \<equiv> ks_kernel ks"
  assumes uart: "pl011 mc (ua_uart (k_uart k)) d" "buffer_ok (ua_tx_buffer (k_uart k))" "ua_clock_frequency (k_uart k) \<noteq> 0"
    and map: "mappable (im_layout img) (k_memory k) (ks_tables ks) (ks_regs ks)"
    and mem: "memory_init m (im_start img) (im_end img) out fdt (k_memory k) = Some (Inr mm)"
    and gic: "gic_driver (k_gic k) = Some v" "gic_ready mc v (k_gic k) c ids rg"
    and irqs: "uart_intid (k_uart k) = Inr i" "unat i < ids" "timer_intid (k_timer k) NonSecure = Inr t" "unat t < ids"
    and lock: "ks_print_lock ks = 0"
    and cores: "boot_log mc log" "startable (k_psci k) (k_cpus k)"
    and frame: "uart_frame mc (ua_uart (k_uart k)) rg" "late_keeps mc v (k_gic k) (k_cpus k) rg"
  shows "\<exists>ks'. kern_boot mc m img out fdt ks = Some (Inr ks') \<and>
    (\<forall>j\<in>{unat i, unat t}. gr_enabled (irq_view v c (rg (ks_hw ks')) j) j \<and> gr_priority (irq_view v c (rg (ks_hw ks')) j) j = 120)"
proof -
  have small: "unat i < 1020" "unat t < 1020" using irqs(2,4) gic_ready_ids [OF gic(2)] by simp_all
  from kern_boot_spec [where ks = ks, folded k_def, OF uart map mem gic(1) gic_ready_starts [OF gic(2)] irqs(1) small(1) irqs(3) small(2) lock cores] obtain ks' g u5 h5 u6 h6 ks7 ks8 u9 where
    ks': "kern_boot mc m img out fdt ks = Some (Inr ks')" and g: "gic_initialize mc m v (k_gic k, u5, h5) = Some (Inr (g, u6, h6))"
    and h7: "init_device_irqs mc v g i (Inr t) h6 = Inr (ks_hw ks7)" and sec: "secondary_kern_main mc m img ks7 = Some (Inr ks8)"
    and g7: "k_gic (ks_kernel ks7) = g" "gic_driver g = Some v" and u7: "ua_uart (k_uart (ks_kernel ks7)) = ua_uart (k_uart k)"
    and boot: "boot_secondary_cores mc m (k_psci k) (im_secondary_start img) (k_cpus k) (k_uart (ks_kernel ks8), ks_hw ks8) = Some (Inr (u9, ks_hw ks'))"
    by blast
  note hw = gic_initialize_hw [OF gic(2) g]
  have late: "late_keeps mc v (k_gic (ks_kernel ks7)) (k_cpus k) rg" using frame(2) late_keeps_num [OF hw(2), of mc v "k_cpus k" rg] g7(1) by simp
  have "kept rg (k_uart (ks_kernel ks7), ks_hw ks7) (k_uart (ks_kernel ks8), ks_hw ks8)"
    using frame(1) u7 g7 by (intro secondary_kern_main_keeps [OF late _ _ sec]) simp_all
  then have k8: "rg (ks_hw ks8) = rg (ks_hw ks7)" "ua_uart (k_uart (ks_kernel ks8)) = ua_uart (k_uart k)" using u7 by (simp_all add: kept_def)
  have "length (cpu_information (k_cpus k)) \<le> 16" using cores(2) by (simp add: startable_def cpus_ok_def)
  then have "keeps rg (\<lambda>x. x) (k_uart (ks_kernel ks8), ks_hw ks8)
      (boot_secondary_cores mc m (k_psci k) (im_secondary_start img) (k_cpus k) (k_uart (ks_kernel ks8), ks_hw ks8))"
    unfolding boot_secondary_cores_def using frame(1) k8(2) by (intro boot_loop_keeps [OF late]) simp_all
  from keepsD [OF this boot] k8(1) have same: "rg (ks_hw ks') = rg (ks_hw ks7)" by (simp add: kept_def)
  from device_irqs_spec [OF hw(1) irqs(2,4), of h6] h7 show ?thesis
    using ks' same by (intro exI [of _ ks']) auto
qed

text \<open>C6: Interrupts work when the boot is over: with either interrupt controller \<open>kern_main\<close> after the parse returns, and
  then the controller has the interrupts of the UART and of the timer, which it implements, enabled at the default
  priority, with a GICv3 as every core with a redistributor sees it, with a GICv2 as the booting core does; nothing that happens after they are set up touches them.\<close>

theorem boot_enables_interrupts:
  fixes ks :: "'h KState"
  defines "k \<equiv> ks_kernel ks"
  assumes "pl011 mc (ua_uart (k_uart k)) d" and "buffer_ok (ua_tx_buffer (k_uart k))" and "ua_clock_frequency (k_uart k) \<noteq> 0"
    and "mappable (im_layout img) (k_memory k) (ks_tables ks) (ks_regs ks)"
    and "bytes_at m fdt (enc_fdt rsv es strs)" and "fdt_size rsv es strs < 2 ^ 32"
    and "fdt \<noteq> 0" and "unat fdt + 2 ^ 33 + 16 < 2 ^ 64"
    and "list_ok (mm_reserved_regions (k_memory k))" and "list_ok (mm_ram_regions (k_memory k))"
    and "\<forall>r\<in>set rsv. no_wrap (fst r) (snd r)" and "im_start img \<le> im_end img"
    and "length rsv + 3 \<le> list_room (mm_reserved_regions (k_memory k))"
    and "gic_driver (k_gic k) = Some v" and "gic_ready mc v (k_gic k) c ids rg"
    and "uart_intid (k_uart k) = Inr i" and "unat i < ids"
    and "timer_intid (k_timer k) NonSecure = Inr t" and "unat t < ids"
    and "ks_print_lock ks = 0" and "boot_log mc log" and "startable (k_psci k) (k_cpus k)"
    and "uart_frame mc (ua_uart (k_uart k)) rg" and "late_keeps mc v (k_gic k) (k_cpus k) rg"
  shows "\<exists>ks'. kern_boot mc m img out fdt ks = Some (Inr ks') \<and>
    (\<forall>j\<in>{unat i, unat t}. gr_enabled (irq_view v c (rg (ks_hw ks')) j) j \<and> gr_priority (irq_view v c (rg (ks_hw ks')) j) j = 120)"
proof -
  obtain mm where "memory_init m (im_start img) (im_end img) out fdt (k_memory k) = Some (Inr mm)"
    using memory_init_spec [OF assms(6-14), where out = out] by blast
  from kern_boot_irqs [where ks = ks, folded k_def, OF assms(2-5) this assms(15-25)] show ?thesis .
qed

section \<open>A board\<close>

text \<open>The simulated UART on a bus with the distributor of a GICv2 and firmware that keeps a log; 64-bit stores go to memory.\<close>

definition irq_board :: "(GicRegs \<times> boot_event list) Machine" where
  "irq_board =
     \<lparr>mc_read32 = (\<lambda>a (r, l). let (v, r1) = mc_read32 sim_gic a r in (v, r1, l)), mc_write32 = (\<lambda>a v (r, l). (mc_write32 sim_gic a v r, l)),
      mc_read64 = (\<lambda>a h. (0, h)), mc_write64 = (\<lambda>a v (r, l). (r, l @ [Store a v])), mc_write8 = (\<lambda>a v (r, l). (mc_write8 sim_gic a v r, l)),
      mc_mrs = (\<lambda>r h. (0, h)), mc_msr = (\<lambda>r v h. h), mc_firmware = (\<lambda>c x (r, l). (0, r, l @ [Call c x])),
      mc_sev = (\<lambda>(r, l). (r, l @ [Sev]))\<rparr>"

definition irq_bus :: "((u8 list \<times> u32 \<times> nat) \<times> GicRegs \<times> boot_event list) Machine" where
  "irq_bus = (on_bus 0x9000000 sim_machine irq_board)\<lparr>mc_write64 := (\<lambda>a v (x, y). (x, mc_write64 irq_board a v y)),
     mc_sev := (\<lambda>(x, y). (x, mc_sev irq_board y))\<rparr>"

lemma gicd_off_uart: "unat off < 0x20000 \<Longrightarrow> \<not> 0x8000000 + off - 0x9000000 < (0x1000 :: u64)"
proof
  assume off: "unat off < 0x20000" and lt: "0x8000000 + off - 0x9000000 < (0x1000 :: u64)"
  have "0x8000000 + off = (0x8000000 + off - 0x9000000) + (0x9000000 :: u64)" by simp
  moreover have "unat ((0x8000000 + off - 0x9000000) + (0x9000000 :: u64)) = unat (0x8000000 + off - 0x9000000 :: u64) + 0x9000000"
    using lt by (subst unat_u64_add) (simp_all add: word_less_nat_alt)
  ultimately have "0x9000000 \<le> unat (0x8000000 + off)" by (metis le_add2)
  moreover have "unat (0x8000000 + off) = 0x8000000 + unat off" using off by (subst unat_u64_add) simp_all
  ultimately show False using off by simp
qed

lemma on_bus_gicd:
  assumes "unat off < 0x20000"
  shows "mc_read32 irq_bus (0x8000000 + off) h = (let r = sim_gicd_read (0x8000000 + off) (fst (snd h)) in (fst r, fst h, snd r, snd (snd h)))"
    "mc_write32 irq_bus (0x8000000 + off) x h = (fst h, sim_gicd_write (0x8000000 + off) x (fst (snd h)), snd (snd h))"
    "mc_write8 irq_bus (0x8000000 + off) b h = (fst h, sim_gicd_write8 (0x8000000 + off) b (fst (snd h)), snd (snd h))"
  using gicd_off_uart [OF assms] by (simp_all add: irq_bus_def on_bus_def irq_board_def sim_gic_def Let_def split_beta)

lemma irq_bus_dist: "gicv2_dist irq_bus 0x8000000 1 (\<lambda>h. fst (snd h))"
proof -
  have sim: "gicv2_dist sim_gic 0x8000000 1 (\<lambda>r. r)" using sim_gic_ok by (simp add: sim_driver_def)
  note D = sim [unfolded gicv2_dist_def sim_gic_def, simplified]
  have off: "n < 32 \<Longrightarrow> unat (GICD_ISENABLER + 4 * of_nat n) < 0x20000" "n < 32 \<Longrightarrow> unat (GICD_ICENABLER + 4 * of_nat n) < 0x20000"
    "n < 32 \<Longrightarrow> unat (GICD_IGROUPR + 4 * of_nat n) < 0x20000" "has_line l i \<Longrightarrow> unat (GICD_IPRIORITY_BASE + of_nat i) < 0x20000"
    "has_line l i \<Longrightarrow> unat (GICD_ITARGETSR_BASE + of_nat i) < 0x20000" "unat GICD_CTLR < 0x20000" "unat GICD_TYPER < 0x20000" for n i l
    using sim_offsets [of n] sim_offsets [of i] by (simp_all add: GICD_CTLR_def GICD_TYPER_def has_line_def)
  show ?thesis
    unfolding gicv2_dist_def
    using D by (simp add: on_bus_gicd off Let_def add.assoc)
qed

lemma irq_bus_ready: "gic_ready irq_bus V2 virt_gic 0 64 (\<lambda>h _. fst (snd h))"
  using irq_bus_dist by (auto simp: gic_ready_def virt_gic_def gic_ids_def intro!: exI [of _ 1])

lemma irq_bus_late: "late_keeps irq_bus V2 virt_gic sim_cpus (\<lambda>h (_ :: nat). fst (snd h))"
  by (simp add: late_keeps_def irq_bus_def on_bus_def irq_board_def sim_gic_def cpu_interface_def virt_gic_def GICC_CTLR_def GICC_PMR_def
      sim_gicd_write_def sim_gicd_read_def Let_def split_beta)

lemma irq_bus_boot_log: "boot_log irq_bus (\<lambda>h. snd (snd h))"
  by (simp add: boot_log_def irq_bus_def on_bus_def irq_board_def Let_def split_beta)

lemma irq_bus_uart: "pl011 irq_bus 0x9000000 (on_board sim_pl011)" "uart_frame irq_bus 0x9000000 (\<lambda>h (_ :: nat). fst (snd h))"
proof -
  have "pl011 sim_machine 0x9000000 sim_pl011" using sim_pl011_ok by (simp add: sim_uart_def)
  from on_bus_pl011 [OF this, of irq_board] show "pl011 irq_bus 0x9000000 (on_board sim_pl011)"
    by (simp add: pl011_def irq_bus_def)
  show "uart_frame irq_bus 0x9000000 (\<lambda>h (_ :: nat). fst (snd h))"
    by unfold_locales (simp_all add: irq_bus_def on_bus_uart)
qed

theorem boot_enables_interrupts_witness:
  "\<exists>ks'. kern_boot irq_bus demo_fdt virt_image (0, 0) 4096
       ((virt_state (([], 0, 0), reset_gic, []))\<lparr>ks_kernel := virt_kernel\<lparr>k_gic := virt_gic\<rparr>\<rparr>) = Some (Inr ks') \<and>
     gr_enabled (fst (snd (ks_hw ks'))) 33 \<and> gr_enabled (fst (snd (ks_hw ks'))) 30"
proof -
  let ?ks = "(virt_state (([], 0, 0), reset_gic, []))\<lparr>ks_kernel := virt_kernel\<lparr>k_gic := virt_gic\<rparr>\<rparr>" and ?k = "virt_kernel\<lparr>k_gic := virt_gic\<rparr>"
  have k: "ks_kernel ?ks = ?k" "k_uart ?k = sim_uart" "k_memory ?k = virt_map" "k_cpus ?k = sim_cpus" "k_gic ?k = virt_gic"
    "k_psci ?k = psci_init" "ks_tables ?ks = bss_tables" "ks_regs ?ks = reset_regs" "im_layout virt_image = virt_layout" "ua_uart sim_uart = 0x9000000"
    by (simp_all add: virt_kernel_def kernel_init_def virt_state_def virt_image_def sim_uart_def)
  have lists: "list_ok (mm_reserved_regions virt_map)" "list_ok (mm_ram_regions virt_map)" "list_room (mm_reserved_regions virt_map) = 15"
    using empty_list_ok by (simp_all add: virt_map_def list_ok_def one_region_def regions_def no_wrap_def list_room_def empty_list_def)
  have irqs: "uart_intid sim_uart = Inr 33" "timer_intid (k_timer ?k) NonSecure = Inr 30"
    by (simp_all add: uart_intid_def timer_intid_def interrupts_get_def sim_uart_def virt_kernel_def)
  have uart: "buffer_ok (ua_tx_buffer sim_uart)" "ua_clock_frequency sim_uart \<noteq> 0"
    using CharBuffer_init_ok by (simp_all add: sim_uart_def)
  have rest: "fdt_size [(0x80000000, 0x1000)] demo_events [97, 0] < 2 ^ 32" "(4096 :: u64) \<noteq> 0" "unat (4096 :: u64) + 2 ^ 33 + 16 < 2 ^ 64"
    "\<forall>r\<in>set [(0x80000000, 0x1000)]. no_wrap (fst r) (snd r)" "im_start virt_image \<le> im_end virt_image"
    "length [(0x80000000 :: u64, 0x1000 :: u64)] + 3 \<le> list_room (mm_reserved_regions virt_map)"
    "gic_driver virt_gic = Some V2" "unat (33 :: u32) < 64" "unat (30 :: u32) < 64"
    "ks_print_lock ?ks = 0"
    using lists(3) by (simp_all add: demo_fdt_size no_wrap_def virt_image_def word_le_nat_alt virt_gic_def virt_state_def)
  from boot_enables_interrupts [where ks = ?ks and img = virt_image and out = "(0, 0)", unfolded k, OF irq_bus_uart(1) uart virt_mappable
      demo_fdt_at rest(1-3) lists(1,2) rest(4-7) irq_bus_ready irqs(1) rest(8) irqs(2) rest(9,10) irq_bus_boot_log virt_startable irq_bus_uart(2) irq_bus_late]
  show ?thesis by (auto simp: irq_view_def)
qed

end
