(* ===== verification/Dt_Tree.thy ===== *)
theory Dt_Tree
  imports DeviceTree
begin

text \<open>
  Device trees as trees: what the first pass over a blob (\<open>parse_frames_phandle\<close> in \<open>src/src/DeviceTree.cpp\<close>)
  computes, against a definition by recursion over the tree that the blob encodes.
\<close>

section \<open>Trees\<close>

text \<open>A node has a name, properties (the offset of the name in the strings block, and the value) and children.\<close>

datatype dt_node = DtNode "u8 list" "(u32 \<times> u8 list) list" "dt_node list"

fun node_events :: "dt_node \<Rightarrow> event list" where
  "node_events (DtNode name props cs) =
     Ev_Begin name # map (\<lambda>(off, v). Ev_Prop off v) props @ concat (map node_events cs) @ [Ev_End]"

definition str_at :: "u8 list \<Rightarrow> u32 \<Rightarrow> u8 list" where
  "str_at strs off = takeWhile (\<lambda>b. b \<noteq> 0) (drop (unat off) strs)"

text \<open>The first four bytes of a value.\<close>

definition val32 :: "u8 list \<Rightarrow> u32" where
  "val32 v = push_bit 24 (ucast (v ! 0)) OR push_bit 16 (ucast (v ! 1)) OR push_bit 8 (ucast (v ! 2)) OR ucast (v ! 3)"

definition ignored_name :: "u8 list \<Rightarrow> bool" where
  "ignored_name name \<longleftrightarrow> take 2 name = bytes_of ''__'' \<or> name = bytes_of ''aliases''"

text \<open>The properties that the table keeps; a later one of the same name replaces an earlier one.\<close>

definition map_prop :: "u8 list \<Rightarrow> u32 \<times> u8 list \<Rightarrow> NodeMapping \<Rightarrow> NodeMapping" where
  "map_prop strs p n =
     (let name = str_at strs (fst p); val = val32 (snd p) in
      if name = bytes_of ''phandle'' then n\<lparr>nm_phandle := val\<rparr>
      else if name = bytes_of ''#interrupt-cells'' then n\<lparr>nm_interrupt_cells := val\<rparr>
      else if name = bytes_of ''clock-frequency'' then n\<lparr>nm_clock_frequency := val\<rparr>
      else if name = bytes_of ''clocks'' then n\<lparr>nm_parent_clock := val\<rparr>
      else n)"

definition node_mapping :: "u8 list \<Rightarrow> u8 list \<Rightarrow> (u32 \<times> u8 list) list \<Rightarrow> NodeMapping" where
  "node_mapping strs name props = (if ignored_name name then mapping_default else fold (map_prop strs) props mapping_default)"

text \<open>The table: the nodes that have a phandle, children before their parent.\<close>

fun phandle_table :: "u8 list \<Rightarrow> dt_node \<Rightarrow> NodeMapping list" where
  "phandle_table strs (DtNode name props cs) =
     concat (map (phandle_table strs) cs) @
     (let n = node_mapping strs name props in if nm_phandle n \<noteq> 0 then [n] else [])"

section \<open>Trees the kernel can take\<close>

definition tracked_name :: "u8 list \<Rightarrow> bool" where
  "tracked_name name \<longleftrightarrow> name \<in> {bytes_of ''phandle'', bytes_of ''#interrupt-cells'', bytes_of ''clock-frequency'', bytes_of ''clocks''}"

text \<open>The name of a property ends inside the strings block; a value that is kept has four bytes.\<close>

definition prop_fits :: "u8 list \<Rightarrow> u32 \<times> u8 list \<Rightarrow> bool" where
  "prop_fits strs p \<longleftrightarrow> unat (fst p) < length strs \<and> 0 \<in> set (drop (unat (fst p)) strs) \<and>
     (tracked_name (str_at strs (fst p)) \<longrightarrow> 4 \<le> length (snd p))"

text \<open>A node at depth \<open>d\<close>: fewer than \<open>MaxNodeDepth\<close> levels, fewer than \<open>MaxPropsPerNode\<close> properties, and a name below the root.\<close>

fun node_fits :: "u8 list \<Rightarrow> nat \<Rightarrow> dt_node \<Rightarrow> bool" where
  "node_fits strs d (DtNode name props cs) \<longleftrightarrow>
     d < 8 \<and> length props < 30 \<and> (name = [] \<longleftrightarrow> d = 0) \<and> (\<forall>p\<in>set props. prop_fits strs p) \<and>
     (\<forall>c\<in>set cs. node_fits strs (d + 1) c)"

section \<open>Strings\<close>

lemma is_ignored_cstring:
  assumes "cstring m p name" "p \<noteq> 0"
  shows "is_ignored_node m p = Inr (ignored_name name)"
proof -
  have a: "str_is m p ''aliases'' = Inr (name = bytes_of ''aliases'')" using assms(1) by (rule str_is_cstring) simp_all
  show ?thesis
  proof (cases name)
    case Nil
    then show ?thesis using assms a by (simp add: is_ignored_node_def ignored_name_def bytes_of_def)
  next
    case (Cons c0 rest)
    then show ?thesis using assms a by (cases rest) (auto simp: is_ignored_node_def ignored_name_def bytes_of_def)
  qed
qed

lemma name_in_strings:
  assumes "bytes_at m base strs" "unat off < length strs" "0 \<in> set (drop (unat off) strs)"
  shows "cstring m (base + ucast off) (str_at strs off)"
proof -
  let ?d = "drop (unat off) strs"
  have "bytes_at m base (take (unat off) strs @ ?d)" using assms(1) by simp
  then have "bytes_at m (base + of_nat (length (take (unat off) strs))) ?d" by (simp only: bytes_at_append)
  moreover have "of_nat (length (take (unat off) strs)) = (ucast off :: u64)"
    using assms(2) by (simp add: min_absorb2)
  ultimately have d: "bytes_at m (base + ucast off) ?d" by simp
  have ne: "dropWhile (\<lambda>b. b \<noteq> 0) ?d \<noteq> []" using assms(3) by auto
  obtain z where "dropWhile (\<lambda>b. b \<noteq> 0) ?d = 0 # z"
    using hd_dropWhile [OF ne] ne by (cases "dropWhile (\<lambda>b. b \<noteq> 0) ?d") auto
  then have "?d = (str_at strs off @ [0]) @ z" unfolding str_at_def using takeWhile_dropWhile_id [of "\<lambda>b. b \<noteq> 0" ?d] by simp
  then have "bytes_at m (base + ucast off) (str_at strs off @ [0])" using d bytes_at_prefix by metis
  then show ?thesis by (auto simp: cstring_def str_at_def dest: set_takeWhileD)
qed

lemma read_u32_val32: "bytes_at m p v \<Longrightarrow> 4 \<le> length v \<Longrightarrow> read_u32 m p = Inr (val32 v)"
proof -
  assume "bytes_at m p v" "4 \<le> length v"
  then have "load8 m (p + of_nat i) = Inr (v ! i)" if "i < 4" for i using that by (intro load8_bytes_at) simp_all
  from this [of 0] this [of 1] this [of 2] this [of 3] show ?thesis by (simp add: read_u32_def be32_def val32_def)
qed

section \<open>The properties of a node\<close>

text \<open>What the parser presents, with the strings block \<open>strs\<close> at \<open>base\<close>, and a slot that holds a property.\<close>

definition shows_tree :: "mem \<Rightarrow> u64 \<Rightarrow> u8 list \<Rightarrow> Parser \<Rightarrow> event \<Rightarrow> bool" where
  "shows_tree m base strs p e \<longleftrightarrow> shows_event m p e \<and> prs_strings p = base \<and> prs_strings_size p = of_nat (length strs) \<and>
     (parser_current p = Prop \<longrightarrow> mapped m (parser_prop_value p) 4) \<and> (parser_current p = BeginNode \<longrightarrow> parser_node_name p \<noteq> 0)"

definition prop_shown :: "mem \<Rightarrow> u8 list \<Rightarrow> PropFrame \<Rightarrow> u32 \<times> u8 list \<Rightarrow> bool" where
  "prop_shown m strs f p \<longleftrightarrow> cstring m (pf_name f) (str_at strs (fst p)) \<and> bytes_at m (pf_value f) (snd p) \<and>
     mapped m (pf_value f) 4 \<and> (tracked_name (str_at strs (fst p)) \<longrightarrow> 4 \<le> length (snd p))"

lemma prop_shownI:
  assumes "shows_tree m base strs p (Ev_Prop off v)" "bytes_at m base strs" "prop_fits strs (off, v)" "length strs < 2 ^ 32"
  shows "prop_shown m strs (parser_prop p) (off, v)"
proof -
  have "off < (of_nat (length strs) :: u32)" using assms(3,4) by (simp add: prop_fits_def word_less_nat_alt unat_of_nat)
  then have "parser_prop_name p = base + ucast off" using assms(1) by (simp add: shows_tree_def)
  then show ?thesis
    using assms(1,3) name_in_strings [OF assms(2), of off] by (simp add: prop_shown_def parser_prop_def prop_fits_def shows_tree_def)
qed

lemma props_Cons:
  assumes "list_all2 (shows_tree m base strs) ps (map (\<lambda>(off, v). Ev_Prop off v) (x # props))"
  obtains p qs where "ps = p # qs" "shows_tree m base strs p (Ev_Prop (fst x) (snd x))" "parser_current p = Prop"
    "list_all2 (shows_tree m base strs) qs (map (\<lambda>(off, v). Ev_Prop off v) props)"
proof -
  obtain p qs where "ps = p # qs" "shows_tree m base strs p (Ev_Prop (fst x) (snd x))"
    "list_all2 (shows_tree m base strs) qs (map (\<lambda>(off, v). Ev_Prop off v) props)"
    using assms by (auto simp: list_all2_Cons2 split_beta)
  then show ?thesis using that by (simp add: shows_tree_def)
qed

lemma props_shown:
  assumes "list_all2 (shows_tree m base strs) ps (map (\<lambda>(off, v). Ev_Prop off v) props)" "bytes_at m base strs"
    "\<forall>p\<in>set props. prop_fits strs p" "length strs < 2 ^ 32"
  shows "list_all2 (prop_shown m strs) (map parser_prop ps) props"
  using assms(1,3)
proof (induction props arbitrary: ps)
  case (Cons x props)
  from Cons.prems(1) obtain p qs where p: "ps = p # qs" "shows_tree m base strs p (Ev_Prop (fst x) (snd x))"
    "list_all2 (shows_tree m base strs) qs (map (\<lambda>(off, v). Ev_Prop off v) props)" by (rule props_Cons)
  have "prop_shown m strs (parser_prop p) (fst x, snd x)" using Cons.prems(2) by (intro prop_shownI [OF p(2) assms(2) _ assms(4)]) simp
  then show ?case using Cons.IH [OF p(3)] Cons.prems(2) p(1) by simp
qed simp

lemma collect_mapping_shown:
  "list_all2 (prop_shown m strs) fs props \<Longrightarrow> collect_mapping m fs n = Inr (fold (map_prop strs) props n)"
proof (induction props arbitrary: fs n)
  case (Cons x props)
  from Cons.prems obtain f fs' where f: "fs = f # fs'" "prop_shown m strs f x" "list_all2 (prop_shown m strs) fs' props"
    by (auto simp: list_all2_Cons2)
  let ?s = "str_at strs (fst x)"
  from f(2) have c: "cstring m (pf_name f) ?s" by (simp add: prop_shown_def)
  have eqs: "str_is m (pf_name f) ''phandle'' = Inr (?s = bytes_of ''phandle'')"
    "str_is m (pf_name f) ''#interrupt-cells'' = Inr (?s = bytes_of ''#interrupt-cells'')"
    "str_is m (pf_name f) ''clock-frequency'' = Inr (?s = bytes_of ''clock-frequency'')"
    "str_is m (pf_name f) ''clocks'' = Inr (?s = bytes_of ''clocks'')"
    by (simp_all add: str_is_cstring [OF c])
  obtain w where w: "read_u32 m (pf_value f) = Inr w" using f(2) be32_mapped by (auto simp: prop_shown_def read_u32_def)
  have "w = val32 (snd x)" if "tracked_name ?s"
    using that f(2) w read_u32_val32 [of m "pf_value f" "snd x"] by (simp add: prop_shown_def)
  then have "collect_mapping m (f # fs') n = collect_mapping m fs' (map_prop strs x n)"
    using eqs w by (auto simp: map_prop_def Let_def tracked_name_def)
  then show ?case using Cons.IH [OF f(3)] f(1) by simp
qed simp

abbreviation first_pass :: "mem \<Rightarrow> Parser \<Rightarrow> ParsingFrame \<times> NodeMapping list \<Rightarrow> (ParsingFrame \<times> NodeMapping list) comp" where
  "first_pass m \<equiv> \<lambda>p st. Some (phandle_step m p st)"

lemma run_body_append: "run_body body (ps @ qs) st = bind_comp (run_body body ps st) (run_body body qs)"
proof (induction ps arbitrary: st)
  case (Cons p ps)
  show ?case
  proof (cases "body p st")
    case (Some r)
    then show ?thesis using Cons by (cases r) simp_all
  qed simp
qed simp

lemma set_current_set_current [simp]: "set_current (set_current pg f) g = set_current pg g"
  by (simp add: set_current_def)

lemma phandle_prop_stores:
  assumes "parsing_ok pg" "is_ignored_node m (nf_name (current_frame pg)) = Inr False" "unat (nf_nprops (current_frame pg)) < 29"
  shows "\<exists>f. phandle_prop m p pg = Inr (set_current pg f) \<and> parsing_ok (set_current pg f) \<and>
    node_props f = node_props (current_frame pg) @ [parser_prop p] \<and> nf_name f = nf_name (current_frame pg) \<and>
    unat (nf_nprops f) = unat (nf_nprops (current_frame pg)) + 1"
proof -
  let ?c = "current_frame pg"
  let ?n = "unat (nf_nprops ?c)"
  let ?f = "?c\<lparr>nf_props := (nf_props ?c)[?n := parser_prop p]\<rparr>"
  let ?g = "?f\<lparr>nf_nprops := nf_nprops ?c + 1\<rparr>"
  have len: "length (nf_props ?c) = 30" using parsing_ok_current(1) [OF assms(1)] by (simp add: frame_ok_def)
  have n1: "unat (nf_nprops ?c + 1) = ?n + 1" using assms(3) by (simp add: unat_word_ariths)
  then have lt: "nf_nprops ?c + 1 < 30" using assms(3) by (simp add: word_less_nat_alt)
  have s: "store_prop pg (parser_prop p) = Inr (set_current pg ?f)" using len assms(3) by (simp add: store_prop_def Let_def)
  have ok: "parsing_ok (set_current pg ?f)" using store_prop_ok [OF assms(1) s] by simp
  have b: "bump_nprops (set_current pg ?f) = Inr (set_current pg ?g)"
    using lt assms(1) by (simp add: bump_nprops_def Let_def MaxPropsPerNode_def)
  have "node_props ?g = node_props ?c @ [parser_prop p]"
    using n1 len assms(3) by (simp add: node_props_def take_Suc_conv_app_nth)
  then show ?thesis using s b bump_nprops_ok [OF ok b] n1 assms(2) by (intro exI [of _ ?g]) (simp add: phandle_prop_def)
qed

lemma phandle_props_run:
  assumes "list_all2 (shows_tree m base strs) ps (map (\<lambda>(off, v). Ev_Prop off v) props)" "parsing_ok pg"
    "is_ignored_node m (nf_name (current_frame pg)) = Inr False" "unat (nf_nprops (current_frame pg)) + length props < 30"
  shows "\<exists>f. run_body (first_pass m) ps (pg, maps) = Some (Inr (set_current pg f, maps)) \<and> parsing_ok (set_current pg f) \<and>
    node_props f = node_props (current_frame pg) @ map parser_prop ps \<and> nf_name f = nf_name (current_frame pg) \<and>
    unat (nf_nprops f) < 30"
  using assms
proof (induction props arbitrary: ps pg)
  case Nil
  have "pg_node_frame pg \<noteq> []" using parsing_ok_current(3) [OF Nil(2)] by auto
  then show ?case using Nil by (intro exI [of _ "current_frame pg"]) (simp add: set_current_same)
next
  case (Cons x props)
  from Cons.prems(1) obtain p qs where p: "ps = p # qs" "parser_current p = Prop"
    "list_all2 (shows_tree m base strs) qs (map (\<lambda>(off, v). Ev_Prop off v) props)"
    by (rule props_Cons)
  from phandle_prop_stores [OF Cons.prems(2,3), of p] Cons.prems(4) obtain f where
    f: "phandle_prop m p pg = Inr (set_current pg f)" "parsing_ok (set_current pg f)"
      "node_props f = node_props (current_frame pg) @ [parser_prop p]" "nf_name f = nf_name (current_frame pg)"
      "unat (nf_nprops f) = unat (nf_nprops (current_frame pg)) + 1" by auto
  have cur: "current_frame (set_current pg f) = f" using Cons.prems(2) by simp
  from Cons.IH [OF p(3) f(2), unfolded cur] Cons.prems(3,4) f(4,5) obtain g where
    "run_body (first_pass m) qs (set_current pg f, maps) = Some (Inr (set_current pg g, maps))" "parsing_ok (set_current pg g)"
      "node_props g = node_props f @ map parser_prop qs" "nf_name g = nf_name f" "unat (nf_nprops g) < 30" by auto
  then show ?case using p(1,2) f by (intro exI [of _ g]) (simp add: phandle_step_def)
qed

lemma phandle_props_ignored:
  assumes "list_all2 (shows_tree m base strs) ps (map (\<lambda>(off, v). Ev_Prop off v) props)"
    "is_ignored_node m (nf_name (current_frame pg)) = Inr True"
  shows "run_body (first_pass m) ps (pg, maps) = Some (Inr (pg, maps))"
  using assms(1)
proof (induction props arbitrary: ps)
  case (Cons x props)
  from Cons.prems obtain p qs where "ps = p # qs" "parser_current p = Prop"
    "list_all2 (shows_tree m base strs) qs (map (\<lambda>(off, v). Ev_Prop off v) props)"
    by (rule props_Cons)
  then show ?case using Cons.IH assms(2) by (simp add: phandle_step_def phandle_prop_def)
qed simp

section \<open>The nodes of a tree\<close>

text \<open>After a node the frames of its ancestors are as they were.\<close>

definition same_below :: "nat \<Rightarrow> ParsingFrame \<Rightarrow> ParsingFrame \<Rightarrow> bool" where
  "same_below k pg pg' \<longleftrightarrow> parsing_ok pg' \<and> pg_top pg' = pg_top pg \<and> take k (pg_node_frame pg') = take k (pg_node_frame pg)"

lemma same_below_trans: "same_below k pg pg1 \<Longrightarrow> same_below k pg1 pg2 \<Longrightarrow> same_below k pg pg2"
  by (simp add: same_below_def)

lemma same_below_current:
  assumes "same_below (unat (pg_top pg) + 1) pg pg'" "parsing_ok pg"
  shows "current_frame pg' = current_frame pg"
proof -
  let ?k = "unat (pg_top pg)"
  have "take (?k + 1) (pg_node_frame pg') ! ?k = take (?k + 1) (pg_node_frame pg) ! ?k" using assms(1) by (simp add: same_below_def)
  then show ?thesis using assms(1) by (simp add: current_frame_def same_below_def)
qed

lemma same_below_mono: "same_below k pg pg' \<Longrightarrow> j \<le> k \<Longrightarrow> same_below j pg pg'"
  unfolding same_below_def by (metis min.absorb1 take_take)

lemma same_below_set_current:
  "parsing_ok (set_current pg f) \<Longrightarrow> same_below (unat (pg_top pg)) pg (set_current pg f)"
  by (simp add: same_below_def set_current_def)

text \<open>What the first pass does on a node and everything below it.\<close>

definition passes :: "mem \<Rightarrow> u64 \<Rightarrow> u8 list \<Rightarrow> dt_node \<Rightarrow> bool" where
  "passes m base strs t \<longleftrightarrow> (\<forall>ps pg maps. list_all2 (shows_tree m base strs) ps (node_events t) \<longrightarrow> parsing_ok pg \<longrightarrow>
     node_fits strs (unat (pg_top pg) + 1) t \<longrightarrow> length (maps @ phandle_table strs t) < 300 \<longrightarrow>
     (\<exists>pg'. run_body (first_pass m) ps (pg, maps) = Some (Inr (pg', maps @ phandle_table strs t)) \<and>
       same_below (unat (pg_top pg) + 1) pg pg'))"

lemma children_run:
  assumes "\<forall>c\<in>set cs. passes m base strs c" "list_all2 (shows_tree m base strs) ps (concat (map node_events cs))" "parsing_ok pg"
    "\<forall>c\<in>set cs. node_fits strs (unat (pg_top pg) + 1) c" "length (maps @ concat (map (phandle_table strs) cs)) < 300"
  shows "\<exists>pg'. run_body (first_pass m) ps (pg, maps) = Some (Inr (pg', maps @ concat (map (phandle_table strs) cs))) \<and>
    same_below (unat (pg_top pg) + 1) pg pg'"
  using assms
proof (induction cs arbitrary: ps pg maps)
  case Nil
  then show ?case by (simp add: same_below_def)
next
  case (Cons c cs)
  from Cons.prems(2) obtain us vs where ps: "ps = us @ vs" "list_all2 (shows_tree m base strs) us (node_events c)"
      "list_all2 (shows_tree m base strs) vs (concat (map node_events cs))"
    by (auto simp: list_all2_append2)
  have "passes m base strs c" "node_fits strs (unat (pg_top pg) + 1) c" "length (maps @ phandle_table strs c) < 300"
    using Cons.prems(1,4,5) by simp_all
  then obtain pg1 where pg1: "run_body (first_pass m) us (pg, maps) = Some (Inr (pg1, maps @ phandle_table strs c))"
      "same_below (unat (pg_top pg) + 1) pg pg1"
    using ps(2) Cons.prems(3) unfolding passes_def by blast
  then have top: "pg_top pg1 = pg_top pg" "parsing_ok pg1" by (simp_all add: same_below_def)
  from Cons.IH [OF _ ps(3) top(2), of "maps @ phandle_table strs c"] Cons.prems(1,4,5) top(1) obtain pg2 where
    pg2: "run_body (first_pass m) vs (pg1, maps @ phandle_table strs c) =
        Some (Inr (pg2, (maps @ phandle_table strs c) @ concat (map (phandle_table strs) cs)))" "same_below (unat (pg_top pg1) + 1) pg1 pg2"
    by auto
  then show ?case using ps(1) pg1 top(1) same_below_trans by (auto simp: run_body_append)
qed

text \<open>The properties: afterwards the frame has the mapping of the node.\<close>

lemma node_props_run:
  assumes "list_all2 (shows_tree m base strs) ps (map (\<lambda>(off, v). Ev_Prop off v) props)" "parsing_ok pg" "nf_nprops (current_frame pg) = 0"
    "cstring m (nf_name (current_frame pg)) name" "nf_name (current_frame pg) \<noteq> 0" "length props < 30"
    "\<forall>p\<in>set props. prop_fits strs p" "bytes_at m base strs" "length strs < 2 ^ 32"
  shows "\<exists>pg'. run_body (first_pass m) ps (pg, maps) = Some (Inr (pg', maps)) \<and> same_below (unat (pg_top pg)) pg pg' \<and>
    collect_mapping m (node_props (current_frame pg')) mapping_default = Inr (node_mapping strs name props) \<and>
    unat (nf_nprops (current_frame pg')) \<le> 30"
proof -
  have none: "node_props (current_frame pg) = []" using assms(3) by (simp add: node_props_def)
  note ign = is_ignored_cstring [OF assms(4,5)]
  show ?thesis
  proof (cases "ignored_name name")
    case True
    then have "is_ignored_node m (nf_name (current_frame pg)) = Inr True" using ign by simp
    from phandle_props_ignored [OF assms(1) this] show ?thesis
      using True none assms(2,3) by (simp add: node_mapping_def same_below_def)
  next
    case False
    then have "is_ignored_node m (nf_name (current_frame pg)) = Inr False" "unat (nf_nprops (current_frame pg)) + length props < 30"
      using ign assms(3,6) by simp_all
    from phandle_props_run [OF assms(1,2) this] obtain f where
      f: "run_body (first_pass m) ps (pg, maps) = Some (Inr (set_current pg f, maps))" "parsing_ok (set_current pg f)"
        "node_props f = map parser_prop ps" "unat (nf_nprops f) < 30" using none by auto
    have "collect_mapping m (map parser_prop ps) mapping_default = Inr (node_mapping strs name props)"
      using collect_mapping_shown [OF props_shown [OF assms(1,8,7,9)]] False by (simp add: node_mapping_def)
    then show ?thesis using f assms(2) same_below_set_current [OF f(2)] by (intro exI [of _ "set_current pg f"]) simp
  qed
qed

lemma phandle_end_adds:
  assumes "collect_mapping m (node_props (current_frame pg)) mapping_default = Inr n" "parsing_ok pg"
    "unat (nf_nprops (current_frame pg)) \<le> 30" "length (maps @ (if nm_phandle n \<noteq> 0 then [n] else [])) < 300"
  shows "phandle_end m pg maps = Inr (pop_frame pg, maps @ (if nm_phandle n \<noteq> 0 then [n] else []))"
  using assms parsing_ok_current(1) [OF assms(2)]
  by (cases "nm_phandle n = 0") (simp_all add: phandle_end_def Let_def nprops_overrun_def frame_ok_def PhandleNodeMappingCapacity_def)

lemma node_body_run:
  assumes "list_all2 (shows_tree m base strs) ps (map (\<lambda>(off, v). Ev_Prop off v) props @ concat (map node_events cs) @ [Ev_End])"
    "parsing_ok pg" "nf_nprops (current_frame pg) = 0" "cstring m (nf_name (current_frame pg)) name" "nf_name (current_frame pg) \<noteq> 0"
    "length props < 30" "\<forall>p\<in>set props. prop_fits strs p" "bytes_at m base strs" "length strs < 2 ^ 32"
    "\<forall>c\<in>set cs. passes m base strs c" "\<forall>c\<in>set cs. node_fits strs (unat (pg_top pg) + 1) c"
    "length (maps @ phandle_table strs (DtNode name props cs)) < 300"
  shows "\<exists>pg'. run_body (first_pass m) ps (pg, maps) = Some (Inr (pop_frame pg', maps @ phandle_table strs (DtNode name props cs))) \<and>
    same_below (unat (pg_top pg)) pg pg'"
proof -
  let ?below = "concat (map (phandle_table strs) cs)" and ?n = "node_mapping strs name props"
  from assms(1) obtain us vs p where ps: "ps = us @ vs @ [p]" "list_all2 (shows_tree m base strs) us (map (\<lambda>(off, v). Ev_Prop off v) props)"
      "list_all2 (shows_tree m base strs) vs (concat (map node_events cs))" "parser_current p = EndNode"
    by (auto simp: list_all2_append2 list_all2_Cons2 shows_tree_def)
  from node_props_run [OF ps(2) assms(2-9)] obtain pg1 where
    pg1: "run_body (first_pass m) us (pg, maps) = Some (Inr (pg1, maps))" "same_below (unat (pg_top pg)) pg pg1"
      "collect_mapping m (node_props (current_frame pg1)) mapping_default = Inr ?n" "unat (nf_nprops (current_frame pg1)) \<le> 30" by blast
  then have top: "pg_top pg1 = pg_top pg" "parsing_ok pg1" by (simp_all add: same_below_def)
  have "length (maps @ ?below) < 300" using assms(12) by simp
  from children_run [OF assms(10) ps(3) top(2) _ this] assms(11) top(1) obtain pg2 where
    pg2: "run_body (first_pass m) vs (pg1, maps) = Some (Inr (pg2, maps @ ?below))" "same_below (unat (pg_top pg) + 1) pg1 pg2" by auto
  have cur: "current_frame pg2 = current_frame pg1" using same_below_current [OF pg2(2) [folded top(1)] top(2)] .
  have "parsing_ok pg2" using pg2(2) by (simp add: same_below_def)
  then have "phandle_end m pg2 (maps @ ?below) = Inr (pop_frame pg2, (maps @ ?below) @ (if nm_phandle ?n \<noteq> 0 then [?n] else []))"
    using pg1(3,4) assms(12) unfolding cur [symmetric] by (intro phandle_end_adds) (simp_all add: Let_def)
  then have "run_body (first_pass m) ps (pg, maps) = Some (Inr (pop_frame pg2, maps @ phandle_table strs (DtNode name props cs)))"
    using ps(1,4) pg1(1) pg2(1) by (simp add: run_body_append phandle_step_def Let_def)
  moreover have "same_below (unat (pg_top pg)) pg pg2" using pg1(2) same_below_mono [OF pg2(2)] same_below_trans by force
  ultimately show ?thesis by blast
qed

lemma node_passes:
  assumes "bytes_at m base strs" "length strs < 2 ^ 32"
  shows "passes m base strs t"
proof (induction t)
  case (DtNode name props cs)
  show ?case
    unfolding passes_def
  proof (intro allI impI)
    fix ps pg maps
    assume "list_all2 (shows_tree m base strs) ps (node_events (DtNode name props cs))" and ok: "parsing_ok pg"
      and fits: "node_fits strs (unat (pg_top pg) + 1) (DtNode name props cs)"
      and room: "length (maps @ phandle_table strs (DtNode name props cs)) < 300"
    then obtain p qs where ps: "ps = p # qs" "parser_current p = BeginNode" "cstring m (parser_node_name p) name" "parser_node_name p \<noteq> 0"
      "list_all2 (shows_tree m base strs) qs (map (\<lambda>(off, v). Ev_Prop off v) props @ concat (map node_events cs) @ [Ev_End])"
      by (auto simp: list_all2_Cons2 shows_tree_def [of m base strs _ "Ev_Begin name"])
    let ?k = "unat (pg_top pg)"
    have top: "unat (pg_top pg + 1) = ?k + 1" "pg_top pg + 1 < 8" using fits by (simp_all add: unat_word_ariths word_less_nat_alt)
    then obtain pg1 where push: "push_frame pg = Inr pg1" by (simp add: push_frame_def Let_def MaxNodeDepth_def)
    let ?pg = "enter_node p pg1"
    have "str_is m (parser_node_name p) [] = Inr False" using str_is_cstring [OF ps(3), of "[]"] fits by (simp add: bytes_of_def)
    then have b: "phandle_begin m p pg = Inr ?pg" using push by (simp add: phandle_begin_def)
    have ok1: "parsing_ok ?pg" using phandle_begin_ok [OF ok b] .
    have t1: "pg_top ?pg = pg_top pg + 1" "length (pg_node_frame pg1) = 8" "pg_top pg1 = pg_top pg + 1"
      using push_frame_ok [OF ok push] by (simp_all add: enter_node_def frames_ok_def)
    have cur: "current_frame ?pg = (current_frame pg1)\<lparr>nf_name := parser_node_name p, nf_nprops := 0\<rparr>"
      using t1 top by (simp add: enter_node_def set_current_def current_frame_def word_less_nat_alt)
    have below: "take (?k + 1) (pg_node_frame ?pg) = take (?k + 1) (pg_node_frame pg)"
      using push top by (auto simp: enter_node_def set_current_def push_frame_def Let_def bind_res_Inr_iff)
    from node_body_run [OF ps(5) ok1, of name maps] cur fits ps(3,4) assms DtNode room top(1) t1(1) obtain pg2 where
      pg2: "run_body (first_pass m) qs (?pg, maps) = Some (Inr (pop_frame pg2, maps @ phandle_table strs (DtNode name props cs)))"
        "same_below (?k + 1) ?pg pg2" by auto
    have "pg_top pg2 = pg_top pg + 1" "parsing_ok pg2" using pg2(2) t1(1) by (simp_all add: same_below_def)
    then have "pg_top (pop_frame pg2) = pg_top pg" "parsing_ok (pop_frame pg2)" "pg_node_frame (pop_frame pg2) = pg_node_frame pg2"
      using top(1) pop_frame_ok [of pg2] by (auto simp: pop_frame_def word_gt_0 unat_eq_0 [symmetric])
    then have "same_below (?k + 1) pg (pop_frame pg2)" using pg2(2) below by (simp add: same_below_def)
    then show "\<exists>pg'. run_body (first_pass m) ps (pg, maps) = Some (Inr (pg', maps @ phandle_table strs (DtNode name props cs))) \<and>
        same_below (?k + 1) pg pg'"
      using ps(1,2) b pg2(1) by (intro exI [of _ "pop_frame pg2"]) (simp add: phandle_step_def)
  qed
qed

section \<open>The whole pass\<close>

lemma root_run:
  assumes "bytes_at m base strs" "length strs < 2 ^ 32" "list_all2 (shows_tree m base strs) ps (node_events t)" "node_fits strs 0 t"
    "length (phandle_table strs t) < 300" "parsing_ok pg" "pg_top pg = 0"
  shows "\<exists>pg'. run_body (first_pass m) ps (pg, []) = Some (Inr (pg', phandle_table strs t))"
proof (cases t)
  case (DtNode name props cs)
  with assms(4) have name: "name = []" by simp
  from assms(3) obtain p qs where ps: "ps = p # qs" "parser_current p = BeginNode" "cstring m (parser_node_name p) []" "parser_node_name p \<noteq> 0"
    "list_all2 (shows_tree m base strs) qs (map (\<lambda>(off, v). Ev_Prop off v) props @ concat (map node_events cs) @ [Ev_End])"
    unfolding DtNode name by (auto simp: list_all2_Cons2 shows_tree_def [of m base strs _ "Ev_Begin []"])
  have "str_is m (parser_node_name p) [] = Inr True" using str_is_cstring [OF ps(3), of "[]"] by (simp add: bytes_of_def)
  then have b: "phandle_begin m p pg = Inr (enter_node p pg)" by (simp add: phandle_begin_def)
  have ok: "parsing_ok (enter_node p pg)" using phandle_begin_ok [OF assms(6) b] .
  have cur: "current_frame (enter_node p pg) = (current_frame pg)\<lparr>nf_name := parser_node_name p, nf_nprops := 0\<rparr>"
    using assms(6) by (simp add: enter_node_def)
  from node_body_run [OF ps(5) ok, of "[]" "[]"] cur ps(3,4) assms(1,2,4,5,7) node_passes [OF assms(1,2)] obtain pg2 where
    "run_body (first_pass m) qs (enter_node p pg, []) = Some (Inr (pop_frame pg2, phandle_table strs t))"
    unfolding DtNode name by (auto simp: enter_node_def)
  then show ?thesis using ps(1,2) b by (simp add: phandle_step_def)
qed

text \<open>C7: The table of the first pass: on a blob that encodes a tree, with \<open>NOP\<close>s anywhere, \<open>parse_frames_phandle\<close> returns the
  table of the nodes that have a phandle, children before parents, with the interrupt cells, clock frequency and
  parent clock of each; nodes that are ignored, and their properties, leave nothing in it. The tree may have
  eight levels, 29 properties per node and 299 phandles.\<close>

theorem phandle_pass_builds_table:
  assumes "bytes_at m fdt (enc_fdt rsv es strs)" and "fdt_size rsv es strs < 2 ^ 32"
    and "fdt \<noteq> 0" and "unat fdt mod 4 = 0" and "unat fdt + 2 ^ 33 + 16 < 2 ^ 64"
    and "\<forall>e\<in>set es. event_ok e" and "filter (\<lambda>e. e \<noteq> Ev_Nop) es = node_events t" and "node_fits strs 0 t"
    and "length (phandle_table strs t) < 300"
    and "length junk = 8" and "\<forall>f\<in>set junk. length (nf_props f) = 30"
  shows "parse_frames_phandle m fdt junk maps = Some (Inr (StatusOk, phandle_table strs t))"
proof -
  let ?base = "fdt + 40 + of_nat (length (enc_rsv rsv)) + of_nat (length (enc_block es))"
  from walk_blob [OF assms(1-6), of parser_default] obtain s ps where s: "parser_init m parser_default fdt = Inr (StatusOk, s)"
      "prs_strings s = ?base" "prs_strings_size s = of_nat (length strs)" "prs_struct s \<noteq> 0" "list_all2 (shown m s) ps (node_events t)"
      "\<forall>(body :: Parser \<Rightarrow> ParsingFrame \<times> NodeMapping list \<Rightarrow> (ParsingFrame \<times> NodeMapping list) comp) st.
         walk (parser_next m) body s st = run_body body ps st"
    unfolding assms(7) by blast
  have "list_all2 (shows_tree m ?base strs) ps (node_events t)"
    using s(5) by (rule list_all2_mono) (use s(2-4) in \<open>auto simp: shown_def shows_tree_def same_blob_def\<close>)
  moreover have "length strs < 2 ^ 32" using assms(2) by (simp add: fdt_size_def)
  ultimately obtain pg' where "run_body (first_pass m) ps (parsing_frame_init junk, []) = Some (Inr (pg', phandle_table strs t))"
    using root_run [OF enc_fdt_parts(11) [OF assms(1)] _ _ assms(8,9) parsing_frame_init_ok [OF assms(10,11)]]
    by (auto simp: parsing_frame_init_def)
  then show ?thesis using s(1,6) by (simp add: parse_frames_phandle_def)
qed

text \<open>A board with an interrupt controller and a clock, and an ignored node.\<close>

definition board_strings :: "u8 list" where
  "board_strings = bytes_of ''phandle'' @ [0] @ bytes_of ''#interrupt-cells'' @ [0] @ bytes_of ''clock-frequency'' @ [0]"

definition board_tree :: dt_node where
  "board_tree =
     DtNode [] []
       [DtNode (bytes_of ''intc'') [(0, [0, 0, 0, 1]), (8, [0, 0, 0, 3])] [],
        DtNode (bytes_of ''__symbols__'') [(0, [0, 0, 0, 7])] [],
        DtNode (bytes_of ''soc'') [] [DtNode (bytes_of ''clk'') [(25, [1, 0, 0, 0]), (0, [0, 0, 0, 2])] []]]"

definition board_events :: "event list" where
  "board_events = Ev_Nop # node_events board_tree"

definition board_fdt :: mem where
  "board_fdt = mem_of 4096 (enc_fdt [] board_events board_strings)"

definition board_junk :: "NodeFrame list" where
  "board_junk = replicate 8 \<lparr>nf_name = 0, nf_parent_cells = cells_default, nf_own_cells = cells_default, nf_nprops = 77,
     nf_compatible_prop_idx = 0, nf_device_type_prop_idx = 0, nf_props = replicate 30 \<lparr>pf_name = 0, pf_value = 0, pf_len = 0\<rparr>, nf_parent = None\<rparr>"

lemma board_size: "fdt_size [] board_events board_strings = 257"
  by (simp add: fdt_size_def length_enc_rsv enc_block_def board_events_def board_tree_def board_strings_def length_pad4 bytes_of_def)

lemma board_table: "phandle_table board_strings board_tree =
  [\<lparr>nm_phandle = 1, nm_interrupt_cells = 3, nm_clock_frequency = 0, nm_parent_clock = 0\<rparr>,
   \<lparr>nm_phandle = 2, nm_interrupt_cells = 0, nm_clock_frequency = 0x1000000, nm_parent_clock = 0\<rparr>]"
  by (simp add: board_tree_def board_strings_def node_mapping_def ignored_name_def map_prop_def str_at_def bytes_of_def val32_def
      mapping_default_def Let_def)

lemma board_fits: "node_fits board_strings 0 board_tree"
  by (simp add: board_tree_def board_strings_def prop_fits_def str_at_def bytes_of_def tracked_name_def)

theorem phandle_pass_builds_table_witness:
  "parse_frames_phandle board_fdt 4096 board_junk [] = Some (Inr (StatusOk,
     [\<lparr>nm_phandle = 1, nm_interrupt_cells = 3, nm_clock_frequency = 0, nm_parent_clock = 0\<rparr>,
      \<lparr>nm_phandle = 2, nm_interrupt_cells = 0, nm_clock_frequency = 0x1000000, nm_parent_clock = 0\<rparr>]))"
proof -
  have at: "bytes_at board_fdt 4096 (enc_fdt [] board_events board_strings)"
    unfolding board_fdt_def by (rule bytes_at_mem_of) (simp add: length_enc_fdt board_size)
  have "\<forall>e\<in>set board_events. event_ok e" by (simp add: board_events_def board_tree_def bytes_of_def)
  moreover have "filter (\<lambda>e. e \<noteq> Ev_Nop) board_events = node_events board_tree" by (simp add: board_events_def board_tree_def)
  ultimately show ?thesis
    using phandle_pass_builds_table [OF at _ _ _ _ _ _ board_fits, of board_junk "[]"] board_size board_table
    by (simp add: board_junk_def)
qed

end
