(* ===== verification/Start.thy ===== *)
theory Start
  imports Prelude
begin

text \<open>
  The first instructions of every core (\<open>src/src/start.S\<close>) and the layout of the image they run in
  (\<open>src/linker/aarch64.ld\<close>). The assembly is a list of labelled instructions, one entry per line of
  the source; a core executes one instruction at a time and stops at an instruction that the
  architecture does not allow it. The global constructors are compiled code, so what they do is an
  argument \<open>ctor\<close>, which follows the procedure call standard.
\<close>

section \<open>The image\<close>

text \<open>
  The sections that the linker places, with their sizes in bytes and the alignment of their most
  aligned input; \<open>se_vectors\<close> is the offset of the vector table in \<open>.text\<close> and \<open>se_ctors\<close> the number of
  entries of \<open>.init_array\<close>.
\<close>

record Sections =
  se_base :: nat
  se_text :: nat
  se_text_align :: nat
  se_vectors :: nat
  se_rodata :: nat
  se_rodata_align :: nat
  se_data :: nat
  se_data_align :: nat
  se_bss :: nat
  se_bss_align :: nat
  se_ctors :: nat

record LinkMap =
  lm_start :: nat
  lm_vector_table :: nat
  lm_bss_start :: nat
  lm_bss_end :: nat
  lm_init_array_start :: nat
  lm_init_array_end :: nat
  lm_stacks_bottom :: nat
  lm_stacks_top :: nat

definition STACK_SIZE :: nat where "STACK_SIZE = 0x10000"

definition NCPUS :: nat where "NCPUS = 4"

definition ld_align :: "nat \<Rightarrow> nat \<Rightarrow> nat" where
  "ld_align a n = (n + (a - 1)) div a * a"

definition link_image :: "Sections \<Rightarrow> LinkMap" where
  "link_image se =
     (let text = ld_align (se_text_align se) (se_base se);
          rodata = ld_align (se_rodata_align se) (text + se_text se);
          data = ld_align (se_data_align se) (rodata + se_rodata se);
          bss = ld_align (se_bss_align se) (data + se_data se);
          bss_end = bss + se_bss se;
          init_array = ld_align 8 bss_end;
          init_array_end = init_array + 8 * se_ctors se;
          stacks_bottom = ld_align 16 init_array_end in
      \<lparr>lm_start = text, lm_vector_table = text + se_vectors se, lm_bss_start = bss, lm_bss_end = bss_end,
       lm_init_array_start = init_array, lm_init_array_end = init_array_end,
       lm_stacks_bottom = stacks_bottom, lm_stacks_top = stacks_bottom + STACK_SIZE * NCPUS\<rparr>)"

section \<open>The code\<close>

datatype Label =
    L_start | L_clear_bss | L_clear_bss_done | L_init_array_call | L_init_array_call_done | L_secondary_start
  | L_drop_el2_to_el1 | L_return | L_setup_stack | L_park | L_kern_main | L_secondary_kern_main

datatype Symbol =
    S_vector_table | S_bss_start | S_bss_end | S_init_array_start | S_init_array_end
  | S_stacks_bottom | S_STACK_SIZE | S_label Label

datatype StartReg =
    R_CurrentEL | R_MPIDR_EL1 | R_VBAR_EL1 | R_HCR_EL2 | R_VBAR_EL2 | R_SPSR_EL2 | R_ELR_EL2

text \<open>
  The instructions that the file uses. \<open>Ldr_eq\<close> is \<open>ldr xd, =symbol\<close>, \<open>Str_xzr_post\<close> is
  \<open>str xzr, [xn], #imm\<close> and \<open>Add_sp\<close> is \<open>add sp, xn, xm\<close>.
\<close>

datatype StartInsn =
    Mov nat nat | Mov_imm nat u64 | Mov_xzr nat
  | And_imm nat nat u64 | Orr_imm nat nat u64 | Add_imm nat nat u64 | Lsr_imm nat nat nat | Lsl_imm nat nat nat
  | Madd nat nat nat nat | Add_sp nat nat
  | Cmp nat nat | Cmp_imm nat u64 | Cbnz nat Label | B Label | B_hs Label | B_ne Label
  | Bl Label | Blr nat | Ret | Eret
  | Ldr_eq nat Symbol | Ldr nat nat | Str_xzr_post nat u64
  | Mrs nat StartReg | Msr StartReg nat
  | Isb | Dsb | Wfe

definition start_S :: "(Label option \<times> StartInsn) list" where
  "start_S =
    [(Some L_start, Mov 19 0),
     (None, Bl L_drop_el2_to_el1),
     (None, Mrs 0 R_MPIDR_EL1),
     (None, And_imm 0 0 0xff),
     (None, Cbnz 0 L_park),
     (None, Bl L_setup_stack),
     (None, Ldr_eq 0 S_vector_table),
     (None, Msr R_VBAR_EL1 0),
     (None, Isb),
     (None, Ldr_eq 0 S_bss_start),
     (None, Ldr_eq 1 S_bss_end),
     (Some L_clear_bss, Cmp 0 1),
     (None, B_hs L_clear_bss_done),
     (None, Str_xzr_post 0 8),
     (None, B L_clear_bss),
     (Some L_clear_bss_done, Dsb),
     (None, Ldr_eq 20 S_init_array_start),
     (None, Ldr_eq 21 S_init_array_end),
     (Some L_init_array_call, Cmp 20 21),
     (None, B_hs L_init_array_call_done),
     (None, Ldr 0 20),
     (None, Blr 0),
     (None, Add_imm 20 20 8),
     (None, B L_init_array_call),
     (Some L_init_array_call_done, Mov 0 19),
     (None, Bl L_kern_main),
     (None, B L_park),
     (Some L_secondary_start, Bl L_drop_el2_to_el1),
     (None, Mrs 0 R_MPIDR_EL1),
     (None, And_imm 0 0 0xff),
     (None, Bl L_setup_stack),
     (None, Ldr_eq 0 S_vector_table),
     (None, Msr R_VBAR_EL1 0),
     (None, Isb),
     (None, Bl L_secondary_kern_main),
     (None, B L_park),
     (Some L_drop_el2_to_el1, Mrs 0 R_CurrentEL),
     (None, Lsr_imm 0 0 2),
     (None, And_imm 0 0 3),
     (None, Cmp_imm 0 2),
     (None, B_ne L_return),
     (None, Mov_imm 0 1),
     (None, Lsl_imm 0 0 31),
     (None, Msr R_HCR_EL2 0),
     (None, Ldr_eq 0 S_vector_table),
     (None, Msr R_VBAR_EL2 0),
     (None, Isb),
     (None, Mov_xzr 0),
     (None, Orr_imm 0 0 0x3c0),
     (None, Orr_imm 0 0 4),
     (None, Orr_imm 0 0 1),
     (None, Msr R_SPSR_EL2 0),
     (None, Ldr_eq 0 (S_label L_return)),
     (None, Msr R_ELR_EL2 0),
     (None, Eret),
     (Some L_return, Ret),
     (Some L_setup_stack, Ldr_eq 1 S_stacks_bottom),
     (None, Ldr_eq 2 S_STACK_SIZE),
     (None, Madd 1 0 2 1),
     (None, Add_sp 1 2),
     (None, Ret),
     (Some L_park, Wfe),
     (None, B L_park)]"

text \<open>The line that carries a label; \<open>kern_main\<close> and \<open>secondary_kern_main\<close> are in another file.\<close>

fun find_label :: "Label \<Rightarrow> (Label option \<times> StartInsn) list \<Rightarrow> nat option" where
  "find_label l [] = None"
| "find_label l (line # ls) = (if fst line = Some l then Some 0 else map_option Suc (find_label l ls))"

section \<open>The core\<close>

type_synonym ram = "u64 \<Rightarrow> u8"

text \<open>A core is at a line of the file, or has been handed to a function of the kernel.\<close>

datatype Pc = At nat | In Label

text \<open>
  \<open>st_sp\<close> has a stack pointer per exception level, of which \<open>st_spsel\<close> selects that of level 0 or that
  of the current level; \<open>st_c\<close> and \<open>st_z\<close> are the flags; \<open>st_vmpidr\<close> is what \<open>EL1\<close> reads as \<open>MPIDR_EL1\<close>
  (\<open>VMPIDR_EL2\<close> on a core with \<open>EL2\<close>). \<open>st_calls\<close> records the calls of constructors, each with the
  memory before and after it; no instruction reads it.
\<close>

record Start =
  st_pc :: Pc
  st_x :: "nat \<Rightarrow> u64"
  st_sp :: "nat \<Rightarrow> u64"
  st_el :: nat
  st_spsel :: bool
  st_daif :: u64
  st_c :: bool
  st_z :: bool
  st_sys :: "StartReg \<Rightarrow> u64"
  st_vmpidr :: u64
  st_mem :: ram
  st_calls :: "(u64 \<times> ram \<times> ram) list"

definition sp_bank :: "Start \<Rightarrow> nat" where
  "sp_bank s = (if st_spsel s then st_el s else 0)"

definition sp_of :: "Start \<Rightarrow> u64" where
  "sp_of s = st_sp s (sp_bank s)"

definition set_x :: "nat \<Rightarrow> u64 \<Rightarrow> Start \<Rightarrow> Start" where
  "set_x d v s = s\<lparr>st_x := (st_x s)(d := v)\<rparr>"

definition goto :: "nat \<Rightarrow> Start \<Rightarrow> Start" where
  "goto i s = s\<lparr>st_pc := At i\<rparr>"

definition load64 :: "ram \<Rightarrow> u64 \<Rightarrow> u64" where
  "load64 m a = foldr (\<lambda>i v. push_bit 8 v OR ucast (m (a + of_nat i))) [0..<8] 0"

definition store64 :: "ram \<Rightarrow> u64 \<Rightarrow> u64 \<Rightarrow> ram" where
  "store64 m a v = (\<lambda>b. if b - a < 8 then ucast (drop_bit (8 * unat (b - a)) v) else m b)"

text \<open>The address of a line of the file, which is linked to the start of the image, and back.\<close>

definition addr_of :: "LinkMap \<Rightarrow> nat \<Rightarrow> u64" where
  "addr_of lm i = of_nat (lm_start lm + 4 * i)"

definition code_index :: "LinkMap \<Rightarrow> u64 \<Rightarrow> nat option" where
  "code_index lm a =
     (let d = unat (a - of_nat (lm_start lm)) in
      if d mod 4 = 0 \<and> d div 4 < length start_S then Some (d div 4) else None)"

definition symbol_value :: "LinkMap \<Rightarrow> Symbol \<Rightarrow> u64" where
  "symbol_value lm y =
     (case y of
        S_vector_table \<Rightarrow> of_nat (lm_vector_table lm)
      | S_bss_start \<Rightarrow> of_nat (lm_bss_start lm)
      | S_bss_end \<Rightarrow> of_nat (lm_bss_end lm)
      | S_init_array_start \<Rightarrow> of_nat (lm_init_array_start lm)
      | S_init_array_end \<Rightarrow> of_nat (lm_init_array_end lm)
      | S_stacks_bottom \<Rightarrow> of_nat (lm_stacks_bottom lm)
      | S_STACK_SIZE \<Rightarrow> of_nat STACK_SIZE
      | S_label l \<Rightarrow> (case find_label l start_S of Some i \<Rightarrow> addr_of lm i | None \<Rightarrow> 0))"

text \<open>The lowest exception level that may access a register.\<close>

definition reg_level :: "StartReg \<Rightarrow> nat" where
  "reg_level r = (if r \<in> {R_CurrentEL, R_MPIDR_EL1, R_VBAR_EL1} then 1 else 2)"

definition read_reg :: "StartReg \<Rightarrow> Start \<Rightarrow> u64" where
  "read_reg r s =
     (case r of
        R_CurrentEL \<Rightarrow> push_bit 2 (of_nat (st_el s))
      | R_MPIDR_EL1 \<Rightarrow> (if st_el s = 1 then st_vmpidr s else st_sys s R_MPIDR_EL1)
      | _ \<Rightarrow> st_sys s r)"

text \<open>
  Return from \<open>EL2\<close> to the state that \<open>SPSR_EL2\<close> describes. Return to a 32-bit state (bit 4), to a reserved
  mode, to a higher level, or to \<open>EL1\<close> when \<open>HCR_EL2.RW\<close> (bit 31) says that \<open>EL1\<close> is 32-bit is illegal.
\<close>

definition exec_eret :: "LinkMap \<Rightarrow> Start \<Rightarrow> Start option" where
  "exec_eret lm s =
     (let spsr = st_sys s R_SPSR_EL2; el = unat (drop_bit 2 spsr AND 3) in
      if st_el s \<noteq> 2 \<or> bit spsr 4 \<or> bit spsr 1 \<or> 2 < el \<or> (el = 0 \<and> bit spsr 0) \<or> (el < 2 \<and> \<not> bit (st_sys s R_HCR_EL2) 31)
      then None
      else map_option (\<lambda>i. s\<lparr>st_pc := At i, st_el := el, st_spsel := bit spsr 0, st_daif := spsr AND 0x3c0\<rparr>)
             (code_index lm (st_sys s R_ELR_EL2)))"

definition branch :: "Label \<Rightarrow> Start \<Rightarrow> Start" where
  "branch l s = s\<lparr>st_pc := (case find_label l start_S of Some i \<Rightarrow> At i | None \<Rightarrow> In l)\<rparr>"

text \<open>
  The instruction at line \<open>i\<close>. The MMU is off, so memory is of device type and an access has to be
  aligned. A constructor that is called returns to the next line.
\<close>

fun exec_start :: "LinkMap \<Rightarrow> (u64 \<Rightarrow> Start \<Rightarrow> Start) \<Rightarrow> StartInsn \<Rightarrow> nat \<Rightarrow> Start \<Rightarrow> Start option" where
  "exec_start lm ctor (Mov d n) i s = Some (goto (i + 1) (set_x d (st_x s n) s))"
| "exec_start lm ctor (Mov_imm d v) i s = Some (goto (i + 1) (set_x d v s))"
| "exec_start lm ctor (Mov_xzr d) i s = Some (goto (i + 1) (set_x d 0 s))"
| "exec_start lm ctor (And_imm d n v) i s = Some (goto (i + 1) (set_x d (st_x s n AND v) s))"
| "exec_start lm ctor (Orr_imm d n v) i s = Some (goto (i + 1) (set_x d (st_x s n OR v) s))"
| "exec_start lm ctor (Add_imm d n v) i s = Some (goto (i + 1) (set_x d (st_x s n + v) s))"
| "exec_start lm ctor (Lsr_imm d n k) i s = Some (goto (i + 1) (set_x d (drop_bit k (st_x s n)) s))"
| "exec_start lm ctor (Lsl_imm d n k) i s = Some (goto (i + 1) (set_x d (push_bit k (st_x s n)) s))"
| "exec_start lm ctor (Madd d n m a) i s = Some (goto (i + 1) (set_x d (st_x s a + st_x s n * st_x s m) s))"
| "exec_start lm ctor (Add_sp n m) i s =
     Some (goto (i + 1) (s\<lparr>st_sp := (st_sp s)(sp_bank s := st_x s n + st_x s m)\<rparr>))"
| "exec_start lm ctor (Cmp n m) i s =
     Some (goto (i + 1) (s\<lparr>st_c := st_x s m \<le> st_x s n, st_z := st_x s n = st_x s m\<rparr>))"
| "exec_start lm ctor (Cmp_imm n v) i s = Some (goto (i + 1) (s\<lparr>st_c := v \<le> st_x s n, st_z := st_x s n = v\<rparr>))"
| "exec_start lm ctor (Cbnz n l) i s = Some (if st_x s n \<noteq> 0 then branch l s else goto (i + 1) s)"
| "exec_start lm ctor (B l) i s = Some (branch l s)"
| "exec_start lm ctor (B_hs l) i s = Some (if st_c s then branch l s else goto (i + 1) s)"
| "exec_start lm ctor (B_ne l) i s = Some (if \<not> st_z s then branch l s else goto (i + 1) s)"
| "exec_start lm ctor (Bl l) i s = Some (branch l (set_x 30 (addr_of lm (i + 1)) s))"
| "exec_start lm ctor (Blr n) i s =
     (let s' = ctor (st_x s n) (set_x 30 (addr_of lm (i + 1)) s) in
      Some (goto (i + 1) (s'\<lparr>st_calls := st_calls s' @ [(st_x s n, st_mem s, st_mem s')]\<rparr>)))"
| "exec_start lm ctor Ret i s = map_option (\<lambda>j. goto j s) (code_index lm (st_x s 30))"
| "exec_start lm ctor Eret i s = exec_eret lm s"
| "exec_start lm ctor (Ldr_eq d y) i s = Some (goto (i + 1) (set_x d (symbol_value lm y) s))"
| "exec_start lm ctor (Ldr d n) i s =
     (if st_x s n AND 7 = 0 then Some (goto (i + 1) (set_x d (load64 (st_mem s) (st_x s n)) s)) else None)"
| "exec_start lm ctor (Str_xzr_post n v) i s =
     (if st_x s n AND 7 = 0
      then Some (goto (i + 1) (set_x n (st_x s n + v) (s\<lparr>st_mem := store64 (st_mem s) (st_x s n) 0\<rparr>)))
      else None)"
| "exec_start lm ctor (Mrs d r) i s =
     (if reg_level r \<le> st_el s then Some (goto (i + 1) (set_x d (read_reg r s) s)) else None)"
| "exec_start lm ctor (Msr r n) i s =
     (if reg_level r \<le> st_el s then Some (goto (i + 1) (s\<lparr>st_sys := (st_sys s)(r := st_x s n)\<rparr>)) else None)"
| "exec_start lm ctor Isb i s = Some (goto (i + 1) s)"
| "exec_start lm ctor Dsb i s = Some (goto (i + 1) s)"
| "exec_start lm ctor Wfe i s = Some (goto (i + 1) s)"

definition step_start :: "LinkMap \<Rightarrow> (u64 \<Rightarrow> Start \<Rightarrow> Start) \<Rightarrow> Start \<Rightarrow> Start option" where
  "step_start lm ctor s =
     (case st_pc s of
        At i \<Rightarrow> if i < length start_S then exec_start lm ctor (snd (start_S ! i)) i s else None
      | In l \<Rightarrow> None)"

fun run_start :: "LinkMap \<Rightarrow> (u64 \<Rightarrow> Start \<Rightarrow> Start) \<Rightarrow> nat \<Rightarrow> Start \<Rightarrow> Start option" where
  "run_start lm ctor 0 s = Some s"
| "run_start lm ctor (Suc n) s = Option.bind (step_start lm ctor s) (run_start lm ctor n)"

section \<open>Execution\<close>

named_theorems start_simps \<open>one instruction of the start-up code\<close>

definition reaches :: "LinkMap \<Rightarrow> (u64 \<Rightarrow> Start \<Rightarrow> Start) \<Rightarrow> Start \<Rightarrow> Start \<Rightarrow> bool" where
  "reaches lm ctor s s' \<longleftrightarrow> (\<exists>n. run_start lm ctor n s = Some s')"

lemma run_start_add: "run_start lm ctor (m + n) s = Option.bind (run_start lm ctor m s) (run_start lm ctor n)"
  by (induction m arbitrary: s) (auto split: bind_splits)

lemma reaches_refl: "reaches lm ctor s s"
  unfolding reaches_def by (rule exI [of _ 0]) simp

lemma reaches_trans: "reaches lm ctor s s1 \<Longrightarrow> reaches lm ctor s1 s2 \<Longrightarrow> reaches lm ctor s s2"
proof (unfold reaches_def, elim exE)
  fix m n assume "run_start lm ctor m s = Some s1" "run_start lm ctor n s1 = Some s2"
  then show "\<exists>n. run_start lm ctor n s = Some s2" using run_start_add by (intro exI [of _ "m + n"]) simp
qed

lemma reachesI: "run_start lm ctor n s = Some s' \<Longrightarrow> reaches lm ctor s s'"
  by (auto simp: reaches_def)

lemma run_start_numeral [start_simps]:
  "run_start lm ctor (numeral k) s = Option.bind (step_start lm ctor s) (run_start lm ctor (pred_numeral k))"
  by (simp add: numeral_eq_Suc)

lemma label_lines [start_simps]:
  "find_label L_start start_S = Some 0" "find_label L_clear_bss start_S = Some 11"
  "find_label L_clear_bss_done start_S = Some 15" "find_label L_init_array_call start_S = Some 18"
  "find_label L_init_array_call_done start_S = Some 24" "find_label L_secondary_start start_S = Some 27"
  "find_label L_drop_el2_to_el1 start_S = Some 36" "find_label L_return start_S = Some 55"
  "find_label L_setup_stack start_S = Some 56" "find_label L_park start_S = Some 61"
  "find_label L_kern_main start_S = None" "find_label L_secondary_kern_main start_S = None"
  by (simp_all add: start_S_def)

lemma code_size [start_simps]: "length start_S = 63"
  by (simp add: start_S_def)

lemma code_index_addr_of [start_simps]: "i < 63 \<Longrightarrow> code_index lm (addr_of lm i) = Some i"
proof -
  assume i: "i < 63"
  have "addr_of lm i - of_nat (lm_start lm) = (of_nat (4 * i) :: u64)" by (simp add: addr_of_def)
  moreover have "unat (of_nat (4 * i) :: u64) = 4 * i" using i by (simp only: unat_of_nat) simp
  ultimately show ?thesis using i by (simp add: code_index_def Let_def code_size)
qed

lemma step_at: "st_pc s = At i \<Longrightarrow> i < 63 \<Longrightarrow> step_start lm ctor s = exec_start lm ctor (snd (start_S ! i)) i s"
  by (simp add: step_start_def code_size)

lemmas core_defs [start_simps] = goto_def set_x_def branch_def


section \<open>The subroutines\<close>

text \<open>What no instruction before the loops changes.\<close>

definition kept_core :: "Start \<Rightarrow> Start \<Rightarrow> bool" where
  "kept_core s s' \<longleftrightarrow> st_mem s' = st_mem s \<and> st_calls s' = st_calls s \<and> st_vmpidr s' = st_vmpidr s \<and>
     st_sys s' R_MPIDR_EL1 = st_sys s R_MPIDR_EL1 \<and> (\<forall>n\<in>{19..30}. st_x s' n = st_x s n)"

lemma setup_stack_runs:
  assumes "st_pc s = At 56" "code_index lm (st_x s 30) = Some k"
  shows "\<exists>s'. reaches lm ctor s s' \<and> st_pc s' = At k \<and> kept_core s s' \<and> st_el s' = st_el s \<and> st_spsel s' = st_spsel s \<and> st_daif s' = st_daif s \<and>
    sp_of s' = of_nat (lm_stacks_bottom lm) + (st_x s 0 + 1) * of_nat STACK_SIZE"
proof -
  have "\<exists>s'. run_start lm ctor 5 s = Some s' \<and> st_pc s' = At k \<and> kept_core s s' \<and> st_el s' = st_el s \<and> st_spsel s' = st_spsel s \<and> st_daif s' = st_daif s \<and>
    sp_of s' = of_nat (lm_stacks_bottom lm) + (st_x s 0 + 1) * of_nat STACK_SIZE"
    using assms by (simp add: start_simps step_at start_S_def symbol_value_def sp_bank_def sp_of_def kept_core_def algebra_simps)
  then show ?thesis by (auto simp: reaches_def)
qed

definition el_after :: "Start \<Rightarrow> nat" where
  "el_after s = (if st_el s = 2 then 1 else st_el s)"

lemma drop_el2_to_el1_runs:
  assumes "st_pc s = At 36" "code_index lm (st_x s 30) = Some k" "st_el s \<in> {1, 2, 3}"
  shows "\<exists>s'. reaches lm ctor s s' \<and> st_pc s' = At k \<and> kept_core s s' \<and> st_el s' = el_after s \<and>
    (st_el s = 2 \<longrightarrow> st_spsel s' \<and> st_daif s' = 0x3c0)"
proof (cases "st_el s = 2")
  case True
  have "\<exists>s'. run_start lm ctor 20 s = Some s' \<and> st_pc s' = At k \<and> kept_core s s' \<and> st_el s' = 1 \<and> st_spsel s' \<and> st_daif s' = 0x3c0"
    using assms True
    by (simp add: start_simps step_at start_S_def read_reg_def reg_level_def exec_eret_def symbol_value_def kept_core_def)
  then show ?thesis using True by (auto simp: reaches_def el_after_def)
next
  case False
  have "\<exists>s'. run_start lm ctor 6 s = Some s' \<and> st_pc s' = At k \<and> kept_core s s' \<and> st_el s' = st_el s"
    using assms False
    by (auto simp: start_simps step_at start_S_def read_reg_def reg_level_def kept_core_def)
  then show ?thesis using False by (auto simp: reaches_def el_after_def)
qed

section \<open>Addresses\<close>

lemma ld_align_bounds:
  assumes "0 < a"
  shows "n \<le> ld_align a n" "ld_align a n < n + a" "a dvd ld_align a n"
proof -
  let ?m = "n + (a - 1)"
  have "?m = ?m div a * a + ?m mod a" "?m mod a < a" using assms by simp_all
  then show "n \<le> ld_align a n" "ld_align a n < n + a" unfolding ld_align_def using assms by linarith+
  show "a dvd ld_align a n" by (simp add: ld_align_def)
qed

text \<open>What the linker script makes sure of.\<close>

definition well_linked :: "LinkMap \<Rightarrow> bool" where
  "well_linked lm \<longleftrightarrow> lm_start lm \<le> lm_bss_start lm \<and> lm_bss_start lm \<le> lm_bss_end lm \<and>
     lm_bss_end lm \<le> lm_init_array_start lm \<and> lm_init_array_start lm < lm_bss_end lm + 8 \<and>
     lm_init_array_start lm \<le> lm_init_array_end lm \<and> lm_init_array_end lm \<le> lm_stacks_bottom lm \<and>
     lm_stacks_top lm = lm_stacks_bottom lm + STACK_SIZE * NCPUS \<and> lm_stacks_top lm < 2 ^ 64 \<and>
     8 dvd lm_bss_start lm \<and> 8 dvd lm_init_array_start lm \<and> 8 dvd lm_init_array_end lm \<and> 16 dvd lm_stacks_bottom lm"

text \<open>
  An image that fits below \<open>2 ^ 64\<close>. The script does not align \<open>.bss\<close> itself; it is aligned to 8 because it
  holds 64-bit variables.
\<close>

definition image_fits :: "Sections \<Rightarrow> bool" where
  "image_fits se \<longleftrightarrow> 0 < se_text_align se \<and> 0 < se_rodata_align se \<and> 0 < se_data_align se \<and> 0 < se_bss_align se \<and>
     8 dvd se_bss_align se \<and> lm_stacks_top (link_image se) < 2 ^ 64"

lemma link_image_well_linked: "image_fits se \<Longrightarrow> well_linked (link_image se)"
proof -
  assume f: "image_fits se"
  define tx where "tx = ld_align (se_text_align se) (se_base se)"
  define ro where "ro = ld_align (se_rodata_align se) (tx + se_text se)"
  define data where "data = ld_align (se_data_align se) (ro + se_rodata se)"
  define bss where "bss = ld_align (se_bss_align se) (data + se_data se)"
  define ia where "ia = ld_align 8 (bss + se_bss se)"
  define sb where "sb = ld_align 16 (ia + 8 * se_ctors se)"
  have lm: "link_image se = \<lparr>lm_start = tx, lm_vector_table = tx + se_vectors se, lm_bss_start = bss, lm_bss_end = bss + se_bss se,
       lm_init_array_start = ia, lm_init_array_end = ia + 8 * se_ctors se, lm_stacks_bottom = sb, lm_stacks_top = sb + STACK_SIZE * NCPUS\<rparr>"
    by (simp add: link_image_def Let_def tx_def ro_def data_def bss_def ia_def sb_def)
  have "tx + se_text se \<le> ro" "ro + se_rodata se \<le> data" "data + se_data se \<le> bss"
    using f unfolding ro_def data_def bss_def image_fits_def by (simp_all only: ld_align_bounds(1))
  moreover have "bss + se_bss se \<le> ia" "ia < bss + se_bss se + 8" "8 dvd ia"
    unfolding ia_def by (simp_all only: ld_align_bounds zero_less_numeral)
  moreover have "ia + 8 * se_ctors se \<le> sb" "16 dvd sb" unfolding sb_def by (simp_all only: ld_align_bounds zero_less_numeral)
  moreover have "8 dvd bss" using f ld_align_bounds(3) dvd_trans unfolding bss_def image_fits_def by blast
  ultimately show ?thesis using f unfolding well_linked_def lm image_fits_def by simp
qed

lemma aligned_and: "8 dvd a \<Longrightarrow> (of_nat a :: u64) AND 7 = 0"
proof -
  assume a: "8 dvd a"
  have "(of_nat a :: u64) AND 7 = take_bit 3 (of_nat a)" by (simp add: take_bit_eq_mask mask_eq_exp_minus_1)
  also have "\<dots> = of_nat (take_bit 3 a)" by (simp add: take_bit_of_nat)
  also have "take_bit 3 a = 0" using a by (simp add: take_bit_eq_mod)
  finally show ?thesis by simp
qed

lemma of_nat_le_u64: "a < 2 ^ 64 \<Longrightarrow> b < 2 ^ 64 \<Longrightarrow> (of_nat a :: u64) \<le> of_nat b \<longleftrightarrow> a \<le> b"
  by (simp add: word_le_nat_alt unat_of_nat)

section \<open>Clearing \<open>.bss\<close>\<close>

definition zero_range :: "nat \<Rightarrow> nat \<Rightarrow> ram \<Rightarrow> ram" where
  "zero_range a e m = (\<lambda>b. if a \<le> unat b \<and> unat b < e then 0 else m b)"

lemma store_zero: "a + 8 < 2 ^ 64 \<Longrightarrow> store64 m (of_nat a) 0 = zero_range a (a + 8) m"
proof
  fix b :: u64
  assume a: "a + 8 < 2 ^ 64"
  have ua: "unat (of_nat a :: u64) = a" using a by (simp add: unat_of_nat)
  have "b - of_nat a < 8 \<longleftrightarrow> a \<le> unat b \<and> unat b < a + 8"
  proof
    assume "b - of_nat a < 8"
    then have c: "unat (b - of_nat a) < 8" by (simp add: word_less_nat_alt)
    have "unat (of_nat a + (b - of_nat a)) = a + unat (b - of_nat a)" using c a ua by (simp only: unat_u64_add)
    then show "a \<le> unat b \<and> unat b < a + 8" using c by simp
  next
    assume "a \<le> unat b \<and> unat b < a + 8"
    moreover then have "unat (b - of_nat a) = unat b - a" using ua by (simp add: unat_u64_diff word_le_nat_alt)
    ultimately show "b - of_nat a < 8" by (auto simp: word_less_nat_alt)
  qed
  then show "store64 m (of_nat a) 0 b = zero_range a (a + 8) m b" by (simp add: store64_def zero_range_def)
qed

lemma zero_range_join: "a \<le> b \<Longrightarrow> b \<le> c \<Longrightarrow> zero_range b c (zero_range a b m) = zero_range a c m"
  by (auto simp: zero_range_def)

lemma zero_range_empty: "zero_range a a m = m"
  by (rule ext) (auto simp: zero_range_def)

text \<open>What the loops leave alone besides memory.\<close>

definition kept_mode :: "Start \<Rightarrow> Start \<Rightarrow> bool" where
  "kept_mode s s' \<longleftrightarrow> sp_of s' = sp_of s \<and> st_el s' = st_el s \<and> st_spsel s' = st_spsel s \<and> st_daif s' = st_daif s \<and> st_sys s' = st_sys s \<and>
     st_x s' 19 = st_x s 19"

lemma kept_mode_trans: "kept_mode s s1 \<Longrightarrow> kept_mode s1 s2 \<Longrightarrow> kept_mode s s2"
  by (simp add: kept_mode_def)

lemma clear_bss_runs:
  assumes "st_pc s = At 11" "st_x s 0 = of_nat a" "st_x s 1 = of_nat e" "8 dvd a" "t = a + 8 * k" "e \<le> t" "k = 0 \<or> t < e + 8" "t < 2 ^ 64"
  shows "\<exists>s'. reaches lm ctor s s' \<and> st_pc s' = At 15 \<and> kept_mode s s' \<and> st_calls s' = st_calls s \<and> st_mem s' = zero_range a t (st_mem s)"
  using assms
proof (induction k arbitrary: s a)
  case 0
  have "\<exists>s'. run_start lm ctor 2 s = Some s' \<and> st_pc s' = At 15 \<and> kept_mode s s' \<and> st_calls s' = st_calls s \<and> st_mem s' = st_mem s"
    using 0 by (simp add: start_simps step_at start_S_def kept_mode_def of_nat_le_u64 sp_of_def sp_bank_def)
  then show ?case using 0 by (auto simp: reaches_def zero_range_empty)
next
  case (Suc k)
  have lt: "a < e" "a + 8 \<le> t" using Suc.prems by auto
  then have c: "\<not> (of_nat e :: u64) \<le> of_nat a" using Suc.prems(6,8) by (simp add: of_nat_le_u64)
  have "\<exists>s1. run_start lm ctor 4 s = Some s1 \<and> st_pc s1 = At 11 \<and> kept_mode s s1 \<and> st_calls s1 = st_calls s \<and>
      st_x s1 0 = of_nat (a + 8) \<and> st_x s1 1 = of_nat e \<and> st_mem s1 = store64 (st_mem s) (of_nat a) 0"
    using Suc.prems(1-3) c aligned_and [OF Suc.prems(4)]
    by (simp add: start_simps step_at start_S_def kept_mode_def sp_of_def sp_bank_def)
  then obtain s1 where s1: "reaches lm ctor s s1" "st_pc s1 = At 11" "kept_mode s s1" "st_calls s1 = st_calls s"
      "st_x s1 0 = of_nat (a + 8)" "st_x s1 1 = of_nat e" "st_mem s1 = store64 (st_mem s) (of_nat a) 0"
    by (auto intro: reachesI)
  have "8 dvd a + 8" "t = a + 8 + 8 * k" using Suc.prems(4,5) by simp_all
  moreover have "k = 0 \<or> t < e + 8" using Suc.prems(7) by simp
  ultimately obtain s' where s': "reaches lm ctor s1 s'" "st_pc s' = At 15" "kept_mode s1 s'" "st_calls s' = st_calls s1"
      "st_mem s' = zero_range (a + 8) t (st_mem s1)"
    using Suc.IH [OF s1(2,5,6)] Suc.prems(6,8) by blast
  have "st_mem s' = zero_range a t (st_mem s)"
  proof (cases "a + 8 < 2 ^ 64")
    case True
    then show ?thesis using s'(5) s1(7) lt(2) by (simp add: store_zero zero_range_join)
  next
    case False
    then show ?thesis using lt(2) Suc.prems(8) by simp
  qed
  then show ?case using s' s1 reaches_trans kept_mode_trans by metis
qed

section \<open>Calling the constructors\<close>

text \<open>
  A constructor follows the procedure call standard (AAPCS64): it keeps \<open>x19\<close> to \<open>x28\<close> and the stack pointer.
  It leaves the mode of the core and its system registers alone and does not write to the table.
\<close>

definition ctor_ok :: "LinkMap \<Rightarrow> (u64 \<Rightarrow> Start \<Rightarrow> Start) \<Rightarrow> bool" where
  "ctor_ok lm ctor \<longleftrightarrow> (\<forall>f s. kept_mode s (ctor f s) \<and> (\<forall>n\<in>{19..28}. st_x (ctor f s) n = st_x s n) \<and>
     st_calls (ctor f s) = st_calls s \<and>
     (\<forall>b. lm_init_array_start lm \<le> unat b \<and> unat b < lm_init_array_end lm \<longrightarrow> st_mem (ctor f s) b = st_mem s b))"

text \<open>The table of constructors, and calls that each continue on the memory of the one before.\<close>

definition ctor_table :: "nat \<Rightarrow> nat \<Rightarrow> ram \<Rightarrow> u64 list" where
  "ctor_table a k m = map (\<lambda>i. load64 m (of_nat (a + 8 * i))) [0..<k]"

fun call_chain :: "ram \<Rightarrow> (u64 \<times> ram \<times> ram) list \<Rightarrow> ram \<Rightarrow> bool" where
  "call_chain m [] m' \<longleftrightarrow> m' = m"
| "call_chain m ((f, m1, m2) # cs) m' \<longleftrightarrow> m1 = m \<and> call_chain m2 cs m'"

lemma load64_cong: "(\<And>i. i < 8 \<Longrightarrow> m (a + of_nat i) = m' (a + of_nat i)) \<Longrightarrow> load64 m a = load64 m' a"
  unfolding load64_def by (rule foldr_cong) auto

lemma load64_same:
  assumes "\<forall>b. lo \<le> unat b \<and> unat b < hi \<longrightarrow> m b = m' b" "lo \<le> a" "a + 8 \<le> hi" "hi < 2 ^ 64"
  shows "load64 m (of_nat a) = load64 m' (of_nat a)"
proof (rule load64_cong)
  fix i :: nat assume i: "i < 8"
  have "unat (of_nat a :: u64) = a" using assms(3,4) by (simp add: unat_of_nat)
  then have "unat (of_nat a + of_nat i :: u64) = a + i" using i assms(3,4) by (simp add: unat_u64_add_of_nat)
  then show "m (of_nat a + of_nat i) = m' (of_nat a + of_nat i)" using assms(1-3) i by simp
qed

lemma ctor_table_Suc: "ctor_table a (Suc k) m = load64 m (of_nat a) # ctor_table (a + 8) k m"
  unfolding ctor_table_def upt_conv_Cons [OF zero_less_Suc] by (simp add: map_Suc_upt [symmetric] add.assoc del: upt_Suc)

lemma ctor_table_same:
  assumes "\<forall>b. lo \<le> unat b \<and> unat b < hi \<longrightarrow> m b = m' b" "lo \<le> a" "a + 8 * k \<le> hi" "hi < 2 ^ 64"
  shows "ctor_table a k m = ctor_table a k m'"
  unfolding ctor_table_def
proof (rule map_cong [OF refl])
  fix i assume "i \<in> set [0..<k]"
  then show "load64 m (of_nat (a + 8 * i)) = load64 m' (of_nat (a + 8 * i))"
    using assms(2,3) by (intro load64_same [OF assms(1)] assms(4)) auto
qed

lemma init_array_runs:
  assumes "st_pc s = At 18" "st_x s 20 = of_nat a" "st_x s 21 = of_nat (lm_init_array_end lm)" "8 dvd a"
    "lm_init_array_end lm = a + 8 * k" "lm_init_array_start lm \<le> a" "lm_init_array_end lm < 2 ^ 64" "ctor_ok lm ctor"
  shows "\<exists>s' cs. reaches lm ctor s s' \<and> st_pc s' = At 24 \<and> kept_mode s s' \<and> st_calls s' = st_calls s @ cs \<and>
    map fst cs = ctor_table a k (st_mem s) \<and> call_chain (st_mem s) cs (st_mem s')"
  using assms
proof (induction k arbitrary: s a)
  case 0
  have "\<exists>s'. run_start lm ctor 2 s = Some s' \<and> st_pc s' = At 24 \<and> kept_mode s s' \<and> st_calls s' = st_calls s \<and> st_mem s' = st_mem s"
    using 0 by (simp add: start_simps step_at start_S_def kept_mode_def sp_of_def sp_bank_def)
  then show ?case by (auto simp: reaches_def ctor_table_def intro!: exI [of _ "[]"])
next
  case (Suc k)
  let ?f = "load64 (st_mem s) (of_nat a)"
  have c: "\<not> (of_nat (lm_init_array_end lm) :: u64) \<le> of_nat a" using Suc.prems(5,7) by (subst of_nat_le_u64) simp_all
  have "\<exists>s1. run_start lm ctor 3 s = Some s1 \<and> st_pc s1 = At 21 \<and> kept_mode s s1 \<and> st_calls s1 = st_calls s \<and>
      st_x s1 0 = ?f \<and> st_x s1 20 = of_nat a \<and> st_x s1 21 = of_nat (lm_init_array_end lm) \<and> st_mem s1 = st_mem s"
    using Suc.prems(1-3) c aligned_and [OF Suc.prems(4)]
    by (simp add: start_simps step_at start_S_def kept_mode_def sp_of_def sp_bank_def)
  then obtain s1 where s1: "reaches lm ctor s s1" "st_pc s1 = At 21" "kept_mode s s1" "st_calls s1 = st_calls s"
      "st_x s1 0 = ?f" "st_x s1 20 = of_nat a" "st_x s1 21 = of_nat (lm_init_array_end lm)" "st_mem s1 = st_mem s"
    by (auto intro: reachesI)
  let ?s2 = "ctor ?f (set_x 30 (addr_of lm 22) s1)"
  have s2: "kept_mode s1 ?s2" "st_calls ?s2 = st_calls s1" "st_x ?s2 20 = of_nat a" "st_x ?s2 21 = of_nat (lm_init_array_end lm)"
    "\<forall>b. lm_init_array_start lm \<le> unat b \<and> unat b < lm_init_array_end lm \<longrightarrow> st_mem ?s2 b = st_mem s b"
  proof -
    let ?s0 = "set_x 30 (addr_of lm 22) s1"
    have k: "kept_mode s1 ?s0" by (simp add: kept_mode_def set_x_def sp_of_def sp_bank_def)
    have c: "kept_mode ?s0 ?s2" "\<forall>n\<in>{19..28}. st_x ?s2 n = st_x ?s0 n" "st_calls ?s2 = st_calls ?s0"
      "\<forall>b. lm_init_array_start lm \<le> unat b \<and> unat b < lm_init_array_end lm \<longrightarrow> st_mem ?s2 b = st_mem ?s0 b"
      using Suc.prems(8) unfolding ctor_ok_def by blast+
    show "kept_mode s1 ?s2" by (rule kept_mode_trans [OF k c(1)])
    show "st_calls ?s2 = st_calls s1" "st_x ?s2 20 = of_nat a" "st_x ?s2 21 = of_nat (lm_init_array_end lm)"
      "\<forall>b. lm_init_array_start lm \<le> unat b \<and> unat b < lm_init_array_end lm \<longrightarrow> st_mem ?s2 b = st_mem s b"
      using c(2-4) s1(6-8) by (simp_all add: set_x_def)
  qed
  have "\<exists>s3. run_start lm ctor 3 s1 = Some s3 \<and> st_pc s3 = At 18 \<and> kept_mode ?s2 s3 \<and>
      st_calls s3 = st_calls ?s2 @ [(?f, st_mem s1, st_mem ?s2)] \<and>
      st_x s3 20 = st_x ?s2 20 + 8 \<and> st_x s3 21 = st_x ?s2 21 \<and> st_mem s3 = st_mem ?s2"
    using s1(2,5) by (simp add: Let_def start_simps step_at start_S_def kept_mode_def sp_of_def sp_bank_def)
  then obtain s3 where s3: "reaches lm ctor s1 s3" "st_pc s3 = At 18" "kept_mode ?s2 s3"
      "st_calls s3 = st_calls ?s2 @ [(?f, st_mem s1, st_mem ?s2)]"
      "st_x s3 20 = st_x ?s2 20 + 8" "st_x s3 21 = st_x ?s2 21" "st_mem s3 = st_mem ?s2"
    by (auto intro: reachesI)
  have "st_x s3 20 = of_nat (a + 8)" "st_x s3 21 = of_nat (lm_init_array_end lm)" "8 dvd a + 8" "lm_init_array_end lm = a + 8 + 8 * k"
    "lm_init_array_start lm \<le> a + 8"
    using s2(3,4) s3(5,6) Suc.prems(4-6) by simp_all
  from Suc.IH [OF s3(2) this Suc.prems(7,8)] obtain s' cs where s': "reaches lm ctor s3 s'" "st_pc s' = At 24" "kept_mode s3 s'"
      "st_calls s' = st_calls s3 @ cs" "map fst cs = ctor_table (a + 8) k (st_mem s3)" "call_chain (st_mem s3) cs (st_mem s')"
    by blast
  have "ctor_table (a + 8) k (st_mem s3) = ctor_table (a + 8) k (st_mem s)"
    unfolding s3(7) using Suc.prems(5-7) by (intro ctor_table_same [OF s2(5)]) auto
  then have "map fst ((?f, st_mem s1, st_mem ?s2) # cs) = ctor_table a (Suc k) (st_mem s)" using s'(5) by (simp add: ctor_table_Suc)
  moreover have "call_chain (st_mem s) ((?f, st_mem s1, st_mem ?s2) # cs) (st_mem s')" using s'(6) s1(8) s3(7) by simp
  moreover have "reaches lm ctor s s'" using s1(1) s3(1) s'(1) reaches_trans by metis
  moreover have "kept_mode s s'" using s1(3) s2(1) s3(3) s'(3) kept_mode_trans by metis
  moreover have "st_calls s' = st_calls s @ ((?f, st_mem s1, st_mem ?s2) # cs)" using s'(4) s3(4) s2(2) s1(4) by simp
  ultimately show ?case using s'(2) by blast
qed

section \<open>From the entry to the kernel\<close>

text \<open>The core number that \<open>start.S\<close> and \<open>CPU::id\<close> use: the lowest affinity field.\<close>

definition core_id :: "Start \<Rightarrow> u64" where
  "core_id s = (if el_after s = 1 then st_vmpidr s else st_sys s R_MPIDR_EL1) AND 0xff"

definition core_stack :: "LinkMap \<Rightarrow> u64 \<Rightarrow> u64" where
  "core_stack lm i = of_nat (lm_stacks_bottom lm) + (i + 1) * of_nat STACK_SIZE"

text \<open>Both entries drop to \<open>EL1\<close> and read the core number; \<open>i\<close> is the line of the call.\<close>

lemma core_number_runs:
  assumes "i \<in> {1, 27}" "st_pc s = At i" "st_el s \<in> {1, 2, 3}"
  shows "\<exists>s'. reaches lm ctor s s' \<and> st_pc s' = At (i + 3) \<and> st_x s' 0 = core_id s \<and> st_x s' 19 = st_x s 19 \<and>
    st_mem s' = st_mem s \<and> st_calls s' = st_calls s \<and> st_el s' = el_after s \<and> (st_el s = 2 \<longrightarrow> st_spsel s' \<and> st_daif s' = 0x3c0)"
proof -
  let ?s1 = "branch L_drop_el2_to_el1 (set_x 30 (addr_of lm (i + 1)) s)"
  have r1: "reaches lm ctor s ?s1"
    using assms(1,2) by (intro reachesI [of _ _ "Suc 0"]) (auto simp: step_at start_S_def)
  have "st_pc ?s1 = At 36" "code_index lm (st_x ?s1 30) = Some (i + 1)" "st_el ?s1 \<in> {1, 2, 3}"
    using assms(1,3) by (auto simp: start_simps)
  from drop_el2_to_el1_runs [OF this, of ctor] obtain s2 where s2: "reaches lm ctor ?s1 s2" "st_pc s2 = At (i + 1)" "kept_core ?s1 s2"
    "st_el s2 = el_after s" "st_el s = 2 \<longrightarrow> st_spsel s2 \<and> st_daif s2 = 0x3c0"
    by (auto simp: el_after_def start_simps)
  have el: "st_el s2 \<in> {1, 3}" using s2(4) assms(3) by (auto simp: el_after_def)
  have k: "st_mem s2 = st_mem s" "st_calls s2 = st_calls s" "st_vmpidr s2 = st_vmpidr s" "st_sys s2 R_MPIDR_EL1 = st_sys s R_MPIDR_EL1"
    "st_x s2 19 = st_x s 19"
    using s2(3) by (simp_all add: kept_core_def start_simps)
  have "\<exists>s'. run_start lm ctor 2 s2 = Some s' \<and> st_pc s' = At (i + 3) \<and> st_x s' 0 = core_id s \<and> st_x s' 19 = st_x s2 19 \<and>
    st_mem s' = st_mem s2 \<and> st_calls s' = st_calls s2 \<and> st_el s' = st_el s2 \<and> st_spsel s' = st_spsel s2 \<and> st_daif s' = st_daif s2"
    using assms(1) s2(2) el k(3,4) s2(4)
    by (auto simp: start_simps step_at start_S_def reg_level_def read_reg_def core_id_def)
  then show ?thesis using r1 s2 k by (metis reaches_trans reachesI)
qed

text \<open>Both entries then set up the stack of the core and the vectors; \<open>i\<close> is the line of the call.\<close>

lemma stack_and_vectors_run:
  assumes "i \<in> {5, 30}" "st_pc s = At i" "st_el s \<in> {1, 3}"
  shows "\<exists>s'. reaches lm ctor s s' \<and> st_pc s' = At (i + 4) \<and> st_x s' 19 = st_x s 19 \<and> st_mem s' = st_mem s \<and> st_calls s' = st_calls s \<and>
    st_el s' = st_el s \<and> st_spsel s' = st_spsel s \<and> st_daif s' = st_daif s \<and> sp_of s' = core_stack lm (st_x s 0) \<and>
    st_sys s' R_VBAR_EL1 = of_nat (lm_vector_table lm)"
proof -
  let ?s1 = "branch L_setup_stack (set_x 30 (addr_of lm (i + 1)) s)"
  have r1: "reaches lm ctor s ?s1"
    using assms(1,2) by (intro reachesI [of _ _ "Suc 0"]) (auto simp: step_at start_S_def)
  have "st_pc ?s1 = At 56" "code_index lm (st_x ?s1 30) = Some (i + 1)"
    using assms(1) by (auto simp: start_simps)
  from setup_stack_runs [OF this, of ctor] obtain s2 where s2: "reaches lm ctor ?s1 s2" "st_pc s2 = At (i + 1)" "kept_core ?s1 s2"
    "st_el s2 = st_el s" "st_spsel s2 = st_spsel s" "st_daif s2 = st_daif s" "sp_of s2 = core_stack lm (st_x s 0)"
    by (auto simp: core_stack_def start_simps)
  have k: "st_mem s2 = st_mem s" "st_calls s2 = st_calls s" "st_x s2 19 = st_x s 19"
    using s2(3) by (simp_all add: kept_core_def start_simps)
  have "\<exists>s'. run_start lm ctor 3 s2 = Some s' \<and> st_pc s' = At (i + 4) \<and> st_x s' 19 = st_x s2 19 \<and> st_mem s' = st_mem s2 \<and>
    st_calls s' = st_calls s2 \<and> st_el s' = st_el s2 \<and> st_spsel s' = st_spsel s2 \<and> st_daif s' = st_daif s2 \<and> sp_of s' = sp_of s2 \<and>
    st_sys s' R_VBAR_EL1 = of_nat (lm_vector_table lm)"
  proof -
    have "Suc 0 \<le> st_el s2" "i = 5 \<or> i = 30" using assms(1,3) s2(4) by auto
    then show ?thesis using s2(2)
      by (elim disjE) (simp_all add: start_simps step_at start_S_def reg_level_def symbol_value_def sp_of_def sp_bank_def)
  qed
  then show ?thesis using r1 s2 k by (metis reaches_trans reachesI)
qed

lemma core_id_pc [simp]: "core_id (s\<lparr>st_pc := p, st_x := x\<rparr>) = core_id s" "el_after (s\<lparr>st_pc := p, st_x := x\<rparr>) = el_after s"
  by (simp_all add: core_id_def el_after_def)

text \<open>From the clearing of \<open>.bss\<close> to the call of the kernel.\<close>

lemma globals_run:
  assumes "well_linked lm" "ctor_ok lm ctor" "st_pc s = At 9"
  shows "\<exists>s' cs. reaches lm ctor s s' \<and> st_pc s' = In L_kern_main \<and> st_x s' 0 = st_x s 19 \<and> kept_mode s s' \<and>
    st_calls s' = st_calls s @ cs \<and>
    map fst cs = ctor_table (lm_init_array_start lm) ((lm_init_array_end lm - lm_init_array_start lm) div 8) (st_mem s) \<and>
    call_chain (zero_range (lm_bss_start lm) (lm_init_array_start lm) (st_mem s)) cs (st_mem s')"
proof -
  let ?b = "lm_bss_start lm" and ?a = "lm_init_array_start lm" and ?e = "lm_init_array_end lm"
  have lk: "?b \<le> lm_bss_end lm" "lm_bss_end lm \<le> ?a" "?a < lm_bss_end lm + 8" "?a \<le> ?e" "8 dvd ?b" "8 dvd ?a" "8 dvd ?e" "?e < 2 ^ 64"
    using assms(1) by (auto simp: well_linked_def)
  let ?k = "(?a - ?b) div 8" and ?n = "(?e - ?a) div 8"
  have k: "?a = ?b + 8 * ?k" and n: "?e = ?a + 8 * ?n" using lk by auto
  have "\<exists>s5. run_start lm ctor 2 s = Some s5 \<and> st_pc s5 = At 11 \<and> st_x s5 0 = of_nat ?b \<and> st_x s5 1 = of_nat (lm_bss_end lm) \<and>
      kept_mode s s5 \<and> st_mem s5 = st_mem s \<and> st_calls s5 = st_calls s"
    using assms(3) by (simp add: start_simps step_at start_S_def symbol_value_def kept_mode_def sp_of_def sp_bank_def)
  then obtain s5 where s5: "reaches lm ctor s s5" "st_pc s5 = At 11" "st_x s5 0 = of_nat ?b" "st_x s5 1 = of_nat (lm_bss_end lm)"
      "kept_mode s s5" "st_mem s5 = st_mem s" "st_calls s5 = st_calls s" by (auto intro: reachesI)
  obtain s6 where s6: "reaches lm ctor s5 s6" "st_pc s6 = At 15" "kept_mode s5 s6" "st_calls s6 = st_calls s5"
      "st_mem s6 = zero_range ?b ?a (st_mem s5)"
    using clear_bss_runs [OF s5(2-4) lk(5) k lk(2), of lm ctor] lk by auto
  have "\<exists>s7. run_start lm ctor 3 s6 = Some s7 \<and> st_pc s7 = At 18 \<and> st_x s7 20 = of_nat ?a \<and> st_x s7 21 = of_nat ?e \<and>
      kept_mode s6 s7 \<and> st_mem s7 = st_mem s6 \<and> st_calls s7 = st_calls s6"
    using s6(2) by (simp add: start_simps step_at start_S_def symbol_value_def kept_mode_def sp_of_def sp_bank_def)
  then obtain s7 where s7: "reaches lm ctor s6 s7" "st_pc s7 = At 18" "st_x s7 20 = of_nat ?a" "st_x s7 21 = of_nat ?e"
      "kept_mode s6 s7" "st_mem s7 = st_mem s6" "st_calls s7 = st_calls s6" by (auto intro: reachesI)
  obtain s8 cs where s8: "reaches lm ctor s7 s8" "st_pc s8 = At 24" "kept_mode s7 s8" "st_calls s8 = st_calls s7 @ cs"
      "map fst cs = ctor_table ?a ?n (st_mem s7)" "call_chain (st_mem s7) cs (st_mem s8)"
    using init_array_runs [OF s7(2-4) lk(6) n order_refl lk(8) assms(2)] by blast
  have "\<exists>s9. run_start lm ctor 2 s8 = Some s9 \<and> st_pc s9 = In L_kern_main \<and> st_x s9 0 = st_x s8 19 \<and> kept_mode s8 s9 \<and>
      st_mem s9 = st_mem s8 \<and> st_calls s9 = st_calls s8"
    using s8(2) by (simp add: start_simps step_at start_S_def kept_mode_def sp_of_def sp_bank_def)
  then obtain s9 where s9: "reaches lm ctor s8 s9" "st_pc s9 = In L_kern_main" "st_x s9 0 = st_x s8 19" "kept_mode s8 s9"
      "st_mem s9 = st_mem s8" "st_calls s9 = st_calls s8" by (auto intro: reachesI)
  have "ctor_table ?a ?n (zero_range ?b ?a (st_mem s)) = ctor_table ?a ?n (st_mem s)"
    using lk n by (intro ctor_table_same [of ?a ?e]) (auto simp: zero_range_def)
  moreover have "st_mem s7 = zero_range ?b ?a (st_mem s)" using s7(6) s6(5) s5(6) by simp
  moreover have "reaches lm ctor s s9" using s5(1) s6(1) s7(1) s8(1) s9(1) reaches_trans by metis
  moreover have m: "kept_mode s s8" using s5(5) s6(3) s7(5) s8(3) kept_mode_trans by metis
  moreover have "kept_mode s s9" using m s9(4) by (rule kept_mode_trans)
  ultimately show ?thesis
    using s9 s8 s5(7) s6(4) s7(7) by (intro exI [of _ s9] exI [of _ cs]) (simp add: kept_mode_def)
qed

lemma start_runs:
  assumes "well_linked lm" "ctor_ok lm ctor" "st_pc s = At 0" "st_el s \<in> {1, 2, 3}" "core_id s = 0"
  shows "\<exists>s' cs. reaches lm ctor s s' \<and> st_pc s' = In L_kern_main \<and> st_x s' 0 = st_x s 0 \<and> sp_of s' = core_stack lm 0 \<and>
    st_el s' = el_after s \<and> (st_el s = 2 \<longrightarrow> st_spsel s' \<and> st_daif s' = 0x3c0) \<and> st_sys s' R_VBAR_EL1 = of_nat (lm_vector_table lm) \<and>
    st_calls s' = st_calls s @ cs \<and>
    map fst cs = ctor_table (lm_init_array_start lm) ((lm_init_array_end lm - lm_init_array_start lm) div 8) (st_mem s) \<and>
    call_chain (zero_range (lm_bss_start lm) (lm_init_array_start lm) (st_mem s)) cs (st_mem s')"
proof -
  let ?s1 = "s\<lparr>st_pc := At 1, st_x := (st_x s)(19 := st_x s 0)\<rparr>"
  have r1: "reaches lm ctor s ?s1" using assms(3) by (intro reachesI [of _ _ "Suc 0"]) (simp add: step_at start_S_def start_simps)
  have "1 \<in> {1, 27 :: nat}" "st_pc ?s1 = At 1" "st_el ?s1 \<in> {1, 2, 3}" using assms(4) by simp_all
  from core_number_runs [OF this, of lm ctor] assms(5) obtain s2 where s2: "reaches lm ctor ?s1 s2" "st_pc s2 = At 4" "st_x s2 0 = 0"
      "st_x s2 19 = st_x s 0" "st_mem s2 = st_mem s" "st_calls s2 = st_calls s" "st_el s2 = el_after s"
      "st_el s = 2 \<longrightarrow> st_spsel s2 \<and> st_daif s2 = 0x3c0"
    by auto
  let ?s3 = "goto 5 s2"
  have r3: "reaches lm ctor s2 ?s3" using s2(2,3) by (intro reachesI [of _ _ "Suc 0"]) (simp add: step_at start_S_def)
  have "5 \<in> {5, 30 :: nat}" "st_pc ?s3 = At 5" "st_el ?s3 \<in> {1, 3}" using s2(7) assms(4) by (auto simp: goto_def el_after_def)
  from stack_and_vectors_run [OF this, of lm ctor] s2 obtain s4 where s4: "reaches lm ctor ?s3 s4" "st_pc s4 = At 9"
      "st_x s4 19 = st_x s 0" "st_mem s4 = st_mem s" "st_calls s4 = st_calls s" "st_el s4 = el_after s"
      "st_el s = 2 \<longrightarrow> st_spsel s4 \<and> st_daif s4 = 0x3c0" "sp_of s4 = core_stack lm 0" "st_sys s4 R_VBAR_EL1 = of_nat (lm_vector_table lm)"
    by (auto simp: goto_def)
  from globals_run [OF assms(1,2) s4(2)] obtain s' cs where s': "reaches lm ctor s4 s'" "st_pc s' = In L_kern_main" "st_x s' 0 = st_x s4 19"
      "kept_mode s4 s'" "st_calls s' = st_calls s4 @ cs"
      "map fst cs = ctor_table (lm_init_array_start lm) ((lm_init_array_end lm - lm_init_array_start lm) div 8) (st_mem s4)"
      "call_chain (zero_range (lm_bss_start lm) (lm_init_array_start lm) (st_mem s4)) cs (st_mem s')"
    by blast
  have "reaches lm ctor s s'" using r1 s2(1) r3 s4(1) s'(1) reaches_trans by metis
  then show ?thesis using s' s4 by (intro exI [of _ s'] exI [of _ cs]) (simp add: kept_mode_def)
qed

lemma secondary_start_runs:
  assumes "st_pc s = At 27" "st_el s \<in> {1, 2, 3}"
  shows "\<exists>s'. reaches lm ctor s s' \<and> st_pc s' = In L_secondary_kern_main \<and> sp_of s' = core_stack lm (core_id s) \<and>
    st_el s' = el_after s \<and> (st_el s = 2 \<longrightarrow> st_spsel s' \<and> st_daif s' = 0x3c0) \<and> st_sys s' R_VBAR_EL1 = of_nat (lm_vector_table lm) \<and>
    st_mem s' = st_mem s \<and> st_calls s' = st_calls s"
proof -
  have "27 \<in> {1, 27 :: nat}" by simp
  from core_number_runs [OF this assms, of lm ctor] obtain s2 where s2: "reaches lm ctor s s2" "st_pc s2 = At 30" "st_x s2 0 = core_id s"
      "st_mem s2 = st_mem s" "st_calls s2 = st_calls s" "st_el s2 = el_after s" "st_el s = 2 \<longrightarrow> st_spsel s2 \<and> st_daif s2 = 0x3c0"
    by auto
  have "30 \<in> {5, 30 :: nat}" "st_el s2 \<in> {1, 3}" using s2(6) assms(2) by (auto simp: el_after_def)
  from stack_and_vectors_run [OF this(1) s2(2) this(2), of lm ctor] s2 obtain s4 where s4: "reaches lm ctor s2 s4" "st_pc s4 = At 34"
      "st_mem s4 = st_mem s" "st_calls s4 = st_calls s" "st_el s4 = el_after s"
      "st_el s = 2 \<longrightarrow> st_spsel s4 \<and> st_daif s4 = 0x3c0" "sp_of s4 = core_stack lm (core_id s)"
      "st_sys s4 R_VBAR_EL1 = of_nat (lm_vector_table lm)"
    by auto
  let ?s5 = "branch L_secondary_kern_main (set_x 30 (addr_of lm 35) s4)"
  have "reaches lm ctor s4 ?s5" using s4(2) by (intro reachesI [of _ _ "Suc 0"]) (simp add: step_at start_S_def)
  then have "reaches lm ctor s ?s5" using s2(1) s4(1) reaches_trans by metis
  moreover have "sp_of ?s5 = sp_of s4" by (simp add: start_simps sp_of_def sp_bank_def)
  ultimately show ?thesis using s4 by (intro exI [of _ ?s5]) (simp add: start_simps)
qed

section \<open>Parked cores\<close>

definition parked :: "Start \<Rightarrow> bool" where
  "parked s \<longleftrightarrow> (case find_label L_park start_S of None \<Rightarrow> False | Some i \<Rightarrow> st_pc s = At i \<or> st_pc s = At (i + 1))"

lemma parked_iff: "parked s \<longleftrightarrow> st_pc s = At 61 \<or> st_pc s = At 62"
  by (simp add: parked_def label_lines)

lemma parked_run: "parked s \<Longrightarrow> \<exists>p. run_start lm ctor n s = Some (s\<lparr>st_pc := p\<rparr>) \<and> parked (s\<lparr>st_pc := p\<rparr>)"
proof (induction n arbitrary: s)
  case 0
  then show ?case by (intro exI [of _ "st_pc s"]) simp
next
  case (Suc n)
  then have "\<exists>p. step_start lm ctor s = Some (s\<lparr>st_pc := p\<rparr>) \<and> parked (s\<lparr>st_pc := p\<rparr>)"
    by (auto simp: parked_iff step_at start_S_def label_lines goto_def branch_def)
  then obtain p where "step_start lm ctor s = Some (s\<lparr>st_pc := p\<rparr>)" "parked (s\<lparr>st_pc := p\<rparr>)" by blast
  then show ?case using Suc.IH [of "s\<lparr>st_pc := p\<rparr>"] by auto
qed

lemma start_parks:
  assumes "st_pc s = At 0" "st_el s \<in> {1, 2, 3}" "core_id s \<noteq> 0"
  shows "\<exists>s'. reaches lm ctor s s' \<and> parked s' \<and> st_mem s' = st_mem s \<and> st_calls s' = st_calls s"
proof -
  let ?s1 = "s\<lparr>st_pc := At 1, st_x := (st_x s)(19 := st_x s 0)\<rparr>"
  have r1: "reaches lm ctor s ?s1" using assms(1) by (intro reachesI [of _ _ "Suc 0"]) (simp add: step_at start_S_def start_simps)
  have "1 \<in> {1, 27 :: nat}" "st_pc ?s1 = At 1" "st_el ?s1 \<in> {1, 2, 3}" using assms(2) by simp_all
  from core_number_runs [OF this, of lm ctor] obtain s2 where s2: "reaches lm ctor ?s1 s2" "st_pc s2 = At 4" "st_x s2 0 = core_id s"
      "st_mem s2 = st_mem s" "st_calls s2 = st_calls s" by auto
  have "reaches lm ctor s2 (branch L_park s2)"
    using s2(2,3) assms(3) by (intro reachesI [of _ _ "Suc 0"]) (simp add: step_at start_S_def)
  then have "reaches lm ctor s (branch L_park s2)" using r1 s2(1) reaches_trans by metis
  then show ?thesis using s2(4,5) by (intro exI [of _ "branch L_park s2"]) (simp add: parked_iff branch_def label_lines)
qed

text \<open>A core that has been handed to the kernel does not run on here, so where it is handed over is unique.\<close>

lemma run_In: "st_pc s = In l \<Longrightarrow> run_start lm ctor n s = Some s' \<Longrightarrow> s' = s"
  by (cases n) (simp_all add: step_start_def)

lemma reaches_In_unique:
  assumes "reaches lm ctor s a" "reaches lm ctor s b" "st_pc a = In f" "st_pc b = In g \<or> parked b"
  shows "a = b"
proof -
  obtain m n where m: "run_start lm ctor m s = Some a" and n: "run_start lm ctor n s = Some b" using assms(1,2) by (auto simp: reaches_def)
  show ?thesis
  proof (cases "m \<le> n")
    case True
    then have "run_start lm ctor (n - m) a = Some b" using n m run_start_add [of lm ctor m "n - m" s] by simp
    then show ?thesis using run_In assms(3) by metis
  next
    case False
    then have r: "run_start lm ctor (m - n) b = Some a" using n m run_start_add [of lm ctor n "m - n" s] by simp
    have "\<not> parked b" using parked_run [of b lm ctor "m - n"] r assms(3) by (auto simp: parked_iff)
    then show ?thesis using r run_In assms(4) by metis
  qed
qed

section \<open>The stacks\<close>

definition stack_span :: "u64 \<Rightarrow> nat set" where
  "stack_span sp = {unat sp - STACK_SIZE ..< unat sp}"

lemma core_stack_unat:
  assumes "well_linked lm" "unat i < NCPUS"
  shows "unat (core_stack lm i) = lm_stacks_bottom lm + (unat i + 1) * STACK_SIZE"
proof -
  have b: "lm_stacks_bottom lm + (unat i + 1) * STACK_SIZE < 2 ^ 64"
    using assms by (auto simp: well_linked_def STACK_SIZE_def NCPUS_def)
  have "core_stack lm i = of_nat (lm_stacks_bottom lm + (unat i + 1) * STACK_SIZE)"
    by (simp add: core_stack_def algebra_simps)
  then show ?thesis using b by (simp only: unat_of_nat) simp
qed

lemma core_stack_inside:
  assumes "well_linked lm" "unat i < NCPUS"
  shows "stack_span (core_stack lm i) \<subseteq> {lm_stacks_bottom lm ..< lm_stacks_top lm}" "16 dvd unat (core_stack lm i)"
proof -
  have lm: "lm_stacks_top lm = lm_stacks_bottom lm + STACK_SIZE * NCPUS" "16 dvd lm_stacks_bottom lm"
    using assms(1) by (auto simp: well_linked_def)
  have "(unat i + 1) * STACK_SIZE \<le> NCPUS * STACK_SIZE" using assms(2) by (intro mult_right_mono) simp_all
  then show "stack_span (core_stack lm i) \<subseteq> {lm_stacks_bottom lm ..< lm_stacks_top lm}"
    unfolding stack_span_def core_stack_unat [OF assms] lm(1) by (auto simp: mult.commute)
  show "16 dvd unat (core_stack lm i)"
    unfolding core_stack_unat [OF assms] using lm(2) by (intro dvd_add dvd_mult) (auto simp: STACK_SIZE_def)
qed

lemma core_stacks_disjoint:
  assumes "well_linked lm" "unat i < NCPUS" "unat j < NCPUS" "i \<noteq> j"
  shows "stack_span (core_stack lm i) \<inter> stack_span (core_stack lm j) = {}"
proof -
  have "unat i \<noteq> unat j" using assms(4) by (simp add: word_unat_eq_iff)
  then consider "unat i + 1 \<le> unat j" | "unat j + 1 \<le> unat i" by linarith
  then show ?thesis
  proof cases
    case 1
    then have "(unat i + 1) * STACK_SIZE \<le> unat j * STACK_SIZE" by (rule mult_right_mono) simp
    then show ?thesis by (auto simp: stack_span_def core_stack_unat assms)
  next
    case 2
    then have "(unat j + 1) * STACK_SIZE \<le> unat i * STACK_SIZE" by (rule mult_right_mono) simp
    then show ?thesis by (auto simp: stack_span_def core_stack_unat assms)
  qed
qed

section \<open>The start of a core\<close>

lemma branch_simps [simp]:
  "st_x (branch l s) = st_x s" "st_el (branch l s) = st_el s" "st_mem (branch l s) = st_mem s" "st_calls (branch l s) = st_calls s"
  "core_id (branch l s) = core_id s" "el_after (branch l s) = el_after s"
  by (simp_all add: branch_def core_id_def el_after_def)

lemma branch_entry:
  "st_pc (branch L_start s) = At 0" "st_pc (branch L_secondary_start s) = At 27"
  by (simp_all add: branch_def label_lines)

lemma ctor_count: "(lm_init_array_end (link_image se) - lm_init_array_start (link_image se)) div 8 = se_ctors se"
  by (simp add: link_image_def Let_def)

text \<open>C5: The boot core: entered at \<open>EL1\<close>, \<open>EL2\<close> or \<open>EL3\<close> with core number 0, \<open>_start\<close> reaches the call of \<open>kern_main\<close>. Its argument
  is the device tree pointer that the bootloader left in \<open>x0\<close>, the stack pointer is the top of the first
  stack, the vectors are installed, and a core that came in at \<open>EL2\<close> is at \<open>EL1\<close> on its own stack pointer with
  exceptions masked. The constructors of \<open>.init_array\<close> have been called, each once and in order; the first one
  found \<open>.bss\<close> cleared and the rest of memory as the bootloader left it, each next one what its
  predecessor left, and \<open>kern_main\<close> what the last one left.\<close>

theorem start_enters_kern_main:
  assumes "image_fits se" and "ctor_ok (link_image se) ctor" and "st_el s \<in> {1, 2, 3}" and "core_id s = 0" and "st_calls s = []"
  shows "\<exists>n s'. run_start (link_image se) ctor n (branch L_start s) = Some s' \<and> st_pc s' = In L_kern_main \<and> st_x s' 0 = st_x s 0 \<and>
    unat (sp_of s') = lm_stacks_bottom (link_image se) + STACK_SIZE \<and> st_sys s' R_VBAR_EL1 = of_nat (lm_vector_table (link_image se)) \<and>
    st_el s' = (if st_el s = 2 then 1 else st_el s) \<and> (st_el s = 2 \<longrightarrow> st_spsel s' \<and> st_daif s' = 0x3c0) \<and>
    map fst (st_calls s') = ctor_table (lm_init_array_start (link_image se)) (se_ctors se) (st_mem s) \<and>
    call_chain (zero_range (lm_bss_start (link_image se)) (ld_align 8 (lm_bss_end (link_image se))) (st_mem s)) (st_calls s') (st_mem s')"
proof -
  have wl: "well_linked (link_image se)" using assms(1) by (rule link_image_well_linked)
  have sp: "unat (core_stack (link_image se) 0) = lm_stacks_bottom (link_image se) + STACK_SIZE"
    using core_stack_unat [OF wl, of 0] by (simp add: NCPUS_def)
  have ia: "lm_init_array_start (link_image se) = ld_align 8 (lm_bss_end (link_image se))" by (simp add: link_image_def Let_def)
  have "st_el (branch L_start s) \<in> {1, 2, 3}" "core_id (branch L_start s) = 0" using assms(3,4) by simp_all
  from start_runs [OF wl assms(2) branch_entry(1) this, unfolded ctor_count] obtain s' n where
    "run_start (link_image se) ctor n (branch L_start s) = Some s'" and s': "st_pc s' = In L_kern_main" "st_x s' 0 = st_x s 0"
      "sp_of s' = core_stack (link_image se) 0" "st_el s' = el_after s" "st_el s = 2 \<longrightarrow> st_spsel s' \<and> st_daif s' = 0x3c0"
      "st_sys s' R_VBAR_EL1 = of_nat (lm_vector_table (link_image se))"
      "map fst (st_calls s') = ctor_table (lm_init_array_start (link_image se)) (se_ctors se) (st_mem s)"
      "call_chain (zero_range (lm_bss_start (link_image se)) (lm_init_array_start (link_image se)) (st_mem s)) (st_calls s') (st_mem s')"
    using assms(5) by (auto simp: reaches_def)
  then show ?thesis using sp unfolding ia el_after_def by (intro exI [of _ n] exI [of _ s']) simp
qed

text \<open>C40: A core other than the first that enters at \<open>_start\<close> ends up in the parking loop, for ever, without having
  written to memory or called a constructor.\<close>

theorem start_parks_other_cores:
  assumes "st_el s \<in> {1, 2, 3}" and "core_id s \<noteq> 0"
  shows "\<exists>k. \<forall>n\<ge>k. \<exists>s'. run_start lm ctor n (branch L_start s) = Some s' \<and> parked s' \<and> st_mem s' = st_mem s \<and> st_calls s' = st_calls s"
proof -
  have "st_el (branch L_start s) \<in> {1, 2, 3}" "core_id (branch L_start s) \<noteq> 0" using assms by simp_all
  from start_parks [OF branch_entry(1) this, of lm ctor] obtain k p where
    k: "run_start lm ctor k (branch L_start s) = Some p" "parked p" "st_mem p = st_mem s" "st_calls p = st_calls s"
    by (auto simp: reaches_def)
  have "\<exists>s'. run_start lm ctor n (branch L_start s) = Some s' \<and> parked s' \<and> st_mem s' = st_mem s \<and> st_calls s' = st_calls s" if "k \<le> n" for n
  proof -
    obtain q where "run_start lm ctor (n - k) p = Some (p\<lparr>st_pc := q\<rparr>)" "parked (p\<lparr>st_pc := q\<rparr>)" using parked_run [OF k(2)] by blast
    then show ?thesis using that k run_start_add [of lm ctor k "n - k" "branch L_start s"] by auto
  qed
  then show ?thesis by blast
qed

text \<open>However a core comes in, it is handed to the kernel on the stack of its number.\<close>

lemma handed_over_stack:
  assumes wl: "well_linked lm" and ctor: "ctor_ok lm ctor" and l: "l \<in> {L_start, L_secondary_start}" and el: "st_el x \<in> {1, 2, 3}"
    and run: "run_start lm ctor m (branch l x) = Some x'" and pc: "st_pc x' = In f"
  shows "sp_of x' = core_stack lm (core_id x)"
proof -
  have r: "reaches lm ctor (branch l x) x'" using run by (rule reachesI)
  have el': "st_el (branch l x) \<in> {1, 2, 3}" using el by simp
  consider "l = L_secondary_start" | "l = L_start" "core_id x = 0" | "l = L_start" "core_id x \<noteq> 0" using l by auto
  then show ?thesis
  proof cases
    case 1
    from secondary_start_runs [OF branch_entry(2) el' [unfolded 1], of lm ctor] show ?thesis
      using reaches_In_unique [OF r] pc unfolding 1 by auto
  next
    case 2
    then have "core_id (branch L_start x) = 0" by simp
    from start_runs [OF wl ctor branch_entry(1) el' [unfolded 2(1)] this] show ?thesis
      using reaches_In_unique [OF r] pc 2(2) unfolding 2(1) by auto
  next
    case 3
    then have "core_id (branch L_start x) \<noteq> 0" by simp
    from start_parks [OF branch_entry(1) el' [unfolded 3(1)] this, of lm ctor] obtain y where "reaches lm ctor (branch L_start x) y" "parked y" by blast
    then have "x' = y" using reaches_In_unique [OF r _ pc, of y] 3(1) by simp
    then show ?thesis using pc \<open>parked y\<close> by (simp add: parked_iff)
  qed
qed

text \<open>C21: A secondary core: entered by the firmware at \<open>_secondary_start\<close>, it reaches the call of \<open>secondary_kern_main\<close>
  without writing to memory, on the stack of its number, which lies in the memory reserved for
  stacks, at \<open>EL1\<close> when it came in at \<open>EL2\<close>, with the vectors installed.\<close>

theorem secondary_start_enters_kernel:
  assumes "image_fits se" and "st_el s \<in> {1, 2, 3}" and "unat (core_id s) < NCPUS"
  shows "\<exists>n s'. run_start (link_image se) ctor n (branch L_secondary_start s) = Some s' \<and> st_pc s' = In L_secondary_kern_main \<and>
    unat (sp_of s') = lm_stacks_bottom (link_image se) + (unat (core_id s) + 1) * STACK_SIZE \<and>
    unat (sp_of s') \<le> lm_stacks_top (link_image se) \<and> st_sys s' R_VBAR_EL1 = of_nat (lm_vector_table (link_image se)) \<and>
    st_el s' = (if st_el s = 2 then 1 else st_el s) \<and> (st_el s = 2 \<longrightarrow> st_spsel s' \<and> st_daif s' = 0x3c0) \<and>
    st_mem s' = st_mem s \<and> st_calls s' = st_calls s"
proof -
  have wl: "well_linked (link_image se)" using assms(1) by (rule link_image_well_linked)
  then have top: "lm_stacks_top (link_image se) = lm_stacks_bottom (link_image se) + STACK_SIZE * NCPUS" by (simp add: well_linked_def)
  have "(unat (core_id s) + 1) * STACK_SIZE \<le> NCPUS * STACK_SIZE" using assms(3) by (intro mult_right_mono) simp_all
  then have sp: "unat (core_stack (link_image se) (core_id s)) \<le> lm_stacks_top (link_image se)"
    unfolding core_stack_unat [OF wl assms(3)] top by (simp add: mult.commute)
  have "st_el (branch L_secondary_start s) \<in> {1, 2, 3}" using assms(2) by simp
  from secondary_start_runs [OF branch_entry(2) this, of "link_image se" ctor] obtain n s' where
    "run_start (link_image se) ctor n (branch L_secondary_start s) = Some s'" "st_pc s' = In L_secondary_kern_main"
    "sp_of s' = core_stack (link_image se) (core_id s)" "st_el s' = el_after s" "st_el s = 2 \<longrightarrow> st_spsel s' \<and> st_daif s' = 0x3c0"
    "st_sys s' R_VBAR_EL1 = of_nat (lm_vector_table (link_image se))" "st_mem s' = st_mem s" "st_calls s' = st_calls s"
    by (auto simp: reaches_def)
  then show ?thesis using sp core_stack_unat [OF wl assms(3)]
    unfolding el_after_def by (intro exI [of _ n] exI [of _ s']) simp
qed

text \<open>C19: The stacks: whichever of the two entries they come in by, two cores with different numbers below
  \<open>NCPUS\<close> run the kernel on stacks that do not meet each other, nor the code and data of the image, and
  that lie in the memory the image reserves for stacks; both stack pointers are aligned to 16.\<close>

theorem core_stacks_apart:
  assumes "image_fits se" and "ctor_ok (link_image se) ctor"
    and "l \<in> {L_start, L_secondary_start}" and "st_el s \<in> {1, 2, 3}" and "unat (core_id s) < NCPUS"
    and "run_start (link_image se) ctor m (branch l s) = Some s'" and "st_pc s' = In f"
    and "l2 \<in> {L_start, L_secondary_start}" and "st_el t \<in> {1, 2, 3}" and "unat (core_id t) < NCPUS"
    and "run_start (link_image se) ctor n (branch l2 t) = Some t'" and "st_pc t' = In g"
    and "core_id s \<noteq> core_id t"
  shows "stack_span (sp_of s') \<inter> stack_span (sp_of t') = {} \<and>
    stack_span (sp_of s') \<union> stack_span (sp_of t') \<subseteq> {lm_stacks_bottom (link_image se) ..< lm_stacks_top (link_image se)} \<and>
    (stack_span (sp_of s') \<union> stack_span (sp_of t')) \<inter> {lm_start (link_image se) ..< lm_init_array_end (link_image se)} = {} \<and>
    16 dvd unat (sp_of s') \<and> 16 dvd unat (sp_of t')"
proof -
  let ?lm = "link_image se"
  have wl: "well_linked ?lm" using assms(1) by (rule link_image_well_linked)
  have s: "sp_of s' = core_stack ?lm (core_id s)" and t: "sp_of t' = core_stack ?lm (core_id t)"
    using handed_over_stack [OF wl assms(2)] assms(3,4,6-9,11,12) by blast+
  have "lm_init_array_end ?lm \<le> lm_stacks_bottom ?lm" using wl by (simp add: well_linked_def)
  moreover note core_stack_inside [OF wl assms(5)] core_stack_inside [OF wl assms(10)] core_stacks_disjoint [OF wl assms(5,10,13)]
  ultimately show ?thesis unfolding s t by (intro conjI) (auto simp: subset_iff)
qed

section \<open>An image and its cores\<close>

text \<open>An image for QEMU's virt board with two constructors, each of which sets the first byte of \<open>.bss\<close>.\<close>

definition demo_sections :: Sections where
  "demo_sections = \<lparr>se_base = 0x40080000, se_text = 0x8000, se_text_align = 2048, se_vectors = 0x800, se_rodata = 0x1001, se_rodata_align = 8,
     se_data = 0x123, se_data_align = 8, se_bss = 0x4321, se_bss_align = 4096, se_ctors = 2\<rparr>"

definition demo_ctor :: "u64 \<Rightarrow> Start \<Rightarrow> Start" where
  "demo_ctor f s = s\<lparr>st_x := (st_x s)(0 := f, 1 := 0), st_mem := (st_mem s)(0x4008a000 := 1)\<rparr>"

text \<open>A core as firmware hands it over at \<open>EL2\<close>, with a device tree at \<open>0x44000000\<close>.\<close>

definition demo_core :: "u64 \<Rightarrow> Start" where
  "demo_core mpidr = \<lparr>st_pc = At 0, st_x = (\<lambda>_. 0x44000000), st_sp = (\<lambda>_. 0), st_el = 2, st_spsel = True, st_daif = 0, st_c = False, st_z = False,
     st_sys = (\<lambda>_. mpidr), st_vmpidr = mpidr, st_mem = (\<lambda>_. 0x5a), st_calls = []\<rparr>"

lemma demo_linked: "link_image demo_sections =
  \<lparr>lm_start = 0x40080000, lm_vector_table = 0x40080800, lm_bss_start = 0x4008a000, lm_bss_end = 0x4008e321,
   lm_init_array_start = 0x4008e328, lm_init_array_end = 0x4008e338, lm_stacks_bottom = 0x4008e340, lm_stacks_top = 0x400ce340\<rparr>"
  by (simp add: link_image_def demo_sections_def ld_align_def STACK_SIZE_def NCPUS_def)

lemma demo_image_fits: "image_fits demo_sections"
  unfolding image_fits_def demo_linked by (simp add: demo_sections_def)

lemma demo_ctor_ok: "ctor_ok (link_image demo_sections) demo_ctor"
  unfolding ctor_ok_def demo_linked by (auto simp: demo_ctor_def kept_mode_def sp_of_def sp_bank_def)

lemma demo_core_id: "core_id (demo_core 0x80000000) = 0" "core_id (demo_core 0x80000001) = 1" "st_el (demo_core m) \<in> {1, 2, 3}"
  by (simp_all add: core_id_def demo_core_def el_after_def)

theorem start_enters_kern_main_witness:
  "\<exists>n s'. run_start (link_image demo_sections) demo_ctor n (branch L_start (demo_core 0x80000000)) = Some s' \<and>
     st_pc s' = In L_kern_main \<and> st_x s' 0 = 0x44000000 \<and> unat (sp_of s') = 0x4009e340 \<and> st_el s' = 1 \<and> length (st_calls s') = 2"
proof -
  have "st_calls (demo_core 0x80000000) = []" "st_x (demo_core 0x80000000) 0 = 0x44000000" "st_el (demo_core 0x80000000) = 2"
    by (simp_all add: demo_core_def)
  moreover have "length (st_calls s') = 2" if "map fst (st_calls s') = ctor_table a (se_ctors demo_sections) m" for s' a m
    using arg_cong [OF that, of length] by (simp add: ctor_table_def demo_sections_def)
  moreover have "lm_stacks_bottom (link_image demo_sections) + STACK_SIZE = 0x4009e340" by (simp add: demo_linked STACK_SIZE_def)
  ultimately show ?thesis
    using start_enters_kern_main [OF demo_image_fits demo_ctor_ok demo_core_id(3,1)] by fastforce
qed

theorem secondary_start_enters_kernel_witness:
  "\<exists>n s'. run_start (link_image demo_sections) demo_ctor n (branch L_secondary_start (demo_core 0x80000001)) = Some s' \<and>
     st_pc s' = In L_secondary_kern_main \<and> unat (sp_of s') = 0x400ae340"
proof -
  have "unat (core_id (demo_core 0x80000001)) < NCPUS" by (simp add: demo_core_id NCPUS_def)
  from secondary_start_enters_kernel [OF demo_image_fits demo_core_id(3) this, of demo_ctor] show ?thesis
    by (auto simp: STACK_SIZE_def demo_linked demo_core_id)
qed

theorem start_parks_other_cores_witness:
  "core_id (demo_core 0x80000001) \<noteq> 0 \<and>
   (\<exists>n s'. run_start (link_image demo_sections) demo_ctor n (branch L_start (demo_core 0x80000001)) = Some s' \<and> parked s')"
proof -
  have c: "core_id (demo_core 0x80000001) \<noteq> 0" by (simp add: demo_core_id)
  then show ?thesis using start_parks_other_cores [OF demo_core_id(3) c, of "link_image demo_sections" demo_ctor] by blast
qed

theorem core_stacks_apart_witness:
  "\<exists>m n s' t'. run_start (link_image demo_sections) demo_ctor m (branch L_start (demo_core 0x80000000)) = Some s' \<and>
     run_start (link_image demo_sections) demo_ctor n (branch L_secondary_start (demo_core 0x80000001)) = Some t' \<and>
     st_pc s' = In L_kern_main \<and> st_pc t' = In L_secondary_kern_main \<and> stack_span (sp_of s') \<inter> stack_span (sp_of t') = {}"
proof -
  let ?lm = "link_image demo_sections" and ?s = "demo_core 0x80000000" and ?t = "demo_core 0x80000001"
  have wl: "well_linked ?lm" by (rule link_image_well_linked [OF demo_image_fits])
  have el: "st_el (branch l (demo_core m)) \<in> {1, 2, 3}" for l m using demo_core_id(3) by simp
  have "core_id (branch L_start ?s) = 0" using demo_core_id(1) by simp
  from start_runs [OF wl demo_ctor_ok branch_entry(1) el this] obtain m s' where
    s: "run_start ?lm demo_ctor m (branch L_start ?s) = Some s'" "st_pc s' = In L_kern_main" by (auto simp: reaches_def)
  from secondary_start_runs [OF branch_entry(2) el [of L_secondary_start "0x80000001"], of ?lm demo_ctor] obtain n t' where
    t: "run_start ?lm demo_ctor n (branch L_secondary_start ?t) = Some t'" "st_pc t' = In L_secondary_kern_main" by (auto simp: reaches_def)
  have "unat (core_id ?s) < NCPUS" "unat (core_id ?t) < NCPUS" "core_id ?s \<noteq> core_id ?t" by (simp_all add: demo_core_id NCPUS_def)
  then show ?thesis
    using core_stacks_apart [OF demo_image_fits demo_ctor_ok _ demo_core_id(3) _ s _ demo_core_id(3) _ t] s t by blast
qed

text \<open>
  Cores that are told apart by the second affinity field, as the Cortex-A76 cores of a Raspberry Pi 5 are, all
  have number 0: each of them is handed to the kernel on the stack of the boot core.
\<close>

lemma affinity1_cores_share_stack:
  "\<exists>n s'. run_start lm ctor n (branch L_secondary_start (demo_core 0x81000100)) = Some s' \<and>
     st_pc s' = In L_secondary_kern_main \<and> sp_of s' = core_stack lm 0"
proof -
  have "core_id (demo_core 0x81000100) = 0" by (simp add: core_id_def demo_core_def el_after_def)
  moreover have "st_el (branch L_secondary_start (demo_core 0x81000100)) \<in> {1, 2, 3}" using demo_core_id(3) by simp
  ultimately show ?thesis using secondary_start_runs [OF branch_entry(2), of "demo_core 0x81000100" lm ctor] by (auto simp: reaches_def)
qed

end
