(* ===== verification/Spec2Isabelle.thy ===== *)
theory Spec2Isabelle
  imports Boot_Irqs Dt_Tree Start
begin

text \<open>
  A verification of floss, a small AArch64 kernel: it reads the flattened device tree that the boot
  loader hands over, finds memory, UART, timer, interrupt controller and cores in it, sets up an
  identity map of virtual memory, an interrupt controller and a console, and starts every core.

  \<^bold>\<open>How the program is modelled.\<close> Integers keep their width (\<open>u8\<close>, \<open>u32\<close>, \<open>u64\<close> are words and wrap as the code
  does). Memory is a partial map from addresses to bytes; a load outside it is the error \<open>Fault\<close>. Every
  other way to stop (\<open>kassert\<close>, \<open>kprecond\<close>, \<open>kpanic\<close>, a division by zero, the use of an uninitialised value)
  is a value of the type \<open>kerror\<close> (theory Prelude), so an operation has type \<open>'a res\<close>, and \<open>'a comp\<close> where it may
  also spin for ever (\<open>None\<close>). Static variables are records that the operations take and return.
  Devices, system registers and firmware are reached through a record \<open>'h Machine\<close> of access functions over
  an arbitrary hardware state \<open>'h\<close> (theory Machine); what a proof needs of a device is a named
  hypothesis (\<open>pl011\<close>, \<open>gicv2_dist\<close>, \<open>gicd_settles\<close>, \<open>gicr_power\<close>, \<open>gicv3_frames\<close>, \<open>core_interface\<close>, \<open>boot_log\<close>, \<open>sysregs_apart\<close>)
  that says how its registers behave, and each has a simulated device that meets it. A distributor of a GICv2 keeps only what is written
  for the interrupts that its \<open>GICD_TYPER\<close> counts; a device that is waited for may stay busy for any finite time.

  \<^bold>\<open>The parts.\<close>

  \<^item> Prelude: results and their composition, byte-addressed memory, facts on words and lists.

  \<^item> Libc (\<open>libcstubs.cpp\<close>): \<open>memset\<close>, \<open>memcpy\<close>, \<open>strcmp\<close>, \<open>strncmp\<close>, \<open>strlen\<close>, \<open>strnlen\<close> on memory, with their specifications
    on the strings that memory holds, and the two bounds that they get wrong.

  \<^item> FDT (\<open>DeviceTree.cpp\<close>, class \<open>Parser\<close>): header checks, reserve entries and the token stream. The parser
    is memory safe on any accepted blob, its walk ends, and walking an encoded tree gives back its events. The
    locale \<open>token_stream\<close> states what a client may rely on; \<open>fdt\<close> interprets it on \<open>parser_next\<close>.

  \<^item> DeviceTree (rest of \<open>DeviceTree.cpp\<close> and \<open>DeviceTree.h\<close>): interrupt lists, \<open>reg\<close> and \<open>ranges\<close> properties, address
    translation, compatible lists, clocks (the chain of parents in a partial map of
    phandles, with each of the three ways the loop can go), the phandle pass and the frame pass of \<open>parse_frames\<close>. The
    locale \<open>node_client\<close> states what the second pass asks of node handlers.

  \<^item> Dt_Tree: device trees as trees; the first pass over a blob that encodes a tree computes the phandle table that is
    defined by recursion over the tree.

  \<^item> Memory_Map (\<open>memory/map.cpp\<close>): region lists (locale \<open>region_store\<close>), the memory node, validation of device
    regions, and \<open>Memory::init\<close>.

  \<^item> MMU (\<open>memory/mmu.cpp\<close>), Idmap_Walk, Idmap, Idmap_Setup: descriptors and page tables at the addresses the
    linker gives; a walk as the hardware does it; after \<open>setup_idmap_page_tables\<close> that walk maps exactly RAM and
    device pages to themselves, with their memory types. Here that routine is without its console lines, as neither UART nor
    console are known yet; the routine as it is in the code is \<open>mmu_setup_idmap\<close> (theory Kernel), which \<open>kern_main\<close> calls, and
    theory Boot carries the result over to it.

  \<^item> CharBuffer, Uart, Uart_Send (\<open>uart.cpp\<close>): the ring buffer is a queue of the last 63 characters (locale
    \<open>dropping_queue\<close>); the PL011 driver puts characters on the line in order, whether it polls or buffers. \<open>put_out\<close> says
    what printing a text does: what then has left on the line or waits is what waited before followed by the text, less what the
    buffer had to drop; with nothing waiting and interrupts not yet in use, all of the text is on the line. The interrupt handler
    sends what waits, takes the received character and clears what it saw.

  \<^item> Kstdio (\<open>kstdio.cpp\<close>, \<open>util/assert.cpp\<close>): formatted output against a specification of the formats.

  \<^item> Gic_Driver, Gicv2, Gicv3, Gic (\<open>interrupts/\<close>): both drivers and the choice between them. The locale
    \<open>irq_setup\<close> is the contract of \<open>initialize_interrupt\<close>; both drivers meet it.

  \<^item> Timer, Cpu (\<open>timer.cpp\<close>, \<open>cpu.cpp\<close>, \<open>boot/psci.cpp\<close>, \<open>boot/SpinTable.cpp\<close>): interrupt specifiers, what a core's node records of it, and
    the start of the secondary ones by a call of the firmware, or by a store and an event.

  \<^item> Exception (\<open>exception.cpp\<close>): the report of an exception, character by character, and the dispatch of interrupts with the
    effect of each branch.

  \<^item> Frame: printing leaves every part of the hardware alone that the UART's registers do not touch (locale
    \<open>uart_frame\<close>, interpreted on any two devices on one bus).

  \<^item> Vectors (\<open>exceptions.S\<close>): the registers an exception saves and restores, and the entries; an interrupt is ended
    under the id it was acknowledged with, and the code it interrupts keeps its registers.

  \<^item> SpinLock (\<open>locking/SpinLock.cpp\<close>): the instructions of the lock as a step relation over interleaved cores that
    may lose their exclusive monitor at any moment; mutual exclusion by rule induction, and progress.

  \<^item> Node_Handlers (the table \<open>_node_handlers\<close> of \<open>DeviceTree.cpp\<close>): the state of the whole kernel, the handlers over
    it, and the interpretation \<open>kernel_nodes\<close> of \<open>node_client\<close> on them.

  \<^item> Kernel (\<open>kernel.cpp\<close>): \<open>kern_main\<close> and \<open>secondary_kern_main\<close> as the composition of all of these; a core that is through with the
    second takes interrupts, by the registers of its CPU interface and its own mask.

  \<^item> Boot: the identity map with its console lines; after the parse \<open>kern_main\<close> returns, with the identity map on, the memory reserved, the print lock free and
    every other core started, from the lemmas of the components it calls.

  \<^item> Boot_Irqs: the interrupts of the UART and the timer are enabled when \<open>kern_main\<close> is over, because what follows their
    set-up leaves the registers of the interrupt controller alone.

  \<^item> Start (\<open>start.S\<close> and \<open>linker/aarch64.ld\<close>): the instructions of the entry code as a list that a core executes one at a time,
    with exception levels, banked stack pointers and alignment of accesses, and the layout that the linker script
    gives the image. The boot core reaches \<open>kern_main\<close> with \<open>.bss\<close> cleared and the constructors called, the others reach
    \<open>secondary_kern_main\<close> or are parked, and stacks do not meet. Below, \<open>Memory::init\<close> reserves what \<open>start.S\<close> uses.

  \<^bold>\<open>Loops.\<close> Loops whose end is plain are total functions, with a measure or over a count that the code
  computes before. Loops over the tokens of a blob, loops that wait for a device and the loop that follows clocks are
  \<open>partial_function (option)\<close>, so that not returning is \<open>None\<close>; no fuel is used. The start-up code runs for a number of
  instructions, and its theorems give a number after which it has arrived. The theorems show that the walk over
  any accepted blob returns, that the waiting loops return under the hypothesis on their device, and that
  the clock loop spins exactly when the chain of clocks goes on for ever without a frequency.

  \<^bold>\<open>Not modelled.\<close> What compiled code leaves in registers is an argument of the vectors and of the start-up code that follows the
  procedure call standard. The theorems on \<open>start.S\<close> end where the C++ code is entered and those on \<open>kern_main\<close> begin there;
  the two use different models of memory, and meet in the theorem below. Barriers have no counterpart, as memory
  is sequentially consistent in the models; \<open>sev\<close> has one (\<open>mc_sev\<close>). An interrupt or another core does not run in the middle of a
  routine, except in SpinLock, where cores interleave at every instruction; registers that are banked
  per core are those of the core that runs. The text that a failed assertion prints is modelled
  (\<open>report_error\<close>) but the errors carry only a short form of it. The theorems on the second pass of the device tree
  say that it does not spin and, when no handler stops it, keeps the invariant of the kernel's state; which handler sees which node is not stated
  over trees, because a node may be matched with properties of its previous sibling (\<open>sibling_keeps_match\<close>). The
  build files are configuration; addresses that only the linker knows are the records \<open>Layout\<close> and \<open>Image\<close>.
\<close>

section \<open>Start-up and the memory map\<close>

text \<open>C20: What \<open>start.S\<close> uses stays out of the memory that is given away: \<open>Memory::init\<close>, called with the bounds that the
  linker script gives the image and with a blob in memory, reserves the stack of
  every core below \<open>NCPUS\<close>, \<open>.bss\<close> and the table of constructors, besides the image and the blob.\<close>

theorem start_memory_reserved:
  fixes mm :: MemoryMap and se :: Sections
  defines "lm \<equiv> link_image se"
  assumes "image_fits se" and "ctor_ok lm ctor" and "l \<in> {L_start, L_secondary_start}" and "st_el s \<in> {1, 2, 3}" and "unat (core_id s) < NCPUS"
    and "run_start lm ctor n (branch l s) = Some s'" and "st_pc s' = In f"
    and "bytes_at m fdt (enc_fdt rsv es strs)" and "fdt_size rsv es strs < 2 ^ 32" and "fdt \<noteq> 0" and "unat fdt + 2 ^ 33 + 16 < 2 ^ 64"
    and "list_ok (mm_reserved_regions mm)" and "list_ok (mm_ram_regions mm)" and "\<forall>r\<in>set rsv. no_wrap (fst r) (snd r)"
    and "length rsv + 3 \<le> list_room (mm_reserved_regions mm)"
  shows "\<exists>reserved. memory_init m (of_nat (lm_start lm)) (of_nat (lm_stacks_top lm)) out fdt mm = Some (Inr (mm\<lparr>mm_reserved_regions := reserved\<rparr>)) \<and>
    stack_span (sp_of s') \<union> {lm_bss_start lm ..< lm_bss_end lm} \<union> {lm_init_array_start lm ..< lm_init_array_end lm} \<subseteq> coverage reserved"
proof -
  have wl: "well_linked lm" unfolding lm_def using assms(2) by (rule link_image_well_linked)
  then have b: "lm_start lm \<le> lm_bss_start lm" "lm_bss_start lm \<le> lm_bss_end lm" "lm_bss_end lm \<le> lm_init_array_start lm"
    "lm_init_array_start lm \<le> lm_init_array_end lm" "lm_init_array_end lm \<le> lm_stacks_bottom lm" "lm_stacks_bottom lm \<le> lm_stacks_top lm"
    "lm_stacks_top lm < 2 ^ 64"
    by (auto simp: well_linked_def)
  then have "lm_start lm < 2 ^ 64" by linarith
  then have u: "unat (of_nat (lm_start lm) :: u64) = lm_start lm" "unat (of_nat (lm_stacks_top lm) :: u64) = lm_stacks_top lm"
    using b(7) by (simp_all add: unat_of_nat)
  then have "(of_nat (lm_start lm) :: u64) \<le> of_nat (lm_stacks_top lm)" using b by (simp add: word_le_nat_alt)
  from memory_init_spec [OF assms(9-15) this assms(16), where out = out] obtain reserved where
    r: "memory_init m (of_nat (lm_start lm)) (of_nat (lm_stacks_top lm)) out fdt mm = Some (Inr (mm\<lparr>mm_reserved_regions := reserved\<rparr>))"
      "{lm_start lm ..< lm_stacks_top lm} \<subseteq> coverage reserved"
    unfolding u by blast
  have "sp_of s' = core_stack lm (core_id s)" by (rule handed_over_stack [OF wl assms(3-5,7,8)])
  with core_stack_inside(1) [OF wl assms(6)] b have "stack_span (sp_of s') \<subseteq> {lm_start lm ..< lm_stacks_top lm}" by force
  moreover have "{lm_bss_start lm ..< lm_bss_end lm} \<union> {lm_init_array_start lm ..< lm_init_array_end lm} \<subseteq> {lm_start lm ..< lm_stacks_top lm}"
    using b by auto
  ultimately show ?thesis using r by blast
qed

theorem start_memory_reserved_witness:
  "\<exists>n s' reserved. run_start (link_image demo_sections) demo_ctor n (branch L_secondary_start (demo_core 0x80000001)) = Some s' \<and>
     memory_init demo_fdt 0x40080000 0x400ce340 (0, 0) 4096 virt_map = Some (Inr (virt_map\<lparr>mm_reserved_regions := reserved\<rparr>)) \<and>
     stack_span (sp_of s') \<subseteq> coverage reserved"
proof -
  have e: "st_el (branch L_secondary_start (demo_core 0x80000001)) \<in> {1, 2, 3}" "unat (core_id (demo_core 0x80000001)) < NCPUS"
    "L_secondary_start \<in> {L_start, L_secondary_start}"
    using demo_core_id(3) by (simp_all add: demo_core_id NCPUS_def)
  from secondary_start_runs [OF branch_entry(2) e(1), of "link_image demo_sections" demo_ctor] obtain n s' where
    s: "run_start (link_image demo_sections) demo_ctor n (branch L_secondary_start (demo_core 0x80000001)) = Some s'"
      "st_pc s' = In L_secondary_kern_main" by (auto simp: reaches_def)
  have lists: "list_ok (mm_reserved_regions virt_map)" "list_ok (mm_ram_regions virt_map)" "list_room (mm_reserved_regions virt_map) = 15"
    using empty_list_ok by (simp_all add: virt_map_def list_ok_def one_region_def regions_def no_wrap_def list_room_def empty_list_def)
  have rest: "fdt_size [(0x80000000, 0x1000)] demo_events [97, 0] < 2 ^ 32" "(4096 :: u64) \<noteq> 0" "unat (4096 :: u64) + 2 ^ 33 + 16 < 2 ^ 64"
    "\<forall>r\<in>set [(0x80000000, 0x1000)]. no_wrap (fst r) (snd r)"
    "length [(0x80000000 :: u64, 0x1000 :: u64)] + 3 \<le> list_room (mm_reserved_regions virt_map)"
    using lists(3) by (simp_all add: demo_fdt_size no_wrap_def)
  have "of_nat (lm_start (link_image demo_sections)) = (0x40080000 :: u64)" "of_nat (lm_stacks_top (link_image demo_sections)) = (0x400ce340 :: u64)"
    by (simp_all add: demo_linked)
  with start_memory_reserved [OF demo_image_fits demo_ctor_ok e(3) demo_core_id(3) e(2) s demo_fdt_at rest(1-3) lists(1,2) rest(4,5), where out = "(0, 0)"] s
  show ?thesis by auto
qed

end
